(* ===== verification/Lkv_Prelude.thy ===== *)
theory Lkv_Prelude
  imports Main "HOL-Library.Word"
begin

section \<open>Prelude: integers, results, little-endian fields and byte ranges\<close>

text \<open>
  What every component shares and no source file owns: the machine types, the checked and
  saturating operations of Rust's \<^verbatim>\<open>usize\<close> and \<^verbatim>\<open>u64\<close>, the result type with the \<^verbatim>\<open>?\<close> operator
  as \<open>and_then\<close>, state-passing with errors for code that mutates a store, little-endian
  codecs and byte ranges.

  Conventions. A byte is an \<open>8 word\<close>; a field that is stored in the file, a checksum, a
  fingerprint or a hash is a word of its width. A length, an index or a file position
  (\<^verbatim>\<open>usize\<close>, or \<^verbatim>\<open>u64\<close> used as a position) is a \<open>nat\<close>, and every \<^verbatim>\<open>checked_\<close> operation of the
  source keeps the limit \<open>2 ^ 64\<close> of a 64-bit target. A cast \<^verbatim>\<open>as u32\<close> is \<open>of_nat\<close>, which
  truncates as Rust does; \<^verbatim>\<open>as usize\<close> is \<open>unat\<close>.
\<close>

type_synonym u8 = "8 word"
type_synonym u32 = "32 word"
type_synonym u64 = "64 word"
type_synonym bytes = "u8 list"

named_theorems arith_defs \<open>unfolds the checked and saturating operations\<close>
named_theorems result_simps \<open>inversion of successful and failed computations\<close>
named_theorems codec \<open>round trips and lengths of the little-endian codecs\<close>

subsection \<open>Checked and saturating arithmetic\<close>

definition usize_limit :: nat where
  "usize_limit = 2 ^ 64"

definition checked_add :: "nat \<Rightarrow> nat \<Rightarrow> nat option" where
  [arith_defs]: "checked_add a b = (if a + b < usize_limit then Some (a + b) else None)"

definition checked_sub :: "nat \<Rightarrow> nat \<Rightarrow> nat option" where
  [arith_defs]: "checked_sub a b = (if b \<le> a then Some (a - b) else None)"

definition checked_mul :: "nat \<Rightarrow> nat \<Rightarrow> nat option" where
  [arith_defs]: "checked_mul a b = (if a * b < usize_limit then Some (a * b) else None)"

definition saturating_add :: "nat \<Rightarrow> nat \<Rightarrow> nat" where
  [arith_defs]: "saturating_add a b = min (a + b) (usize_limit - 1)"

definition saturating_sub :: "nat \<Rightarrow> nat \<Rightarrow> nat" where
  [arith_defs]: "saturating_sub a b = a - b"

definition div_ceil :: "nat \<Rightarrow> nat \<Rightarrow> nat" where
  "div_ceil a b = (if a mod b = 0 then a div b else Suc (a div b))"

fun bit_length :: "nat \<Rightarrow> nat" where
  "bit_length n = (if n = 0 then 0 else Suc (bit_length (n div 2)))"

fun count_ones :: "nat \<Rightarrow> nat" where
  "count_ones n = (if n = 0 then 0 else n mod 2 + count_ones (n div 2))"

declare bit_length.simps [simp del] count_ones.simps [simp del]

definition is_power_of_two :: "nat \<Rightarrow> bool" where
  "is_power_of_two n \<longleftrightarrow> count_ones n = 1"

definition checked_next_power_of_two :: "nat \<Rightarrow> nat option" where
  "checked_next_power_of_two n =
     (let p = (if n \<le> 1 then 1 else 2 ^ bit_length (n - 1))
      in if p < usize_limit then Some p else None)"

fun show_nat :: "nat \<Rightarrow> string" where
  "show_nat n =
     (if n < 10 then [char_of (48 + n)] else show_nat (n div 10) @ [char_of (48 + n mod 10)])"

declare show_nat.simps [simp del]

lemma checked_add_Some_iff [result_simps]:
  "checked_add a b = Some c \<longleftrightarrow> c = a + b \<and> a + b < usize_limit"
  by (auto simp: checked_add_def)

lemma checked_add_None_iff [result_simps]: "checked_add a b = None \<longleftrightarrow> usize_limit \<le> a + b"
  by (auto simp: checked_add_def)

lemma checked_sub_Some_iff [result_simps]: "checked_sub a b = Some c \<longleftrightarrow> b \<le> a \<and> c = a - b"
  by (auto simp: checked_sub_def)

lemma checked_mul_Some_iff [result_simps]:
  "checked_mul a b = Some c \<longleftrightarrow> c = a * b \<and> a * b < usize_limit"
  by (auto simp: checked_mul_def)

lemma bit_length_less: "n < 2 ^ bit_length n"
proof (induction n rule: bit_length.induct)
  case (1 n)
  show ?case
  proof (cases "n = 0")
    case True
    then show ?thesis by (simp add: bit_length.simps)
  next
    case False
    with 1 have "n div 2 < 2 ^ bit_length (n div 2)" by simp
    then have "n < 2 * 2 ^ bit_length (n div 2)" by linarith
    with False show ?thesis by (subst bit_length.simps) simp
  qed
qed

lemma bit_length_le: "n \<noteq> 0 \<Longrightarrow> 2 ^ (bit_length n - 1) \<le> n"
proof (induction n rule: bit_length.induct)
  case (1 n)
  show ?case
  proof (cases "n div 2 = 0")
    case True
    with "1.prems" have "n = 1" by linarith
    then show ?thesis by (simp add: bit_length.simps)
  next
    case False
    with 1 have "2 ^ (bit_length (n div 2) - 1) \<le> n div 2" by simp
    moreover from False have "bit_length (n div 2) \<noteq> 0" by (subst bit_length.simps) simp
    ultimately have "2 ^ bit_length (n div 2) \<le> n"
      by (metis One_nat_def Suc_pred bot_nat_0.not_eq_extremum less_eq_div_iff_mult_less_eq
          mult.commute power_Suc zero_less_numeral)
    with "1.prems" show ?thesis by (subst bit_length.simps) simp
  qed
qed

lemma count_ones_eq_0: "count_ones n = 0 \<longleftrightarrow> n = 0"
proof (induction n rule: count_ones.induct)
  case (1 n)
  then show ?case by (cases "n = 0") (subst count_ones.simps; force)+
qed

lemma count_ones_power: "count_ones (2 ^ k) = 1"
proof (induction k)
  case 0
  show ?case by (simp add: count_ones.simps)
next
  case (Suc k)
  then show ?case by (subst count_ones.simps) simp
qed

lemma is_power_of_two_iff: "is_power_of_two n \<longleftrightarrow> (\<exists>k. n = 2 ^ k)"
proof
  assume "\<exists>k. n = 2 ^ k"
  then show "is_power_of_two n" by (auto simp: is_power_of_two_def count_ones_power)
next
  assume "is_power_of_two n"
  then have "count_ones n = 1" by (simp add: is_power_of_two_def)
  then show "\<exists>k. n = 2 ^ k"
  proof (induction n rule: count_ones.induct)
    case (1 n)
    from "1.prems" have n: "n \<noteq> 0" using count_ones_eq_0 [of n] by simp
    with "1.prems" have c: "n mod 2 + count_ones (n div 2) = 1" by (subst (asm) count_ones.simps) simp
    show ?case
    proof (cases "n mod 2 = 0")
      case True
      with c n "1.IH" obtain k where "n div 2 = 2 ^ k" by auto
      with True have "n = 2 ^ Suc k" by auto
      then show ?thesis by blast
    next
      case False
      with c have "n div 2 = 0" by (simp add: count_ones_eq_0)
      with n have "n = 2 ^ 0" by auto
      then show ?thesis by blast
    qed
  qed
qed

lemma checked_next_power_of_two_SomeD:
  assumes "checked_next_power_of_two n = Some p"
  shows "\<exists>k. p = 2 ^ k" and "n \<le> p" and "p < usize_limit"
  using assms bit_length_less [of "n - 1"]
  by (auto simp: checked_next_power_of_two_def Let_def split: if_splits intro: exI [of _ 0])

lemma div_ceil_bounds:
  assumes "0 < b"
  shows "a \<le> b * div_ceil a b" and "b * div_ceil a b < a + b"
proof -
  have eq: "b * (a div b) + a mod b = a" by simp
  have lt: "a mod b < b" using assms by simp
  show "a \<le> b * div_ceil a b"
  proof (cases "a mod b = 0")
    case True
    with eq show ?thesis by (simp add: div_ceil_def)
  next
    case False
    from eq lt have "a \<le> b * (a div b) + b" by linarith
    with False show ?thesis by (simp add: div_ceil_def)
  qed
  show "b * div_ceil a b < a + b"
  proof (cases "a mod b = 0")
    case True
    with eq assms show ?thesis by (simp add: div_ceil_def)
  next
    case False
    have "b * Suc (a div b) = b + b * (a div b)" by simp
    moreover from False eq have "b * (a div b) < a" by linarith
    ultimately show ?thesis using False unfolding div_ceil_def by (metis add.commute add_less_cancel_left)
  qed
qed

subsection \<open>Results: the question-mark operator\<close>

text \<open>
  A fallible function returns \<open>'f + 'a\<close>, \<open>Inl\<close> the failure. \<open>and_then r f\<close> is
  \<^verbatim>\<open>let x = r?; f(x)\<close>: the first failure is the result.
\<close>

definition and_then :: "'f + 'a \<Rightarrow> ('a \<Rightarrow> 'f + 'b) \<Rightarrow> 'f + 'b" where
  "and_then r f = (case r of Inl e \<Rightarrow> Inl e | Inr x \<Rightarrow> f x)"

definition ok_or :: "'f \<Rightarrow> 'a option \<Rightarrow> 'f + 'a" where
  "ok_or e x = (case x of None \<Rightarrow> Inl e | Some y \<Rightarrow> Inr y)"

definition check :: "bool \<Rightarrow> 'f \<Rightarrow> 'f + unit" where
  "check b e = (if b then Inr () else Inl e)"

fun fold_res :: "('a \<Rightarrow> 's \<Rightarrow> 'f + 's) \<Rightarrow> 'a list \<Rightarrow> 's \<Rightarrow> 'f + 's" where
  "fold_res f [] s = Inr s"
| "fold_res f (x # xs) s = and_then (f x s) (fold_res f xs)"

fun map_res :: "('a \<Rightarrow> 'f + 'b) \<Rightarrow> 'a list \<Rightarrow> 'f + 'b list" where
  "map_res f [] = Inr []"
| "map_res f (x # xs) = and_then (f x) (\<lambda>y. and_then (map_res f xs) (\<lambda>ys. Inr (y # ys)))"

lemma and_then_simps [simp]:
  "and_then (Inl e) f = Inl e"
  "and_then (Inr x) f = f x"
  by (simp_all add: and_then_def)

lemma and_then_Inr_iff [result_simps]:
  "and_then r f = Inr y \<longleftrightarrow> (\<exists>x. r = Inr x \<and> f x = Inr y)"
  by (cases r) auto

lemma and_then_Inl_iff [result_simps]:
  "and_then r f = Inl e \<longleftrightarrow> r = Inl e \<or> (\<exists>x. r = Inr x \<and> f x = Inl e)"
  by (cases r) auto

lemma and_then_cong [fundef_cong]:
  "r = r' \<Longrightarrow> (\<And>x. r' = Inr x \<Longrightarrow> f x = g x) \<Longrightarrow> and_then r f = and_then r' g"
  by (cases r') auto

lemma ok_or_simps [simp]:
  "ok_or e None = Inl e"
  "ok_or e (Some x) = Inr x"
  by (simp_all add: ok_or_def)

lemma ok_or_Inr_iff [result_simps]: "ok_or e x = Inr y \<longleftrightarrow> x = Some y"
  by (cases x) auto

lemma ok_or_Inl_iff [result_simps]: "ok_or e x = Inl e' \<longleftrightarrow> x = None \<and> e' = e"
  by (cases x) auto

lemma check_Inr_iff [result_simps]: "check b e = Inr u \<longleftrightarrow> b"
  by (simp add: check_def)

lemma check_Inl_iff [result_simps]: "check b e = Inl e' \<longleftrightarrow> \<not> b \<and> e' = e"
  by (auto simp: check_def)

lemma check_True [simp]: "check True e = Inr ()"
  by (simp add: check_def)

lemma check_False [simp]: "check False e = Inl e"
  by (simp add: check_def)

lemma fold_res_append:
  "fold_res f (xs @ ys) s = and_then (fold_res f xs s) (fold_res f ys)"
proof (induction xs arbitrary: s)
  case Nil
  show ?case by simp
next
  case (Cons x xs)
  then show ?case by (cases "f x s") simp_all
qed

lemma map_res_Inr_map: "(\<And>x. x \<in> set xs \<Longrightarrow> f x = Inr (g x)) \<Longrightarrow> map_res f xs = Inr (map g xs)"
  by (induction xs) auto

subsection \<open>Code that mutates a store and may fail\<close>

text \<open>
  A method on \<^verbatim>\<open>&mut self\<close> that returns a \<^verbatim>\<open>Result\<close> leaves its effects behind when it fails, so
  the state is returned next to the result and not inside it.
\<close>

type_synonym ('s, 'f, 'a) io = "'s \<Rightarrow> ('f + 'a) \<times> 's"

definition io_return :: "'a \<Rightarrow> ('s, 'f, 'a) io" where
  "io_return x s = (Inr x, s)"

definition io_lift :: "'f + 'a \<Rightarrow> ('s, 'f, 'a) io" where
  "io_lift r s = (r, s)"

definition io_then :: "('s, 'f, 'a) io \<Rightarrow> ('a \<Rightarrow> ('s, 'f, 'b) io) \<Rightarrow> ('s, 'f, 'b) io" where
  "io_then m f s = (case m s of (Inl e, s') \<Rightarrow> (Inl e, s') | (Inr x, s') \<Rightarrow> f x s')"

lemma io_then_Inr_iff [result_simps]:
  "io_then m f s = (Inr y, s') \<longleftrightarrow> (\<exists>x t. m s = (Inr x, t) \<and> f x t = (Inr y, s'))"
  by (auto simp: io_then_def split: prod.splits sum.splits)

lemma io_return_apply [simp]: "io_return x s = (Inr x, s)"
  by (simp add: io_return_def)

lemma io_lift_apply [simp]: "io_lift r s = (r, s)"
  by (simp add: io_lift_def)

lemma io_then_cong [fundef_cong]:
  "m s = m' s' \<Longrightarrow> (\<And>x t. m' s' = (Inr x, t) \<Longrightarrow> f x t = g x t) \<Longrightarrow>
   io_then m f s = io_then m' g s'"
  by (simp add: io_then_def split: prod.splits sum.splits)

subsection \<open>Little-endian integers\<close>

fun le_bytes :: "nat \<Rightarrow> nat \<Rightarrow> bytes" where
  "le_bytes 0 n = []"
| "le_bytes (Suc k) n = of_nat n # le_bytes k (n div 256)"

fun le_nat :: "bytes \<Rightarrow> nat" where
  "le_nat [] = 0"
| "le_nat (b # bs) = unat b + 256 * le_nat bs"

definition u32_to_le_bytes :: "u32 \<Rightarrow> bytes" where
  "u32_to_le_bytes w = le_bytes 4 (unat w)"

definition u64_to_le_bytes :: "u64 \<Rightarrow> bytes" where
  "u64_to_le_bytes w = le_bytes 8 (unat w)"

definition u32_from_le_bytes :: "bytes \<Rightarrow> u32" where
  "u32_from_le_bytes bs = of_nat (le_nat bs)"

definition u64_from_le_bytes :: "bytes \<Rightarrow> u64" where
  "u64_from_le_bytes bs = of_nat (le_nat bs)"

lemma length_le_bytes [simp, codec]: "length (le_bytes k n) = k"
  by (induction k arbitrary: n) auto

lemma length_to_le_bytes [simp, codec]:
  "length (u32_to_le_bytes w) = 4"
  "length (u64_to_le_bytes v) = 8"
  by (simp_all add: u32_to_le_bytes_def u64_to_le_bytes_def)

lemma unat_word_less: "unat (w :: 'a::len word) < 2 ^ LENGTH('a)"
  by (rule unsigned_less)

lemma le_nat_less: "le_nat bs < 256 ^ length bs"
proof (induction bs)
  case Nil
  show ?case by simp
next
  case (Cons b bs)
  have "unat b < 256" using unat_word_less [of b] by simp
  with Cons show ?case by simp
qed

lemma unat_of_nat_u8: "unat (of_nat n :: u8) = n mod 256"
  by (simp add: unat_of_nat)

lemma le_nat_le_bytes [codec]: "le_nat (le_bytes k n) = n mod 256 ^ k"
proof (induction k arbitrary: n)
  case 0
  show ?case by simp
next
  case (Suc k)
  have "n mod (256 * 256 ^ k) = 256 * (n div 256 mod 256 ^ k) + n mod 256"
    by (simp add: mod_mult2_eq)
  with Suc show ?case by (simp add: unat_of_nat_u8)
qed

lemma le_bytes_le_nat [codec]: "length bs = k \<Longrightarrow> le_bytes k (le_nat bs) = bs"
proof (induction bs arbitrary: k)
  case Nil
  then show ?case by simp
next
  case (Cons b bs)
  have b: "unat b < 256" using unat_word_less [of b] by simp
  then have "(unat b + 256 * le_nat bs) div 256 = le_nat bs" by simp
  moreover have "(of_nat (unat b + 256 * le_nat bs) :: u8) = b"
    using b by (simp add: word_unat_eq_iff unat_of_nat_u8 del: of_nat_add of_nat_mult)
  ultimately show ?case using Cons by (cases k) simp_all
qed

lemma u32_from_to_le_bytes [simp, codec]: "u32_from_le_bytes (u32_to_le_bytes w) = w"
proof -
  have "unat w mod 256 ^ 4 = unat w" using unat_word_less [of w] by simp
  then show ?thesis by (simp add: u32_from_le_bytes_def u32_to_le_bytes_def le_nat_le_bytes)
qed

lemma u64_from_to_le_bytes [simp, codec]: "u64_from_le_bytes (u64_to_le_bytes w) = w"
proof -
  have "unat w mod 256 ^ 8 = unat w" using unat_word_less [of w] by simp
  then show ?thesis by (simp add: u64_from_le_bytes_def u64_to_le_bytes_def le_nat_le_bytes)
qed

lemma u32_to_from_le_bytes [codec]:
  assumes "length bs = 4"
  shows "u32_to_le_bytes (u32_from_le_bytes bs) = bs"
proof -
  have "unat (of_nat (le_nat bs) :: u32) = le_nat bs"
    using le_nat_less [of bs] assms by (simp add: unat_of_nat)
  with assms show ?thesis
    by (simp add: u32_from_le_bytes_def u32_to_le_bytes_def le_bytes_le_nat)
qed

lemma u32_to_le_bytes_inject [simp]: "u32_to_le_bytes v = u32_to_le_bytes w \<longleftrightarrow> v = w"
  by (metis u32_from_to_le_bytes)

lemma u64_to_le_bytes_inject [simp]: "u64_to_le_bytes v = u64_to_le_bytes w \<longleftrightarrow> v = w"
  by (metis u64_from_to_le_bytes)

lemma unat_u32_less: "unat (w :: u32) < 4294967296"
  using unat_word_less [of w] by simp

lemma unat_u64_less: "unat (w :: u64) < usize_limit"
  using unat_word_less [of w] by (simp add: usize_limit_def)

lemma unat_of_nat_u32: "n < 4294967296 \<Longrightarrow> unat (of_nat n :: u32) = n"
  by (simp add: unat_of_nat)

lemma unat_of_nat_u64: "n < usize_limit \<Longrightarrow> unat (of_nat n :: u64) = n"
  by (simp add: unat_of_nat usize_limit_def)

definition u32_try_from :: "nat \<Rightarrow> u32 option" where
  "u32_try_from n = (if n < 4294967296 then Some (of_nat n) else None)"

lemma u32_try_from_Some_iff [result_simps]:
  "u32_try_from n = Some w \<longleftrightarrow> n < 4294967296 \<and> w = of_nat n"
  by (auto simp: u32_try_from_def)

subsection \<open>Byte ranges\<close>

text \<open>\<open>range a b bs\<close> is Rust's \<^verbatim>\<open>bs[a..b]\<close> where it does not panic; \<open>get_range\<close> is \<^verbatim>\<open>bs.get(a..b)\<close>.\<close>

definition range_of :: "nat \<Rightarrow> nat \<Rightarrow> 'a list \<Rightarrow> 'a list" where
  "range_of a b xs = take (b - a) (drop a xs)"

definition get_range :: "'a list \<Rightarrow> nat \<Rightarrow> nat \<Rightarrow> 'a list option" where
  "get_range xs a b = (if a \<le> b \<and> b \<le> length xs then Some (range_of a b xs) else None)"

text \<open>What a seek to \<open>pos\<close> and a complete write of \<open>bs\<close> leave of a file: a gap reads as zero.\<close>

definition write_at :: "nat \<Rightarrow> bytes \<Rightarrow> bytes \<Rightarrow> bytes" where
  "write_at pos bs img =
     take pos img @ replicate (pos - length img) 0 @ bs @ drop (pos + length bs) img"

lemma get_range_Some_iff [result_simps]:
  "get_range xs a b = Some ys \<longleftrightarrow> a \<le> b \<and> b \<le> length xs \<and> ys = range_of a b xs"
  by (auto simp: get_range_def)

lemma get_range_None_iff [result_simps]:
  "get_range xs a b = None \<longleftrightarrow> \<not> (a \<le> b \<and> b \<le> length xs)"
  by (auto simp: get_range_def)

lemma length_range_of [simp]: "b \<le> length xs \<Longrightarrow> length (range_of a b xs) = b - a"
  by (simp add: range_of_def)

lemma range_of_append1 [simp]:
  "b \<le> length xs \<Longrightarrow> range_of a b (xs @ ys) = range_of a b xs"
  by (cases "a \<le> length xs") (simp_all add: range_of_def)

lemma range_of_append2:
  "length xs \<le> a \<Longrightarrow> range_of a b (xs @ ys) = range_of (a - length xs) (b - length xs) ys"
  by (cases "a \<le> b") (simp_all add: range_of_def)

lemma range_of_all [simp]: "range_of 0 (length xs) xs = xs"
  by (simp add: range_of_def)

lemma range_of_middle:
  "length xs = a \<Longrightarrow> b = a + length ys \<Longrightarrow> range_of a b (xs @ ys @ zs) = ys"
  by (simp add: range_of_def)

lemma range_of_range_of:
  "d \<le> b - a \<Longrightarrow> range_of c d (range_of a b xs) = range_of (a + c) (a + d) xs"
  by (simp add: range_of_def drop_take min_def add.commute)

lemma nth_range_of: "a + i < b \<Longrightarrow> b \<le> length xs \<Longrightarrow> range_of a b xs ! i = xs ! (a + i)"
  by (simp add: range_of_def)

lemma update_range_of:
  "i < a \<or> b \<le> i \<Longrightarrow> range_of a b (xs[i := x]) = range_of a b xs"
  by (cases "i < a"; cases "a \<le> b") (auto simp: range_of_def drop_update_swap)

lemma update_in_range_of:
  "a \<le> i \<Longrightarrow> i < b \<Longrightarrow> range_of a b (xs[i := x]) = (range_of a b xs)[i - a := x]"
  by (simp add: range_of_def drop_update_swap take_update_swap)

lemma length_write_at [simp]:
  "length (write_at pos bs img) = max (length img) (pos + length bs)"
  by (auto simp: write_at_def)

lemma write_at_end: "pos = length img \<Longrightarrow> write_at pos bs img = img @ bs"
  by (simp add: write_at_def)

lemma range_of_write_at_same: "range_of pos (pos + length bs) (write_at pos bs img) = bs"
proof -
  have "length (take pos img @ replicate (pos - length img) (0 :: u8)) = pos" by simp
  from range_of_middle [OF this refl] show ?thesis by (simp add: write_at_def)
qed

lemma take_write_at: "n \<le> pos \<Longrightarrow> n \<le> length img \<Longrightarrow> take n (write_at pos bs img) = take n img"
  by (simp add: write_at_def min_def)

lemma drop_write_at: "pos + length bs \<le> n \<Longrightarrow> drop n (write_at pos bs img) = drop n img"
proof -
  assume le: "pos + length bs \<le> n"
  have "length (take pos img @ replicate (pos - length img) (0 :: u8) @ bs) = pos + length bs" by simp
  then have "drop n (write_at pos bs img) = drop (n - (pos + length bs)) (drop (pos + length bs) img)"
    using le by (simp add: write_at_def)
  with le show ?thesis by simp
qed

end
