(* ===== verification/Lkv_Error.thy ===== *)
theory Lkv_Error
  imports Lkv_Prelude
begin

section \<open>Errors, results and options (error.rs, options.rs, format/mod.rs)\<close>

text \<open>
  The error values of \<^verbatim>\<open>lkv/src/error.rs\<close> with the conversion from \<^verbatim>\<open>io::Error\<close>, the options of
  \<^verbatim>\<open>lkv/src/options.rs\<close>, and the field readers of \<^verbatim>\<open>lkv/src/format/mod.rs\<close>. A computation fails
  with an error value, with a panic (an index out of range, an \<^verbatim>\<open>expect\<close> on nothing), or by not
  returning at all; the three are the constructors of \<open>failure\<close>, so that "never panics" is a
  property one can state.
\<close>

subsection \<open>Error values\<close>

datatype error_kind =
    InvalidData | WouldBlock | UnsupportedKind | InvalidInput | AlreadyExists | NotFound
  | UnexpectedEof | OutOfMemory | WriteZero | PermissionDenied | Other

datatype io_error = IoError (io_kind: error_kind) (io_message: string)

datatype corruption_kind = Structure | MetadataChecksum | BlockChecksum | LogChecksum

record corruption =
  kind :: corruption_kind
  segment_offset :: "nat option"
  block_index :: "nat option"
  message :: string

datatype error =
    Corrupted corruption
  | DatabaseAlreadyOpen io_error
  | Unsupported io_error
  | InvalidArgument io_error
  | DatabaseFull io_error
  | MaintenanceRequired nat nat
  | Poisoned
  | Io io_error

fun kind_of :: "error \<Rightarrow> error_kind" where
  "kind_of (Corrupted c) = InvalidData"
| "kind_of (DatabaseAlreadyOpen e) = io_kind e"
| "kind_of (Unsupported e) = io_kind e"
| "kind_of (InvalidArgument e) = io_kind e"
| "kind_of (DatabaseFull e) = io_kind e"
| "kind_of (Io e) = io_kind e"
| "kind_of (MaintenanceRequired l a) = Other"
| "kind_of Poisoned = Other"

definition error_from :: "io_error \<Rightarrow> error" where
  "error_from e =
     (case io_kind e of
        InvalidData \<Rightarrow>
          Corrupted \<lparr>kind = Structure, segment_offset = None, block_index = None, message = io_message e\<rparr>
      | WouldBlock \<Rightarrow> DatabaseAlreadyOpen e
      | UnsupportedKind \<Rightarrow> Unsupported e
      | InvalidInput \<Rightarrow> InvalidArgument e
      | _ \<Rightarrow> Io e)"

definition from_io :: "error_kind \<Rightarrow> string \<Rightarrow> error" where
  "from_io k msg = error_from (IoError k msg)"

definition other :: "string \<Rightarrow> error" where
  "other msg = error_from (IoError Other msg)"

definition database_full :: "nat \<Rightarrow> nat \<Rightarrow> error" where
  "database_full lim required =
     DatabaseFull (IoError Other
       (''database size limit of '' @ show_nat lim @ '' bytes would be exceeded (requires ''
        @ show_nat required @ '' bytes)''))"

definition corrupted_block :: "nat \<Rightarrow> nat \<Rightarrow> error" where
  "corrupted_block seg_offset index =
     Corrupted \<lparr>kind = BlockChecksum, segment_offset = Some seg_offset, block_index = Some index,
       message = ''block checksum mismatch at segment offset '' @ show_nat seg_offset
         @ '' block '' @ show_nat index\<rparr>"

definition corrupted_metadata :: "string \<Rightarrow> error" where
  "corrupted_metadata msg =
     Corrupted \<lparr>kind = MetadataChecksum, segment_offset = None, block_index = None, message = msg\<rparr>"

definition corrupted_log :: "nat \<Rightarrow> string \<Rightarrow> error" where
  "corrupted_log offset msg =
     Corrupted \<lparr>kind = LogChecksum, segment_offset = Some offset, block_index = None, message = msg\<rparr>"

definition invalid_base :: "string \<Rightarrow> error" where
  "invalid_base msg = from_io InvalidData (''invalid base: '' @ msg)"

fun display :: "error \<Rightarrow> string" where
  "display (Corrupted c) = message c"
| "display (DatabaseAlreadyOpen e) = io_message e"
| "display (Unsupported e) = io_message e"
| "display (InvalidArgument e) = io_message e"
| "display (DatabaseFull e) = io_message e"
| "display (Io e) = io_message e"
| "display (MaintenanceRequired l a) =
     ''overlay memory usage of '' @ show_nat a @ '' bytes exceeds the '' @ show_nat l
     @ '' byte limit; compact before writing''"
| "display Poisoned =
     ''database is poisoned by a previous I/O failure; reopen it before continuing''"

fun error_source :: "error \<Rightarrow> io_error option" where
  "error_source (Corrupted c) = None"
| "error_source (DatabaseAlreadyOpen e) = Some e"
| "error_source (Unsupported e) = Some e"
| "error_source (InvalidArgument e) = Some e"
| "error_source (DatabaseFull e) = Some e"
| "error_source (Io e) = Some e"
| "error_source (MaintenanceRequired l a) = None"
| "error_source Poisoned = None"

subsection \<open>Results\<close>

datatype failure = Err error | Panic | Diverges

type_synonym 'a result = "failure + 'a"

definition index_range :: "'a list \<Rightarrow> nat \<Rightarrow> nat \<Rightarrow> 'a list result" where
  "index_range xs a b = ok_or Panic (get_range xs a b)"

definition u32_at :: "bytes \<Rightarrow> nat \<Rightarrow> u32 result" where
  "u32_at bs offset =
     and_then (index_range bs offset (offset + 4)) (\<lambda>field. Inr (u32_from_le_bytes field))"

definition u64_at :: "bytes \<Rightarrow> nat \<Rightarrow> u64 result" where
  "u64_at bs offset =
     and_then (index_range bs offset (offset + 8)) (\<lambda>field. Inr (u64_from_le_bytes field))"

text \<open>A computation that returns, or fails with an error value, has not panicked and has ended.\<close>

definition no_panic :: "'a result \<Rightarrow> bool" where
  "no_panic r \<longleftrightarrow> r \<noteq> Inl Panic \<and> r \<noteq> Inl Diverges"

subsection \<open>Options\<close>

datatype verification_mode = Full | OnRead

record database_options =
  verification :: verification_mode
  max_database_bytes :: nat
  overlay_memory_limit :: nat

definition default_options :: database_options where
  "default_options =
     \<lparr>verification = OnRead, max_database_bytes = 2 ^ 40, overlay_memory_limit = 64 * 1024 * 1024\<rparr>"

definition with_verification :: "verification_mode \<Rightarrow> database_options \<Rightarrow> database_options" where
  "with_verification v opts = opts\<lparr>verification := v\<rparr>"

definition with_max_database_bytes :: "nat \<Rightarrow> database_options \<Rightarrow> database_options" where
  "with_max_database_bytes n opts = opts\<lparr>max_database_bytes := n\<rparr>"

definition with_overlay_memory_limit :: "nat \<Rightarrow> database_options \<Rightarrow> database_options" where
  "with_overlay_memory_limit n opts = opts\<lparr>overlay_memory_limit := n\<rparr>"

subsection \<open>Lemmas\<close>

lemma no_panic_simps [simp]:
  "no_panic (Inr x)"
  "no_panic (Inl (Err e))"
  "\<not> no_panic (Inl Panic)"
  "\<not> no_panic (Inl Diverges)"
  by (simp_all add: no_panic_def)

lemma no_panic_and_then:
  "no_panic r \<Longrightarrow> (\<And>x. r = Inr x \<Longrightarrow> no_panic (f x)) \<Longrightarrow> no_panic (and_then r f)"
  by (cases r) (simp_all add: no_panic_def)

lemma no_panic_and_then_iff:
  "no_panic (and_then r f) \<longleftrightarrow> no_panic r \<and> (\<forall>x. r = Inr x \<longrightarrow> no_panic (f x))"
  by (cases r) (simp_all add: no_panic_def)

lemma no_panic_ok_or_Err [simp]: "no_panic (ok_or (Err e) x)"
  by (cases x) simp_all

lemma no_panic_check_Err [simp]: "no_panic (check b (Err e))"
  by (simp add: check_def)

lemma index_range_Inr_iff [result_simps]:
  "index_range xs a b = Inr ys \<longleftrightarrow> a \<le> b \<and> b \<le> length xs \<and> ys = range_of a b xs"
  by (auto simp: index_range_def result_simps)

lemma index_range_in [simp]:
  "a \<le> b \<Longrightarrow> b \<le> length xs \<Longrightarrow> index_range xs a b = Inr (range_of a b xs)"
  by (simp add: index_range_def get_range_def)

lemma u32_at_in: "offset + 4 \<le> length bs \<Longrightarrow>
    u32_at bs offset = Inr (u32_from_le_bytes (range_of offset (offset + 4) bs))"
  by (simp add: u32_at_def)

lemma u64_at_in: "offset + 8 \<le> length bs \<Longrightarrow>
    u64_at bs offset = Inr (u64_from_le_bytes (range_of offset (offset + 8) bs))"
  by (simp add: u64_at_def)

lemma u32_at_append:
  "length xs = offset \<Longrightarrow> u32_at (xs @ u32_to_le_bytes w @ ys) offset = Inr w"
  using range_of_middle [of xs offset "offset + 4" "u32_to_le_bytes w" ys] by (simp add: u32_at_in)

lemma u64_at_append:
  "length xs = offset \<Longrightarrow> u64_at (xs @ u64_to_le_bytes w @ ys) offset = Inr w"
  using range_of_middle [of xs offset "offset + 8" "u64_to_le_bytes w" ys] by (simp add: u64_at_in)

lemma u32_at_Inr_iff [result_simps]:
  "u32_at bs offset = Inr w \<longleftrightarrow>
     offset + 4 \<le> length bs \<and> w = u32_from_le_bytes (range_of offset (offset + 4) bs)"
  by (auto simp: u32_at_def result_simps)

lemma u64_at_Inr_iff [result_simps]:
  "u64_at bs offset = Inr w \<longleftrightarrow>
     offset + 8 \<le> length bs \<and> w = u64_from_le_bytes (range_of offset (offset + 8) bs)"
  by (auto simp: u64_at_def result_simps)

text \<open>The conversion from an I/O error keeps its kind and its message.\<close>

lemma kind_of_from_io [simp]: "kind_of (from_io k msg) = k"
  by (cases k) (simp_all add: from_io_def error_from_def)

lemma display_from_io [simp]: "display (from_io k msg) = msg"
  by (cases k) (simp_all add: from_io_def error_from_def)

lemma kind_of_corrupted [simp]:
  "kind_of (corrupted_log off msg) = InvalidData"
  "kind_of (corrupted_block s i) = InvalidData"
  "kind_of (corrupted_metadata msg) = InvalidData"
  "kind_of (invalid_base msg) = InvalidData"
  by (simp_all add: corrupted_log_def corrupted_block_def corrupted_metadata_def invalid_base_def)

end
