(* ===== verification/Lkv_Extern.thy ===== *)
theory Lkv_Extern
  imports Lkv_Error
begin

section \<open>The libraries the program calls\<close>

text \<open>
  The crates \<^verbatim>\<open>crc32c\<close> and \<^verbatim>\<open>xxhash-rust\<close> and the allocator are not part of the repository. The
  functions of theirs that the program calls are the fields of \<open>externs\<close>, and every definition
  that uses one takes the record as its first argument. The locales below name what the crates
  document; a property that needs it has the locale predicate as a hypothesis. Nothing is ever
  assumed of the hash or of the allocator: a key table works with any hash function, and
  \<^verbatim>\<open>try_reserve\<close> may refuse any request.

  The second half gives the interface its instance, a bit-by-bit CRC-32C with the Castagnoli
  polynomial (the checksum the crate computes), and proves the documented laws of it.
\<close>

record externs =
  crc32c :: "bytes \<Rightarrow> u32"
  crc32c_append :: "u32 \<Rightarrow> bytes \<Rightarrow> u32"
  crc32c_combine :: "u32 \<Rightarrow> u32 \<Rightarrow> nat \<Rightarrow> u32"
  xxh3_64 :: "bytes \<Rightarrow> u64"
  try_reserve :: "nat \<Rightarrow> bool"

locale crc32c_crate =
  fixes E :: externs
  assumes crc32c_append_0: "crc32c E data = crc32c_append E 0 data"
    and append_Nil: "crc32c_append E c [] = c"
    and append_append: "crc32c_append E (crc32c_append E c xs) ys = crc32c_append E c (xs @ ys)"
    and combine: "crc32c_combine E c (crc32c E data) (length data) = crc32c_append E c data"
begin

lemma foldl_append: "foldl (crc32c_append E) c parts = crc32c_append E c (concat parts)"
  by (induction parts arbitrary: c) (simp_all add: append_Nil append_append)

lemma crc32c_append_eq: "crc32c E (xs @ ys) = crc32c_append E (crc32c E xs) ys"
  by (simp add: crc32c_append_0 append_append)

end

text \<open>A checksum of 32 bits tells apart two inputs that differ in one byte.\<close>

locale crc32c_detects = crc32c_crate +
  assumes byte_change: "a \<noteq> b \<Longrightarrow> crc32c_append E c (xs @ a # ys) \<noteq> crc32c_append E c (xs @ b # ys)"
begin

lemma crc32c_byte_change: "a \<noteq> b \<Longrightarrow> crc32c E (xs @ a # ys) \<noteq> crc32c E (xs @ b # ys)"
  by (simp add: crc32c_append_0 byte_change)

lemma crc32c_update:
  assumes "i < length data" and "data ! i \<noteq> b"
  shows "crc32c_append E c (data[i := b]) \<noteq> crc32c_append E c data"
proof -
  from assms(1) have split: "data = take i data @ data ! i # drop (Suc i) data"
    by (simp add: id_take_nth_drop)
  have "data[i := b] = take i data @ b # drop (Suc i) data"
    using assms(1) by (simp add: upd_conv_take_nth_drop)
  with split assms(2) byte_change show ?thesis by metis
qed

end

subsection \<open>The Castagnoli checksum, bit by bit\<close>

unbundle bit_operations_syntax

definition crc_bit :: "u32 \<Rightarrow> u32" where
  "crc_bit s = (if bit s 0 then drop_bit 1 s XOR 0x82F63B78 else drop_bit 1 s)"

definition crc_byte :: "u32 \<Rightarrow> u8 \<Rightarrow> u32" where
  "crc_byte s b = (crc_bit ^^ 8) (s XOR ucast b)"

definition castagnoli_append :: "u32 \<Rightarrow> bytes \<Rightarrow> u32" where
  "castagnoli_append c bs = NOT (foldl crc_byte (NOT c) bs)"

definition castagnoli_combine :: "u32 \<Rightarrow> u32 \<Rightarrow> nat \<Rightarrow> u32" where
  "castagnoli_combine c1 c2 n = (crc_bit ^^ (8 * n)) c1 XOR c2"

text \<open>A key hash for the instance: any function will do.\<close>

definition sum_hash :: "bytes \<Rightarrow> u64" where
  "sum_hash bs = foldl (\<lambda>h b. h * 31 + ucast b) 4294967291 bs"

definition reference_externs :: externs where
  "reference_externs =
     \<lparr>crc32c = castagnoli_append 0, crc32c_append = castagnoli_append,
      crc32c_combine = castagnoli_combine, xxh3_64 = sum_hash, try_reserve = (\<lambda>n. True)\<rparr>"

lemma xor_left_cancel: "(a XOR b = a XOR c) \<longleftrightarrow> b = (c :: 'a::len word)"
proof
  assume "a XOR b = a XOR c"
  then have "(a XOR a) XOR b = (a XOR a) XOR c" by (simp only: xor.assoc)
  then show "b = c" by simp
qed simp

lemma xor_eq_0: "(a XOR b = 0) \<longleftrightarrow> a = (b :: 'a::len word)"
proof
  assume "a XOR b = 0"
  then have "a XOR b = a XOR a" by simp
  then show "a = b" by (simp only: xor_left_cancel)
qed simp

lemma crc_bit_xor: "crc_bit (x XOR y) = crc_bit x XOR crc_bit y"
  by (simp add: crc_bit_def drop_bit_xor ac_simps bit_xor_iff)

lemma crc_bit_0: "crc_bit 0 = 0"
  by (simp add: crc_bit_def)

lemma crc_bit_eq_0:
  assumes "crc_bit x = 0"
  shows "x = 0"
proof (cases "bit x 0")
  case True
  with assms have "drop_bit 1 x = 0x82F63B78"
    by (simp add: crc_bit_def xor_eq_0)
  then have "bit (drop_bit 1 x) 31 = bit (0x82F63B78 :: u32) 31" by simp
  then have "bit x 32" by (simp add: bit_drop_bit_eq)
  then have "32 < LENGTH(32)" by (rule bit_imp_le_length)
  then show ?thesis by simp
next
  case False
  with assms have "x div 2 = 0" by (simp add: crc_bit_def drop_bit_Suc)
  moreover from False have "x mod 2 = 0" by (simp add: bit_0 even_iff_mod_2_eq_zero)
  ultimately show ?thesis using div_mult_mod_eq [of x 2] by simp
qed

lemma crc_bits_xor: "(crc_bit ^^ n) (x XOR y) = (crc_bit ^^ n) x XOR (crc_bit ^^ n) y"
  by (induction n) (simp_all add: crc_bit_xor)

lemma crc_bits_inject: "(crc_bit ^^ n) x = (crc_bit ^^ n) y \<longleftrightarrow> x = y"
proof (induction n arbitrary: x y)
  case 0
  show ?case by simp
next
  case (Suc n)
  have "crc_bit a = crc_bit b \<longleftrightarrow> a = b" for a b
  proof
    assume "crc_bit a = crc_bit b"
    then have "crc_bit (a XOR b) = 0" by (simp add: crc_bit_xor)
    then have "a XOR b = 0" by (rule crc_bit_eq_0)
    then show "a = b" by (simp add: xor_eq_0)
  qed simp
  with Suc show ?case by simp
qed

lemma foldl_crc_byte_xor:
  "foldl crc_byte (s XOR t) bs = foldl crc_byte s bs XOR (crc_bit ^^ (8 * length bs)) t"
proof (induction bs arbitrary: s t)
  case Nil
  show ?case by simp
next
  case (Cons b bs)
  have "crc_byte (s XOR t) b = crc_byte s b XOR (crc_bit ^^ 8) t"
    by (simp only: crc_byte_def crc_bits_xor xor.assoc xor.commute [of "(crc_bit ^^ 8) t" "(crc_bit ^^ 8) (ucast b)"])
  moreover have "(crc_bit ^^ (8 * length bs)) ((crc_bit ^^ 8) t) = (crc_bit ^^ (8 * length (b # bs))) t"
    by (simp only: length_Cons mult_Suc_right add.commute [of 8] funpow_add comp_apply)
  ultimately show ?case using Cons by simp
qed

lemma foldl_crc_byte_inject: "foldl crc_byte s bs = foldl crc_byte t bs \<longleftrightarrow> s = t"
proof (induction bs arbitrary: s t)
  case Nil
  show ?case by simp
next
  case (Cons b bs)
  have "crc_byte s b = crc_byte t b \<longleftrightarrow> s = t"
    unfolding crc_byte_def crc_bits_inject by (simp add: xor_left_cancel xor.commute [of _ "ucast b"])
  with Cons show ?case by simp
qed

lemma ucast_u8_inject: "((ucast a :: u32) = ucast b) \<longleftrightarrow> a = (b :: u8)"
proof -
  have "unat (ucast w :: u32) = unat w" for w :: u8
    using unat_word_less [of w] by (simp add: unsigned_ucast_eq take_bit_nat_eq_self)
  then have "unat a = unat b" if "(ucast a :: u32) = ucast b" using that by metis
  then show ?thesis using word_unat_eq_iff [of a b] by auto
qed

lemma crc_byte_inject: "crc_byte s a = crc_byte s b \<longleftrightarrow> a = b"
proof -
  have "(s XOR ucast a = s XOR ucast b) \<longleftrightarrow> (ucast a :: u32) = ucast b"
    by (rule xor_left_cancel)
  also have "\<dots> \<longleftrightarrow> a = b" by (rule ucast_u8_inject)
  finally show ?thesis by (simp add: crc_byte_def crc_bits_inject)
qed

interpretation reference: crc32c_detects reference_externs
proof unfold_locales
  fix data xs ys :: bytes and c :: u32 and a b :: u8
  show "crc32c reference_externs data = crc32c_append reference_externs 0 data"
    by (simp add: reference_externs_def)
  show "crc32c_append reference_externs c [] = c"
    by (simp add: reference_externs_def castagnoli_append_def)
  show "crc32c_append reference_externs (crc32c_append reference_externs c xs) ys =
      crc32c_append reference_externs c (xs @ ys)"
    by (simp add: reference_externs_def castagnoli_append_def)
  have "NOT c = NOT 0 XOR c" by simp
  then have "foldl crc_byte (NOT c) data = foldl crc_byte (NOT 0) data XOR (crc_bit ^^ (8 * length data)) c"
    by (metis foldl_crc_byte_xor)
  then show "crc32c_combine reference_externs c (crc32c reference_externs data) (length data) =
      crc32c_append reference_externs c data"
    by (simp add: reference_externs_def castagnoli_append_def castagnoli_combine_def ac_simps)
  assume "a \<noteq> b"
  then show "crc32c_append reference_externs c (xs @ a # ys) \<noteq> crc32c_append reference_externs c (xs @ b # ys)"
    by (simp add: reference_externs_def castagnoli_append_def foldl_crc_byte_inject crc_byte_inject)
qed

end
