(* ===== verification/Lkv_Store.thy ===== *)
theory Lkv_Store
  imports Lkv_Extern
begin

section \<open>Stores: files with faults, and the interface of a seekable store\<close>

text \<open>
  The format writers are generic over \<^verbatim>\<open>Read + Write + Seek\<close>. \<open>store_ops\<close> is that trait bound as a
  record of operations over a state \<open>'s\<close>; \<open>seek_start\<close> and \<open>seek_end\<close> are \<^verbatim>\<open>seek\<close> with
  \<^verbatim>\<open>SeekFrom::Start(n)\<close> and \<^verbatim>\<open>SeekFrom::End(0)\<close>, \<open>read_exact\<close> and \<open>write_all\<close> the provided
  methods of the standard library. A \<^verbatim>\<open>BufWriter\<close> passes its bytes on in order and all of them by the
  time of its \<^verbatim>\<open>flush\<close>, so a buffered sequence of writes is one \<open>write_all\<close> of the concatenation.

  A file is its contents, a position and a plan of faults: each call takes the next entry of the
  plan and fails if that is a fault, a write after a part of its bytes. With the empty plan no
  call fails. The locale \<open>store\<close> states what the writers rely on; it is interpreted here for
  files, and for the in-memory stores in their theories.
\<close>

subsection \<open>The trait\<close>

record 's store_ops =
  seek_start :: "nat \<Rightarrow> ('s, io_error, nat) io"
  seek_end :: "('s, io_error, nat) io"
  read_exact :: "nat \<Rightarrow> ('s, io_error, bytes) io"
  write_all :: "bytes \<Rightarrow> ('s, io_error, unit) io"

text \<open>The conversion a \<^verbatim>\<open>?\<close> applies to an I/O error.\<close>

definition question :: "('s, io_error, 'a) io \<Rightarrow> ('s, failure, 'a) io" where
  "question m s = (case m s of (Inl e, s') \<Rightarrow> (Inl (Err (error_from e)), s') | (Inr x, s') \<Rightarrow> (Inr x, s'))"

lemma question_Inr [simp]: "m s = (Inr x, s') \<Longrightarrow> question m s = (Inr x, s')"
  by (simp add: question_def)

lemma question_Inl [simp]: "m s = (Inl e, s') \<Longrightarrow> question m s = (Inl (Err (error_from e)), s')"
  by (simp add: question_def)

lemma io_then_Inr [simp]: "m s = (Inr x, s') \<Longrightarrow> io_then m f s = f x s'"
  by (simp add: io_then_def)

lemma io_then_Inl [simp]: "m s = (Inl e, s') \<Longrightarrow> io_then m f s = (Inl e, s')"
  by (simp add: io_then_def)

subsection \<open>Files\<close>

datatype fault = Fault (fault_written: nat) (fault_error: io_error)

record disk_file =
  contents :: bytes
  file_position :: nat
  plan :: "fault option list"

definition next_fault :: "disk_file \<Rightarrow> fault option \<times> disk_file" where
  "next_fault f = (case plan f of [] \<Rightarrow> (None, f) | x # xs \<Rightarrow> (x, f\<lparr>plan := xs\<rparr>))"

text \<open>A call that has no effect when it fails.\<close>

definition file_call :: "(disk_file \<Rightarrow> (io_error + 'a) \<times> disk_file) \<Rightarrow> (disk_file, io_error, 'a) io" where
  "file_call m f = (case next_fault f of (Some e, f') \<Rightarrow> (Inl (fault_error e), f') | (None, f') \<Rightarrow> m f')"

definition file_seek_start :: "nat \<Rightarrow> (disk_file, io_error, nat) io" where
  "file_seek_start n = file_call (\<lambda>f. (Inr n, f\<lparr>file_position := n\<rparr>))"

definition file_seek_end :: "(disk_file, io_error, nat) io" where
  "file_seek_end = file_call (\<lambda>f. (Inr (length (contents f)), f\<lparr>file_position := length (contents f)\<rparr>))"

definition unexpected_eof :: io_error where
  "unexpected_eof = IoError UnexpectedEof ''failed to fill whole buffer''"

definition file_read_exact :: "nat \<Rightarrow> (disk_file, io_error, bytes) io" where
  "file_read_exact n = file_call (\<lambda>f.
     let p = file_position f in
     if n \<le> length (contents f) - p \<and> p \<le> length (contents f) \<or> n = 0
     then (Inr (range_of p (p + n) (contents f)), f\<lparr>file_position := p + n\<rparr>)
     else (Inl unexpected_eof, f\<lparr>file_position := max p (length (contents f))\<rparr>))"

definition file_put :: "bytes \<Rightarrow> disk_file \<Rightarrow> disk_file" where
  "file_put bs f =
     (if bs = [] then f
      else f\<lparr>contents := write_at (file_position f) bs (contents f),
             file_position := file_position f + length bs\<rparr>)"

definition file_write_all :: "bytes \<Rightarrow> (disk_file, io_error, unit) io" where
  "file_write_all bs f =
     (if bs = [] then (Inr (), f)
      else case next_fault f of
        (Some e, f') \<Rightarrow> (Inl (fault_error e), file_put (take (fault_written e) bs) f')
      | (None, f') \<Rightarrow> (Inr (), file_put bs f'))"

definition file_len :: "(disk_file, io_error, nat) io" where
  "file_len = file_call (\<lambda>f. (Inr (length (contents f)), f))"

definition file_set_len :: "nat \<Rightarrow> (disk_file, io_error, unit) io" where
  "file_set_len n = file_call (\<lambda>f.
     (Inr (), f\<lparr>contents := take n (contents f) @ replicate (n - length (contents f)) 0\<rparr>))"

definition file_sync :: "(disk_file, io_error, unit) io" where
  "file_sync = file_call (\<lambda>f. (Inr (), f))"

text \<open>A mapping is a snapshot of a range that the program never writes again while it is mapped.\<close>

definition file_mmap :: "nat \<Rightarrow> nat \<Rightarrow> (disk_file, io_error, bytes) io" where
  "file_mmap offset len = file_call (\<lambda>f. (Inr (range_of offset (offset + len) (contents f)), f))"

definition file_ops :: "disk_file store_ops" where
  "file_ops = \<lparr>seek_start = file_seek_start, seek_end = file_seek_end,
     read_exact = file_read_exact, write_all = file_write_all\<rparr>"

subsection \<open>What the writers rely on\<close>

text \<open>
  \<open>image\<close> is what a reader of the whole store sees, \<open>position\<close> the cursor. \<open>quiet\<close> says that no
  call is going to fail by a fault, \<open>seek_ok\<close> and \<open>write_ok\<close> which positions and ranges the
  store accepts: a detached buffer refuses what lies before its origin.
\<close>

locale store =
  fixes ops :: "'s store_ops"
    and image :: "'s \<Rightarrow> bytes"
    and position :: "'s \<Rightarrow> nat"
    and quiet :: "'s \<Rightarrow> bool"
    and seek_ok :: "'s \<Rightarrow> nat \<Rightarrow> bool"
    and write_ok :: "'s \<Rightarrow> nat \<Rightarrow> nat \<Rightarrow> bool"
  assumes seek_law: "quiet s \<Longrightarrow> seek_ok s n \<Longrightarrow>
      \<exists>s'. seek_start ops n s = (Inr n, s') \<and> image s' = image s \<and> position s' = n \<and> quiet s'
        \<and> seek_ok s' = seek_ok s \<and> write_ok s' = write_ok s"
    and read_law: "quiet s \<Longrightarrow> position s + n \<le> length (image s) \<Longrightarrow>
      \<exists>s'. read_exact ops n s = (Inr (range_of (position s) (position s + n) (image s)), s')
        \<and> image s' = image s \<and> position s' = position s + n \<and> quiet s'
        \<and> seek_ok s' = seek_ok s \<and> write_ok s' = write_ok s"
    and eof_law: "quiet s \<Longrightarrow> length (image s) < position s + n \<Longrightarrow> 0 < n \<Longrightarrow>
      \<exists>e s'. read_exact ops n s = (Inl e, s') \<and> io_kind e = UnexpectedEof
        \<and> image s' = image s \<and> quiet s' \<and> seek_ok s' = seek_ok s \<and> write_ok s' = write_ok s"
    and write_Nil_law: "write_all ops [] s = (Inr (), s)"
    and write_law: "quiet s \<Longrightarrow> bs \<noteq> [] \<Longrightarrow> write_ok s (position s) (length bs) \<Longrightarrow>
      \<exists>s'. write_all ops bs s = (Inr (), s') \<and> image s' = write_at (position s) bs (image s)
        \<and> position s' = position s + length bs \<and> quiet s'"

text \<open>A store in which every range from an origin on may be written, again and again.\<close>

locale linear_store = store +
  fixes origin :: nat
  assumes seek_ok: "origin \<le> n \<Longrightarrow> n < usize_limit \<Longrightarrow> seek_ok s n"
    and write_ok: "origin \<le> p \<Longrightarrow> write_ok s p n"

definition file_quiet :: "disk_file \<Rightarrow> bool" where
  "file_quiet f \<longleftrightarrow> set (plan f) \<subseteq> {None}"

lemma next_fault_quiet:
  "file_quiet f \<Longrightarrow> \<exists>rest. next_fault f = (None, f\<lparr>plan := rest\<rparr>) \<and> file_quiet (f\<lparr>plan := rest\<rparr>)"
  by (cases "plan f") (auto simp: next_fault_def file_quiet_def intro: exI [of _ "[]"])

lemma file_call_quiet:
  assumes "file_quiet f"
  obtains rest where "file_call m f = m (f\<lparr>plan := rest\<rparr>)" and "file_quiet (f\<lparr>plan := rest\<rparr>)"
  using next_fault_quiet [OF assms] by (auto simp: file_call_def)

lemma file_quiet_update [simp]:
  "file_quiet (f\<lparr>contents := c\<rparr>) = file_quiet f"
  "file_quiet (f\<lparr>file_position := p\<rparr>) = file_quiet f"
  by (simp_all add: file_quiet_def)

interpretation disk: linear_store file_ops contents file_position file_quiet "\<lambda>f n. True" "\<lambda>f p n. True" 0
proof unfold_locales
  fix s :: disk_file and n :: nat and bs :: bytes
  assume "file_quiet s"
  from next_fault_quiet [OF this] obtain rest where
    quiet: "next_fault s = (None, s\<lparr>plan := rest\<rparr>)" "file_quiet (s\<lparr>plan := rest\<rparr>)" by blast
  show "\<exists>s'. seek_start file_ops n s = (Inr n, s') \<and> contents s' = contents s \<and> file_position s' = n
      \<and> file_quiet s' \<and> (\<lambda>n. True) = (\<lambda>n. True) \<and> (\<lambda>p n. True) = (\<lambda>p n. True)"
    using quiet by (simp add: file_ops_def file_seek_start_def file_call_def)
  show "\<exists>s'. read_exact file_ops n s =
        (Inr (range_of (file_position s) (file_position s + n) (contents s)), s')
      \<and> contents s' = contents s \<and> file_position s' = file_position s + n
      \<and> file_quiet s' \<and> (\<lambda>n. True) = (\<lambda>n. True) \<and> (\<lambda>p n. True) = (\<lambda>p n. True)"
    if "file_position s + n \<le> length (contents s)"
    using that quiet by (auto simp: file_ops_def file_read_exact_def file_call_def Let_def)
  show "\<exists>e s'. read_exact file_ops n s = (Inl e, s') \<and> io_kind e = UnexpectedEof
      \<and> contents s' = contents s \<and> file_quiet s' \<and> (\<lambda>n. True) = (\<lambda>n. True) \<and> (\<lambda>p n. True) = (\<lambda>p n. True)"
    if "length (contents s) < file_position s + n" "0 < n"
    using that quiet by (auto simp: file_ops_def file_read_exact_def file_call_def Let_def unexpected_eof_def)
  show "\<exists>s'. write_all file_ops bs s = (Inr (), s') \<and> contents s' = write_at (file_position s) bs (contents s)
      \<and> file_position s' = file_position s + length bs \<and> file_quiet s'" if "bs \<noteq> []"
    using that quiet by (simp add: file_ops_def file_write_all_def file_put_def)
qed (simp_all add: file_ops_def file_write_all_def)

end
