(* ===== verification/Lkv_Superblock.thy ===== *)
theory Lkv_Superblock
  imports Lkv_Store
begin

section \<open>Superblocks (format/superblock.rs)\<close>

text \<open>
  The two pages at the start of a database that name the active base and the start of its log. A
  generation is written to the page of its parity, and the reader takes the valid page with the
  higher generation, so the write of a new generation never touches the page of the current one.
  The writers and the reader are generic over the store; their lemmas are proved once for every
  \<open>store\<close>.
\<close>

subsection \<open>Constants and data\<close>

definition MAGIC :: bytes where
  "MAGIC = [0x4C, 0x4B, 0x56, 0, 0, 0, 0, 0]"

definition FORMAT_VERSION :: u32 where
  [simp]: "FORMAT_VERSION = 1"

definition SUPERBLOCK_SIZE :: nat where
  [simp]: "SUPERBLOCK_SIZE = 4096"

definition HEADER_SIZE :: nat where
  [simp]: "HEADER_SIZE = 72"

definition DATA_START :: nat where
  [simp]: "DATA_START = 8192"

definition ENVELOPE_MIN_SIZE :: nat where
  [simp]: "ENVELOPE_MIN_SIZE = 28"

definition BASE_HEADER :: nat where
  [simp]: "BASE_HEADER = 24"

record superblock =
  generation :: u64
  base_offset :: u64
  base_size :: u64
  base_slots :: u64
  base_len :: u64
  log_start :: u64
  base_checksum :: u32

definition superblock_new :: "u64 \<Rightarrow> nat \<Rightarrow> nat \<Rightarrow> nat \<Rightarrow> nat \<Rightarrow> nat \<Rightarrow> u32 \<Rightarrow> superblock" where
  "superblock_new g off sz slots len start checksum =
     \<lparr>generation = g, base_offset = of_nat off, base_size = of_nat sz, base_slots = of_nat slots,
      base_len = of_nat len, log_start = of_nat start, base_checksum = checksum\<rparr>"

subsection \<open>Writing\<close>

definition superblock_fields :: "superblock \<Rightarrow> bytes" where
  "superblock_fields sb =
     MAGIC @ u32_to_le_bytes FORMAT_VERSION @ u32_to_le_bytes (of_nat HEADER_SIZE)
     @ u64_to_le_bytes (generation sb) @ u64_to_le_bytes (base_offset sb) @ u64_to_le_bytes (base_size sb)
     @ u64_to_le_bytes (base_slots sb) @ u64_to_le_bytes (base_len sb) @ u64_to_le_bytes (log_start sb)
     @ u32_to_le_bytes (base_checksum sb)"

definition encode_page :: "externs \<Rightarrow> superblock \<Rightarrow> bytes" where
  "encode_page E sb =
     superblock_fields sb @ u32_to_le_bytes (crc32c E (superblock_fields sb))
     @ replicate (SUPERBLOCK_SIZE - HEADER_SIZE) 0"

unbundle bit_operations_syntax

definition page_offset :: "u64 \<Rightarrow> nat" where
  "page_offset g = unat (g AND 1) * SUPERBLOCK_SIZE"

definition superblock_write :: "externs \<Rightarrow> 's store_ops \<Rightarrow> superblock \<Rightarrow> ('s, failure, unit) io" where
  "superblock_write E ops sb =
     io_then (question (seek_start ops (page_offset (generation sb)))) (\<lambda>_.
       question (write_all ops (encode_page E sb)))"

definition write_redundant :: "externs \<Rightarrow> 's store_ops \<Rightarrow> superblock \<Rightarrow> ('s, failure, unit) io" where
  "write_redundant E ops sb =
     io_then (question (seek_start ops (page_offset (generation sb + 1)))) (\<lambda>_.
       question (write_all ops (encode_page E sb)))"

subsection \<open>Reading\<close>

definition read_envelope :: "externs \<Rightarrow> bytes \<Rightarrow> (u32 \<times> nat) option result" where
  "read_envelope E page =
     and_then (index_range page 0 8) (\<lambda>magic.
     if magic \<noteq> MAGIC then Inr None else
     and_then (u32_at page 12) (\<lambda>field.
     let header_size = unat field in
     if \<not> (ENVELOPE_MIN_SIZE \<le> header_size \<and> header_size \<le> length page) then Inr None else
     let checksum_offset = header_size - 4 in
     and_then (u32_at page checksum_offset) (\<lambda>checksum.
     if checksum \<noteq> crc32c E (take checksum_offset page) then Inr None else
     and_then (u32_at page 8) (\<lambda>version. Inr (Some (version, header_size))))))"

definition decode_superblock :: "bytes \<Rightarrow> superblock result" where
  "decode_superblock page =
     and_then (u64_at page 16) (\<lambda>g.
     and_then (u64_at page 24) (\<lambda>off.
     and_then (u64_at page 32) (\<lambda>sz.
     and_then (u64_at page 40) (\<lambda>slots.
     and_then (u64_at page 48) (\<lambda>len.
     and_then (u64_at page 56) (\<lambda>start.
     and_then (u32_at page 64) (\<lambda>checksum.
     Inr \<lparr>generation = g, base_offset = off, base_size = sz, base_slots = slots, base_len = len,
       log_start = start, base_checksum = checksum\<rparr>)))))))"

definition superblock_in_range :: "nat \<Rightarrow> superblock \<Rightarrow> bool" where
  "superblock_in_range file_length sb \<longleftrightarrow>
     (case checked_add (unat (base_offset sb)) (unat (base_size sb)) of
        None \<Rightarrow> False
      | Some base_end \<Rightarrow>
          \<not> (unat (base_offset sb) < DATA_START \<or> unat (base_size sb) < BASE_HEADER
             \<or> base_end > file_length \<or> unat (log_start sb) < base_end \<or> unat (log_start sb) > file_length))"

text \<open>What one page says: nothing usable, another format version, or a superblock.\<close>

datatype verdict = Skip | OtherVersion u32 | Candidate superblock

definition page_verdict :: "externs \<Rightarrow> nat \<Rightarrow> bytes \<Rightarrow> verdict result" where
  "page_verdict E file_length page =
     and_then (read_envelope E page) (\<lambda>envelope.
     case envelope of
       None \<Rightarrow> Inr Skip
     | Some (version, header_size) \<Rightarrow>
         if version \<noteq> FORMAT_VERSION then Inr (OtherVersion version)
         else if header_size \<noteq> HEADER_SIZE then Inr Skip
         else and_then (decode_superblock page) (\<lambda>candidate.
           Inr (if superblock_in_range file_length candidate then Candidate candidate else Skip)))"

fun update_latest :: "verdict \<Rightarrow> superblock option \<times> u32 option \<Rightarrow> superblock option \<times> u32 option" where
  "update_latest Skip (latest, unsupported) = (latest, unsupported)"
| "update_latest (OtherVersion version) (latest, unsupported) = (latest, Some version)"
| "update_latest (Candidate candidate) (latest, unsupported) =
     ((case latest of
         None \<Rightarrow> Some candidate
       | Some current \<Rightarrow> if generation candidate > generation current then Some candidate else latest),
      unsupported)"

fun read_pages :: "externs \<Rightarrow> 's store_ops \<Rightarrow> nat \<Rightarrow> nat list \<Rightarrow> superblock option \<times> u32 option
    \<Rightarrow> ('s, failure, superblock option \<times> u32 option) io" where
  "read_pages E ops file_length [] found = io_return found"
| "read_pages E ops file_length (offset # offsets) found =
     io_then (question (seek_start ops offset)) (\<lambda>_ s.
       case read_exact ops SUPERBLOCK_SIZE s of
         (Inl e, s') \<Rightarrow>
           if io_kind e = UnexpectedEof then read_pages E ops file_length offsets found s'
           else (Inl (Err (error_from e)), s')
       | (Inr page, s') \<Rightarrow>
           io_then (io_lift (page_verdict E file_length page)) (\<lambda>v.
             read_pages E ops file_length offsets (update_latest v found)) s')"

fun latest_result :: "superblock option \<times> u32 option \<Rightarrow> superblock result" where
  "latest_result (latest, Some version) =
     Inl (Err (from_io UnsupportedKind (''unsupported database format version '' @ show_nat (unat version))))"
| "latest_result (Some latest, None) = Inr latest"
| "latest_result (None, None) = Inl (Err (from_io InvalidData ''no valid superblock''))"

definition read_latest_from :: "externs \<Rightarrow> 's store_ops \<Rightarrow> nat \<Rightarrow> ('s, failure, superblock) io" where
  "read_latest_from E ops file_length =
     io_then (read_pages E ops file_length [0, SUPERBLOCK_SIZE] (None, None)) (\<lambda>found. io_lift (latest_result found))"

subsection \<open>Encoding and decoding a page\<close>

lemma length_superblock_fields [simp]: "length (superblock_fields sb) = 68"
  by (simp add: superblock_fields_def MAGIC_def)

lemma length_encode_page [simp]: "length (encode_page E sb) = 4096"
  by (simp add: encode_page_def)

lemma encode_page_fields:
  fixes E sb
  defines "page \<equiv> encode_page E sb"
  shows "range_of 0 8 page = MAGIC" and "u32_at page 8 = Inr 1" and "u32_at page 12 = Inr 72"
    and "u64_at page 16 = Inr (generation sb)" and "u64_at page 24 = Inr (base_offset sb)"
    and "u64_at page 32 = Inr (base_size sb)" and "u64_at page 40 = Inr (base_slots sb)"
    and "u64_at page 48 = Inr (base_len sb)" and "u64_at page 56 = Inr (log_start sb)"
    and "u32_at page 64 = Inr (base_checksum sb)" and "u32_at page 68 = Inr (crc32c E (take 68 page))"
proof -
  let ?g = "u64_to_le_bytes (generation sb)" and ?o = "u64_to_le_bytes (base_offset sb)"
  let ?z = "u64_to_le_bytes (base_size sb)" and ?n = "u64_to_le_bytes (base_slots sb)"
  let ?l = "u64_to_le_bytes (base_len sb)" and ?s = "u64_to_le_bytes (log_start sb)"
  let ?c = "u32_to_le_bytes (base_checksum sb)" and ?x = "u32_to_le_bytes (crc32c E (superblock_fields sb))"
  let ?v = "u32_to_le_bytes 1" and ?h = "u32_to_le_bytes 72" and ?r = "replicate 4024 (0 :: u8)"
  have page: "page = MAGIC @ ?v @ ?h @ ?g @ ?o @ ?z @ ?n @ ?l @ ?s @ ?c @ ?x @ ?r"
    by (simp add: page_def encode_page_def superblock_fields_def)
  have magic [simp]: "length MAGIC = 8" by (simp add: MAGIC_def)
  show "range_of 0 8 page = MAGIC"
    using range_of_middle [of "[]" 0 8 MAGIC] by (simp add: page)
  show "u32_at page 8 = Inr 1" using u32_at_append [of MAGIC 8 1] by (simp add: page)
  show "u32_at page 12 = Inr 72" using u32_at_append [of "MAGIC @ ?v" 12 72] by (simp add: page)
  show "u64_at page 16 = Inr (generation sb)"
    using u64_at_append [of "MAGIC @ ?v @ ?h" 16] by (simp add: page)
  show "u64_at page 24 = Inr (base_offset sb)"
    using u64_at_append [of "MAGIC @ ?v @ ?h @ ?g" 24] by (simp add: page)
  show "u64_at page 32 = Inr (base_size sb)"
    using u64_at_append [of "MAGIC @ ?v @ ?h @ ?g @ ?o" 32] by (simp add: page)
  show "u64_at page 40 = Inr (base_slots sb)"
    using u64_at_append [of "MAGIC @ ?v @ ?h @ ?g @ ?o @ ?z" 40] by (simp add: page)
  show "u64_at page 48 = Inr (base_len sb)"
    using u64_at_append [of "MAGIC @ ?v @ ?h @ ?g @ ?o @ ?z @ ?n" 48] by (simp add: page)
  show "u64_at page 56 = Inr (log_start sb)"
    using u64_at_append [of "MAGIC @ ?v @ ?h @ ?g @ ?o @ ?z @ ?n @ ?l" 56] by (simp add: page)
  show "u32_at page 64 = Inr (base_checksum sb)"
    using u32_at_append [of "MAGIC @ ?v @ ?h @ ?g @ ?o @ ?z @ ?n @ ?l @ ?s" 64] by (simp add: page)
  have "take 68 page = superblock_fields sb" by (simp add: page_def encode_page_def)
  then show "u32_at page 68 = Inr (crc32c E (take 68 page))"
    using u32_at_append [of "superblock_fields sb" 68] by (simp add: page_def encode_page_def)
qed

lemma page_verdict_encode_page:
  "page_verdict E file_length (encode_page E sb) =
     Inr (if superblock_in_range file_length sb then Candidate sb else Skip)"
proof -
  have "read_envelope E (encode_page E sb) = Inr (Some (1, 72))"
    using encode_page_fields(1-3,11) [of E sb] by (simp add: read_envelope_def Let_def)
  moreover have "decode_superblock (encode_page E sb) = Inr sb"
    by (simp add: decode_superblock_def encode_page_fields)
  ultimately show ?thesis by (simp add: page_verdict_def)
qed

lemma page_verdict_no_panic:
  assumes "length page = 4096"
  shows "no_panic (page_verdict E file_length page)"
proof -
  have "no_panic (read_envelope E page)"
    using assms by (auto simp: read_envelope_def Let_def u32_at_in intro!: no_panic_and_then)
  moreover have "no_panic (decode_superblock page)"
    using assms by (simp add: decode_superblock_def u32_at_in u64_at_in)
  ultimately show ?thesis
    unfolding page_verdict_def by (auto intro!: no_panic_and_then split: option.split)
qed

subsection \<open>The latest superblock of an image\<close>

definition verdict_at :: "externs \<Rightarrow> nat \<Rightarrow> bytes \<Rightarrow> nat \<Rightarrow> verdict result" where
  "verdict_at E file_length img offset =
     (case get_range img offset (offset + 4096) of None \<Rightarrow> Inr Skip | Some page \<Rightarrow> page_verdict E file_length page)"

definition latest_of :: "externs \<Rightarrow> nat \<Rightarrow> bytes \<Rightarrow> superblock result" where
  "latest_of E file_length img =
     and_then (verdict_at E file_length img 0) (\<lambda>v0.
     and_then (verdict_at E file_length img 4096) (\<lambda>v1.
     latest_result (update_latest v1 (update_latest v0 (None, None)))))"

lemma verdict_at_no_panic: "no_panic (verdict_at E file_length img offset)"
  by (auto simp: verdict_at_def result_simps intro!: page_verdict_no_panic split: option.split)

lemma no_panic_latest_result [simp]: "no_panic (latest_result found)"
  by (cases found rule: latest_result.cases) simp_all

lemma latest_of_no_panic: "no_panic (latest_of E file_length img)"
  unfolding latest_of_def by (intro no_panic_and_then verdict_at_no_panic) simp

lemma verdict_at_write:
  "verdict_at E file_length (write_at offset (encode_page E sb) img) offset =
     Inr (if superblock_in_range file_length sb then Candidate sb else Skip)"
  using range_of_write_at_same [of offset "encode_page E sb" img]
  by (simp add: verdict_at_def get_range_def page_verdict_encode_page)

lemma range_of_write_at_before:
  "b \<le> pos \<Longrightarrow> b \<le> length img \<Longrightarrow> range_of a b (write_at pos bs img) = range_of a b img"
  by (cases "a \<le> b") (simp_all add: write_at_def range_of_def drop_take min_def)

lemma range_of_write_at_after:
  "pos + length bs \<le> a \<Longrightarrow> range_of a b (write_at pos bs img) = range_of a b img"
  by (simp add: range_of_def drop_write_at)

lemma verdict_at_other:
  assumes "8192 \<le> length img" and "{offset, off2} = {0, 4096}" and "length bs \<le> 4096"
  shows "verdict_at E file_length (write_at offset bs img) off2 = verdict_at E file_length img off2"
proof -
  have "range_of off2 (off2 + 4096) (write_at offset bs img) = range_of off2 (off2 + 4096) img"
    using assms by (auto simp: doubleton_eq_iff range_of_write_at_before range_of_write_at_after)
  then show ?thesis using assms by (auto simp: verdict_at_def get_range_def doubleton_eq_iff)
qed

lemma page_offset_cases: "page_offset g = 0 \<or> page_offset g = 4096"
proof -
  have "g AND 1 = g mod 2" by (simp add: and_one_eq)
  then have "unat (g AND 1) = unat g mod 2" by (simp add: unat_mod)
  then show ?thesis by (auto simp: page_offset_def)
qed

lemma page_offset_Suc: "{page_offset g, page_offset (g + 1)} = {0, 4096}"
proof -
  have "bit (g + 1) 0 \<longleftrightarrow> \<not> bit g 0" by (simp add: bit_0)
  then have "g AND 1 = 0 \<longleftrightarrow> (g + 1) AND 1 \<noteq> 0" by (simp add: and_one_eq bit_0 even_iff_mod_2_eq_zero)
  moreover have "page_offset h = (if h AND 1 = 0 then 0 else 4096)" for h
    using page_offset_cases [of h] by (auto simp: page_offset_def unat_eq_zero)
  ultimately show ?thesis by auto
qed

subsection \<open>Every store\<close>

context store
begin

lemma read_pages_image:
  assumes "quiet s" and "\<forall>offset \<in> set offsets. seek_ok s offset"
  shows "\<exists>s'. read_pages E ops file_length offsets found s =
      (fold_res (\<lambda>offset found. and_then (verdict_at E file_length (image s) offset)
          (\<lambda>v. Inr (update_latest v found))) offsets found, s')
    \<and> image s' = image s \<and> quiet s' \<and> seek_ok s' = seek_ok s \<and> write_ok s' = write_ok s"
  using assms
proof (induction offsets arbitrary: found s)
  case Nil
  then show ?case by simp
next
  case (Cons offset offsets)
  from Cons.prems seek_law obtain s1 where s1: "seek_start ops offset s = (Inr offset, s1)" "image s1 = image s"
    "position s1 = offset" "quiet s1" "seek_ok s1 = seek_ok s" "write_ok s1 = write_ok s" by fastforce
  show ?case
  proof (cases "offset + 4096 \<le> length (image s)")
    case False
    with s1 eof_law [of s1 4096] obtain e s2 where s2: "read_exact ops 4096 s1 = (Inl e, s2)"
      "io_kind e = UnexpectedEof" "image s2 = image s" "quiet s2" "seek_ok s2 = seek_ok s" "write_ok s2 = write_ok s" by auto
    from False have "verdict_at E file_length (image s) offset = Inr Skip" by (simp add: verdict_at_def get_range_def)
    with Cons.IH [of s2 found] Cons.prems s1 s2 show ?thesis by (cases found) auto
  next
    case True
    with s1 read_law [of s1 4096] obtain s2 where s2:
      "read_exact ops 4096 s1 = (Inr (range_of offset (offset + 4096) (image s)), s2)"
      "image s2 = image s" "quiet s2" "seek_ok s2 = seek_ok s" "write_ok s2 = write_ok s" by auto
    have verdict: "verdict_at E file_length (image s) offset =
        page_verdict E file_length (range_of offset (offset + 4096) (image s))"
      using True by (simp add: verdict_at_def get_range_def)
    show ?thesis
    proof (cases "verdict_at E file_length (image s) offset")
      case (Inl e)
      then have "page_verdict E file_length (range_of offset (offset + 4096) (image s)) = Inl e" by (simp add: verdict)
      with Inl s1 s2 show ?thesis by (simp add: io_then_def)
    next
      case (Inr v)
      then have "page_verdict E file_length (range_of offset (offset + 4096) (image s)) = Inr v" by (simp add: verdict)
      with Inr Cons.IH [of s2 "update_latest v found"] Cons.prems s1 s2 show ?thesis
        by (simp add: io_then_def [of "io_lift _"])
    qed
  qed
qed

lemma read_latest_image:
  assumes "quiet s" and "seek_ok s 0" and "seek_ok s 4096"
  shows "\<exists>s'. read_latest_from E ops file_length s = (latest_of E file_length (image s), s')
    \<and> image s' = image s \<and> quiet s' \<and> seek_ok s' = seek_ok s \<and> write_ok s' = write_ok s"
proof -
  from read_pages_image [OF assms(1), of "[0, 4096]" E file_length "(None, None)"] assms(2,3) obtain s' where
    s': "read_pages E ops file_length [0, 4096] (None, None) s =
      (fold_res (\<lambda>offset found. and_then (verdict_at E file_length (image s) offset)
          (\<lambda>v. Inr (update_latest v found))) [0, 4096] (None, None), s')"
    "image s' = image s" "quiet s'" "seek_ok s' = seek_ok s" "write_ok s' = write_ok s"
    by auto
  show ?thesis
  proof (cases "verdict_at E file_length (image s) 0")
    case (Inl e)
    with s' show ?thesis by (simp add: read_latest_from_def latest_of_def)
  next
    case (Inr v0)
    then show ?thesis using s'
      by (cases "verdict_at E file_length (image s) 4096") (simp_all add: read_latest_from_def latest_of_def)
  qed
qed

lemma write_page:
  assumes "quiet s" and "seek_ok s offset" and "write_ok s offset 4096"
  shows "\<exists>s'. io_then (question (seek_start ops offset)) (\<lambda>_. question (write_all ops (encode_page E sb))) s =
      (Inr (), s') \<and> image s' = write_at offset (encode_page E sb) (image s) \<and> quiet s'"
proof -
  from seek_law [OF assms(1,2)] obtain s1 where s1: "seek_start ops offset s = (Inr offset, s1)" "image s1 = image s"
    "position s1 = offset" "quiet s1" "write_ok s1 = write_ok s" by auto
  moreover have "encode_page E sb \<noteq> []" using length_encode_page [of E sb] by fastforce
  ultimately show ?thesis using write_law [of s1 "encode_page E sb"] assms(3) by auto
qed

end

subsection \<open>Which superblock is read\<close>

lemma latest_of_in_range:
  assumes "latest_of E file_length img = Inr sb"
  shows "superblock_in_range file_length sb"
proof -
  have one: "superblock_in_range file_length c"
    if "verdict_at E file_length img offset = Inr (Candidate c)" for offset c
    using that unfolding verdict_at_def page_verdict_def
    by (auto simp: result_simps split: option.splits if_splits)
  from assms show ?thesis
    unfolding latest_of_def and_then_Inr_iff
  proof (elim exE conjE)
    fix v0 v1
    assume "verdict_at E file_length img 0 = Inr v0" and "verdict_at E file_length img 4096 = Inr v1"
      and "latest_result (update_latest v1 (update_latest v0 (None, None))) = Inr sb"
    with one show ?thesis by (cases v0; cases v1) (auto split: if_splits)
  qed
qed

text \<open>
  The page of the other parity decides nothing as long as it is blank, rejected, or older.
\<close>

definition outranks :: "superblock \<Rightarrow> verdict \<Rightarrow> bool" where
  "outranks sb v \<longleftrightarrow> (case v of Skip \<Rightarrow> True | OtherVersion version \<Rightarrow> False | Candidate c \<Rightarrow> generation c < generation sb)"

lemma latest_of_outranks:
  assumes "{offset, off2} = {0, 4096}"
    and "verdict_at E file_length img offset = Inr (Candidate sb)"
    and "verdict_at E file_length img off2 = Inr v" and "outranks sb v"
  shows "latest_of E file_length img = Inr sb"
  using assms by (cases v) (auto simp: latest_of_def outranks_def doubleton_eq_iff)

lemma latest_of_same:
  assumes "{offset, off2} = {0, 4096}"
    and "verdict_at E file_length img offset = Inr (Candidate sb)"
    and "verdict_at E file_length img off2 = Inr (Candidate sb)"
  shows "latest_of E file_length img = Inr sb"
  using assms by (auto simp: latest_of_def doubleton_eq_iff)

lemma latest_of_write:
  assumes "8192 \<le> length img" and "superblock_in_range file_length sb"
    and "verdict_at E file_length img (page_offset (generation sb + 1)) = Inr v" and "outranks sb v"
  shows "latest_of E file_length (write_at (page_offset (generation sb)) (encode_page E sb) img) = Inr sb"
proof (rule latest_of_outranks)
  let ?img = "write_at (page_offset (generation sb)) (encode_page E sb) img"
  show "{page_offset (generation sb), page_offset (generation sb + 1)} = {0, 4096}" by (rule page_offset_Suc)
  show "verdict_at E file_length ?img (page_offset (generation sb)) = Inr (Candidate sb)"
    by (simp add: verdict_at_write assms(2))
  show "verdict_at E file_length ?img (page_offset (generation sb + 1)) = Inr v"
    using verdict_at_other [OF assms(1) page_offset_Suc, of "encode_page E sb"] assms(3) by simp
qed (rule assms(4))

subsection \<open>Properties\<close>

text \<open>
  C36. Opening never crashes on the superblock pages, whatever they hold. On every file the reader
  returns a superblock or fails with an error value, and leaves the contents alone. A superblock
  that it returns lies inside the file: the base starts after the two pages, the log starts after
  the base, and both end inside the file.
\<close>

theorem read_latest_safe:
  assumes "file_quiet f"
  shows "\<exists>r f'. read_latest_from E file_ops file_length f = (r, f') \<and> contents f' = contents f \<and> no_panic r
    \<and> (\<forall>sb. r = Inr sb \<longrightarrow>
        8192 \<le> unat (base_offset sb) \<and> unat (base_offset sb) + unat (base_size sb) \<le> unat (log_start sb)
        \<and> unat (log_start sb) \<le> file_length)"
proof -
  from disk.read_latest_image [OF assms, of E file_length] obtain f' where
    "read_latest_from E file_ops file_length f = (latest_of E file_length (contents f), f')" "contents f' = contents f"
    by auto
  moreover have "8192 \<le> unat (base_offset sb) \<and> unat (base_offset sb) + unat (base_size sb) \<le> unat (log_start sb)
        \<and> unat (log_start sb) \<le> file_length"
    if "latest_of E file_length (contents f) = Inr sb" for sb
    using latest_of_in_range [OF that] by (auto simp: superblock_in_range_def result_simps split: option.splits)
  ultimately show ?thesis using latest_of_no_panic by blast
qed

theorem read_latest_safe_witness:
  "\<exists>r f'. read_latest_from reference_externs file_ops 9000
      \<lparr>contents = replicate 9000 1, file_position = 3, plan = [None]\<rparr> = (r, f') \<and> no_panic r"
  using read_latest_safe [of "\<lparr>contents = replicate 9000 1, file_position = 3, plan = [None]\<rparr>" reference_externs 9000]
  by (auto simp: file_quiet_def)

text \<open>
  C27. Publishing a generation is a switch. Take a file whose page of the old generation holds the
  old superblock. Writing the next generation succeeds and the reader then returns the new one.
  If instead only the first bytes of the page arrive, the old page is untouched: as long as the
  half-written page does not pass as a superblock, the reader still returns the old one.
\<close>

theorem superblock_publish:
  assumes "file_quiet f" and "8192 \<le> length (contents f)"
    and old: "verdict_at E file_length (contents f) (page_offset (generation old)) = Inr (Candidate old)"
    and "generation new = generation old + 1" and "generation old < generation new"
    and "superblock_in_range file_length new"
  shows "(\<exists>f1 f2. superblock_write E file_ops new f = (Inr (), f1)
        \<and> read_latest_from E file_ops file_length f1 = (Inr new, f2))
    \<and> (\<forall>n. verdict_at E file_length
          (write_at (page_offset (generation new)) (take n (encode_page E new)) (contents f))
          (page_offset (generation new)) = Inr Skip \<longrightarrow>
        latest_of E file_length
          (write_at (page_offset (generation new)) (take n (encode_page E new)) (contents f)) = Inr old)"
proof
  let ?off = "page_offset (generation new)" and ?old = "page_offset (generation old)"
  have pages: "{?old, ?off} = {0, 4096}" using page_offset_Suc [of "generation old"] assms(4) by simp
  have flip: "page_offset (generation new + 1) = ?old"
    using page_offset_Suc [of "generation new"] pages by (auto simp: doubleton_eq_iff)
  obtain f1 where f1: "superblock_write E file_ops new f = (Inr (), f1)" "file_quiet f1"
    "contents f1 = write_at ?off (encode_page E new) (contents f)"
    using disk.write_page [OF assms(1), of ?off E new] by (auto simp: superblock_write_def)
  have "latest_of E file_length (contents f1) = Inr new"
    unfolding f1(3) by (rule latest_of_write) (use assms old flip in \<open>auto simp: outranks_def\<close>)
  with f1 disk.read_latest_image [OF f1(2), of E file_length]
  show "\<exists>f1 f2. superblock_write E file_ops new f = (Inr (), f1)
      \<and> read_latest_from E file_ops file_length f1 = (Inr new, f2)" by auto
  show "\<forall>n. verdict_at E file_length (write_at ?off (take n (encode_page E new)) (contents f)) ?off = Inr Skip \<longrightarrow>
      latest_of E file_length (write_at ?off (take n (encode_page E new)) (contents f)) = Inr old"
  proof (intro allI impI)
    fix n
    let ?img = "write_at ?off (take n (encode_page E new)) (contents f)"
    assume "verdict_at E file_length ?img ?off = Inr Skip"
    moreover have "verdict_at E file_length ?img ?old = Inr (Candidate old)"
      using verdict_at_other [OF assms(2), of ?off ?old "take n (encode_page E new)"] old pages
      by (simp add: insert_commute)
    ultimately show "latest_of E file_length ?img = Inr old"
      using latest_of_outranks [OF pages] by (simp add: outranks_def)
  qed
qed

definition sample_superblock :: "u64 \<Rightarrow> superblock" where
  "sample_superblock g = superblock_new g 8192 52 0 0 8244 7"

lemma sample_superblock_in_range: "superblock_in_range 9000 (sample_superblock g)"
  by (simp add: sample_superblock_def superblock_new_def superblock_in_range_def checked_add_def usize_limit_def)

theorem superblock_publish_witness:
  "\<exists>f1 f2. superblock_write reference_externs file_ops (sample_superblock 2)
      \<lparr>contents = write_at (page_offset 1) (encode_page reference_externs (sample_superblock 1)) (replicate 9000 0),
       file_position = 0, plan = []\<rparr> = (Inr (), f1)
    \<and> read_latest_from reference_externs file_ops 9000 f1 = (Inr (sample_superblock 2), f2)"
proof -
  let ?img = "write_at (page_offset 1) (encode_page reference_externs (sample_superblock 1)) (replicate 9000 0)"
  have "verdict_at reference_externs 9000 ?img (page_offset 1) = Inr (Candidate (sample_superblock 1))"
    by (simp add: verdict_at_write sample_superblock_in_range)
  moreover have "generation (sample_superblock g) = g" for g by (simp add: sample_superblock_def superblock_new_def)
  ultimately show ?thesis
    using superblock_publish [of "\<lparr>contents = ?img, file_position = 0, plan = []\<rparr>" reference_externs 9000
        "sample_superblock 1" "sample_superblock 2"] sample_superblock_in_range
    by (auto simp: file_quiet_def)
qed

text \<open>
  C28. After a compaction both pages name the same generation: writing the superblock to its own page
  and then to the other one leaves a file from which the reader returns that superblock, and it
  still does when either page is later lost.
\<close>

theorem write_redundant_survives:
  assumes "file_quiet f" and "8192 \<le> length (contents f)" and "superblock_in_range file_length sb"
  shows "\<exists>f1 f2. superblock_write E file_ops sb f = (Inr (), f1) \<and> write_redundant E file_ops sb f1 = (Inr (), f2)
    \<and> latest_of E file_length (contents f2) = Inr sb
    \<and> (\<forall>offset \<in> {0, 4096}. \<forall>page. length page = 4096 \<and> page_verdict E file_length page = Inr Skip \<longrightarrow>
        latest_of E file_length (write_at offset page (contents f2)) = Inr sb)"
proof -
  let ?a = "page_offset (generation sb)" and ?b = "page_offset (generation sb + 1)"
  note pages = page_offset_Suc [of "generation sb"]
  obtain f1 where f1: "superblock_write E file_ops sb f = (Inr (), f1)" "file_quiet f1"
    "contents f1 = write_at ?a (encode_page E sb) (contents f)"
    using disk.write_page [OF assms(1), of ?a E sb] by (auto simp: superblock_write_def)
  obtain f2 where f2: "write_redundant E file_ops sb f1 = (Inr (), f2)"
    "contents f2 = write_at ?b (encode_page E sb) (contents f1)"
    using disk.write_page [OF f1(2), of ?b E sb] by (auto simp: write_redundant_def)
  have len: "8192 \<le> length (contents f1)" "8192 \<le> length (contents f2)" using assms(2) f1(3) f2(2) by simp_all
  have v: "verdict_at E file_length (contents f2) ?a = Inr (Candidate sb)"
      "verdict_at E file_length (contents f2) ?b = Inr (Candidate sb)"
    using verdict_at_other [OF len(1), of ?b ?a "encode_page E sb"] pages assms(3)
    by (simp_all add: f1(3) f2(2) verdict_at_write insert_commute)
  have "latest_of E file_length (write_at offset page (contents f2)) = Inr sb"
    if "offset \<in> {0, 4096}" "length page = 4096" "page_verdict E file_length page = Inr Skip" for offset page
  proof -
    define off2 where "off2 = 4096 - offset"
    have off2: "{offset, off2} = {0, 4096 :: nat}" using that(1) by (auto simp: off2_def)
    then have "verdict_at E file_length (contents f2) off2 = Inr (Candidate sb)"
      using v pages by (auto simp: doubleton_eq_iff)
    then have "verdict_at E file_length (write_at offset page (contents f2)) off2 = Inr (Candidate sb)"
      using verdict_at_other [OF len(2) off2] that(2) by simp
    moreover have "verdict_at E file_length (write_at offset page (contents f2)) offset = Inr Skip"
      using range_of_write_at_same [of offset page "contents f2"] that
      by (simp add: verdict_at_def get_range_def)
    ultimately show ?thesis
      using latest_of_outranks [of off2 offset] off2 by (simp add: outranks_def insert_commute)
  qed
  then show ?thesis using f1(1) f2(1) latest_of_same [OF pages v] by blast
qed

theorem write_redundant_survives_witness:
  "\<exists>f1 f2. superblock_write reference_externs file_ops (sample_superblock 3)
      \<lparr>contents = replicate 9000 0, file_position = 0, plan = []\<rparr> = (Inr (), f1)
    \<and> write_redundant reference_externs file_ops (sample_superblock 3) f1 = (Inr (), f2)
    \<and> latest_of reference_externs 9000 (contents f2) = Inr (sample_superblock 3)"
  using write_redundant_survives [of "\<lparr>contents = replicate 9000 0, file_position = 0, plan = []\<rparr>" 9000
      "sample_superblock 3" reference_externs] sample_superblock_in_range
  by (auto simp: file_quiet_def)

end
