(* ===== verification/Lkv_Value.thy ===== *)
theory Lkv_Value
  imports Lkv_Extern "HOL-Library.AList"
begin

section \<open>Values, staged mutations and hash tables (the data types of database/state.rs)\<close>

text \<open>
  \<^verbatim>\<open>BaseBytes\<close>, \<^verbatim>\<open>ValueBytes\<close> and \<^verbatim>\<open>OverlayEntry\<close> with their sources' constructors. A mapping is the bytes
  it shows: the code never writes to a range that is mapped, so a mapping is a value.

  \<^verbatim>\<open>KeyMap<V>\<close> is the standard library's hash map with another hasher: an association list with
  distinct keys, in the order the map iterates. Every lemma holds for any such list, that is for
  any iteration order. The unordered table of \<^verbatim>\<open>hashbrown\<close> is, the same way, the list of its
  elements, each with the hash it was inserted under; \<open>table_find\<close> calls the caller's equality
  on the elements with the wanted hash only, and passes on a panic of it.
\<close>

subsection \<open>Byte holders\<close>

datatype base_bytes = Mapped bytes | Memory bytes nat nat

fun deref :: "base_bytes \<Rightarrow> bytes" where
  "deref (Mapped mapping) = mapping"
| "deref (Memory bs start end) = range_of start end bs"

datatype value_bytes = Owned bytes | MappedValue base_bytes nat nat

fun as_slice :: "value_bytes \<Rightarrow> bytes" where
  "as_slice (Owned value) = value"
| "as_slice (MappedValue bs start end) = range_of start end (deref bs)"

fun value_bytes_len :: "value_bytes \<Rightarrow> nat" where
  "value_bytes_len (Owned value) = length value"
| "value_bytes_len (MappedValue bs start end) = end - start"

definition MAPPED_VALUE_THRESHOLD :: nat where
  "MAPPED_VALUE_THRESHOLD = 1024 * 1024"

fun value_memory_charge :: "value_bytes \<Rightarrow> nat" where
  "value_memory_charge (Owned value) = length value"
| "value_memory_charge (MappedValue bs start end) =
     (if end - start < MAPPED_VALUE_THRESHOLD then end - start else 0)"

datatype overlay_entry = Put value_bytes | Delete

fun entry_value :: "overlay_entry \<Rightarrow> bytes option" where
  "entry_value (Put v) = Some (as_slice v)"
| "entry_value Delete = None"

fun overlay_entry_memory :: "bytes \<Rightarrow> overlay_entry \<Rightarrow> nat" where
  "overlay_entry_memory key (Put v) = length key + value_memory_charge v"
| "overlay_entry_memory key Delete = length key"

fun previous_value_memory :: "overlay_entry \<Rightarrow> nat" where
  "previous_value_memory (Put v) = value_memory_charge v"
| "previous_value_memory Delete = 0"

text \<open>A mapped value addresses bytes of its mapping; \<^verbatim>\<open>put_reserved\<close>, its only source, maps \<^verbatim>\<open>0..len\<close>.\<close>

fun value_ok :: "value_bytes \<Rightarrow> bool" where
  "value_ok (Owned value) = True"
| "value_ok (MappedValue bs start end) = (start \<le> end \<and> end \<le> length (deref bs))"

fun entry_ok :: "overlay_entry \<Rightarrow> bool" where
  "entry_ok (Put v) = value_ok v"
| "entry_ok Delete = True"

lemma length_as_slice [simp]: "value_ok v \<Longrightarrow> length (as_slice v) = value_bytes_len v"
  by (cases v) simp_all

subsection \<open>Key maps\<close>

type_synonym 'v keymap = "(bytes \<times> 'v) list"

definition keymap_get :: "'v keymap \<Rightarrow> bytes \<Rightarrow> 'v option" where
  "keymap_get m key = map_of m key"

definition keymap_insert :: "bytes \<Rightarrow> 'v \<Rightarrow> 'v keymap \<Rightarrow> 'v keymap" where
  "keymap_insert key v m = AList.update key v m"

definition keymap_remove :: "bytes \<Rightarrow> 'v keymap \<Rightarrow> 'v keymap" where
  "keymap_remove key m = AList.delete key m"

definition keymap_ok :: "'v keymap \<Rightarrow> bool" where
  "keymap_ok m \<longleftrightarrow> distinct (map fst m)"

definition staged_ok :: "overlay_entry keymap \<Rightarrow> bool" where
  "staged_ok staged \<longleftrightarrow> keymap_ok staged \<and> (\<forall>(key, entry) \<in> set staged. entry_ok entry)"

lemma keymap_get_insert [simp]:
  "keymap_get (keymap_insert key v m) = (keymap_get m)(key \<mapsto> v)"
  by (auto simp: keymap_get_def keymap_insert_def update_conv')

lemma keymap_get_remove [simp]:
  "keymap_get (keymap_remove key m) = (keymap_get m)(key := None)"
  by (auto simp: keymap_get_def keymap_remove_def delete_conv')

lemma keymap_get_Nil [simp]: "keymap_get [] key = None"
  by (simp add: keymap_get_def)

lemma keymap_ok_simps [simp]:
  "keymap_ok []"
  "keymap_ok m \<Longrightarrow> keymap_ok (keymap_insert key v m)"
  "keymap_ok m \<Longrightarrow> keymap_ok (keymap_remove key m)"
  by (simp_all add: keymap_ok_def keymap_insert_def keymap_remove_def distinct_update distinct_delete)

lemma set_keymap_insert: "set (keymap_insert key v m) \<subseteq> insert (key, v) (set m)"
  unfolding keymap_insert_def by (induction m) auto

lemma staged_ok_insert:
  assumes "staged_ok staged" and "entry_ok entry"
  shows "staged_ok (keymap_insert key entry staged)"
  using assms set_keymap_insert [of key entry staged] by (auto simp: staged_ok_def)

lemma staged_ok_Nil [simp]: "staged_ok []"
  by (simp add: staged_ok_def)

subsection \<open>Unordered tables\<close>

type_synonym 'a table = "(u64 \<times> 'a) list"

fun table_find :: "u64 \<Rightarrow> ('a \<Rightarrow> bool result) \<Rightarrow> 'a table \<Rightarrow> 'a option result" where
  "table_find hash eq [] = Inr None"
| "table_find hash eq ((h, x) # t) =
     (if h = hash
      then and_then (eq x) (\<lambda>found. if found then Inr (Some x) else table_find hash eq t)
      else table_find hash eq t)"

text \<open>\<open>table_replace\<close> is \<^verbatim>\<open>find_mut\<close> followed by an assignment through the reference it returns.\<close>

fun table_replace :: "u64 \<Rightarrow> ('a \<Rightarrow> bool result) \<Rightarrow> ('a \<Rightarrow> 'a) \<Rightarrow> 'a table \<Rightarrow> ('a \<times> 'a table) option result" where
  "table_replace hash eq f [] = Inr None"
| "table_replace hash eq f ((h, x) # t) =
     (if h = hash
      then and_then (eq x) (\<lambda>found.
             if found then Inr (Some (x, (h, f x) # t))
             else and_then (table_replace hash eq f t) (\<lambda>r.
                    Inr (map_option (\<lambda>(old, t'). (old, (h, x) # t')) r)))
      else and_then (table_replace hash eq f t) (\<lambda>r.
             Inr (map_option (\<lambda>(old, t'). (old, (h, x) # t')) r)))"

fun table_remove :: "u64 \<Rightarrow> ('a \<Rightarrow> bool result) \<Rightarrow> 'a table \<Rightarrow> ('a \<times> 'a table) option result" where
  "table_remove hash eq [] = Inr None"
| "table_remove hash eq ((h, x) # t) =
     (if h = hash
      then and_then (eq x) (\<lambda>found.
             if found then Inr (Some (x, t))
             else and_then (table_remove hash eq t) (\<lambda>r.
                    Inr (map_option (\<lambda>(old, t'). (old, (h, x) # t')) r)))
      else and_then (table_remove hash eq t) (\<lambda>r.
             Inr (map_option (\<lambda>(old, t'). (old, (h, x) # t')) r)))"

definition table_insert_unique :: "u64 \<Rightarrow> 'a \<Rightarrow> 'a table \<Rightarrow> 'a table" where
  "table_insert_unique hash x t = (hash, x) # t"

definition table_iter :: "'a table \<Rightarrow> 'a list" where
  "table_iter t = map snd t"

text \<open>
  A keyed table: every element has a key, no two have the same, and each sits under the hash of
  its key. On such a table the operations are those of a map from keys to elements, whatever the
  hash function.
\<close>

definition table_ok :: "(bytes \<Rightarrow> u64) \<Rightarrow> ('a \<Rightarrow> bytes) \<Rightarrow> 'a table \<Rightarrow> bool" where
  "table_ok hash key_of t \<longleftrightarrow>
     distinct (map (key_of \<circ> snd) t) \<and> (\<forall>(h, x) \<in> set t. h = hash (key_of x))"

definition table_map :: "('a \<Rightarrow> bytes) \<Rightarrow> 'a table \<Rightarrow> bytes \<rightharpoonup> 'a" where
  "table_map key_of t = map_of (map (\<lambda>(h, x). (key_of x, x)) t)"

lemma table_ok_simps [simp]:
  "table_ok hash key_of []"
  "table_ok hash key_of ((h, x) # t) \<longleftrightarrow>
     h = hash (key_of x) \<and> key_of x \<notin> key_of ` snd ` set t \<and> table_ok hash key_of t"
  by (auto simp: table_ok_def image_comp)

lemma table_map_simps [simp]:
  "table_map key_of [] = Map.empty"
  "table_map key_of ((h, x) # t) = (table_map key_of t)(key_of x \<mapsto> x)"
  by (auto simp: table_map_def)

lemma table_map_dom: "dom (table_map key_of t) = key_of ` snd ` set t"
  by (simp add: table_map_def dom_map_of_conv_image_fst image_image split_def)

lemma table_map_key: "table_map key_of t key = Some x \<Longrightarrow> key_of x = key \<and> x \<in> snd ` set t"
  by (induction t) (auto split: if_splits)

lemma table_map_None_iff: "table_map key_of t key = None \<longleftrightarrow> key \<notin> key_of ` snd ` set t"
  using table_map_dom [of key_of t] by (auto simp: domIff)

lemma table_find_eq:
  assumes "table_ok hash key_of t"
    and "\<And>x. x \<in> snd ` set t \<Longrightarrow> eq x = Inr (key_of x = key)"
  shows "table_find (hash key) eq t = Inr (table_map key_of t key)"
  using assms
proof (induction t)
  case Nil
  show ?case by simp
next
  case (Cons p t)
  obtain h x where p: "p = (h, x)" by fastforce
  from Cons.prems have "table_find (hash key) eq t = Inr (table_map key_of t key)"
    by (intro Cons.IH) (auto simp: p)
  moreover from Cons.prems have "eq x = Inr (key_of x = key)" by (auto simp: p)
  ultimately show ?case using Cons.prems(1) by (auto simp: p)
qed

text \<open>An update in place keeps the order; as a list it is a map over the table.\<close>

definition table_update_key :: "('a \<Rightarrow> bytes) \<Rightarrow> bytes \<Rightarrow> ('a \<Rightarrow> 'a) \<Rightarrow> 'a table \<Rightarrow> 'a table" where
  "table_update_key key_of key f t = map (\<lambda>(h, x). (h, if key_of x = key then f x else x)) t"

definition table_remove_key :: "('a \<Rightarrow> bytes) \<Rightarrow> bytes \<Rightarrow> 'a table \<Rightarrow> 'a table" where
  "table_remove_key key_of key t = filter (\<lambda>(h, x). key_of x \<noteq> key) t"

lemma table_update_key_absent: "key \<notin> key_of ` snd ` set t \<Longrightarrow> table_update_key key_of key f t = t"
  by (induction t) (auto simp: table_update_key_def)

lemma table_remove_key_absent: "key \<notin> key_of ` snd ` set t \<Longrightarrow> table_remove_key key_of key t = t"
  by (induction t) (auto simp: table_remove_key_def)

lemma table_replace_eq:
  assumes "table_ok hash key_of t"
    and "\<And>x. x \<in> snd ` set t \<Longrightarrow> eq x = Inr (key_of x = key)"
  shows "table_replace (hash key) eq f t =
    Inr (map_option (\<lambda>x. (x, table_update_key key_of key f t)) (table_map key_of t key))"
  using assms
proof (induction t)
  case Nil
  show ?case by simp
next
  case (Cons p t)
  obtain h x where p: "p = (h, x)" by fastforce
  from Cons.prems have IH: "table_replace (hash key) eq f t =
      Inr (map_option (\<lambda>x. (x, table_update_key key_of key f t)) (table_map key_of t key))"
    by (intro Cons.IH) (auto simp: p)
  from Cons.prems have "eq x = Inr (key_of x = key)" by (auto simp: p)
  moreover have "table_update_key key_of key f t = t" if "key_of x = key"
    using that Cons.prems(1) by (intro table_update_key_absent) (auto simp: p)
  ultimately show ?case using Cons.prems(1) IH
    by (auto simp: p table_update_key_def option.map_comp comp_def)
qed

lemma table_remove_eq:
  assumes "table_ok hash key_of t"
    and "\<And>x. x \<in> snd ` set t \<Longrightarrow> eq x = Inr (key_of x = key)"
  shows "table_remove (hash key) eq t =
    Inr (map_option (\<lambda>x. (x, table_remove_key key_of key t)) (table_map key_of t key))"
  using assms
proof (induction t)
  case Nil
  show ?case by simp
next
  case (Cons p t)
  obtain h x where p: "p = (h, x)" by fastforce
  from Cons.prems have IH: "table_remove (hash key) eq t =
      Inr (map_option (\<lambda>x. (x, table_remove_key key_of key t)) (table_map key_of t key))"
    by (intro Cons.IH) (auto simp: p)
  from Cons.prems have "eq x = Inr (key_of x = key)" by (auto simp: p)
  moreover have "table_remove_key key_of key t = t" if "key_of x = key"
    using that Cons.prems(1) by (intro table_remove_key_absent) (auto simp: p)
  ultimately show ?case using Cons.prems(1) IH
    by (auto simp: p table_remove_key_def option.map_comp comp_def)
qed

lemma table_map_update_key:
  assumes "\<And>x. x \<in> snd ` set t \<Longrightarrow> key_of x = key \<Longrightarrow> key_of (f x) = key"
  shows "table_map key_of (table_update_key key_of key f t) =
    (table_map key_of t)(key := map_option f (table_map key_of t key))"
  using assms by (induction t) (auto simp: table_update_key_def fun_eq_iff)

lemma table_map_remove_key:
  "table_map key_of (table_remove_key key_of key t) = (table_map key_of t)(key := None)"
  by (induction t) (auto simp: table_remove_key_def fun_eq_iff)

lemma table_ok_update_key:
  assumes "table_ok hash key_of t"
    and "\<And>x. x \<in> snd ` set t \<Longrightarrow> key_of x = key \<Longrightarrow> key_of (f x) = key"
  shows "table_ok hash key_of (table_update_key key_of key f t)"
proof -
  have keys: "map (key_of \<circ> snd) (table_update_key key_of key f t) = map (key_of \<circ> snd) t"
    using assms(2) by (force simp: table_update_key_def)
  have "\<forall>(h, x) \<in> set (table_update_key key_of key f t). h = hash (key_of x)"
    using assms by (force simp: table_update_key_def table_ok_def)
  with keys assms(1) show ?thesis by (simp add: table_ok_def)
qed

lemma table_ok_remove_key:
  "table_ok hash key_of t \<Longrightarrow> table_ok hash key_of (table_remove_key key_of key t)"
  by (induction t) (auto simp: table_remove_key_def image_iff Ball_def)

lemma table_ok_insert_unique:
  "table_ok hash key_of t \<Longrightarrow> table_map key_of t (key_of x) = None \<Longrightarrow>
   table_ok hash key_of (table_insert_unique (hash (key_of x)) x t)"
  by (auto simp: table_insert_unique_def table_map_None_iff)

lemma table_map_insert_unique [simp]:
  "table_map key_of (table_insert_unique h x t) = (table_map key_of t)(key_of x \<mapsto> x)"
  by (simp add: table_insert_unique_def)

text \<open>A sum over the elements, under the same updates.\<close>

definition table_sum :: "('a \<Rightarrow> nat) \<Rightarrow> 'a table \<Rightarrow> nat" where
  "table_sum c t = sum_list (map c (table_iter t))"

lemma table_sum_simps [simp]:
  "table_sum c [] = 0"
  "table_sum c ((h, x) # t) = c x + table_sum c t"
  by (simp_all add: table_sum_def table_iter_def)

lemma table_sum_insert_unique [simp]: "table_sum c (table_insert_unique h x t) = c x + table_sum c t"
  by (simp add: table_insert_unique_def)

lemma table_sum_cong: "(\<And>x. x \<in> snd ` set t \<Longrightarrow> c x = d x) \<Longrightarrow> table_sum c t = table_sum d t"
  by (induction t) auto

lemma table_sum_member: "x \<in> snd ` set t \<Longrightarrow> c x \<le> table_sum c t"
  by (induction t) (force intro: trans_le_add2)+

lemma table_sum_update_key:
  assumes "table_ok hash key_of t" and "table_map key_of t key = Some x"
  shows "table_sum c (table_update_key key_of key f t) + c x = table_sum c t + c (f x)"
  using assms
proof (induction t)
  case Nil
  then show ?case by simp
next
  case (Cons p t)
  obtain h y where p: "p = (h, y)" by fastforce
  show ?case
  proof (cases "key_of y = key")
    case True
    with Cons.prems have "table_update_key key_of key f t = t"
      by (intro table_update_key_absent) (auto simp: p)
    with True Cons.prems show ?thesis by (simp add: p table_update_key_def)
  next
    case False
    with Cons.prems have "table_sum c (table_update_key key_of key f t) + c x = table_sum c t + c (f x)"
      by (intro Cons.IH) (auto simp: p)
    with False show ?thesis by (simp add: p table_update_key_def)
  qed
qed

lemma table_sum_remove_key:
  assumes "table_ok hash key_of t" and "table_map key_of t key = Some x"
  shows "table_sum c (table_remove_key key_of key t) + c x = table_sum c t"
  using assms
proof (induction t)
  case Nil
  then show ?case by simp
next
  case (Cons p t)
  obtain h y where p: "p = (h, y)" by fastforce
  show ?case
  proof (cases "key_of y = key")
    case True
    with Cons.prems have "table_remove_key key_of key t = t"
      by (intro table_remove_key_absent) (auto simp: p)
    with True Cons.prems show ?thesis by (simp add: p table_remove_key_def)
  next
    case False
    with Cons.prems have "table_sum c (table_remove_key key_of key t) + c x = table_sum c t"
      by (intro Cons.IH) (auto simp: p)
    with False show ?thesis by (simp add: p table_remove_key_def)
  qed
qed

lemma table_update_key_elements:
  "snd ` set (table_update_key key_of key f t) \<subseteq> snd ` set t \<union> f ` {x \<in> snd ` set t. key_of x = key}"
  by (force simp: table_update_key_def)

lemma table_remove_key_elements: "snd ` set (table_remove_key key_of key t) \<subseteq> snd ` set t"
  by (auto simp: table_remove_key_def)

lemma table_insert_unique_elements [simp]:
  "snd ` set (table_insert_unique h x t) = insert x (snd ` set t)"
  by (simp add: table_insert_unique_def)

lemma table_ok_cong:
  assumes "\<And>x. x \<in> snd ` set t \<Longrightarrow> key_of x = key_of' x"
  shows "table_ok hash key_of t \<longleftrightarrow> table_ok hash key_of' t"
proof -
  have keys: "map (key_of \<circ> snd) t = map (key_of' \<circ> snd) t" using assms by auto
  have "(\<forall>(h, x) \<in> set t. h = hash (key_of x)) \<longleftrightarrow> (\<forall>(h, x) \<in> set t. h = hash (key_of' x))"
    using assms by (force simp: image_iff)
  then show ?thesis by (simp only: table_ok_def keys)
qed

lemma table_map_cong:
  "(\<And>x. x \<in> snd ` set t \<Longrightarrow> key_of x = key_of' x) \<Longrightarrow> table_map key_of t = table_map key_of' t"
  by (induction t) auto

end
