(* ===== verification/Lkv_Log.thy ===== *)
theory Lkv_Log
  imports Lkv_Value
begin

section \<open>The log record format (format/log.rs)\<close>

text \<open>
  The writer of the append-only log. The source writes each record through an \<^verbatim>\<open>impl Write\<close>; the
  model returns the bytes that are written, in order, and the failures that happen before the
  first of them. The storage model then appends those bytes, or a part of them.

  The writer computes the checksum of a batch as it goes, over the pieces of the payload and, for
  a large value, from a checksum that was computed when the value was staged. The main lemma,
  \<open>batch_record_checksum_eq\<close>, shows that this is the checksum the reader computes over the payload.
\<close>

definition MAX_LOG_PAYLOAD_SIZE :: nat where
  [simp]: "MAX_LOG_PAYLOAD_SIZE = 4294967295"

definition MAX_BATCH_OPERATIONS :: nat where
  [simp]: "MAX_BATCH_OPERATIONS = 1000000"

definition LOG_HEADER_SIZE :: nat where
  [simp]: "LOG_HEADER_SIZE = 17"

definition LOG_HEADER_CHECKSUM_OFFSET :: nat where
  [simp]: "LOG_HEADER_CHECKSUM_OFFSET = 13"

text \<open>The limits on one entry, from \<^verbatim>\<open>format/segment.rs\<close>.\<close>

definition MAX_KEY_SIZE :: nat where
  [simp]: "MAX_KEY_SIZE = 1048576"

definition MAX_VALUE_SIZE :: nat where
  [simp]: "MAX_VALUE_SIZE = 4294967295"

definition length_limit_message :: string where
  "length_limit_message =
     ''key or value exceeds the format limit ('' @ show_nat MAX_KEY_SIZE @ '' key bytes, ''
     @ show_nat MAX_VALUE_SIZE @ '' value bytes)''"

definition check_lengths :: "bytes \<Rightarrow> bytes \<Rightarrow> unit result" where
  "check_lengths key v =
     (if length key > MAX_KEY_SIZE \<or> length v > MAX_VALUE_SIZE
      then Inl (Err (from_io InvalidInput length_limit_message))
      else Inr ())"

subsection \<open>Markers\<close>

datatype marker = PutMarker | DeleteMarker | Compact | Batch

fun marker_byte :: "marker \<Rightarrow> u8" where
  "marker_byte PutMarker = 1"
| "marker_byte DeleteMarker = 2"
| "marker_byte Compact = 3"
| "marker_byte Batch = 4"

definition marker_from_byte :: "u8 \<Rightarrow> marker option" where
  "marker_from_byte b =
     (if b = 1 then Some PutMarker else if b = 2 then Some DeleteMarker
      else if b = 3 then Some Compact else if b = 4 then Some Batch else None)"

subsection \<open>Sizes\<close>

fun entry_value_len :: "overlay_entry \<Rightarrow> nat" where
  "entry_value_len (Put v) = value_bytes_len v"
| "entry_value_len Delete = 0"

fun batch_payload_len_loop :: "nat \<Rightarrow> overlay_entry keymap \<Rightarrow> nat result" where
  "batch_payload_len_loop len [] = Inr len"
| "batch_payload_len_loop len ((key, entry) # rest) =
     and_then
       (ok_or (Err (from_io InvalidInput ''batch is too large''))
         (Option.bind (checked_add len 9) (\<lambda>len.
          Option.bind (checked_add len (length key)) (\<lambda>len.
          checked_add len (entry_value_len entry)))))
       (\<lambda>len. batch_payload_len_loop len rest)"

definition batch_payload_len :: "overlay_entry keymap \<Rightarrow> u32 result" where
  "batch_payload_len staged =
     (if length staged > MAX_BATCH_OPERATIONS
      then Inl (Err (from_io InvalidInput
             (''transaction exceeds the '' @ show_nat MAX_BATCH_OPERATIONS @ '' operation limit'')))
      else and_then (batch_payload_len_loop 4 staged) (\<lambda>len.
             if len > MAX_LOG_PAYLOAD_SIZE
             then Inl (Err (from_io InvalidInput ''transaction payload exceeds the log record limit''))
             else ok_or (Err (from_io InvalidInput ''batch is too large'')) (u32_try_from len)))"

subsection \<open>Checksums\<close>

definition checksum_parts :: "externs \<Rightarrow> marker \<Rightarrow> u32 \<Rightarrow> u32 \<Rightarrow> bytes \<Rightarrow> bytes \<Rightarrow> u32" where
  "checksum_parts E marker key_len value_len first second =
     (let checksum = crc32c_append E 0 [marker_byte marker];
          checksum = crc32c_append E checksum (u32_to_le_bytes key_len);
          checksum = crc32c_append E checksum (u32_to_le_bytes value_len);
          checksum = crc32c_append E checksum first
      in crc32c_append E checksum second)"

definition record_checksum_start :: "externs \<Rightarrow> marker \<Rightarrow> u32 \<Rightarrow> u32 \<Rightarrow> u32" where
  "record_checksum_start E marker key_len value_len = checksum_parts E marker key_len value_len [] []"

definition record_checksum :: "externs \<Rightarrow> marker \<Rightarrow> u32 \<Rightarrow> u32 \<Rightarrow> bytes \<Rightarrow> u32" where
  "record_checksum E marker key_len value_len payload =
     crc32c_append E (record_checksum_start E marker key_len value_len) payload"

fun entry_marker :: "overlay_entry \<Rightarrow> marker" where
  "entry_marker (Put v) = PutMarker"
| "entry_marker Delete = DeleteMarker"

fun entry_slice :: "overlay_entry \<Rightarrow> bytes" where
  "entry_slice (Put v) = as_slice v"
| "entry_slice Delete = []"

fun batch_checksum_loop :: "externs \<Rightarrow> u32 keymap option \<Rightarrow> u32 \<Rightarrow> overlay_entry keymap \<Rightarrow> u32" where
  "batch_checksum_loop E value_checksums checksum [] = checksum"
| "batch_checksum_loop E value_checksums checksum ((key, entry) # rest) =
     (let value = entry_slice entry;
          checksum = crc32c_append E checksum [marker_byte (entry_marker entry)];
          checksum = crc32c_append E checksum (u32_to_le_bytes (of_nat (length key)));
          checksum = crc32c_append E checksum (u32_to_le_bytes (of_nat (length value)));
          checksum = crc32c_append E checksum key;
          checksum =
            (case entry of
               Put v \<Rightarrow>
                 (case Option.bind value_checksums (\<lambda>values. keymap_get values key) of
                    Some value_checksum \<Rightarrow> crc32c_combine E checksum value_checksum (value_bytes_len v)
                  | None \<Rightarrow> crc32c_append E checksum (as_slice v))
             | Delete \<Rightarrow> checksum)
      in batch_checksum_loop E value_checksums checksum rest)"

definition batch_record_checksum ::
    "externs \<Rightarrow> overlay_entry keymap \<Rightarrow> u32 keymap option \<Rightarrow> u32 \<Rightarrow> u32 result" where
  "batch_record_checksum E staged value_checksums payload_len =
     and_then
       (ok_or (Err (from_io InvalidInput ''too many batch operations'')) (u32_try_from (length staged)))
       (\<lambda>count.
          let checksum = checksum_parts E Batch 0 payload_len [] [];
              checksum = crc32c_append E checksum (u32_to_le_bytes count)
          in Inr (batch_checksum_loop E value_checksums checksum staged))"

subsection \<open>Writers\<close>

definition write_record_header :: "externs \<Rightarrow> marker \<Rightarrow> u32 \<Rightarrow> u32 \<Rightarrow> u32 \<Rightarrow> bytes" where
  "write_record_header E marker key_len value_len checksum =
     (let header = marker_byte marker # u32_to_le_bytes key_len @ u32_to_le_bytes value_len
            @ u32_to_le_bytes checksum
      in header @ u32_to_le_bytes (crc32c E header))"

definition write_compact_marker :: "externs \<Rightarrow> bytes" where
  "write_compact_marker E = write_record_header E Compact 0 0 (checksum_parts E Compact 0 0 [] [])"

fun batch_operation_bytes :: "bytes \<times> overlay_entry \<Rightarrow> bytes" where
  "batch_operation_bytes (key, entry) =
     (let value = entry_slice entry
      in [marker_byte (entry_marker entry)] @ u32_to_le_bytes (of_nat (length key))
         @ u32_to_le_bytes (of_nat (length value)) @ key @ value)"

declare batch_operation_bytes.simps [simp del]

definition write_batch_record_inner ::
    "externs \<Rightarrow> overlay_entry keymap \<Rightarrow> u32 keymap option \<Rightarrow> bytes result" where
  "write_batch_record_inner E staged value_checksums =
     and_then (batch_payload_len staged) (\<lambda>payload_len.
     and_then
       (ok_or (Err (from_io InvalidInput ''too many batch operations'')) (u32_try_from (length staged)))
       (\<lambda>count.
     and_then (batch_record_checksum E staged value_checksums payload_len) (\<lambda>checksum.
       Inr (write_record_header E Batch 0 payload_len checksum @ u32_to_le_bytes count
            @ concat (map batch_operation_bytes staged)))))"

definition write_batch_record_with_checksums ::
    "externs \<Rightarrow> overlay_entry keymap \<Rightarrow> u32 keymap \<Rightarrow> bytes result" where
  "write_batch_record_with_checksums E staged value_checksums =
     write_batch_record_inner E staged
       (if value_checksums \<noteq> [] then Some value_checksums else None)"

subsection \<open>The record as data\<close>

text \<open>
  What a batch is on disk, stated without the writer's loops: its payload, the size the format
  allows it, and the whole record.
\<close>

definition batch_payload :: "overlay_entry keymap \<Rightarrow> bytes" where
  "batch_payload staged =
     u32_to_le_bytes (of_nat (length staged)) @ concat (map batch_operation_bytes staged)"

definition batch_fits :: "overlay_entry keymap \<Rightarrow> bool" where
  "batch_fits staged \<longleftrightarrow>
     length staged \<le> MAX_BATCH_OPERATIONS \<and> length (batch_payload staged) \<le> MAX_LOG_PAYLOAD_SIZE"

definition batch_record :: "externs \<Rightarrow> overlay_entry keymap \<Rightarrow> bytes" where
  "batch_record E staged =
     (let payload = batch_payload staged; len = of_nat (length payload)
      in write_record_header E Batch 0 len (record_checksum E Batch 0 len payload) @ payload)"

definition checksums_ok :: "externs \<Rightarrow> overlay_entry keymap \<Rightarrow> u32 keymap option \<Rightarrow> bool" where
  "checksums_ok E staged value_checksums \<longleftrightarrow>
     (\<forall>values key c v. value_checksums = Some values \<and> keymap_get values key = Some c
        \<and> (key, Put v) \<in> set staged \<longrightarrow> c = crc32c E (as_slice v))"

subsection \<open>Lemmas\<close>

lemma marker_from_to_byte [simp]: "marker_from_byte (marker_byte m) = Some m"
  by (cases m) (simp_all add: marker_from_byte_def)

lemma marker_from_byte_Some: "marker_from_byte b = Some m \<Longrightarrow> marker_byte m = b"
  by (auto simp: marker_from_byte_def split: if_splits)

lemma length_write_record_header [simp]: "length (write_record_header E m k v c) = 17"
  by (simp add: write_record_header_def)

lemma length_write_compact_marker [simp]: "length (write_compact_marker E) = 17"
  by (simp add: write_compact_marker_def)

lemma length_entry_slice [simp]: "entry_ok e \<Longrightarrow> length (entry_slice e) = entry_value_len e"
  by (cases e) simp_all

lemma length_batch_operation_bytes:
  "length (batch_operation_bytes (key, entry)) = 9 + length key + length (entry_slice entry)"
  by (simp add: batch_operation_bytes.simps Let_def)

lemma length_batch_payload_Cons:
  "length (batch_payload ((key, entry) # rest)) =
     length (batch_payload rest) + 9 + length key + length (entry_slice entry)"
  by (simp add: batch_payload_def length_batch_operation_bytes)

lemma batch_payload_len_loop_eq:
  assumes "\<forall>(key, entry) \<in> set staged. entry_ok entry"
    and "len < usize_limit"
  shows "batch_payload_len_loop len staged =
    (let total = len + length (concat (map batch_operation_bytes staged))
     in if total < usize_limit then Inr total
        else Inl (Err (from_io InvalidInput ''batch is too large'')))"
  using assms
proof (induction staged arbitrary: len)
  case Nil
  then show ?case by simp
next
  case (Cons op rest)
  obtain key entry where op: "op = (key, entry)" by fastforce
  let ?len = "len + 9 + length key + entry_value_len entry"
  from Cons.prems have ok: "entry_ok entry" by (simp add: op)
  show ?case
  proof (cases "?len < usize_limit")
    case True
    with Cons.IH [of ?len] Cons.prems ok show ?thesis
      by (simp add: op checked_add_def length_batch_operation_bytes Let_def ac_simps)
  next
    case False
    with ok show ?thesis
      by (auto simp: op checked_add_def length_batch_operation_bytes Let_def split: bind_split)
  qed
qed

lemma batch_payload_len_eq:
  assumes "staged_ok staged"
  shows "batch_payload_len staged = Inr n \<longleftrightarrow>
    batch_fits staged \<and> n = of_nat (length (batch_payload staged))"
proof -
  have "\<forall>(key, entry) \<in> set staged. entry_ok entry"
    using assms by (simp add: staged_ok_def)
  from batch_payload_len_loop_eq [OF this, of 4] show ?thesis
    by (auto simp: batch_payload_len_def batch_fits_def batch_payload_def usize_limit_def
        u32_try_from_def Let_def result_simps)
qed

lemma batch_checksum_loop_eq:
  assumes "crc32c_crate E" and "\<forall>(key, entry) \<in> set staged. entry_ok entry"
    and "checksums_ok E staged cached"
  shows "batch_checksum_loop E cached c staged = crc32c_append E c (concat (map batch_operation_bytes staged))"
  using assms(2,3)
proof (induction staged arbitrary: c)
  case Nil
  show ?case by (simp add: crc32c_crate.append_Nil [OF assms(1)])
next
  case (Cons op rest)
  obtain key entry where op: "op = (key, entry)" by fastforce
  from Cons.prems have ok: "entry_ok entry" by (simp add: op)
  from Cons.prems have IH: "batch_checksum_loop E cached c' rest =
      crc32c_append E c' (concat (map batch_operation_bytes rest))" for c'
    by (intro Cons.IH) (auto simp: checksums_ok_def)
  have slice: "(case entry of
       Put v \<Rightarrow>
         (case Option.bind cached (\<lambda>values. keymap_get values key) of
            Some vc \<Rightarrow> crc32c_combine E c' vc (value_bytes_len v)
          | None \<Rightarrow> crc32c_append E c' (as_slice v))
     | Delete \<Rightarrow> c') = crc32c_append E c' (entry_slice entry)" for c'
  proof (cases entry)
    case (Put v)
    show ?thesis
    proof (cases "Option.bind cached (\<lambda>values. keymap_get values key)")
      case None
      with Put show ?thesis by simp
    next
      case (Some vc)
      with Put Cons.prems(2) have "vc = crc32c E (as_slice v)"
        by (auto simp: checksums_ok_def op bind_eq_Some_conv)
      with Put Some ok show ?thesis
        by (simp add: crc32c_crate.combine [OF assms(1)] flip: length_as_slice)
    qed
  next
    case Delete
    then show ?thesis by (simp add: crc32c_crate.append_Nil [OF assms(1)])
  qed
  show ?case
    by (simp only: op batch_checksum_loop.simps Let_def slice IH)
      (simp add: batch_operation_bytes.simps Let_def crc32c_crate.append_append [OF assms(1)])
qed

lemma batch_record_checksum_eq:
  assumes "crc32c_crate E" and "staged_ok staged" and "checksums_ok E staged cached"
    and "batch_fits staged"
  shows "batch_record_checksum E staged cached len =
    Inr (record_checksum E Batch 0 len (batch_payload staged))"
proof -
  from assms(2) have ok: "\<forall>(key, entry) \<in> set staged. entry_ok entry" by (simp add: staged_ok_def)
  show ?thesis
    using assms(4)
    by (simp add: batch_record_checksum_def record_checksum_def record_checksum_start_def
        batch_payload_def batch_fits_def u32_try_from_def batch_checksum_loop_eq [OF assms(1) ok assms(3)]
        crc32c_crate.append_append [OF assms(1)])
qed

lemma write_batch_record_inner_eq:
  assumes "crc32c_crate E" and "staged_ok staged" and "checksums_ok E staged cached"
    and "batch_fits staged"
  shows "write_batch_record_inner E staged cached = Inr (batch_record E staged)"
proof -
  have "batch_payload_len staged = Inr (of_nat (length (batch_payload staged)))"
    using batch_payload_len_eq [OF assms(2)] assms(4) by blast
  then show ?thesis
    using assms(4) batch_record_checksum_eq [OF assms]
    by (simp add: write_batch_record_inner_def batch_record_def batch_payload_def batch_fits_def
        u32_try_from_def Let_def)
qed

lemma write_batch_record_inner_fails:
  assumes "staged_ok staged" and "\<not> batch_fits staged"
  shows "\<exists>e. write_batch_record_inner E staged cached = Inl (Err e) \<and> kind_of e = InvalidInput"
proof -
  have "\<forall>(key, entry) \<in> set staged. entry_ok entry"
    using assms(1) by (simp add: staged_ok_def)
  from batch_payload_len_loop_eq [OF this, of 4] assms(2) show ?thesis
    by (auto simp: write_batch_record_inner_def batch_payload_len_def batch_fits_def batch_payload_def
        usize_limit_def u32_try_from_def Let_def)
qed

lemma length_batch_record: "length (batch_record E staged) = 17 + length (batch_payload staged)"
  by (simp add: batch_record_def Let_def)

end
