(* ===== verification/Lkv_Segment.thy ===== *)
theory Lkv_Segment
  imports Lkv_Superblock Lkv_Log
begin

section \<open>Base segments (format/segment.rs)\<close>

text \<open>
  A base segment is a frozen hash table: a header, an open-addressing index of (fingerprint, absolute
  record offset) pairs, the records, and behind them a table with the checksum of every 64 KiB block
  and a footer. This theory has the writer, the measuring pass and the readers. The writer runs on
  any store; the record iterator it is given is the list of the entries it yields.
\<close>

definition SLOT_SIZE :: nat where
  [simp]: "SLOT_SIZE = 12"

definition CHECKSUM_BLOCK_SIZE :: nat where
  [simp]: "CHECKSUM_BLOCK_SIZE = 65536"

definition CHECKSUM_FOOTER_SIZE :: nat where
  [simp]: "CHECKSUM_FOOTER_SIZE = 24"

definition EMPTY_SEGMENT_SIZE :: nat where
  [simp]: "EMPTY_SEGMENT_SIZE = BASE_HEADER + 4 + CHECKSUM_FOOTER_SIZE"

definition HASH_SECTION_ID :: bytes where
  "HASH_SECTION_ID = [0x48, 0x41, 0x53, 0x48]"

definition CHECKSUM_SECTION_ID :: bytes where
  "CHECKSUM_SECTION_ID = [0x43, 0x52, 0x43, 0x33]"

type_synonym entry = "bytes \<times> bytes"
type_synonym slot = "u32 \<times> u64"

abbreviation invalid_input :: "string \<Rightarrow> failure" where
  "invalid_input msg \<equiv> Err (from_io InvalidInput msg)"

subsection \<open>Records\<close>

text \<open>\<open>filter_option P x\<close> is \<^verbatim>\<open>Option::filter\<close>.\<close>

definition filter_option :: "('a \<Rightarrow> bool) \<Rightarrow> 'a option \<Rightarrow> 'a option" where
  "filter_option P x = (case x of None \<Rightarrow> None | Some y \<Rightarrow> if P y then Some y else None)"

definition record_at :: "bytes \<Rightarrow> nat \<Rightarrow> nat \<Rightarrow> (bytes \<times> bytes \<times> nat) result" where
  "record_at mapping offset data_size =
     and_then (ok_or (Err (invalid_base ''truncated record header''))
       (filter_option (\<lambda>e. e \<le> data_size) (checked_add offset 8))) (\<lambda>header_end.
     and_then (ok_or (Err (invalid_base ''record header lies outside mapping''))
       (get_range mapping offset header_end)) (\<lambda>header.
     and_then (u32_at header 0) (\<lambda>key_len.
     and_then (u32_at header 4) (\<lambda>value_len.
     and_then (ok_or (Err (invalid_base ''record key length overflow''))
       (checked_add header_end (unat key_len))) (\<lambda>value_start.
     and_then (ok_or (Err (invalid_base ''record extends beyond segment''))
       (filter_option (\<lambda>e. e \<le> data_size) (checked_add value_start (unat value_len)))) (\<lambda>record_end.
     and_then (ok_or (Err (invalid_base ''record key lies outside mapping''))
       (get_range mapping header_end value_start)) (\<lambda>key.
     and_then (ok_or (Err (invalid_base ''record value lies outside mapping''))
       (get_range mapping value_start record_end)) (\<lambda>v.
     Inr (key, v, record_end)))))))))"

definition trusted_record_at :: "bytes \<Rightarrow> nat \<Rightarrow> (bytes \<times> bytes \<times> nat) result" where
  "trusted_record_at mapping offset =
     and_then (u32_at mapping offset) (\<lambda>key_len.
     and_then (u32_at mapping (offset + 4)) (\<lambda>value_len.
     let key_start = offset + 8; value_start = key_start + unat key_len; record_end = value_start + unat value_len in
     and_then (index_range mapping key_start value_start) (\<lambda>key.
     and_then (index_range mapping value_start record_end) (\<lambda>v.
     Inr (key, v, record_end)))))"

subsection \<open>Sizes\<close>

definition base_slot_count :: "nat \<Rightarrow> nat result" where
  "base_slot_count len =
     (if len = 0 then Inr 0
      else ok_or (invalid_input ''too many entries'')
        (Option.bind (map_option (\<lambda>scaled. div_ceil scaled 4) (checked_mul len 5)) checked_next_power_of_two))"

fun measure_records :: "entry list \<Rightarrow> nat \<Rightarrow> nat \<Rightarrow> (nat \<times> nat) result" where
  "measure_records [] observed records_size = Inr (observed, records_size)"
| "measure_records ((key, v) # entries) observed records_size =
     and_then (ok_or (invalid_input ''too many entries'') (checked_add observed 1)) (\<lambda>observed.
     and_then (ok_or (invalid_input ''base is too large'')
       (Option.bind (checked_add records_size 8) (\<lambda>n.
        Option.bind (checked_add n (length key)) (\<lambda>n. checked_add n (length v))))) (\<lambda>records_size.
     measure_records entries observed records_size))"

definition measure_base_iter :: "entry list \<Rightarrow> (nat \<times> nat) result" where
  "measure_base_iter entries =
     and_then (measure_records entries 0 BASE_HEADER) (\<lambda>(observed, records_size).
     and_then (base_slot_count observed) (\<lambda>slots.
     and_then (ok_or (invalid_input ''base is too large'') (checked_mul slots SLOT_SIZE)) (\<lambda>index_size.
     and_then (ok_or (invalid_input ''base is too large'') (checked_add records_size index_size)) (\<lambda>data_size.
     and_then (ok_or (invalid_input ''base is too large'')
       (Option.bind (checked_mul (div_ceil data_size CHECKSUM_BLOCK_SIZE) 4) (\<lambda>n.
        checked_add n CHECKSUM_FOOTER_SIZE))) (\<lambda>checksum_size.
     and_then (ok_or (invalid_input ''base is too large'') (checked_add data_size checksum_size)) (\<lambda>total.
     Inr (observed, total)))))))"

subsection \<open>Writing the records and the index\<close>

unbundle bit_operations_syntax

definition slot_mask :: "nat \<Rightarrow> u64" where
  "slot_mask slots = of_nat slots - 1"

text \<open>
  The search for an empty slot. The walk visits every slot once in \<open>slots\<close> steps, so a search that
  has used up its fuel is in a full index, where the source loops forever.
\<close>

fun probe_empty :: "nat \<Rightarrow> nat \<Rightarrow> slot list \<Rightarrow> u64 \<Rightarrow> nat result" where
  "probe_empty 0 slots index s = Inl Diverges"
| "probe_empty (Suc fuel) slots index s =
     (if unat s < length index
      then (if snd (index ! unat s) \<noteq> 0
            then probe_empty fuel slots index ((s + 1) AND slot_mask slots)
            else Inr (unat s))
      else Inl Panic)"

definition fingerprint :: "u64 \<Rightarrow> u32" where
  "fingerprint h = ucast (drop_bit 32 h)"

fun entry_bytes :: "entry \<Rightarrow> bytes" where
  "entry_bytes (key, v) = u32_to_le_bytes (of_nat (length key)) @ u32_to_le_bytes (of_nat (length v)) @ key @ v"

declare entry_bytes.simps [simp del]

text \<open>The bytes given to the buffered writer, and the index with the end offset or the failure.\<close>

fun place_records :: "externs \<Rightarrow> nat \<Rightarrow> entry list \<Rightarrow> bytes \<Rightarrow> slot list \<Rightarrow> nat \<Rightarrow> nat
    \<Rightarrow> bytes \<times> (slot list \<times> nat \<times> nat) result" where
  "place_records E slots [] buffered index offset written_len = (buffered, Inr (index, offset, written_len))"
| "place_records E slots ((key, v) # entries) buffered index offset written_len =
     (case check_lengths key v of
        Inl e \<Rightarrow> (buffered, Inl e)
      | Inr _ \<Rightarrow>
          let buffered = buffered @ entry_bytes (key, v); h = xxh3_64 E key in
          (case probe_empty (Suc slots) slots index (h AND slot_mask slots) of
             Inl e \<Rightarrow> (buffered, Inl e)
           | Inr s \<Rightarrow>
               (case checked_add offset (8 + length key + length v) of
                  None \<Rightarrow> (buffered, Inl (invalid_input ''base is too large''))
                | Some offset' \<Rightarrow>
                    place_records E slots entries buffered (index[s := (fingerprint h, of_nat offset)])
                      offset' (Suc written_len))))"

definition slot_bytes :: "slot \<Rightarrow> bytes" where
  "slot_bytes s = u32_to_le_bytes (fst s) @ u64_to_le_bytes (snd s)"

definition base_header_bytes :: "nat \<Rightarrow> nat \<Rightarrow> bytes" where
  "base_header_bytes slots len =
     HASH_SECTION_ID @ u32_to_le_bytes (of_nat BASE_HEADER) @ u64_to_le_bytes (of_nat slots)
     @ u64_to_le_bytes (of_nat len)"

subsection \<open>Block checksums\<close>

function read_blocks :: "externs \<Rightarrow> 's store_ops \<Rightarrow> nat \<Rightarrow> ('s, failure, u32 list) io" where
  "read_blocks E ops remaining s =
     (if remaining = 0 then (Inr [], s)
      else
        let len = min remaining CHECKSUM_BLOCK_SIZE in
        case question (read_exact ops len) s of
          (Inl e, s') \<Rightarrow> (Inl e, s')
        | (Inr buffer, s') \<Rightarrow>
            (case read_blocks E ops (remaining - len) s' of
               (Inl e, s'') \<Rightarrow> (Inl e, s'')
             | (Inr checksums, s'') \<Rightarrow> (Inr (crc32c E buffer # checksums), s'')))"
  by pat_completeness auto
termination
  by (relation "measure (\<lambda>(E, ops, remaining, s). remaining)") (auto simp: min_def)

declare read_blocks.simps [simp del]

definition footer_bytes :: "nat \<Rightarrow> u32 \<Rightarrow> bytes" where
  "footer_bytes data_size table_crc =
     CHECKSUM_SECTION_ID @ u32_to_le_bytes (of_nat CHECKSUM_FOOTER_SIZE) @ u64_to_le_bytes (of_nat data_size)
     @ u32_to_le_bytes (of_nat CHECKSUM_BLOCK_SIZE) @ u32_to_le_bytes table_crc"

definition checksum_metadata :: "externs \<Rightarrow> nat \<Rightarrow> u32 list \<Rightarrow> bytes result" where
  "checksum_metadata E data_size checksums =
     and_then (ok_or (invalid_input ''checksum table is too large'') (checked_mul (length checksums) 4)) (\<lambda>table_size.
     and_then (ok_or (invalid_input ''checksum table is too large'') (checked_add table_size CHECKSUM_FOOTER_SIZE))
       (\<lambda>metadata_size.
     if \<not> try_reserve E metadata_size then Inl (invalid_input ''checksum table is too large'')
     else
       let table = concat (map u32_to_le_bytes checksums)
       in Inr (table @ footer_bytes data_size (crc32c E table))))"

record written_segment =
  segment_size :: nat
  segment_crc :: u32

definition append_block_checksums :: "externs \<Rightarrow> 's store_ops \<Rightarrow> nat \<Rightarrow> nat \<Rightarrow> ('s, failure, written_segment) io" where
  "append_block_checksums E ops start data_size =
     io_then (question (seek_start ops start)) (\<lambda>_.
     io_then (read_blocks E ops data_size) (\<lambda>checksums.
     io_then (io_lift (checksum_metadata E data_size checksums)) (\<lambda>metadata.
     io_then (question (seek_start ops (start + data_size))) (\<lambda>_.
     io_then (question (write_all ops metadata)) (\<lambda>_.
     io_then (io_lift (ok_or (invalid_input ''segment is too large'') (checked_add data_size (length metadata))))
       (\<lambda>total. io_return \<lparr>segment_size = total, segment_crc = crc32c E metadata\<rparr>))))))"

subsection \<open>The writer\<close>

record written_base =
  written_size :: nat
  written_slots :: nat
  written_len :: nat
  written_checksum :: u32

definition write_base_index :: "externs \<Rightarrow> 's store_ops \<Rightarrow> nat \<Rightarrow> nat \<Rightarrow> nat \<Rightarrow> slot list \<Rightarrow> nat
    \<Rightarrow> ('s, failure, written_base) io" where
  "write_base_index E ops start len slots index offset =
     io_then (question (seek_start ops start)) (\<lambda>_.
     io_then (question (write_all ops (base_header_bytes slots len
         @ (if slots > 0 then concat (map slot_bytes index) else [])))) (\<lambda>_.
     io_then (append_block_checksums E ops start (offset - start)) (\<lambda>w.
     io_return \<lparr>written_size = segment_size w, written_slots = slots, written_len = len,
       written_checksum = segment_crc w\<rparr>)))"

definition write_base_with_metadata_at :: "externs \<Rightarrow> 's store_ops \<Rightarrow> nat \<Rightarrow> nat \<Rightarrow> entry list
    \<Rightarrow> ('s, failure, written_base) io" where
  "write_base_with_metadata_at E ops start len entries =
     io_then (io_lift (base_slot_count len)) (\<lambda>slots.
     io_then (io_lift (ok_or (invalid_input ''base index is too large'') (checked_mul slots SLOT_SIZE))) (\<lambda>index_size.
     io_then (io_lift (ok_or (invalid_input ''base offset overflow'')
       (Option.bind (checked_add start BASE_HEADER) (\<lambda>n. checked_add n index_size)))) (\<lambda>first_record.
     io_then (question (seek_start ops first_record)) (\<lambda>_.
     case place_records E slots entries [] (replicate slots (0, 0)) first_record 0 of
       (buffered, Inl e) \<Rightarrow> (\<lambda>s. (Inl e, snd (write_all ops buffered s)))
     | (buffered, Inr (index, offset, observed)) \<Rightarrow>
         io_then (question (write_all ops buffered)) (\<lambda>_.
         if observed \<noteq> len then io_lift (Inl (invalid_input ''entry count changed while writing base''))
         else write_base_index E ops start len slots index offset)))))"

definition write_base_at :: "externs \<Rightarrow> 's store_ops \<Rightarrow> nat \<Rightarrow> nat \<Rightarrow> entry list \<Rightarrow> ('s, failure, nat) io" where
  "write_base_at E ops start len entries =
     io_then (write_base_with_metadata_at E ops start len entries) (\<lambda>w. io_return (written_size w))"

subsection \<open>Reading the layout\<close>

record segment_layout =
  layout_data :: bytes
  layout_checksums :: bytes

definition segment_layout_of :: "externs \<Rightarrow> bytes \<Rightarrow> segment_layout result" where
  "segment_layout_of E bs =
     (if length bs < CHECKSUM_FOOTER_SIZE then Inl (Err (invalid_base ''missing checksum footer''))
      else
      let footer = drop (length bs - CHECKSUM_FOOTER_SIZE) bs in
      and_then (index_range footer 0 4) (\<lambda>section.
      if section \<noteq> CHECKSUM_SECTION_ID then Inl (Err (invalid_base ''invalid checksum footer''))
      else
      and_then (u32_at footer 4) (\<lambda>footer_size.
      if unat footer_size \<noteq> CHECKSUM_FOOTER_SIZE then Inl (Err (invalid_base ''invalid checksum footer size''))
      else
      and_then (u64_at footer 8) (\<lambda>size_field.
      let data_size = unat size_field in
      and_then (u32_at footer 16) (\<lambda>block_size.
      if unat block_size \<noteq> CHECKSUM_BLOCK_SIZE then Inl (Err (invalid_base ''unsupported checksum block size''))
      else
      and_then (ok_or (Err (invalid_base ''checksum table overflow''))
        (checked_mul (div_ceil data_size CHECKSUM_BLOCK_SIZE) 4)) (\<lambda>checksum_size.
      if Option.bind (checked_add data_size checksum_size) (\<lambda>n. checked_add n CHECKSUM_FOOTER_SIZE)
         \<noteq> Some (length bs)
      then Inl (Err (invalid_base ''checksum layout does not match segment size''))
      else
      and_then (index_range bs data_size (data_size + checksum_size)) (\<lambda>checksums.
      and_then (u32_at footer 20) (\<lambda>table_crc.
      if crc32c E checksums \<noteq> table_crc then Inl (Err (corrupted_metadata ''checksum table CRC32C mismatch''))
      else
      and_then (index_range bs 0 data_size) (\<lambda>d.
      Inr \<lparr>layout_data = d, layout_checksums = checksums\<rparr>)))))))))"

text \<open>\<^verbatim>\<open>slice::chunks\<close>.\<close>

function chunks :: "nat \<Rightarrow> 'a list \<Rightarrow> 'a list list" where
  "chunks n xs = (if n = 0 \<or> xs = [] then [] else take n xs # chunks n (drop n xs))"
  by pat_completeness auto
termination
  by (relation "measure (\<lambda>(n, xs). length xs)") auto

declare chunks.simps [simp del]

fun verify_blocks :: "externs \<Rightarrow> bytes \<Rightarrow> nat \<Rightarrow> nat \<Rightarrow> bytes list \<Rightarrow> unit result" where
  "verify_blocks E checksums seg_offset index [] = Inr ()"
| "verify_blocks E checksums seg_offset index (block # blocks) =
     and_then (u32_at checksums (index * 4)) (\<lambda>expected.
     if crc32c E block \<noteq> expected then Inl (Err (corrupted_block seg_offset index))
     else verify_blocks E checksums seg_offset (Suc index) blocks)"

definition verify_segment_blocks :: "externs \<Rightarrow> segment_layout \<Rightarrow> nat \<Rightarrow> unit result" where
  "verify_segment_blocks E layout seg_offset =
     verify_blocks E (layout_checksums layout) seg_offset 0 (chunks CHECKSUM_BLOCK_SIZE (layout_data layout))"

definition segment_metadata_checksum :: "externs \<Rightarrow> bytes \<Rightarrow> u32 result" where
  "segment_metadata_checksum E bs =
     and_then (segment_layout_of E bs) (\<lambda>layout. Inr (crc32c E (drop (length (layout_data layout)) bs)))"

subsection \<open>Reading the header\<close>

definition records_start :: "nat \<Rightarrow> nat \<Rightarrow> nat result" where
  "records_start slots data_size =
     and_then (ok_or (Err (invalid_base ''hash index size overflow''))
       (Option.bind (checked_mul slots SLOT_SIZE) (\<lambda>n. checked_add BASE_HEADER n))) (\<lambda>start.
     if start > data_size then Inl (Err (invalid_base ''truncated hash index'')) else Inr start)"

definition read_base_header :: "bytes \<Rightarrow> (nat \<times> nat) result" where
  "read_base_header bs =
     (if length bs < BASE_HEADER then Inl (Err (from_io InvalidData ''invalid base file''))
      else
      and_then (index_range bs 0 4) (\<lambda>section.
      if section \<noteq> HASH_SECTION_ID then Inl (Err (from_io InvalidData ''invalid base file''))
      else
      and_then (u32_at bs 4) (\<lambda>header_size.
      if unat header_size \<noteq> BASE_HEADER then Inl (Err (from_io InvalidData ''invalid base header size''))
      else
      and_then (u64_at bs 8) (\<lambda>slots_field.
      and_then (u64_at bs 16) (\<lambda>len_field.
      let slots = unat slots_field; len = unat len_field in
      if slots \<noteq> 0 \<and> \<not> is_power_of_two slots then Inl (Err (from_io InvalidData ''invalid slot count''))
      else and_then (records_start slots (length bs)) (\<lambda>_. Inr (slots, len)))))))"

subsection \<open>Validating the whole base\<close>

text \<open>
  The two passes of \<^verbatim>\<open>validate_base\<close>: over the records, collecting the fingerprint of each record
  offset and the keys seen, and over the slots, collecting the offsets referenced.
\<close>

fun validate_records :: "externs \<Rightarrow> bytes \<Rightarrow> nat \<Rightarrow> nat \<Rightarrow> nat \<Rightarrow> (u64 \<rightharpoonup> u32) \<Rightarrow> bytes list
    \<Rightarrow> (nat \<times> (u64 \<rightharpoonup> u32)) result" where
  "validate_records E bs absolute_start 0 offset records keys = Inr (offset, records)"
| "validate_records E bs absolute_start (Suc n) offset records keys =
     and_then (ok_or (Err (invalid_base ''record overflow'')) (checked_add offset 8)) (\<lambda>header_end.
     if header_end > length bs then Inl (Err (invalid_base ''truncated record header''))
     else
     and_then (u32_at bs offset) (\<lambda>key_len.
     and_then (u32_at bs (offset + 4)) (\<lambda>value_len.
     and_then (ok_or (Err (invalid_base ''key length overflow'')) (checked_add header_end (unat key_len))) (\<lambda>value_start.
     and_then (ok_or (Err (invalid_base ''value length overflow'')) (checked_add value_start (unat value_len))) (\<lambda>record_end.
     if record_end > length bs then Inl (Err (invalid_base ''record extends beyond base''))
     else
     and_then (index_range bs header_end value_start) (\<lambda>key.
     if key \<in> set keys then Inl (Err (invalid_base ''duplicate key''))
     else
       validate_records E bs absolute_start n record_end
         (records(of_nat (absolute_start + offset) \<mapsto> fingerprint (xxh3_64 E key))) (key # keys)))))))"

fun validate_slots :: "bytes \<Rightarrow> (u64 \<rightharpoonup> u32) \<Rightarrow> nat list \<Rightarrow> u64 list \<Rightarrow> u64 list result" where
  "validate_slots bs records [] referenced = Inr referenced"
| "validate_slots bs records (s # rest) referenced =
     (let slot_offset = BASE_HEADER + s * SLOT_SIZE in
      and_then (u32_at bs slot_offset) (\<lambda>stored.
      and_then (u64_at bs (slot_offset + 4)) (\<lambda>record_offset.
      if record_offset = 0 then
        (if stored \<noteq> 0 then Inl (Err (invalid_base ''empty slot has a fingerprint''))
         else validate_slots bs records rest referenced)
      else if records record_offset \<noteq> Some stored
      then Inl (Err (invalid_base ''slot points outside base or has the wrong fingerprint''))
      else if record_offset \<in> set referenced
      then Inl (Err (invalid_base ''record is referenced by multiple slots''))
      else validate_slots bs records rest (record_offset # referenced))))"

definition validate_base :: "externs \<Rightarrow> bytes \<Rightarrow> nat \<Rightarrow> nat \<Rightarrow> nat \<Rightarrow> unit result" where
  "validate_base E bs absolute_start slots len =
     and_then (records_start slots (length bs)) (\<lambda>start.
     if len > saturating_sub (length bs) start div 8
     then Inl (Err (invalid_base ''entry count exceeds segment capacity''))
     else if \<not> try_reserve E len then Inl (Err (invalid_base ''record verification allocation failed''))
     else if \<not> try_reserve E len then Inl (Err (invalid_base ''key verification allocation failed''))
     else
     and_then (validate_records E bs absolute_start len start Map.empty []) (\<lambda>(offset, records).
     if offset \<noteq> length bs then Inl (Err (invalid_base ''unreferenced bytes at end of base''))
     else if \<not> try_reserve E len then Inl (Err (invalid_base ''index verification allocation failed''))
     else
     and_then (validate_slots bs records [0..<slots] []) (\<lambda>referenced.
     if length referenced \<noteq> len then Inl (Err (invalid_base ''record is missing from hash index''))
     else Inr ())))"

end
