(* ===== verification/Lkv_Index.thy ===== *)
theory Lkv_Index
  imports Lkv_Segment
begin

section \<open>The hash index of a base\<close>

text \<open>
  Open addressing with linear probing: the invariant of the index while the writer fills it, that
  every insertion finds an empty slot, and that a walk from the hash of a key reaches the record of
  that key before it reaches an empty slot.
\<close>

subsection \<open>Slot numbers\<close>

definition slots_ok :: "nat \<Rightarrow> bool" where
  "slots_ok slots \<longleftrightarrow> (\<exists>k < 64. slots = 2 ^ k)"

lemma slots_ok_pos: "slots_ok slots \<Longrightarrow> 0 < slots"
  by (auto simp: slots_ok_def)

lemma unat_and_slot_mask:
  assumes "slots_ok slots"
  shows "unat (w AND slot_mask slots) = unat w mod slots"
proof -
  from assms obtain k where k: "k < 64" "slots = 2 ^ k" by (auto simp: slots_ok_def)
  have "slot_mask slots = mask k" by (simp add: slot_mask_def k mask_eq_exp_minus_1)
  then have "unat (w AND slot_mask slots) = unat (take_bit k w)" by (simp add: take_bit_eq_mask)
  also have "\<dots> = take_bit k (unat w)" by (rule unsigned_take_bit_eq)
  finally show ?thesis by (simp only: take_bit_eq_mod k(2))
qed

lemma unat_add_and_slot_mask:
  assumes "slots_ok slots"
  shows "unat ((w + of_nat i) AND slot_mask slots) = (unat w + i) mod slots"
proof -
  from assms obtain k where k: "k < 64" "slots = 2 ^ k" by (auto simp: slots_ok_def)
  then have dvd: "slots dvd 2 ^ 64" by (simp only: k(2)) (rule le_imp_power_dvd, simp)
  have "unat (w + of_nat i) = (unat w + i) mod 2 ^ 64"
    by (simp add: unat_word_ariths unat_of_nat mod_add_right_eq)
  then have "unat (w + of_nat i) mod slots = (unat w + i) mod slots"
    using dvd by (simp add: mod_mod_cancel)
  then show ?thesis by (simp add: unat_and_slot_mask [OF assms])
qed

text \<open>The load factor: a base of \<open>len\<close> entries has at least \<open>5/4 len\<close> slots, a power of two.\<close>

lemma base_slot_count_Inr:
  assumes "base_slot_count len = Inr slots" and "len \<noteq> 0"
  shows "slots_ok slots" and "5 * len \<le> 4 * slots" and "len < slots" and "slots < usize_limit"
proof -
  from assms have "checked_next_power_of_two (div_ceil (len * 5) 4) = Some slots"
    by (auto simp: base_slot_count_def result_simps bind_eq_Some_conv)
  note facts = checked_next_power_of_two_SomeD [OF this]
  from facts(1) obtain k where k: "slots = 2 ^ k" by blast
  with facts(3) have "(2 :: nat) ^ k < 2 ^ 64" by (simp only: usize_limit_def)
  then have "k < 64" by (rule power_less_imp_less_exp [rotated]) simp
  with k show "slots_ok slots" by (auto simp: slots_ok_def)
  show "5 * len \<le> 4 * slots" using facts(2) div_ceil_bounds(1) [of 4 "len * 5"] by simp
  with assms(2) show "len < slots" by simp
  show "slots < usize_limit" by (rule facts(3))
qed

lemma base_slot_count_0 [simp]: "base_slot_count 0 = Inr 0"
  by (simp add: base_slot_count_def)

subsection \<open>Searching for an empty slot\<close>

abbreviation occupied :: "slot list \<Rightarrow> nat \<Rightarrow> bool" where
  "occupied index p \<equiv> snd (index ! p) \<noteq> 0"

lemma probe_empty_from:
  assumes "slots_ok slots" and "length index = slots" and "i \<le> j"
    and "\<forall>m < j. occupied index ((unat h + m) mod slots)" and "\<not> occupied index ((unat h + j) mod slots)"
    and "j - i < fuel"
  shows "probe_empty fuel slots index ((h + of_nat i) AND slot_mask slots) = Inr ((unat h + j) mod slots)"
  using assms(3,6)
proof (induction fuel arbitrary: i)
  case 0
  then show ?case by simp
next
  case (Suc fuel)
  let ?s = "(h + of_nat i) AND slot_mask slots"
  have s: "unat ?s = (unat h + i) mod slots" by (rule unat_add_and_slot_mask [OF assms(1)])
  then have lt: "unat ?s < length index" using assms(2) slots_ok_pos [OF assms(1)] by simp
  show ?case
  proof (cases "i = j")
    case True
    with s lt assms(5) show ?thesis by simp
  next
    case False
    have "unat ((?s + 1) AND slot_mask slots) = unat ((h + of_nat (Suc i)) AND slot_mask slots)"
      using unat_add_and_slot_mask [OF assms(1), of ?s 1] unat_add_and_slot_mask [OF assms(1), of h "Suc i"] s
      by (simp add: mod_Suc_eq)
    then have "(?s + 1) AND slot_mask slots = (h + of_nat (Suc i)) AND slot_mask slots"
      by (simp add: word_unat_eq_iff)
    moreover have "occupied index (unat ?s)" using False Suc.prems assms(4) s by simp
    ultimately show ?thesis using lt Suc.IH [of "Suc i"] Suc.prems False by simp
  qed
qed

lemma probe_empty_finds:
  assumes "slots_ok slots" and "length index = slots" and "e < slots" and "\<not> occupied index e"
  obtains j where "j < slots"
    and "probe_empty (Suc slots) slots index (h AND slot_mask slots) = Inr ((unat h + j) mod slots)"
    and "\<not> occupied index ((unat h + j) mod slots)"
    and "\<forall>m < j. occupied index ((unat h + m) mod slots)"
proof -
  let ?P = "\<lambda>j. \<not> occupied index ((unat h + j) mod slots)"
  define d where "d = (e + slots - unat h mod slots) mod slots"
  have "(unat h + d) mod slots = (unat h mod slots + (e + slots - unat h mod slots)) mod slots"
    by (simp only: d_def mod_add_right_eq mod_add_left_eq)
  also have "\<dots> = e"
  proof -
    have "unat h mod slots < slots" using assms(3) by simp
    then have "unat h mod slots + (e + slots - unat h mod slots) = e + slots" by simp
    with assms(3) show ?thesis by simp
  qed
  finally have "?P d" using assms(4) by simp
  moreover have "d < slots" using assms(3) by (simp add: d_def)
  ultimately have j: "?P (Least ?P)" "Least ?P < slots"
    using LeastI [of ?P d] Least_le [of ?P d] by auto
  have before: "\<forall>m < Least ?P. occupied index ((unat h + m) mod slots)" using not_less_Least by blast
  have "probe_empty (Suc slots) slots index ((h + of_nat 0) AND slot_mask slots) = Inr ((unat h + Least ?P) mod slots)"
    by (rule probe_empty_from [OF assms(1,2)]) (use j before in auto)
  with j before show thesis by (intro that [of "Least ?P"]) simp_all
qed

subsection \<open>The invariant\<close>

definition slot_of :: "externs \<Rightarrow> bytes \<times> nat \<Rightarrow> slot" where
  "slot_of E r = (fingerprint (xxh3_64 E (fst r)), of_nat (snd r))"

definition reaches :: "externs \<Rightarrow> nat \<Rightarrow> slot list \<Rightarrow> bytes \<times> nat \<Rightarrow> bool" where
  "reaches E slots index r \<longleftrightarrow>
     (\<exists>j < slots. index ! ((unat (xxh3_64 E (fst r)) + j) mod slots) = slot_of E r
        \<and> (\<forall>m < j. occupied index ((unat (xxh3_64 E (fst r)) + m) mod slots)))"

definition index_ok :: "externs \<Rightarrow> nat \<Rightarrow> slot list \<Rightarrow> (bytes \<times> nat) list \<Rightarrow> bool" where
  "index_ok E slots index placed \<longleftrightarrow>
     length index = slots \<and> distinct (map snd placed)
     \<and> (\<forall>r \<in> set placed. 0 < snd r \<and> snd r < usize_limit \<and> reaches E slots index r)
     \<and> (\<forall>p < slots. index ! p = (0, 0) \<or> index ! p \<in> slot_of E ` set placed)
     \<and> card {p. p < slots \<and> occupied index p} = length placed"

lemma slot_of_occupied: "0 < snd r \<Longrightarrow> snd r < usize_limit \<Longrightarrow> snd (slot_of E r) \<noteq> 0"
  using unat_of_nat_u64 [of "snd r"] by (auto simp: slot_of_def)

lemma index_ok_empty: "index_ok E slots (replicate slots (0, 0)) []"
  by (simp add: index_ok_def)

lemma index_ok_insert:
  assumes "slots_ok slots" and ok: "index_ok E slots index placed" and "length placed < slots"
    and fresh: "off \<notin> snd ` set placed" and off: "0 < off" "off < usize_limit"
  obtains p where "probe_empty (Suc slots) slots index (xxh3_64 E key AND slot_mask slots) = Inr p"
    and "index_ok E slots (index[p := slot_of E (key, off)]) (placed @ [(key, off)])"
proof -
  let ?h = "xxh3_64 E key" and ?occ = "{p. p < slots \<and> occupied index p}"
  from ok have len: "length index = slots" and card: "card ?occ = length placed" by (simp_all add: index_ok_def)
  have "\<exists>e < slots. \<not> occupied index e"
  proof (rule ccontr)
    assume "\<not> (\<exists>e < slots. \<not> occupied index e)"
    then have "?occ = {..<slots}" by blast
    with card have "length placed = slots" by (metis card_lessThan)
    with assms(3) show False by simp
  qed
  then obtain e where "e < slots" "\<not> occupied index e" by blast
  from probe_empty_finds [OF assms(1) len this, of ?h] obtain j where
    j: "j < slots" "probe_empty (Suc slots) slots index (?h AND slot_mask slots) = Inr ((unat ?h + j) mod slots)"
      "\<not> occupied index ((unat ?h + j) mod slots)" "\<forall>m < j. occupied index ((unat ?h + m) mod slots)"
    by blast
  let ?p = "(unat ?h + j) mod slots" and ?s = "slot_of E (key, off)"
  let ?index = "index[?p := ?s]"
  have p: "?p < slots" using j(1) by simp
  have s: "snd ?s \<noteq> 0" using slot_of_occupied [of "(key, off)" E] off by simp
  have keep: "occupied ?index q" if "occupied index q" for q
    using that s by (cases "q = ?p") (simp_all add: p len)
  have same: "?index ! q = index ! q" if "occupied index q" for q
    using that j(3) by (cases "q = ?p") simp_all
  have "reaches E slots ?index r" if "r \<in> set placed" for r
  proof -
    from ok that obtain i where i: "i < slots" "index ! ((unat (xxh3_64 E (fst r)) + i) mod slots) = slot_of E r"
      "\<forall>m < i. occupied index ((unat (xxh3_64 E (fst r)) + m) mod slots)" "snd (slot_of E r) \<noteq> 0"
      using slot_of_occupied by (auto simp: index_ok_def reaches_def)
    then have "?index ! ((unat (xxh3_64 E (fst r)) + i) mod slots) = slot_of E r"
      using same [of "(unat (xxh3_64 E (fst r)) + i) mod slots"] by simp
    with i keep show ?thesis unfolding reaches_def by blast
  qed
  moreover have "reaches E slots ?index (key, off)"
    unfolding reaches_def using j keep p len by (intro exI [of _ j]) simp
  moreover have "{q. q < slots \<and> occupied ?index q} = insert ?p ?occ"
    using p len s j(3) by (auto simp: nth_list_update)
  then have "card {q. q < slots \<and> occupied ?index q} = Suc (length placed)"
    using card j(3) by (simp add: card_insert_if)
  moreover have "?index ! q = (0, 0) \<or> ?index ! q \<in> slot_of E ` set (placed @ [(key, off)])" if "q < slots" for q
    using ok that by (cases "q = ?p") (auto simp: index_ok_def p)
  ultimately have "index_ok E slots ?index (placed @ [(key, off)])"
    using ok fresh off by (auto simp: index_ok_def)
  with j(2) show thesis by (rule that)
qed

text \<open>Every record is in exactly one slot.\<close>

lemma index_ok_unique:
  assumes "index_ok E slots index placed" and "p < slots" and "q < slots"
    and "occupied index p" and "snd (index ! p) = snd (index ! q)"
  shows "p = q"
proof -
  let ?occ = "{p. p < slots \<and> occupied index p}" and ?f = "\<lambda>p. unat (snd (index ! p))"
  from assms(1) have d: "distinct (map snd placed)" and card: "card ?occ = length placed"
    and r: "\<forall>r \<in> set placed. 0 < snd r \<and> snd r < usize_limit \<and> reaches E slots index r"
    by (simp_all add: index_ok_def)
  have "snd ` set placed \<subseteq> ?f ` ?occ"
  proof
    fix off
    assume "off \<in> snd ` set placed"
    then obtain key where rec: "(key, off) \<in> set placed" by auto
    with r obtain j where "j < slots" "index ! ((unat (xxh3_64 E key) + j) mod slots) = slot_of E (key, off)"
      by (fastforce simp: reaches_def)
    moreover from rec r have "0 < off" "off < usize_limit" by fastforce+
    ultimately show "off \<in> ?f ` ?occ"
      using slot_of_occupied [of "(key, off)" E] unat_of_nat_u64 [of off]
      by (intro image_eqI [of _ _ "(unat (xxh3_64 E key) + j) mod slots"]) (auto simp: slot_of_def)
  qed
  then have "card (snd ` set placed) \<le> card (?f ` ?occ)" by (intro card_mono) simp_all
  moreover have "card (snd ` set placed) = length placed"
    using d by (metis distinct_card length_map set_map)
  moreover have "card (?f ` ?occ) \<le> card ?occ" by (intro card_image_le) simp
  ultimately have "inj_on ?f ?occ" using card by (intro eq_card_imp_inj_on) simp_all
  then show ?thesis by (rule inj_onD) (use assms(2-5) in simp_all)
qed

subsection \<open>Placing the records\<close>

definition base_records :: "entry list \<Rightarrow> bytes" where
  "base_records entries = concat (map entry_bytes entries)"

fun record_offsets :: "nat \<Rightarrow> entry list \<Rightarrow> (bytes \<times> nat) list" where
  "record_offsets off [] = []"
| "record_offsets off ((key, v) # entries) = (key, off) # record_offsets (off + 8 + length key + length v) entries"

definition entries_ok :: "entry list \<Rightarrow> bool" where
  "entries_ok entries \<longleftrightarrow> (\<forall>(key, v) \<in> set entries. length key \<le> MAX_KEY_SIZE \<and> length v \<le> MAX_VALUE_SIZE)"

lemma length_entry_bytes: "length (entry_bytes (key, v)) = 8 + length key + length v"
  by (simp add: entry_bytes.simps)

lemma base_records_simps [simp]:
  "base_records [] = []"
  "base_records (e # entries) = entry_bytes e @ base_records entries"
  "base_records (entries @ entries') = base_records entries @ base_records entries'"
  by (simp_all add: base_records_def)

lemma length_record_offsets [simp]: "length (record_offsets off entries) = length entries"
  by (induction off entries rule: record_offsets.induct) simp_all

lemma record_offsets_bounds:
  "r \<in> set (record_offsets off entries) \<Longrightarrow> off \<le> snd r \<and> snd r < off + length (base_records entries)"
  by (induction off entries rule: record_offsets.induct) (force simp: length_entry_bytes)+

lemma map_fst_record_offsets: "map fst (record_offsets off entries) = map fst entries"
  by (induction off entries rule: record_offsets.induct) simp_all

lemma place_records_ok:
  assumes "slots_ok slots" and "entries_ok entries" and "index_ok E slots index placed"
    and "length placed + length entries \<le> slots" and "\<forall>r \<in> set placed. snd r < offset" and "0 < offset"
    and "offset + length (base_records entries) < usize_limit"
  shows "\<exists>index'. place_records E slots entries buffered index offset n =
      (buffered @ base_records entries, Inr (index', offset + length (base_records entries), n + length entries))
    \<and> index_ok E slots index' (placed @ record_offsets offset entries)"
  using assms(2-)
proof (induction entries arbitrary: buffered index offset n placed)
  case Nil
  then show ?case by simp
next
  case (Cons e entries)
  obtain key v where e: "e = (key, v)" by fastforce
  let ?next = "offset + 8 + length key + length v"
  have bound: "?next + length (base_records entries) < usize_limit"
    using Cons.prems(6) by (simp add: e length_entry_bytes)
  from Cons.prems obtain p where
    probe: "probe_empty (Suc slots) slots index (xxh3_64 E key AND slot_mask slots) = Inr p"
    and ok: "index_ok E slots (index[p := slot_of E (key, offset)]) (placed @ [(key, offset)])"
    using index_ok_insert [OF assms(1) Cons.prems(2), of offset key] bound by force
  let ?buffered = "buffered @ entry_bytes (key, v)"
  have e1: "entries_ok entries" using Cons.prems(1) by (simp add: entries_ok_def)
  have e2: "length (placed @ [(key, offset)]) + length entries \<le> slots" using Cons.prems(3) by simp
  have e3: "\<forall>r \<in> set (placed @ [(key, offset)]). snd r < ?next" using Cons.prems(4) by fastforce
  have e4: "0 < ?next" by simp
  from Cons.IH [OF e1 ok e2 e3 e4 bound, of ?buffered "Suc n"] obtain index' where
    rest: "place_records E slots entries ?buffered (index[p := slot_of E (key, offset)]) ?next (Suc n) =
      (?buffered @ base_records entries, Inr (index', ?next + length (base_records entries), Suc n + length entries))"
    and ok': "index_ok E slots index' ((placed @ [(key, offset)]) @ record_offsets ?next entries)"
    by (elim exE conjE) (rule that)
  have "check_lengths key v = Inr ()" using Cons.prems(1) by (simp add: e entries_ok_def check_lengths_def)
  moreover have "checked_add offset (8 + length key + length v) = Some ?next"
    using bound by (simp add: checked_add_def)
  ultimately have "place_records E slots (e # entries) buffered index offset n =
      (?buffered @ base_records entries, Inr (index', ?next + length (base_records entries), Suc n + length entries))"
    using probe rest by (simp add: e slot_of_def)
  with ok' show ?case
    by (intro exI [of _ index']) (simp add: e length_entry_bytes add.assoc)
qed

end
