(* ===== verification/Lkv_Segment_Correct.thy ===== *)
theory Lkv_Segment_Correct
  imports Lkv_Index
begin

section \<open>Base segments: what is written and what is read\<close>

text \<open>
  The bytes of a segment as a function of its entries, that the writer produces exactly these on
  every store, that the measuring pass predicts their number, and that every reader accepts them.
\<close>

subsection \<open>Composing writes\<close>

lemma nth_write_at:
  assumes "i < max (length img) (p + length bs)"
  shows "write_at p bs img ! i =
    (if i < p then (if i < length img then img ! i else 0) else if i < p + length bs then bs ! (i - p) else img ! i)"
  using assms by (auto simp: write_at_def nth_append min_def)

lemma write_at_append: "write_at (p + length a) b (write_at p a img) = write_at p (a @ b) img"
  by (rule nth_equalityI) (auto simp: nth_write_at nth_append)

lemma write_at_before: "write_at p a (write_at (p + length a) b img) = write_at p (a @ b) img"
  by (rule nth_equalityI) (auto simp: nth_write_at nth_append)

subsection \<open>The bytes of a segment\<close>

definition base_index :: "externs \<Rightarrow> nat \<Rightarrow> nat \<Rightarrow> entry list \<Rightarrow> slot list" where
  "base_index E slots first entries =
     (case place_records E slots entries [] (replicate slots (0, 0)) first 0 of
        (buffered, Inr (index, offset, n)) \<Rightarrow> index
      | (buffered, Inl e) \<Rightarrow> [])"

definition base_data :: "externs \<Rightarrow> nat \<Rightarrow> nat \<Rightarrow> entry list \<Rightarrow> bytes" where
  "base_data E start slots entries =
     base_header_bytes slots (length entries)
     @ concat (map slot_bytes (base_index E slots (start + 24 + 12 * slots) entries)) @ base_records entries"

definition segment_table :: "externs \<Rightarrow> bytes \<Rightarrow> bytes" where
  "segment_table E d = concat (map u32_to_le_bytes (map (crc32c E) (chunks 65536 d)))"

definition segment_metadata :: "externs \<Rightarrow> bytes \<Rightarrow> bytes" where
  "segment_metadata E d = segment_table E d @ footer_bytes (length d) (crc32c E (segment_table E d))"

definition segment_bytes :: "externs \<Rightarrow> nat \<Rightarrow> nat \<Rightarrow> entry list \<Rightarrow> bytes" where
  "segment_bytes E start slots entries =
     base_data E start slots entries @ segment_metadata E (base_data E start slots entries)"

text \<open>
  When a base can be written: the entries keep the limits of the format, the slot count exists, the
  segment ends below the limit of a file offset, and the small table of checksums can be allocated.
\<close>

definition data_length :: "nat \<Rightarrow> entry list \<Rightarrow> nat" where
  "data_length slots entries = 24 + 12 * slots + length (base_records entries)"

definition segment_length :: "nat \<Rightarrow> entry list \<Rightarrow> nat" where
  "segment_length slots entries =
     data_length slots entries + 4 * div_ceil (data_length slots entries) 65536 + 24"

definition base_fits :: "externs \<Rightarrow> nat \<Rightarrow> nat \<Rightarrow> entry list \<Rightarrow> bool" where
  "base_fits E start slots entries \<longleftrightarrow>
     base_slot_count (length entries) = Inr slots \<and> entries_ok entries \<and> (\<forall>n. try_reserve E n)
     \<and> start + segment_length slots entries < usize_limit"

lemma length_base_header_bytes [simp]: "length (base_header_bytes slots len) = 24"
  by (simp add: base_header_bytes_def HASH_SECTION_ID_def)

lemma length_slot_bytes [simp]: "length (slot_bytes s) = 12"
  by (simp add: slot_bytes_def)

lemma length_concat_slot_bytes [simp]: "length (concat (map slot_bytes index)) = 12 * length index"
  by (induction index) simp_all

lemma length_footer_bytes [simp]: "length (footer_bytes n c) = 24"
  by (simp add: footer_bytes_def CHECKSUM_SECTION_ID_def)

lemma length_concat_u32 [simp]: "length (concat (map u32_to_le_bytes cs)) = 4 * length cs"
  by (induction cs) simp_all

lemma div_ceil_step: "0 < n \<Longrightarrow> 0 < m \<Longrightarrow> div_ceil m n = Suc (div_ceil (m - n) n)"
proof -
  assume n: "0 < n" and m: "0 < m"
  show ?thesis
  proof (cases "m < n")
    case True
    with m show ?thesis by (simp add: div_ceil_def)
  next
    case False
    then show ?thesis using n by (simp add: div_ceil_def le_mod_geq le_div_geq)
  qed
qed

lemma length_chunks: "0 < n \<Longrightarrow> length (chunks n xs) = div_ceil (length xs) n"
proof (induction n xs rule: chunks.induct)
  case (1 n xs)
  show ?case
  proof (cases "xs = []")
    case True
    then show ?thesis by (subst chunks.simps) (simp add: div_ceil_def)
  next
    case False
    with 1 show ?thesis by (subst chunks.simps) (simp add: div_ceil_step)
  qed
qed

lemma length_segment_table: "length (segment_table E d) = 4 * div_ceil (length d) 65536"
  by (simp add: segment_table_def length_chunks del: map_map)

lemma length_segment_metadata: "length (segment_metadata E d) = 4 * div_ceil (length d) 65536 + 24"
  by (simp add: segment_metadata_def length_segment_table)

text \<open>The index of a base that fits satisfies the invariant of the hash index.\<close>

lemma base_index_ok:
  assumes "base_slot_count (length entries) = Inr slots" and "entries_ok entries"
    and "first + length (base_records entries) < usize_limit" and "0 < first"
  shows "place_records E slots entries [] (replicate slots (0, 0)) first 0 =
      (base_records entries, Inr (base_index E slots first entries, first + length (base_records entries), length entries))"
    and "index_ok E slots (base_index E slots first entries) (record_offsets first entries)"
proof -
  have "\<exists>index'. place_records E slots entries [] (replicate slots (0, 0)) first 0 =
      (base_records entries, Inr (index', first + length (base_records entries), length entries))
    \<and> index_ok E slots index' (record_offsets first entries)"
  proof (cases "entries = []")
    case True
    with assms(1) show ?thesis using index_ok_empty [of E slots] by simp
  next
    case False
    from base_slot_count_Inr [OF assms(1)] False
      place_records_ok [of slots entries E "replicate slots (0, 0)" "[]" first "[]" 0] index_ok_empty assms(2-)
    show ?thesis by simp
  qed
  then obtain index' where *: "place_records E slots entries [] (replicate slots (0, 0)) first 0 =
      (base_records entries, Inr (index', first + length (base_records entries), length entries))"
    "index_ok E slots index' (record_offsets first entries)" by blast
  then have "base_index E slots first entries = index'" by (simp add: base_index_def)
  with * show "place_records E slots entries [] (replicate slots (0, 0)) first 0 =
      (base_records entries, Inr (base_index E slots first entries, first + length (base_records entries), length entries))"
    and "index_ok E slots (base_index E slots first entries) (record_offsets first entries)"
    by simp_all
qed

lemma base_fits_facts:
  assumes "base_fits E start slots entries"
  defines "first \<equiv> start + 24 + 12 * slots"
  shows "index_ok E slots (base_index E slots first entries) (record_offsets first entries)"
    and "place_records E slots entries [] (replicate slots (0, 0)) first 0 =
      (base_records entries, Inr (base_index E slots first entries, first + length (base_records entries), length entries))"
    and "length (base_data E start slots entries) = data_length slots entries"
    and "length (segment_bytes E start slots entries) = segment_length slots entries"
proof -
  have bounds: "base_slot_count (length entries) = Inr slots" "entries_ok entries"
    "first + length (base_records entries) < usize_limit" "0 < first"
    using assms by (auto simp: base_fits_def segment_length_def data_length_def)
  note index = base_index_ok [OF bounds, of E]
  show "index_ok E slots (base_index E slots first entries) (record_offsets first entries)"
    and "place_records E slots entries [] (replicate slots (0, 0)) first 0 =
      (base_records entries, Inr (base_index E slots first entries, first + length (base_records entries), length entries))"
    by (rule index)+
  show *: "length (base_data E start slots entries) = data_length slots entries"
    using index(2) by (simp add: base_data_def index_ok_def first_def data_length_def)
  then show "length (segment_bytes E start slots entries) = segment_length slots entries"
    by (simp add: segment_bytes_def length_segment_metadata segment_length_def)
qed

subsection \<open>The measuring pass\<close>

lemma measure_records_eq:
  assumes "observed + length entries < usize_limit" and "acc + length (base_records entries) < usize_limit"
  shows "measure_records entries observed acc = Inr (observed + length entries, acc + length (base_records entries))"
  using assms
proof (induction entries arbitrary: observed acc)
  case Nil
  then show ?case by simp
next
  case (Cons e entries)
  obtain key v where e: "e = (key, v)" by fastforce
  from Cons.prems have "checked_add observed 1 = Some (Suc observed)"
    and "checked_add acc 8 = Some (acc + 8)"
    and "checked_add (acc + 8) (length key) = Some (acc + 8 + length key)"
    and "checked_add (acc + 8 + length key) (length v) = Some (acc + 8 + length key + length v)"
    by (simp_all add: checked_add_def e length_entry_bytes)
  with Cons.IH [of "Suc observed" "acc + 8 + length key + length v"] Cons.prems show ?case
    by (simp add: e length_entry_bytes add.assoc)
qed

lemma length_entries_le: "8 * length entries \<le> length (base_records entries)"
  by (induction entries) (auto simp: length_entry_bytes)

theorem measure_base_iter_eq:
  assumes "base_fits E start slots entries"
  shows "measure_base_iter entries = Inr (length entries, segment_length slots entries)"
proof -
  let ?d = "data_length slots entries"
  from assms have b: "base_slot_count (length entries) = Inr slots"
    "?d + (4 * div_ceil ?d 65536 + 24) < usize_limit"
    by (simp_all add: base_fits_def segment_length_def add.assoc)
  have "measure_records entries 0 24 = Inr (length entries, 24 + length (base_records entries))"
    using measure_records_eq [of 0 entries 24] length_entries_le [of entries] b(2) by (simp add: data_length_def)
  moreover have "checked_mul slots 12 = Some (12 * slots)"
    "checked_add (24 + length (base_records entries)) (12 * slots) = Some ?d"
    "checked_mul (div_ceil ?d 65536) 4 = Some (4 * div_ceil ?d 65536)"
    "checked_add (4 * div_ceil ?d 65536) 24 = Some (4 * div_ceil ?d 65536 + 24)"
    "checked_add ?d (4 * div_ceil ?d 65536 + 24) = Some (segment_length slots entries)"
    using b(2) by (simp_all add: checked_mul_def checked_add_def data_length_def segment_length_def)
  ultimately show ?thesis using b(1) by (simp add: measure_base_iter_def)
qed

subsection \<open>The writer on every linear store\<close>

lemma chunks_range:
  assumes "0 < n" and "p + n \<le> length xs"
  shows "chunks 65536 (range_of p (p + n) xs) =
    range_of p (p + min n 65536) xs # chunks 65536 (range_of (p + min n 65536) (p + n) xs)"
proof -
  have "range_of p (p + n) xs \<noteq> []" using assms by (simp add: range_of_def)
  then show ?thesis
    by (subst chunks.simps) (simp add: range_of_def drop_take min_def add.commute)
qed

context store
begin

lemma read_blocks_image:
  assumes "quiet s" and "position s + n \<le> length (image s)"
  shows "\<exists>s'. read_blocks E ops n s =
      (Inr (map (crc32c E) (chunks 65536 (range_of (position s) (position s + n) (image s)))), s')
    \<and> image s' = image s \<and> quiet s' \<and> seek_ok s' = seek_ok s \<and> write_ok s' = write_ok s"
  using assms
proof (induction n arbitrary: s rule: less_induct)
  case (less n)
  show ?case
  proof (cases "n = 0")
    case True
    with less.prems show ?thesis by (subst read_blocks.simps, subst chunks.simps) (auto simp: range_of_def)
  next
    case False
    let ?len = "min n 65536" and ?p = "position s"
    from less.prems have "?p + ?len \<le> length (image s)" by simp
    from read_law [OF less.prems(1) this] obtain s1 where
      s1: "read_exact ops ?len s = (Inr (range_of ?p (?p + ?len) (image s)), s1)" "image s1 = image s"
        "position s1 = ?p + ?len" "quiet s1" "seek_ok s1 = seek_ok s" "write_ok s1 = write_ok s"
      by blast
    have "n - ?len < n" "position s1 + (n - ?len) \<le> length (image s1)" using False less.prems s1 by auto
    from less.IH [OF this(1) s1(4) this(2)] obtain s2 where
      "read_blocks E ops (n - ?len) s1 =
        (Inr (map (crc32c E) (chunks 65536 (range_of (?p + ?len) (?p + n) (image s)))), s2)"
      "image s2 = image s" "quiet s2" "seek_ok s2 = seek_ok s" "write_ok s2 = write_ok s"
      using s1 by auto
    with False s1(1) chunks_range [of n ?p "image s"] less.prems show ?thesis
      by (subst read_blocks.simps) (simp add: Let_def)
  qed
qed

end

lemma checksum_metadata_eq:
  assumes "\<forall>n. try_reserve E n" and "length d + length (segment_metadata E d) < usize_limit"
  shows "checksum_metadata E (length d) (map (crc32c E) (chunks 65536 d)) = Inr (segment_metadata E d)"
proof -
  let ?n = "div_ceil (length d) 65536"
  have "checked_mul ?n 4 = Some (4 * ?n)" "checked_add (4 * ?n) 24 = Some (4 * ?n + 24)"
    using assms(2) by (simp_all add: checked_mul_def checked_add_def length_segment_metadata)
  then show ?thesis
    using assms(1)
    by (simp add: checksum_metadata_def length_chunks Let_def segment_metadata_def segment_table_def del: map_map)
qed

context linear_store
begin

lemma seek_to:
  assumes "quiet s" and "origin \<le> n" and "n < usize_limit"
  obtains s' where "seek_start ops n s = (Inr n, s')" and "image s' = image s" and "position s' = n" and "quiet s'"
  using seek_law [OF assms(1), of n] assms(2,3) seek_ok by blast

lemma write_here:
  assumes "quiet s" and "position s = p" and "origin \<le> p"
  obtains s' where "write_all ops bs s = (Inr (), s')" and "quiet s'"
    and "image s' = (if bs = [] then image s else write_at p bs (image s))"
  using write_law [OF assms(1), of bs] write_Nil_law [of s] assms write_ok by (cases "bs = []") auto

lemma append_block_checksums_image:
  assumes "quiet s" and "origin \<le> start" and img: "image s = write_at start d img"
    and "\<forall>n. try_reserve E n" and "start + length d + length (segment_metadata E d) < usize_limit"
  obtains s' where "append_block_checksums E ops start (length d) s =
      (Inr \<lparr>segment_size = length d + length (segment_metadata E d), segment_crc = crc32c E (segment_metadata E d)\<rparr>, s')"
    and "image s' = write_at start (d @ segment_metadata E d) img" and "quiet s'"
proof -
  have lt: "start < usize_limit" "start + length d < usize_limit" using assms(5) by simp_all
  obtain s1 where s1: "seek_start ops start s = (Inr start, s1)" "image s1 = image s" "position s1 = start" "quiet s1"
    using seek_to [OF assms(1,2) lt(1)] .
  have "range_of start (start + length d) (image s1) = d"
    using range_of_write_at_same [of start d img] s1 img by simp
  then obtain s2 where s2: "read_blocks E ops (length d) s1 = (Inr (map (crc32c E) (chunks 65536 d)), s2)"
    "image s2 = image s" "quiet s2"
    using read_blocks_image [OF s1(4), of "length d" E] s1 img by auto
  have meta: "checksum_metadata E (length d) (map (crc32c E) (chunks 65536 d)) = Inr (segment_metadata E d)"
    using assms(4,5) by (intro checksum_metadata_eq) simp_all
  obtain s3 where s3: "seek_start ops (start + length d) s2 = (Inr (start + length d), s3)" "image s3 = image s"
    "position s3 = start + length d" "quiet s3"
    using seek_to [OF s2(3) _ lt(2)] assms(2) s2(2) by auto
  have "segment_metadata E d \<noteq> []" using length_segment_metadata [of E d] by fastforce
  moreover have "origin \<le> start + length d" using assms(2) by simp
  ultimately obtain s4 where s4: "write_all ops (segment_metadata E d) s3 = (Inr (), s4)" "quiet s4"
    "image s4 = write_at (start + length d) (segment_metadata E d) (write_at start d img)"
    using write_here [OF s3(4,3), of "segment_metadata E d"] s3(2) img by auto
  have "checked_add (length d) (length (segment_metadata E d)) = Some (length d + length (segment_metadata E d))"
    using assms(5) by (simp add: checked_add_def)
  with s1 s2 meta s3 s4 have "append_block_checksums E ops start (length d) s =
      (Inr \<lparr>segment_size = length d + length (segment_metadata E d), segment_crc = crc32c E (segment_metadata E d)\<rparr>, s4)"
    by (simp add: append_block_checksums_def)
  moreover have "image s4 = write_at start (d @ segment_metadata E d) img"
    using s4(3) write_at_append by simp
  ultimately show thesis using s4(2) that by blast
qed

lemma write_base_image:
  assumes "quiet s" and "origin \<le> start" and fits: "base_fits E start slots entries"
  obtains s' where "write_base_with_metadata_at E ops start (length entries) entries s =
      (Inr \<lparr>written_size = segment_length slots entries, written_slots = slots, written_len = length entries,
        written_checksum = crc32c E (segment_metadata E (base_data E start slots entries))\<rparr>, s')"
    and "image s' = write_at start (segment_bytes E start slots entries) (image s)" and "quiet s'"
proof -
  let ?first = "start + 24 + 12 * slots" and ?records = "base_records entries"
  let ?index = "base_index E slots ?first entries" and ?d = "base_data E start slots entries"
  let ?head = "base_header_bytes slots (length entries) @ concat (map slot_bytes ?index)"
  note facts = base_fits_facts [OF fits]
  from fits have b: "base_slot_count (length entries) = Inr slots" "\<forall>n. try_reserve E n"
    "start + segment_length slots entries < usize_limit" by (simp_all add: base_fits_def)
  have len: "length ?head = 24 + 12 * slots" using facts(1) by (simp add: index_ok_def)
  have sizes: "checked_mul slots 12 = Some (12 * slots)" "checked_add start 24 = Some (start + 24)"
    "checked_add (start + 24) (12 * slots) = Some ?first"
    using b(3) by (simp_all add: checked_mul_def checked_add_def segment_length_def data_length_def)
  have le: "origin \<le> ?first" using assms(2) by simp
  have lt: "start < usize_limit" "?first < usize_limit" using b(3) by (simp_all add: segment_length_def data_length_def)
  obtain s1 where s1: "seek_start ops ?first s = (Inr ?first, s1)" "image s1 = image s" "position s1 = ?first" "quiet s1"
    using seek_to [OF assms(1) le lt(2)] .
  obtain s2 where s2: "write_all ops ?records s1 = (Inr (), s2)" "quiet s2"
    "image s2 = (if ?records = [] then image s1 else write_at ?first ?records (image s1))"
    using write_here [OF s1(4,3) le] .
  obtain s3 where s3: "seek_start ops start s2 = (Inr start, s3)" "image s3 = image s2" "position s3 = start" "quiet s3"
    using seek_to [OF s2(2) assms(2) lt(1)] .
  obtain s4 where s4: "write_all ops ?head s3 = (Inr (), s4)" "quiet s4"
    "image s4 = (if ?head = [] then image s3 else write_at start ?head (image s3))"
    using write_here [OF s3(4,3) assms(2)] .
  have "?head \<noteq> []" using len by fastforce
  then have i4: "image s4 = write_at start ?head (image s2)" using s4(3) s3(2) by metis
  have d: "?d = ?head @ ?records" by (simp add: base_data_def)
  have "write_at start ?head (write_at ?first ?records (image s)) = write_at start (?head @ ?records) (image s)"
    using write_at_before [of start ?head ?records "image s"] unfolding len by (simp only: add.assoc)
  then have img: "image s4 = write_at start ?d (image s)"
    unfolding i4 d s2(3) s1(2) by (cases "?records = []") simp_all
  have total: "length ?d + length (segment_metadata E ?d) = segment_length slots entries"
    using facts(4) by (simp add: segment_bytes_def)
  have "start + length ?d + length (segment_metadata E ?d) < usize_limit" using b(3) total by simp
  from append_block_checksums_image [OF s4(2) assms(2) img b(2) this] obtain s5 where
    s5: "append_block_checksums E ops start (length ?d) s4 =
      (Inr \<lparr>segment_size = segment_length slots entries, segment_crc = crc32c E (segment_metadata E ?d)\<rparr>, s5)"
    "image s5 = write_at start (segment_bytes E start slots entries) (image s)" "quiet s5"
    unfolding total segment_bytes_def .
  have "?first + length ?records - start = length ?d" using facts(3) by (simp add: data_length_def)
  moreover have "(if slots > 0 then concat (map slot_bytes ?index) else []) = concat (map slot_bytes ?index)"
    using facts(1) by (auto simp: index_ok_def)
  ultimately have "write_base_index E ops start (length entries) slots ?index (?first + length ?records) s2 =
      (Inr \<lparr>written_size = segment_length slots entries, written_slots = slots, written_len = length entries,
        written_checksum = crc32c E (segment_metadata E ?d)\<rparr>, s5)"
    using s3 s4(1) s5(1) by (simp add: write_base_index_def)
  with s1(1) s2(1) sizes b(1) facts(2) have "write_base_with_metadata_at E ops start (length entries) entries s =
      (Inr \<lparr>written_size = segment_length slots entries, written_slots = slots, written_len = length entries,
        written_checksum = crc32c E (segment_metadata E ?d)\<rparr>, s5)"
    by (simp add: write_base_with_metadata_at_def)
  with s5(2,3) show thesis using that by blast
qed

end

subsection \<open>Reading the layout back\<close>

lemma footer_fields:
  fixes n c
  defines "f \<equiv> footer_bytes n c"
  shows "index_range f 0 4 = Inr CHECKSUM_SECTION_ID" and "u32_at f 4 = Inr 24" and "u64_at f 8 = Inr (of_nat n)"
    and "u32_at f 16 = Inr 65536" and "u32_at f 20 = Inr c"
proof -
  let ?id = CHECKSUM_SECTION_ID and ?a = "u32_to_le_bytes 24" and ?n = "u64_to_le_bytes (of_nat n)"
  let ?b = "u32_to_le_bytes 65536" and ?c = "u32_to_le_bytes c"
  have f: "f = ?id @ ?a @ ?n @ ?b @ ?c" by (simp add: f_def footer_bytes_def)
  have [simp]: "length ?id = 4" by (simp add: CHECKSUM_SECTION_ID_def)
  show "index_range f 0 4 = Inr ?id" using range_of_middle [of "[]" 0 4 ?id] by (simp add: f)
  show "u32_at f 4 = Inr 24" using u32_at_append [of ?id 4 24] by (simp add: f)
  show "u64_at f 8 = Inr (of_nat n)" using u64_at_append [of "?id @ ?a" 8] by (simp add: f)
  show "u32_at f 16 = Inr 65536" using u32_at_append [of "?id @ ?a @ ?n" 16 65536] by (simp add: f)
  show "u32_at f 20 = Inr c" using u32_at_append [of "?id @ ?a @ ?n @ ?b" 20 c "[]"] by (simp add: f)
qed

lemma segment_layout_of_table:
  assumes "length d + length (segment_metadata E d) < usize_limit" and "length x = length d"
  shows "segment_layout_of E (x @ segment_metadata E d) =
    Inr \<lparr>layout_data = x, layout_checksums = segment_table E d\<rparr>"
proof -
  let ?t = "segment_table E d" and ?n = "div_ceil (length d) 65536"
  let ?f = "footer_bytes (length d) (crc32c E ?t)" and ?bs = "x @ segment_metadata E d"
  have bs: "?bs = x @ ?t @ ?f" by (simp add: segment_metadata_def)
  have len: "length ?bs = length d + 4 * ?n + 24" by (simp add: length_segment_metadata assms(2))
  have "drop (length ?bs - 24) ?bs = ?f" using bs by (simp add: length_segment_table)
  moreover have "unat (of_nat (length d) :: u64) = length d" using assms by (intro unat_of_nat_u64) simp
  moreover have "checked_mul ?n 4 = Some (4 * ?n)" "checked_add (length d) (4 * ?n) = Some (length d + 4 * ?n)"
    "checked_add (length d + 4 * ?n) 24 = Some (length ?bs)"
    using assms len by (simp_all add: checked_mul_def checked_add_def length_segment_metadata)
  moreover have "index_range ?bs (length d) (length d + 4 * ?n) = Inr ?t"
    using range_of_middle [of x "length d" "length d + 4 * ?n" ?t ?f] bs by (simp add: length_segment_table assms(2))
  moreover have "index_range ?bs 0 (length d) = Inr x"
    using range_of_middle [of "[]" 0 "length d" x] by (simp add: assms(2))
  ultimately show ?thesis
    using footer_fields [of "length d" "crc32c E ?t"] len
    by (simp add: segment_layout_of_def Let_def del: length_append)
qed

lemma segment_layout_of_written:
  assumes "length d + length (segment_metadata E d) < usize_limit"
  shows "segment_layout_of E (d @ segment_metadata E d) =
    Inr \<lparr>layout_data = d, layout_checksums = segment_table E d\<rparr>"
  using segment_layout_of_table [OF assms] by simp

lemma segment_metadata_checksum_written:
  assumes "length d + length (segment_metadata E d) < usize_limit"
  shows "segment_metadata_checksum E (d @ segment_metadata E d) = Inr (crc32c E (segment_metadata E d))"
  by (simp add: segment_metadata_checksum_def segment_layout_of_written [OF assms])

lemma u32_at_table:
  assumes "i < length cs"
  shows "u32_at (concat (map u32_to_le_bytes cs)) (i * 4) = Inr (cs ! i)"
proof -
  have "concat (map u32_to_le_bytes cs) =
      concat (map u32_to_le_bytes (take i cs)) @ u32_to_le_bytes (cs ! i) @ concat (map u32_to_le_bytes (drop (Suc i) cs))"
    using assms by (subst id_take_nth_drop [OF assms]) simp
  then show ?thesis using u32_at_append [of "concat (map u32_to_le_bytes (take i cs))" "i * 4"] assms by simp
qed

lemma verify_blocks_written:
  assumes "cs = map (crc32c E) (done @ blocks)" and "length done = index"
  shows "verify_blocks E (concat (map u32_to_le_bytes cs)) seg_offset index blocks = Inr ()"
  using assms
proof (induction blocks arbitrary: "done" index)
  case Nil
  then show ?case by simp
next
  case (Cons block blocks)
  have "u32_at (concat (map u32_to_le_bytes cs)) (index * 4) = Inr (crc32c E block)"
    using u32_at_table [of index cs] Cons.prems by (simp add: nth_append del: map_map)
  with Cons.IH [of "done @ [block]" "Suc index"] Cons.prems show ?case by simp
qed

lemma verify_segment_blocks_written:
  "verify_segment_blocks E \<lparr>layout_data = d, layout_checksums = segment_table E d\<rparr> seg_offset = Inr ()"
  using verify_blocks_written [of "map (crc32c E) (chunks 65536 d)" E "[]" "chunks 65536 d" 0 seg_offset]
  by (simp add: verify_segment_blocks_def segment_table_def)

lemma base_header_written:
  assumes "slots = 0 \<or> slots_ok slots" and "length entries < usize_limit"
    and "24 + 12 * slots \<le> length d" and "length d < usize_limit"
    and d: "d = base_header_bytes slots (length entries) @ rest"
  shows "read_base_header d = Inr (slots, length entries)"
proof -
  let ?id = HASH_SECTION_ID and ?a = "u32_to_le_bytes 24" and ?n = "u64_to_le_bytes (of_nat slots)"
  let ?l = "u64_to_le_bytes (of_nat (length entries))"
  have [simp]: "length ?id = 4" by (simp add: HASH_SECTION_ID_def)
  have d': "d = ?id @ ?a @ ?n @ ?l @ rest" using d by (simp add: base_header_bytes_def)
  have "index_range d 0 4 = Inr ?id" using range_of_middle [of "[]" 0 4 ?id] by (simp add: d')
  moreover have "u32_at d 4 = Inr 24" using u32_at_append [of ?id 4 24] by (simp add: d')
  moreover have "u64_at d 8 = Inr (of_nat slots)" using u64_at_append [of "?id @ ?a" 8] by (simp add: d')
  moreover have "u64_at d 16 = Inr (of_nat (length entries))"
    using u64_at_append [of "?id @ ?a @ ?n" 16] by (simp add: d')
  moreover have "unat (of_nat slots :: u64) = slots" using assms(3,4) by (intro unat_of_nat_u64) simp
  moreover have "unat (of_nat (length entries) :: u64) = length entries" using assms(2) by (rule unat_of_nat_u64)
  moreover have "slots = 0 \<or> is_power_of_two slots" using assms(1) by (auto simp: slots_ok_def is_power_of_two_iff)
  moreover have "records_start slots (length d) = Inr (24 + 12 * slots)"
    using assms(3,4) by (simp add: records_start_def checked_mul_def checked_add_def)
  ultimately show ?thesis using assms(3) by (auto simp: read_base_header_def Let_def)
qed

subsection \<open>Reading a record\<close>

lemma record_fields:
  fixes pre key v post
  defines "d \<equiv> pre @ entry_bytes (key, v) @ post" and "off \<equiv> length pre"
  assumes "length key < 4294967296" and "length v < 4294967296"
  shows "u32_at d off = Inr (of_nat (length key))" and "u32_at d (off + 4) = Inr (of_nat (length v))"
    and "range_of (off + 8) (off + 8 + length key) d = key"
    and "range_of (off + 8 + length key) (off + 8 + length key + length v) d = v"
    and "off + 8 + length key + length v \<le> length d"
proof -
  let ?k = "u32_to_le_bytes (of_nat (length key))" and ?v = "u32_to_le_bytes (of_nat (length v))"
  have d: "d = pre @ ?k @ ?v @ key @ v @ post" by (simp add: d_def entry_bytes.simps)
  show "u32_at d off = Inr (of_nat (length key))" using u32_at_append [of pre off] by (simp add: d off_def)
  show "u32_at d (off + 4) = Inr (of_nat (length v))"
    using u32_at_append [of "pre @ ?k" "off + 4"] by (simp add: d off_def)
  show "range_of (off + 8) (off + 8 + length key) d = key"
    using range_of_middle [of "pre @ ?k @ ?v" "off + 8" _ key] by (simp add: d off_def)
  show "range_of (off + 8 + length key) (off + 8 + length key + length v) d = v"
    using range_of_middle [of "pre @ ?k @ ?v @ key" "off + 8 + length key" _ v] by (simp add: d off_def)
  show "off + 8 + length key + length v \<le> length d" by (simp add: d off_def)
qed

lemma trusted_record_at_written:
  assumes "length key < 4294967296" and "length v < 4294967296"
  shows "trusted_record_at (pre @ entry_bytes (key, v) @ post) (length pre) =
    Inr (key, v, length (pre @ entry_bytes (key, v)))"
  using record_fields [OF assms, of pre post] unat_of_nat_u32 [OF assms(1)] unat_of_nat_u32 [OF assms(2)]
  by (simp add: trusted_record_at_def Let_def length_entry_bytes add.assoc)

lemma record_at_written:
  assumes "length key < 4294967296" and "length v < 4294967296"
    and "length (pre @ entry_bytes (key, v)) \<le> data_size" and "data_size < usize_limit"
  shows "record_at (pre @ entry_bytes (key, v) @ post) (length pre) data_size =
    Inr (key, v, length (pre @ entry_bytes (key, v)))"
proof -
  let ?d = "pre @ entry_bytes (key, v) @ post" and ?h = "range_of (length pre) (length pre + 8) (pre @ entry_bytes (key, v) @ post)"
  note f = record_fields [OF assms(1,2), of pre post] unat_of_nat_u32 [OF assms(1)] unat_of_nat_u32 [OF assms(2)]
  have adds: "checked_add (length pre) 8 = Some (length pre + 8)"
    "checked_add (length pre + 8) (length key) = Some (length pre + 8 + length key)"
    "checked_add (length pre + 8 + length key) (length v) = Some (length pre + 8 + length key + length v)"
    using assms(3,4) by (simp_all add: checked_add_def length_entry_bytes)
  have "u32_at ?h 0 = u32_at ?d (length pre)" "u32_at ?h 4 = u32_at ?d (length pre + 4)"
    using f(5) by (simp_all add: u32_at_in range_of_range_of add.commute)
  then show ?thesis
    using f adds assms(3)
    by (simp add: record_at_def filter_option_def get_range_def length_entry_bytes add.assoc)
qed

subsection \<open>Validation accepts what was written\<close>

definition placed_map :: "externs \<Rightarrow> (bytes \<times> nat) list \<Rightarrow> u64 \<rightharpoonup> u32" where
  "placed_map E placed = map_of (rev (map (\<lambda>r. (snd (slot_of E r), fst (slot_of E r))) placed))"

lemma placed_map_Cons: "placed_map E (r # placed) = [snd (slot_of E r) \<mapsto> fst (slot_of E r)] ++ placed_map E placed"
  by (simp add: placed_map_def)

lemma entries_ok_lengths:
  "entries_ok ((key, v) # entries) \<Longrightarrow> length key < 4294967296 \<and> length v < 4294967296 \<and> entries_ok entries"
  by (auto simp: entries_ok_def)

lemma validate_records_written:
  assumes "entries_ok entries" and "distinct (map fst entries)" and "fst ` set entries \<inter> set keys = {}"
    and "length (pre @ base_records entries) < usize_limit"
  shows "validate_records E (pre @ base_records entries) start (length entries) (length pre) records keys =
    Inr (length (pre @ base_records entries), records ++ placed_map E (record_offsets (start + length pre) entries))"
  using assms
proof (induction entries arbitrary: pre records keys)
  case Nil
  then show ?case by (simp add: placed_map_def)
next
  case (Cons e entries)
  obtain key v where e: "e = (key, v)" by fastforce
  let ?d = "pre @ base_records (e # entries)" and ?pre = "pre @ entry_bytes (key, v)"
  from Cons.prems(1) entries_ok_lengths e have ok: "length key < 4294967296" "length v < 4294967296" "entries_ok entries"
    by blast+
  have d: "?d = ?pre @ base_records entries" by (simp add: e)
  note f = record_fields [OF ok(1,2), of pre "base_records entries"] unat_of_nat_u32 [OF ok(1)] unat_of_nat_u32 [OF ok(2)]
  have adds: "checked_add (length pre) 8 = Some (length pre + 8)"
    "checked_add (length pre + 8) (length key) = Some (length pre + 8 + length key)"
    "checked_add (length pre + 8 + length key) (length v) = Some (length pre + 8 + length key + length v)"
    using Cons.prems(4) by (simp_all add: checked_add_def e length_entry_bytes)
  let ?records = "records(of_nat (start + length pre) \<mapsto> fingerprint (xxh3_64 E key))"
  have "key \<notin> set keys" using Cons.prems(3) by (simp add: e)
  with f adds have "validate_records E ?d start (length (e # entries)) (length pre) records keys =
      validate_records E ?d start (length entries) (length ?pre) ?records (key # keys)"
    by (simp add: e length_entry_bytes add.assoc)
  also have "\<dots> = Inr (length ?d, ?records ++ placed_map E (record_offsets (start + length ?pre) entries))"
    unfolding d by (rule Cons.IH) (use Cons.prems ok e in auto)
  also have "record_offsets (start + length pre) (e # entries) =
      (key, start + length pre) # record_offsets (start + length ?pre) entries"
    by (simp add: e length_entry_bytes add.assoc)
  then have "?records ++ placed_map E (record_offsets (start + length ?pre) entries) =
      records ++ placed_map E (record_offsets (start + length pre) (e # entries))"
    by (simp only: placed_map_Cons slot_of_def fst_conv snd_conv map_add_assoc map_add_upd map_add_empty)
  finally show ?case .
qed

lemma slot_fields:
  assumes "d = base_header_bytes slots len @ concat (map slot_bytes index) @ rest" and "p < length index"
  shows "u32_at d (24 + p * 12) = Inr (fst (index ! p))" and "u64_at d (24 + p * 12 + 4) = Inr (snd (index ! p))"
proof -
  let ?before = "base_header_bytes slots len @ concat (map slot_bytes (take p index))"
  let ?after = "concat (map slot_bytes (drop (Suc p) index)) @ rest"
  let ?f = "u32_to_le_bytes (fst (index ! p))" and ?o = "u64_to_le_bytes (snd (index ! p))"
  have "concat (map slot_bytes index) =
      concat (map slot_bytes (take p index)) @ slot_bytes (index ! p) @ concat (map slot_bytes (drop (Suc p) index))"
    using assms(2) by (subst id_take_nth_drop [OF assms(2)]) simp
  then have d: "d = ?before @ ?f @ ?o @ ?after" using assms(1) by (simp add: slot_bytes_def)
  have len: "length ?before = 24 + p * 12" using assms(2) by simp
  show "u32_at d (24 + p * 12) = Inr (fst (index ! p))"
    unfolding d using len by (rule u32_at_append)
  have "length (?before @ ?f) = 24 + p * 12 + 4" using len by simp
  from u64_at_append [OF this, of "snd (index ! p)" ?after] show "u64_at d (24 + p * 12 + 4) = Inr (snd (index ! p))"
    unfolding d by simp
qed

lemma placed_map_lookup:
  assumes "distinct (map snd placed)" and "\<forall>r \<in> set placed. snd r < usize_limit" and "r \<in> set placed"
  shows "placed_map E placed (snd (slot_of E r)) = Some (fst (slot_of E r))"
proof -
  let ?ps = "rev (map (\<lambda>r. (snd (slot_of E r), fst (slot_of E r))) placed)"
  have "inj_on (\<lambda>n. of_nat n :: u64) (snd ` set placed)"
    using assms(2) by (intro inj_onI) (metis imageE unat_of_nat_u64)
  then have "distinct (map (\<lambda>n. of_nat n :: u64) (map snd placed))"
    using assms(1) by (simp only: distinct_map list.set_map)
  then have "distinct (map (\<lambda>r. snd (slot_of E r)) placed)"
    by (simp add: slot_of_def comp_def)
  then have "distinct (map fst ?ps)" by (simp add: rev_map [symmetric] comp_def)
  moreover have "(snd (slot_of E r), fst (slot_of E r)) \<in> set ?ps" using assms(3) by auto
  ultimately show ?thesis unfolding placed_map_def by (rule map_of_is_SomeI)
qed

lemma validate_slots_written:
  assumes d: "d = base_header_bytes slots len @ concat (map slot_bytes index) @ rest"
    and ok: "index_ok E slots index placed"
    and "distinct ps" and "\<forall>p \<in> set ps. p < slots"
    and "\<forall>p \<in> set ps. occupied index p \<longrightarrow> snd (index ! p) \<notin> set referenced"
  shows "validate_slots d (placed_map E placed) ps referenced =
    Inr (rev (filter (\<lambda>x. x \<noteq> 0) (map (\<lambda>p. snd (index ! p)) ps)) @ referenced)"
  using assms(3-)
proof (induction ps arbitrary: referenced)
  case Nil
  then show ?case by simp
next
  case (Cons p ps)
  from ok have placed: "distinct (map snd placed)" "\<forall>r \<in> set placed. snd r < usize_limit"
    and pos: "\<forall>r \<in> set placed. 0 < snd r"
    and slots: "\<forall>p < slots. index ! p = (0, 0) \<or> index ! p \<in> slot_of E ` set placed" and len: "length index = slots"
    unfolding index_ok_def by blast+
  from Cons.prems have p: "p < slots" "p < length index" by (simp_all add: len)
  note fields = slot_fields [OF d p(2)]
  show ?case
  proof (cases "occupied index p")
    case False
    have "index ! p \<notin> slot_of E ` set placed"
    proof
      assume "index ! p \<in> slot_of E ` set placed"
      then obtain r where "r \<in> set placed" "index ! p = slot_of E r" by blast
      with False slot_of_occupied [of r E] pos placed(2) show False by simp
    qed
    with slots p(1) have zero: "index ! p = (0, 0)" by blast
    have "validate_slots d (placed_map E placed) (p # ps) referenced =
        validate_slots d (placed_map E placed) ps referenced"
      using fields zero by (simp add: Let_def)
    with Cons.IH [of referenced] Cons.prems zero show ?thesis by simp
  next
    case True
    then obtain r where r: "r \<in> set placed" "index ! p = slot_of E r" using slots p(1) by (cases "index ! p = (0, 0)") auto
    have "validate_slots d (placed_map E placed) (p # ps) referenced =
        validate_slots d (placed_map E placed) ps (snd (index ! p) # referenced)"
      using fields True Cons.prems placed_map_lookup [OF placed r(1), of E] r(2) by (simp add: Let_def)
    moreover have "snd (index ! q) \<noteq> snd (index ! p)" if "q \<in> set ps" for q
      using index_ok_unique [OF ok p(1) _ True, of q] that Cons.prems by auto
    ultimately show ?thesis using Cons.IH [of "snd (index ! p) # referenced"] Cons.prems True by simp
  qed
qed

lemma validate_base_written:
  assumes fits: "base_fits E start slots entries" and "distinct (map fst entries)"
  shows "validate_base E (base_data E start slots entries) start slots (length entries) = Inr ()"
proof -
  let ?d = "base_data E start slots entries" and ?first = "start + 24 + 12 * slots"
  let ?index = "base_index E slots ?first entries" and ?placed = "record_offsets ?first entries"
  let ?pre = "base_header_bytes slots (length entries) @ concat (map slot_bytes ?index)"
  note facts = base_fits_facts [OF fits]
  from fits have b: "entries_ok entries" "\<forall>n. try_reserve E n" "start + segment_length slots entries < usize_limit"
    by (simp_all add: base_fits_def)
  have d: "?d = ?pre @ base_records entries" by (simp add: base_data_def)
  have pre: "length ?pre = 24 + 12 * slots" using facts(1) by (simp add: index_ok_def)
  have len: "length ?d = 24 + 12 * slots + length (base_records entries)" using facts(3) by (simp add: data_length_def)
  have lt: "length ?d < usize_limit" using b(3) facts(3) by (simp add: segment_length_def)
  have "records_start slots (length ?d) = Inr (24 + 12 * slots)"
    using len lt by (simp add: records_start_def checked_mul_def checked_add_def)
  moreover have "length entries \<le> (length ?d - (24 + 12 * slots)) div 8"
    using len length_entries_le [of entries] by simp
  moreover have "validate_records E ?d start (length entries) (24 + 12 * slots) Map.empty [] =
      Inr (length ?d, placed_map E ?placed)"
    using validate_records_written [OF b(1) assms(2), of "[]" ?pre E start Map.empty] lt
    unfolding d pre by (simp add: add.assoc)
  moreover have "validate_slots ?d (placed_map E ?placed) [0..<slots] [] =
      Inr (rev (filter (\<lambda>x. x \<noteq> 0) (map (\<lambda>p. snd (?index ! p)) [0..<slots])))"
    using validate_slots_written [of ?d slots "length entries" ?index "base_records entries" E ?placed "[0..<slots]" "[]"]
      facts(1) by (simp add: base_data_def)
  moreover have "length (filter (\<lambda>x. x \<noteq> 0) (map (\<lambda>p. snd (?index ! p)) [0..<slots])) = length entries"
  proof -
    have "length (filter (\<lambda>x. x \<noteq> 0) (map (\<lambda>p. snd (?index ! p)) [0..<slots])) =
        card {p. p < slots \<and> occupied ?index p}"
      by (simp add: length_filter_conv_card cong: conj_cong)
    with facts(1) show ?thesis by (simp add: index_ok_def)
  qed
  ultimately show ?thesis using b(2)
    by (simp add: validate_base_def saturating_sub_def)
qed

subsection \<open>Any bytes at all\<close>

lemma segment_layout_of_no_panic:
  assumes "length bs < usize_limit"
  shows "no_panic (segment_layout_of E bs)"
  using assms unfolding segment_layout_of_def Let_def
  by (auto simp: u32_at_in u64_at_in result_simps bind_eq_Some_conv intro!: no_panic_and_then)

lemma segment_layout_of_Inr:
  assumes "segment_layout_of E bs = Inr layout"
  shows "length (layout_checksums layout) = 4 * div_ceil (length (layout_data layout)) 65536"
    and "layout_data layout = take (length (layout_data layout)) bs"
    and "length (layout_data layout) + length (layout_checksums layout) + 24 = length bs"
    and "length bs < usize_limit"
  using assms unfolding segment_layout_of_def Let_def
  by (auto simp: result_simps bind_eq_Some_conv range_of_def min_def split: if_splits)

lemma verify_blocks_no_panic:
  assumes "4 * (index + length blocks) \<le> length checksums"
  shows "no_panic (verify_blocks E checksums seg_offset index blocks)"
  using assms
proof (induction blocks arbitrary: index)
  case Nil
  then show ?case by simp
next
  case (Cons block blocks)
  with Cons.IH [of "Suc index"] show ?case by (simp add: u32_at_in)
qed

lemma verify_segment_blocks_no_panic:
  "segment_layout_of E bs = Inr layout \<Longrightarrow> no_panic (verify_segment_blocks E layout seg_offset)"
  using segment_layout_of_Inr(1) [of E bs layout]
  by (simp add: verify_segment_blocks_def verify_blocks_no_panic length_chunks)

lemma records_start_no_panic: "no_panic (records_start slots n)"
  by (auto simp: records_start_def intro!: no_panic_and_then)

lemma records_start_Inr: "records_start slots n = Inr start \<longleftrightarrow> start = 24 + 12 * slots \<and> start \<le> n \<and> start < usize_limit"
  by (auto simp: records_start_def result_simps bind_eq_Some_conv)

lemma read_base_header_no_panic: "no_panic (read_base_header bs)"
  by (auto simp: read_base_header_def Let_def u32_at_in u64_at_in intro!: no_panic_and_then records_start_no_panic)

lemma read_base_header_Inr:
  assumes "read_base_header bs = Inr (slots, len)"
  shows "slots = 0 \<or> is_power_of_two slots" and "24 + 12 * slots \<le> length bs" and "slots < usize_limit"
  using assms unat_u64_less unfolding read_base_header_def Let_def
  by (auto simp: result_simps records_start_Inr split: if_splits)

lemma validate_records_no_panic: "no_panic (validate_records E bs start n offset records keys)"
proof (induction n arbitrary: offset records keys)
  case 0
  show ?case by simp
next
  case (Suc n)
  then show ?case
    by (auto simp: u32_at_in result_simps intro!: no_panic_and_then)
qed

lemma validate_slots_no_panic:
  "\<forall>p \<in> set ps. 24 + 12 * p + 12 \<le> length bs \<Longrightarrow> no_panic (validate_slots bs records ps referenced)"
proof (induction ps arbitrary: referenced)
  case Nil
  then show ?case by simp
next
  case (Cons p ps)
  then show ?case by (simp add: u32_at_in u64_at_in Let_def)
qed

lemma validate_base_no_panic: "no_panic (validate_base E bs start slots len)"
  unfolding validate_base_def
  by (auto simp: records_start_Inr intro!: no_panic_and_then records_start_no_panic validate_records_no_panic
      validate_slots_no_panic)

subsection \<open>Properties\<close>

text \<open>
  C26. A base survives the trip to disk. For any entries with distinct keys that fit, the writer succeeds
  on a file without faults and changes exactly the range from \<open>start\<close>; the size it reports is the
  size the measuring pass predicted. Read back, the range has a valid layout, every block checks,
  the metadata checksum is the one the writer reported for the superblock, the header has the slots
  and the count, and the full validation of records and index accepts it.
\<close>

theorem write_base_roundtrip:
  assumes "file_quiet f" and fits: "base_fits E start slots entries" and "distinct (map fst entries)"
  shows "\<exists>w f' layout. write_base_with_metadata_at E file_ops start (length entries) entries f = (Inr w, f')
    \<and> contents f' = write_at start (segment_bytes E start slots entries) (contents f)
    \<and> measure_base_iter entries = Inr (length entries, written_size w)
    \<and> segment_layout_of E (range_of start (start + written_size w) (contents f')) = Inr layout
    \<and> verify_segment_blocks E layout start = Inr ()
    \<and> segment_metadata_checksum E (range_of start (start + written_size w) (contents f')) = Inr (written_checksum w)
    \<and> read_base_header (layout_data layout) = Inr (written_slots w, length entries)
    \<and> validate_base E (layout_data layout) start (written_slots w) (length entries) = Inr ()"
proof -
  let ?d = "base_data E start slots entries" and ?bs = "segment_bytes E start slots entries"
  note facts = base_fits_facts [OF fits]
  from disk.write_base_image [OF assms(1) _ fits] obtain f' where f':
    "write_base_with_metadata_at E file_ops start (length entries) entries f =
      (Inr \<lparr>written_size = segment_length slots entries, written_slots = slots, written_len = length entries,
        written_checksum = crc32c E (segment_metadata E ?d)\<rparr>, f')"
    "contents f' = write_at start ?bs (contents f)" by blast
  have range: "range_of start (start + segment_length slots entries) (contents f') = ?bs"
    using range_of_write_at_same [of start ?bs "contents f"] f'(2) facts(4) by simp
  have lt: "length ?d + length (segment_metadata E ?d) < usize_limit" "start + segment_length slots entries < usize_limit"
    using fits facts(4) by (simp_all add: base_fits_def segment_bytes_def)
  have "slots = 0 \<or> slots_ok slots"
    using fits base_slot_count_Inr(1) [of "length entries" slots] by (cases "entries = []") (auto simp: base_fits_def)
  moreover have "length entries < usize_limit"
    using length_entries_le [of entries] lt(2) by (simp add: segment_length_def data_length_def)
  ultimately have "read_base_header ?d = Inr (slots, length entries)"
    using lt facts(3) by (intro base_header_written) (auto simp: base_data_def data_length_def)
  then show ?thesis
    using f' range measure_base_iter_eq [OF fits] segment_layout_of_written [OF lt(1)]
      segment_metadata_checksum_written [OF lt(1)] verify_segment_blocks_written [of E ?d start]
      validate_base_written [OF fits assms(3)]
    by (simp add: segment_bytes_def)
qed

lemma base_fits_sample: "base_fits reference_externs 8192 2 [([1], [2, 3])]"
proof -
  have "base_slot_count 1 = Inr 2"
    by (simp add: base_slot_count_def checked_mul_def usize_limit_def div_ceil_def checked_next_power_of_two_def
        bit_length.simps)
  then show ?thesis
    by (simp add: base_fits_def entries_ok_def reference_externs_def segment_length_def data_length_def
        length_entry_bytes div_ceil_def usize_limit_def)
qed

theorem write_base_roundtrip_witness:
  "\<exists>w f' layout. write_base_with_metadata_at reference_externs file_ops 8192 1 [([1], [2, 3])]
      \<lparr>contents = [], file_position = 0, plan = []\<rparr> = (Inr w, f')
    \<and> segment_layout_of reference_externs (range_of 8192 (8192 + written_size w) (contents f')) = Inr layout
    \<and> validate_base reference_externs (layout_data layout) 8192 (written_slots w) 1 = Inr ()"
  using write_base_roundtrip [of "\<lparr>contents = [], file_position = 0, plan = []\<rparr>" reference_externs 8192 2 "[([1], [2, 3])]"]
    base_fits_sample
  by (auto simp: file_quiet_def)

text \<open>
  The checks on a base never crash, whatever the bytes are: reading the layout, the header, the block
  checksums and the full validation each return or fail with an error value.
\<close>

theorem base_checks_safe:
  assumes "length bs < usize_limit"
  shows "no_panic (segment_layout_of E bs) \<and> no_panic (segment_metadata_checksum E bs)
    \<and> (\<forall>layout. segment_layout_of E bs = Inr layout \<longrightarrow>
        no_panic (verify_segment_blocks E layout start) \<and> no_panic (read_base_header (layout_data layout))
        \<and> (\<forall>slots len. no_panic (validate_base E (layout_data layout) start slots len)))"
  using segment_layout_of_no_panic [OF assms] verify_segment_blocks_no_panic read_base_header_no_panic
    validate_base_no_panic
  by (auto simp: segment_metadata_checksum_def intro!: no_panic_and_then)

theorem base_checks_safe_witness:
  "no_panic (segment_metadata_checksum reference_externs (replicate 100 3))"
  using base_checks_safe [of "replicate 100 3" reference_externs 0] by (simp add: usize_limit_def)

subsection \<open>Writing a base ends\<close>

text \<open>The slots in use, at most one more for each record placed.\<close>

definition used_slots :: "slot list \<Rightarrow> nat" where
  "used_slots index = length (filter (\<lambda>s. snd s \<noteq> 0) index)"

lemma used_slots_append [simp]: "used_slots (a @ b) = used_slots a + used_slots b"
  by (simp add: used_slots_def)

lemma used_slots_Cons [simp]: "used_slots (s # index) = (if snd s \<noteq> 0 then 1 else 0) + used_slots index"
  by (simp add: used_slots_def)

lemma used_slots_update: "used_slots (index[i := s]) \<le> Suc (used_slots index)"
proof (induction index arbitrary: i)
  case (Cons x index)
  then show ?case by (cases i) (auto intro: le_SucI)
qed (simp add: used_slots_def)

lemma used_slots_room:
  assumes "used_slots index < length index"
  obtains p where "p < length index" and "\<not> occupied index p"
proof (rule ccontr)
  assume "\<not> thesis"
  with that have "\<forall>s \<in> set index. snd s \<noteq> 0" by (metis in_set_conv_nth)
  then have "filter (\<lambda>s. snd s \<noteq> 0) index = index" by (simp add: filter_id_conv)
  with assms show False by (simp add: used_slots_def)
qed

lemma place_records_ends:
  assumes "slots_ok slots" and "length index = slots" and "used_slots index + length entries \<le> slots"
  shows "no_panic (snd (place_records E slots entries buffered index offset n))"
  using assms(2,3)
proof (induction entries arbitrary: buffered index offset n)
  case (Cons e entries)
  obtain key v where e: "e = (key, v)" by fastforce
  from Cons.prems have "used_slots index < length index" by simp
  then obtain p where "p < slots" "\<not> occupied index p" using used_slots_room Cons.prems(1) by blast
  then obtain j where j: "probe_empty (Suc slots) slots index (xxh3_64 E key AND slot_mask slots) = Inr ((unat (xxh3_64 E key) + j) mod slots)"
    using probe_empty_finds [OF assms(1) Cons.prems(1)] by metis
  have "no_panic (snd (place_records E slots entries buffered' (index[s := x]) offset' n'))" for buffered' s x offset' n'
    using Cons.IH [of "index[s := x]"] used_slots_update [of index s x] Cons.prems by simp
  with j show ?case
    by (auto simp: e check_lengths_def Let_def simp del: probe_empty.simps split: sum.splits option.splits if_splits)
qed simp

lemma io_then_ends: "no_panic (fst (a s)) \<Longrightarrow> (\<And>x s'. a s = (Inr x, s') \<Longrightarrow> no_panic (fst (f x s'))) \<Longrightarrow> no_panic (fst (io_then a f s))"
  by (auto simp: io_then_def no_panic_def split: prod.splits sum.splits)

lemma question_ends: "no_panic (fst (question a s))"
  by (auto simp: question_def split: prod.splits sum.splits)

lemma no_panic_Inl: "no_panic (Inl e) \<longleftrightarrow> e \<noteq> Panic \<and> e \<noteq> Diverges"
  by (simp add: no_panic_def)

lemma read_blocks_ends: "no_panic (fst (read_blocks E ops n s))"
proof (induction n arbitrary: s rule: less_induct)
  case (less n)
  let ?len = "min n CHECKSUM_BLOCK_SIZE"
  obtain r s1 where q: "question (read_exact ops ?len) s = (r, s1)" by fastforce
  have "n \<noteq> 0 \<Longrightarrow> no_panic (fst (read_blocks E ops (n - ?len) s1))" using less by simp
  with question_ends [of "read_exact ops ?len" s] q show ?case
    by (subst read_blocks.simps) (auto simp: Let_def no_panic_Inl split: prod.splits sum.splits)
qed

lemma write_base_index_ends: "no_panic (fst (write_base_index E ops start len slots index offset s))"
  unfolding write_base_index_def append_block_checksums_def checksum_metadata_def
  by (auto simp: io_lift_def io_return_def Let_def intro!: io_then_ends question_ends read_blocks_ends no_panic_and_then)

lemma write_base_ends:
  assumes "length entries \<le> len"
  shows "no_panic (fst (write_base_with_metadata_at E ops start len entries s))"
proof -
  have placed: "no_panic (snd (place_records E slots entries [] (replicate slots (0, 0)) first 0))"
    if slots: "base_slot_count len = Inr slots" for slots first
  proof (cases "len = 0")
    case False
    have "slots_ok slots" "len < slots" using base_slot_count_Inr [OF slots False] by simp_all
    moreover have "used_slots (replicate slots (0, 0)) = 0" by (simp add: used_slots_def)
    ultimately show ?thesis using assms by (intro place_records_ends) simp_all
  qed (use assms in simp)
  have "no_panic (base_slot_count len)" by (auto simp: base_slot_count_def intro!: no_panic_and_then)
  moreover have "no_panic (fst ((case place_records E slots entries [] (replicate slots (0, 0)) first 0 of
       (buffered, Inl e) \<Rightarrow> (\<lambda>s. (Inl e, snd (write_all ops buffered s)))
     | (buffered, Inr (index, offset, observed)) \<Rightarrow>
         io_then (question (write_all ops buffered)) (\<lambda>_.
         if observed \<noteq> len then io_lift (Inl (invalid_input ''entry count changed while writing base''))
         else write_base_index E ops start len slots index offset)) t))"
    if "base_slot_count len = Inr slots" for slots first t
    using placed [OF that, of first] write_base_index_ends
    by (auto simp: io_lift_def no_panic_Inl split: prod.splits sum.splits if_splits intro!: io_then_ends question_ends)
  ultimately show ?thesis
    unfolding write_base_with_metadata_at_def by (auto simp: io_lift_def intro!: io_then_ends question_ends)
qed

text \<open>
  C37. Writing a base always ends, with the base or with an error. The writer places each record in an open-addressed
  index by a loop without a bound; whatever the hash function, the store and its failures, as long as there are no more
  entries than were announced, each of these searches meets an empty slot within one walk around the index, and no step
  panics.
\<close>

theorem write_base_terminates:
  assumes "length entries \<le> len"
  shows "(\<exists>w. fst (write_base_with_metadata_at E ops start len entries s) = Inr w)
    \<or> (\<exists>e. fst (write_base_with_metadata_at E ops start len entries s) = Inl (Err e))"
  using write_base_ends [OF assms, of E ops start s] by (cases "fst (write_base_with_metadata_at E ops start len entries s)") (auto simp: no_panic_def intro: failure.exhaust)

theorem write_base_terminates_witness:
  "(\<exists>w. fst (write_base_with_metadata_at reference_externs file_ops 8192 2 [([1], [2]), ([3], [4])] \<lparr>contents = [], file_position = 0, plan = []\<rparr>) = Inr w)
    \<or> (\<exists>e. fst (write_base_with_metadata_at reference_externs file_ops 8192 2 [([1], [2]), ([3], [4])] \<lparr>contents = [], file_position = 0, plan = []\<rparr>) = Inl (Err e))"
  using write_base_terminates [of "[([1], [2]), ([3], [4])]" 2] by simp



end
