(* ===== verification/Lkv_Verifier.thy ===== *)
theory Lkv_Verifier
  imports Lkv_Segment_Correct
begin

section \<open>Verification on read (database/state.rs)\<close>

text \<open>
  \<^verbatim>\<open>SegmentVerifier\<close> remembers which 64 KiB blocks of a base have been checked, one bit per block,
  and checks the blocks a read touches that have no bit yet. Its fields are atomics behind a shared
  reference; the model passes the verifier as a state. \<open>verifier_sound\<close> says that a set bit is
  backed by a matching checksum: then a successful check of a range means that every block of the
  range matches, and the counter reaches zero exactly when all blocks have been checked.
\<close>

record segment_verifier =
  verifier_offset :: nat
  data_size :: nat
  checksums :: "u32 list"
  verified :: "u64 list"
  remaining :: nat
  fully_verified :: bool
  semantically_verified :: bool

fun chunks_exact4 :: "bytes \<Rightarrow> u32 list" where
  "chunks_exact4 (a # b # c # d # rest) = u32_from_le_bytes [a, b, c, d] # chunks_exact4 rest"
| "chunks_exact4 bs = []"

definition verifier_new :: "nat \<Rightarrow> segment_layout \<Rightarrow> bool \<Rightarrow> segment_verifier" where
  "verifier_new offset layout full =
     (let cs = chunks_exact4 (layout_checksums layout) in
      \<lparr>verifier_offset = offset, data_size = length (layout_data layout), checksums = cs,
       verified = replicate (div_ceil (length cs) 64) (if full then - 1 else 0),
       remaining = (if full then 0 else length (layout_checksums layout) div 4),
       fully_verified = full, semantically_verified = full\<rparr>)"

unbundle bit_operations_syntax

text \<open>Checking one block: the bit first, then the bytes; a new bit counts down.\<close>

definition verify_block :: "externs \<Rightarrow> bytes \<Rightarrow> nat \<Rightarrow> (segment_verifier, failure, unit) io" where
  "verify_block E mapping block v =
     (let word = block div 64; m = push_bit (block mod 64) 1 :: u64 in
      if \<not> word < length (verified v) then (Inl Panic, v)
      else if verified v ! word AND m \<noteq> 0 then (Inr (), v)
      else
      let block_start = block * CHECKSUM_BLOCK_SIZE;
          block_end = min (block_start + CHECKSUM_BLOCK_SIZE) (data_size v) in
      case index_range mapping block_start block_end of
        Inl e \<Rightarrow> (Inl e, v)
      | Inr bytes \<Rightarrow>
          if \<not> block < length (checksums v) then (Inl Panic, v)
          else if crc32c E bytes \<noteq> checksums v ! block
          then (Inl (Err (corrupted_block (verifier_offset v) block)), v)
          else
            let previous = remaining v;
                v = v\<lparr>verified := (verified v)[word := verified v ! word OR m],
                      remaining := (previous + usize_limit - 1) mod usize_limit\<rparr>
            in (Inr (), if previous = 1 then v\<lparr>fully_verified := True\<rparr> else v))"

fun verify_block_list :: "externs \<Rightarrow> bytes \<Rightarrow> nat list \<Rightarrow> (segment_verifier, failure, unit) io" where
  "verify_block_list E mapping [] = io_return ()"
| "verify_block_list E mapping (block # blocks) =
     io_then (verify_block E mapping block) (\<lambda>_. verify_block_list E mapping blocks)"

definition verify_range :: "externs \<Rightarrow> bytes \<Rightarrow> nat \<Rightarrow> nat \<Rightarrow> (segment_verifier, failure, unit) io" where
  "verify_range E mapping start end v =
     (if fully_verified v then (Inr (), v)
      else if start > end then (Inl (Err (invalid_base ''read range lies outside segment'')), v)
      else if end > data_size v then (Inl (Err (invalid_base ''read range lies outside segment data'')), v)
      else if start = end then (Inr (), v)
      else verify_block_list E mapping
             [start div CHECKSUM_BLOCK_SIZE ..< Suc ((end - 1) div CHECKSUM_BLOCK_SIZE)] v)"

definition mark_semantically_verified :: "segment_verifier \<Rightarrow> segment_verifier" where
  "mark_semantically_verified v = v\<lparr>semantically_verified := True\<rparr>"

subsection \<open>Bits\<close>

definition block_bit :: "segment_verifier \<Rightarrow> nat \<Rightarrow> bool" where
  "block_bit v block \<longleftrightarrow> bit (verified v ! (block div 64)) (block mod 64)"

definition block_count :: "segment_verifier \<Rightarrow> nat" where
  "block_count v = length (checksums v)"

definition block_matches :: "externs \<Rightarrow> bytes \<Rightarrow> segment_verifier \<Rightarrow> nat \<Rightarrow> bool" where
  "block_matches E mapping v block \<longleftrightarrow>
     crc32c E (range_of (block * 65536) (min (block * 65536 + 65536) (data_size v)) mapping) = checksums v ! block"

definition unset_blocks :: "segment_verifier \<Rightarrow> nat set" where
  "unset_blocks v = {block. block < block_count v \<and> \<not> block_bit v block}"

definition verifier_ok :: "bytes \<Rightarrow> segment_verifier \<Rightarrow> bool" where
  "verifier_ok mapping v \<longleftrightarrow>
     data_size v \<le> length mapping \<and> block_count v = div_ceil (data_size v) 65536
     \<and> length (verified v) = div_ceil (block_count v) 64 \<and> block_count v < usize_limit
     \<and> remaining v = card (unset_blocks v)
     \<and> (0 < block_count v \<longrightarrow> fully_verified v = (remaining v = 0))"

definition verifier_sound :: "externs \<Rightarrow> bytes \<Rightarrow> segment_verifier \<Rightarrow> bool" where
  "verifier_sound E mapping v \<longleftrightarrow>
     (\<forall>block < block_count v. block_bit v block \<or> fully_verified v \<longrightarrow> block_matches E mapping v block)"

lemma bit_or_mask:
  "i < 64 \<Longrightarrow> bit (w OR push_bit i (1 :: u64)) j \<longleftrightarrow> bit w j \<or> j = i"
  by (auto simp: bit_simps)

definition same_segment :: "segment_verifier \<Rightarrow> segment_verifier \<Rightarrow> bool" where
  "same_segment v v' \<longleftrightarrow>
     verifier_offset v' = verifier_offset v \<and> data_size v' = data_size v \<and> checksums v' = checksums v
     \<and> semantically_verified v' = semantically_verified v \<and> (fully_verified v \<longrightarrow> fully_verified v')"

lemma same_segment_refl [simp]: "same_segment v v"
  by (simp add: same_segment_def)

lemma same_segment_trans: "same_segment u v \<Longrightarrow> same_segment v w \<Longrightarrow> same_segment u w"
  by (auto simp: same_segment_def)

lemma same_segment_matches: "same_segment v v' \<Longrightarrow> block_matches E mapping v' = block_matches E mapping v"
  by (auto simp: same_segment_def block_matches_def fun_eq_iff)

lemma same_segment_count: "same_segment v v' \<Longrightarrow> block_count v' = block_count v"
  by (simp add: same_segment_def block_count_def)

lemma block_word_less:
  assumes "verifier_ok mapping v" and "block < block_count v"
  shows "block div 64 < length (verified v)"
proof -
  have "block_count v \<le> 64 * div_ceil (block_count v) 64" by (rule div_ceil_bounds) simp
  with assms have "block < 64 * length (verified v)" by (simp add: verifier_ok_def)
  then show ?thesis by (simp add: div_less_iff_less_mult mult.commute)
qed

text \<open>The state after a new bit, and its effect on the bits and the counter.\<close>

definition set_block :: "segment_verifier \<Rightarrow> nat \<Rightarrow> segment_verifier" where
  "set_block v block =
     (let v' = v\<lparr>verified := (verified v)[block div 64 := verified v ! (block div 64) OR push_bit (block mod 64) 1],
                 remaining := remaining v - 1\<rparr>
      in if remaining v = 1 then v'\<lparr>fully_verified := True\<rparr> else v')"

lemma set_block_fields:
  "verifier_offset (set_block v block) = verifier_offset v" "data_size (set_block v block) = data_size v"
  "checksums (set_block v block) = checksums v" "remaining (set_block v block) = remaining v - 1"
  "length (verified (set_block v block)) = length (verified v)"
  "fully_verified (set_block v block) = (remaining v = 1 \<or> fully_verified v)"
  "semantically_verified (set_block v block) = semantically_verified v"
  by (simp_all add: set_block_def Let_def)

lemma block_bit_set_block:
  assumes "block div 64 < length (verified v)"
  shows "block_bit (set_block v block) b \<longleftrightarrow> block_bit v b \<or> b = block"
proof (cases "b div 64 = block div 64")
  case True
  then have "b mod 64 = block mod 64 \<longleftrightarrow> b = block" by (metis div_mult_mod_eq)
  with True assms show ?thesis
    using bit_or_mask [of "block mod 64" "verified v ! (block div 64)" "b mod 64"]
    by (simp add: block_bit_def set_block_def Let_def)
qed (auto simp: block_bit_def set_block_def Let_def)

lemma set_block_ok:
  assumes ok: "verifier_ok mapping v" and sound: "verifier_sound E mapping v"
    and block: "block < block_count v" "\<not> block_bit v block" "block_matches E mapping v block"
  shows "verifier_ok mapping (set_block v block)" and "verifier_sound E mapping (set_block v block)"
    and "same_segment v (set_block v block)" and "0 < remaining v" and "remaining v < usize_limit"
proof -
  note w = block_word_less [OF ok block(1)]
  note bits = block_bit_set_block [OF w]
  have rem: "remaining v = card (unset_blocks v)" "block_count v < usize_limit" using ok by (simp_all add: verifier_ok_def)
  have mem: "block \<in> unset_blocks v" using block by (simp add: unset_blocks_def)
  have fin: "finite (unset_blocks v)" by (simp add: unset_blocks_def)
  show pos: "0 < remaining v" using rem(1) mem fin card_gt_0_iff by fastforce
  have "card (unset_blocks v) \<le> card {..<block_count v}" by (intro card_mono) (auto simp: unset_blocks_def)
  then show "remaining v < usize_limit" using rem by simp
  have count: "block_count (set_block v block) = block_count v" by (simp add: block_count_def set_block_fields)
  have "unset_blocks (set_block v block) = unset_blocks v - {block}" by (auto simp: bits count unset_blocks_def)
  then have card: "card (unset_blocks (set_block v block)) = remaining v - 1" using mem fin rem(1) by simp
  have full: "fully_verified v = (remaining v = 0)" using ok block by (simp add: verifier_ok_def)
  have "fully_verified (set_block v block) = (remaining v - 1 = 0)"
    using full pos by (auto simp: set_block_fields)
  then show "verifier_ok mapping (set_block v block)"
    using ok unfolding verifier_ok_def count card set_block_fields by auto
  show same: "same_segment v (set_block v block)" by (simp add: same_segment_def set_block_fields)
  have "block_matches E mapping v b"
    if "b < block_count v" "block_bit (set_block v block) b \<or> fully_verified (set_block v block)" for b
  proof (cases "b = block \<or> block_bit v b")
    case True
    with sound block that show ?thesis by (auto simp: verifier_sound_def)
  next
    case False
    with that bits have "remaining v = 1" using full pos by (auto simp: set_block_fields)
    then have "\<exists>x. unset_blocks v = {x}" using rem(1) by (simp add: card_1_singleton_iff)
    moreover have "b \<in> unset_blocks v" using False that(1) by (simp add: unset_blocks_def)
    ultimately show ?thesis using mem False by auto
  qed
  then show "verifier_sound E mapping (set_block v block)"
    using same_segment_matches [OF same] count by (simp add: verifier_sound_def)
qed

lemma verify_block_result:
  assumes ok: "verifier_ok mapping v" and sound: "verifier_sound E mapping v" and block: "block < block_count v"
  obtains v' where "verify_block E mapping block v =
      (if block_matches E mapping v block then Inr () else Inl (Err (corrupted_block (verifier_offset v) block)), v')"
    and "verifier_ok mapping v'" and "verifier_sound E mapping v'" and "same_segment v v'"
proof -
  let ?w = "block div 64" and ?m = "push_bit (block mod 64) 1 :: u64"
  have w: "?w < length (verified v)" by (rule block_word_less [OF ok block])
  have bit: "verified v ! ?w AND ?m \<noteq> 0 \<longleftrightarrow> block_bit v block"
    by (simp only: block_bit_def bit_iff_and_push_bit_not_eq_0)
  show thesis
  proof (cases "block_bit v block")
    case True
    with sound block have "block_matches E mapping v block" by (simp add: verifier_sound_def)
    with True bit w ok sound show thesis by (intro that [of v]) (simp_all add: verify_block_def Let_def)
  next
    case False
    have count: "block_count v = div_ceil (data_size v) 65536" and "data_size v \<le> length mapping"
      using ok by (simp_all add: verifier_ok_def)
    have "65536 * div_ceil (data_size v) 65536 < data_size v + 65536" by (rule div_ceil_bounds) simp
    then have "65536 * block_count v < data_size v + 65536" by (simp only: count)
    then have "block * 65536 < data_size v" using block by linarith
    then have range: "index_range mapping (block * 65536) (min (block * 65536 + 65536) (data_size v)) =
        Inr (range_of (block * 65536) (min (block * 65536 + 65536) (data_size v)) mapping)"
      using \<open>data_size v \<le> length mapping\<close> by (intro index_range_in) auto
    have *: "verify_block E mapping block v =
        (if block_matches E mapping v block
         then (Inr (), let v' = v\<lparr>verified := (verified v)[?w := verified v ! ?w OR ?m],
                 remaining := (remaining v + usize_limit - 1) mod usize_limit\<rparr>
               in if remaining v = 1 then v'\<lparr>fully_verified := True\<rparr> else v')
         else (Inl (Err (corrupted_block (verifier_offset v) block)), v))"
      using False bit w range block by (simp add: verify_block_def Let_def block_matches_def block_count_def)
    show thesis
    proof (cases "block_matches E mapping v block")
      case no: False
      with * ok sound show thesis by (intro that [of v]) simp_all
    next
      case yes: True
      note set = set_block_ok [OF ok sound block False yes]
      have "(remaining v + usize_limit - 1) mod usize_limit = remaining v - 1"
        using set(4,5) by (simp add: mod_if)
      then have "verify_block E mapping block v = (Inr (), set_block v block)"
        unfolding * using yes by (simp add: set_block_def)
      with yes set(1-3) show thesis by (intro that [of "set_block v block"]) simp_all
    qed
  qed
qed

lemma verify_block_list_result:
  assumes "verifier_ok mapping v" and "verifier_sound E mapping v" and "\<forall>b \<in> set blocks. b < block_count v"
  shows "\<exists>r v'. verify_block_list E mapping blocks v = (r, v')
    \<and> verifier_ok mapping v' \<and> verifier_sound E mapping v' \<and> same_segment v v'
    \<and> (r = Inr () \<and> (\<forall>b \<in> set blocks. block_matches E mapping v b)
       \<or> (\<exists>b \<in> set blocks. \<not> block_matches E mapping v b \<and> r = Inl (Err (corrupted_block (verifier_offset v) b))))"
  using assms
proof (induction blocks arbitrary: v)
  case Nil
  then show ?case by simp
next
  case (Cons b blocks)
  from Cons.prems obtain v1 where v1: "verify_block E mapping b v =
      (if block_matches E mapping v b then Inr () else Inl (Err (corrupted_block (verifier_offset v) b)), v1)"
    "verifier_ok mapping v1" "verifier_sound E mapping v1" "same_segment v v1"
    using verify_block_result [of mapping v E b] by auto
  show ?case
  proof (cases "block_matches E mapping v b")
    case False
    with v1 show ?thesis by auto
  next
    case True
    from Cons.IH [OF v1(2,3)] Cons.prems(3) same_segment_count [OF v1(4)] obtain r v2 where
      v2: "verify_block_list E mapping blocks v1 = (r, v2)" "verifier_ok mapping v2" "verifier_sound E mapping v2"
        "same_segment v1 v2"
        "r = Inr () \<and> (\<forall>b \<in> set blocks. block_matches E mapping v1 b)
         \<or> (\<exists>b \<in> set blocks. \<not> block_matches E mapping v1 b \<and> r = Inl (Err (corrupted_block (verifier_offset v1) b)))"
      by auto
    have "verifier_offset v1 = verifier_offset v" using v1(4) by (simp add: same_segment_def)
    with v2 True v1(1) same_segment_matches [OF v1(4)] same_segment_trans [OF v1(4) v2(4)] show ?thesis by auto
  qed
qed

subsection \<open>Checking a range\<close>

definition touches :: "nat \<Rightarrow> nat \<Rightarrow> nat \<Rightarrow> bool" where
  "touches block start end \<longleftrightarrow> start < end \<and> start < block * 65536 + 65536 \<and> block * 65536 < end"

lemma touched_blocks:
  assumes "start < end"
  shows "b \<in> set [start div 65536 ..< Suc ((end - 1) div 65536)] \<longleftrightarrow> touches b start end"
proof -
  have "start div 65536 \<le> b \<longleftrightarrow> start < b * 65536 + 65536"
    using div_less_iff_less_mult [of 65536 start "Suc b"] by (simp add: less_Suc_eq_le add.commute)
  moreover have "b \<le> (end - 1) div 65536 \<longleftrightarrow> b * 65536 < end"
    using assms less_eq_div_iff_mult_less_eq [of 65536 b "end - 1"] by auto
  ultimately show ?thesis using assms by (auto simp: touches_def)
qed

lemma touched_block_count:
  assumes "verifier_ok mapping v" and "touches b start end" and "end \<le> data_size v"
  shows "b < block_count v"
proof -
  have count: "block_count v = div_ceil (data_size v) 65536" using assms(1) by (simp add: verifier_ok_def)
  have "data_size v \<le> 65536 * div_ceil (data_size v) 65536" by (rule div_ceil_bounds) simp
  then have "data_size v \<le> 65536 * block_count v" by (simp only: count)
  moreover have "b * 65536 < data_size v" using assms(2,3) by (simp add: touches_def)
  ultimately have "65536 * b < 65536 * block_count v" by linarith
  then show ?thesis by simp
qed

lemma verify_range_result:
  assumes ok: "verifier_ok mapping v" and sound: "verifier_sound E mapping v"
  obtains r v' where "verify_range E mapping start end v = (r, v')" and "verifier_ok mapping v'"
    and "verifier_sound E mapping v'" and "same_segment v v'" and "no_panic r"
    and "r = Inr () \<Longrightarrow> end \<le> data_size v \<Longrightarrow> \<forall>b. touches b start end \<longrightarrow> block_matches E mapping v b"
    and "start \<le> end \<Longrightarrow> end \<le> data_size v \<Longrightarrow> \<forall>b. touches b start end \<longrightarrow> block_matches E mapping v b \<Longrightarrow> r = Inr ()"
    and "start \<le> end \<Longrightarrow> end \<le> data_size v \<Longrightarrow> r \<noteq> Inr () \<Longrightarrow>
      \<exists>b. touches b start end \<and> \<not> block_matches E mapping v b \<and> r = Inl (Err (corrupted_block (verifier_offset v) b))"
proof (cases "fully_verified v \<or> \<not> start < end \<or> data_size v < end")
  case True
  have full: "block_matches E mapping v b" if "fully_verified v" "touches b start end" "end \<le> data_size v" for b
    using sound that touched_block_count [OF ok] by (auto simp: verifier_sound_def)
  have "verify_range E mapping start end v = (fst (verify_range E mapping start end v), v)
    \<and> (fst (verify_range E mapping start end v) =
      (if fully_verified v then Inr ()
       else if start > end then Inl (Err (invalid_base ''read range lies outside segment''))
       else if end > data_size v then Inl (Err (invalid_base ''read range lies outside segment data''))
       else Inr ()))"
    using True by (auto simp: verify_range_def)
  with True ok sound full show thesis
    by (intro that [of "fst (verify_range E mapping start end v)" v])
      (auto simp: touches_def split: if_splits)
next
  case False
  let ?blocks = "[start div 65536 ..< Suc ((end - 1) div 65536)]"
  have blocks: "b \<in> set ?blocks \<longleftrightarrow> touches b start end" for b using False by (intro touched_blocks) simp
  have "\<forall>b \<in> set ?blocks. b < block_count v" using touched_block_count [OF ok] blocks False by simp
  from verify_block_list_result [OF ok sound this] obtain r v' where
    r: "verify_block_list E mapping ?blocks v = (r, v')" "verifier_ok mapping v'" "verifier_sound E mapping v'"
      "same_segment v v'"
      "r = Inr () \<and> (\<forall>b \<in> set ?blocks. block_matches E mapping v b)
       \<or> (\<exists>b \<in> set ?blocks. \<not> block_matches E mapping v b \<and> r = Inl (Err (corrupted_block (verifier_offset v) b)))"
    by blast
  have "verify_range E mapping start end v = (r, v')" using r(1) False by (simp add: verify_range_def)
  moreover have "no_panic r" using r(5) by auto
  moreover have "r = Inr () \<and> (\<forall>b. touches b start end \<longrightarrow> block_matches E mapping v b)
    \<or> (\<exists>b. touches b start end \<and> \<not> block_matches E mapping v b \<and> r = Inl (Err (corrupted_block (verifier_offset v) b)))"
    using r(5) blocks by blast
  ultimately show thesis using r(2-4) by (intro that [of r v']) auto
qed

lemma verify_range_matching:
  assumes "verifier_ok mapping v" and "verifier_sound E mapping v"
    and "\<forall>b < block_count v. block_matches E mapping v b" and "start \<le> end" and "end \<le> data_size v"
  obtains v' where "verify_range E mapping start end v = (Inr (), v')" and "verifier_ok mapping v'"
    and "verifier_sound E mapping v'" and "same_segment v v'"
proof -
  have all: "\<forall>b. touches b start end \<longrightarrow> block_matches E mapping v b"
    using assms touched_block_count [OF assms(1) _ assms(5)] by blast
  from verify_range_result [OF assms(1,2), of start "end"] assms(4,5) all show thesis using that by metis
qed

subsection \<open>A new verifier\<close>

lemma length_chunks_exact4: "length (chunks_exact4 bs) = length bs div 4"
  by (induction bs rule: chunks_exact4.induct) simp_all

lemma chunks_exact4_u32: "length b = 4 \<Longrightarrow> chunks_exact4 (b @ bs) = u32_from_le_bytes b # chunks_exact4 bs"
proof -
  assume "length b = 4"
  then obtain x1 x2 x3 x4 where "b = [x1, x2, x3, x4]"
    by (auto simp: length_Suc_conv numeral_eq_Suc)
  then show ?thesis by simp
qed

lemma chunks_exact4_table: "chunks_exact4 (concat (map u32_to_le_bytes cs)) = cs"
  by (induction cs) (simp_all add: chunks_exact4_u32)

lemma bit_minus_one_u64: "n < 64 \<Longrightarrow> bit (- 1 :: u64) n"
  by (simp add: bit_simps)

lemma verifier_new_ok:
  assumes "segment_layout_of E mapping = Inr layout"
  shows "verifier_ok mapping (verifier_new offset layout full)"
proof -
  let ?v = "verifier_new offset layout full" and ?n = "div_ceil (length (layout_data layout)) 65536"
  note l = segment_layout_of_Inr [OF assms]
  have n: "block_count ?v = ?n"
    using l(1) by (simp add: verifier_new_def Let_def block_count_def length_chunks_exact4)
  have len: "length (verified ?v) = div_ceil ?n 64"
    using l(1) by (simp add: verifier_new_def Let_def length_chunks_exact4)
  have word: "b div 64 < div_ceil ?n 64" if "b < ?n" for b
  proof -
    have "?n \<le> 64 * div_ceil ?n 64" by (rule div_ceil_bounds) simp
    with that show ?thesis by (simp add: div_less_iff_less_mult mult.commute)
  qed
  have bits: "block_bit ?v b = full" if "b < ?n" for b
    using word [OF that] l(1) bit_minus_one_u64 [of "b mod 64"]
    by (simp add: block_bit_def verifier_new_def Let_def length_chunks_exact4)
  then have "unset_blocks ?v = (if full then {} else {..<?n})" by (auto simp: unset_blocks_def n)
  moreover have "remaining ?v = (if full then 0 else ?n)" "fully_verified ?v = full"
    "data_size ?v = length (layout_data layout)"
    using l(1) by (simp_all add: verifier_new_def Let_def)
  ultimately show ?thesis using n len l by (auto simp: verifier_ok_def)
qed

lemma verifier_new_sound: "segment_layout_of E mapping = Inr layout \<Longrightarrow>
  verifier_sound E mapping (verifier_new offset layout False)"
  using verifier_new_ok [of E mapping layout offset False] block_word_less [of mapping "verifier_new offset layout False"]
  by (auto simp: verifier_sound_def block_bit_def verifier_new_def Let_def)

text \<open>The blocks of a written segment match its table.\<close>

lemma chunks_nth:
  assumes "0 < n" and "b < div_ceil (length d) n"
  shows "chunks n d ! b = range_of (b * n) (min (b * n + n) (length d)) d"
  using assms
proof (induction n d arbitrary: b rule: chunks.induct)
  case (1 n d)
  have d: "d \<noteq> []" using 1(2,3) by (auto simp: div_ceil_def)
  then have step: "chunks n d = take n d # chunks n (drop n d)" using 1(2) by (subst chunks.simps) simp
  show ?case
  proof (cases b)
    case 0
    then show ?thesis by (simp add: step range_of_def min_def)
  next
    case (Suc c)
    have "div_ceil (length d) n = Suc (div_ceil (length d - n) n)" using d 1(2) by (intro div_ceil_step) simp_all
    then have c: "c < div_ceil (length (drop n d)) n" using 1(3) Suc by simp
    have "chunks n d ! b = range_of (c * n) (min (c * n + n) (length d - n)) (drop n d)"
      using 1(1) [OF _ 1(2) c] d 1(2) Suc step by simp
    also have "\<dots> = range_of (b * n) (min (b * n + n) (length d)) d"
      by (simp add: Suc range_of_def min_def add.commute)
    finally show ?thesis .
  qed
qed

lemma block_matches_table:
  assumes "length d + length (segment_metadata E d) < usize_limit" and "length x = length d"
    and "b < div_ceil (length d) 65536"
  shows "block_matches E (x @ segment_metadata E d) (verifier_new offset \<lparr>layout_data = x, layout_checksums = segment_table E d\<rparr> full) b
    \<longleftrightarrow> crc32c E (chunks 65536 x ! b) = crc32c E (chunks 65536 d ! b)"
proof -
  let ?stop = "min (b * 65536 + 65536) (length d)"
  have "range_of (b * 65536) ?stop (x @ segment_metadata E d) = chunks 65536 x ! b"
    using chunks_nth [of 65536 b x] assms(2,3) by simp
  moreover have "chunks_exact4 (segment_table E d) ! b = crc32c E (chunks 65536 d ! b)"
    unfolding segment_table_def chunks_exact4_table using assms(3) by (simp add: length_chunks)
  ultimately show ?thesis
    unfolding block_matches_def using assms(2) by (simp add: verifier_new_def Let_def)
qed

lemma block_count_new:
  "segment_layout_of E mapping = Inr layout \<Longrightarrow>
    block_count (verifier_new offset layout full) = div_ceil (length (layout_data layout)) 65536"
  using verifier_new_ok [of E mapping layout offset full]
  by (simp add: verifier_ok_def) (simp add: verifier_new_def Let_def)

text \<open>With one byte changed, exactly the block of that byte fails.\<close>

lemma block_matches_changed:
  assumes "crc32c_detects E" and lt: "length d + length (segment_metadata E d) < usize_limit"
    and i: "i < length d" "d ! i \<noteq> x" and b: "b < div_ceil (length d) 65536"
  shows "block_matches E (d[i := x] @ segment_metadata E d)
      (verifier_new offset \<lparr>layout_data = d[i := x], layout_checksums = segment_table E d\<rparr> full) b
    \<longleftrightarrow> b \<noteq> i div 65536"
proof -
  let ?first = "b * 65536" and ?stop = "min (b * 65536 + 65536) (length d)"
  have nth: "chunks 65536 (d[i := x]) ! b = range_of ?first ?stop (d[i := x])" "chunks 65536 d ! b = range_of ?first ?stop d"
    using chunks_nth [of 65536 b "d[i := x]"] chunks_nth [of 65536 b d] b by simp_all
  have crc: "crc32c E bs = crc32c_append E 0 bs" for bs
    using crc32c_crate.crc32c_append_0 [OF crc32c_detects.axioms(1) [OF assms(1)]] .
  have "crc32c E (chunks 65536 (d[i := x]) ! b) = crc32c E (chunks 65536 d ! b) \<longleftrightarrow> b \<noteq> i div 65536"
  proof (cases "b = i div 65536")
    case True
    then have "?first \<le> i" "i < ?first + 65536" by (simp_all add: div_times_less_eq_dividend dividend_less_div_times)
    with i show ?thesis
      unfolding nth crc using True crc32c_detects.crc32c_update [OF assms(1)]
      by (simp add: update_in_range_of nth_range_of)
  next
    case False
    then have "i < ?first \<or> ?first + 65536 \<le> i"
      using div_nat_eqI [of b 65536 i] by (simp add: mult.commute) linarith
    then show ?thesis unfolding nth using False by (subst update_range_of) auto
  qed
  with block_matches_table [OF lt, of "d[i := x]" b offset full] b show ?thesis by simp
qed

text \<open>A full check of all blocks leaves none that does not match.\<close>

lemma chunks_exact4_nth:
  "b < length bs div 4 \<Longrightarrow> chunks_exact4 bs ! b = u32_from_le_bytes (range_of (b * 4) (b * 4 + 4) bs)"
proof (induction bs arbitrary: b rule: chunks_exact4.induct)
  case (1 x y z w rest)
  have "drop (4 + n) (x # y # z # w # rest) = drop n rest" for n
    using drop_drop [of n 4 "x # y # z # w # rest"] by (simp add: add.commute)
  with 1 show ?case by (cases b) (simp_all add: range_of_def)
qed simp_all

lemma verify_blocks_Inr:
  assumes "verify_blocks E table seg_offset index blocks = Inr ()" and "4 * (index + length blocks) \<le> length table"
    and "b < length blocks"
  shows "crc32c E (blocks ! b) = chunks_exact4 table ! (index + b)"
  using assms
proof (induction blocks arbitrary: index b)
  case Nil
  then show ?case by simp
next
  case (Cons block blocks)
  have "index < length table div 4" using Cons.prems(2) by simp
  then have "crc32c E block = chunks_exact4 table ! index"
    using Cons.prems by (simp add: u32_at_in chunks_exact4_nth split: if_splits)
  with Cons.IH [of "Suc index" "b - 1"] Cons.prems show ?case
    by (cases b) (simp_all add: u32_at_in split: if_splits)
qed

lemma verify_segment_blocks_matches:
  assumes "segment_layout_of E mapping = Inr layout" and "verify_segment_blocks E layout seg_offset = Inr ()"
  shows "\<forall>b < block_count (verifier_new offset layout full). block_matches E mapping (verifier_new offset layout full) b"
proof (intro allI impI)
  fix b
  let ?d = "layout_data layout"
  assume "b < block_count (verifier_new offset layout full)"
  then have b: "b < div_ceil (length ?d) 65536" using block_count_new [OF assms(1)] by simp
  note l = segment_layout_of_Inr [OF assms(1)]
  have "crc32c E (chunks 65536 ?d ! b) = chunks_exact4 (layout_checksums layout) ! b"
    using verify_blocks_Inr [of E "layout_checksums layout" seg_offset 0 "chunks 65536 ?d" b] assms(2) b l(1)
    by (simp add: verify_segment_blocks_def length_chunks)
  moreover have "chunks 65536 ?d ! b = range_of (b * 65536) (min (b * 65536 + 65536) (length ?d)) mapping"
  proof -
    have "mapping = ?d @ drop (length ?d) mapping" by (subst l(2)) (rule append_take_drop_id [symmetric])
    then have "range_of (b * 65536) (min (b * 65536 + 65536) (length ?d)) mapping =
        range_of (b * 65536) (min (b * 65536 + 65536) (length ?d)) ?d"
      using range_of_append1 [of "min (b * 65536 + 65536) (length ?d)" ?d "b * 65536" "drop (length ?d) mapping"] by simp
    with chunks_nth [of 65536 b ?d] b show ?thesis by simp
  qed
  ultimately show "block_matches E mapping (verifier_new offset layout full) b"
    by (simp add: block_matches_def verifier_new_def Let_def)
qed

lemma verifier_new_written:
  fixes E d offset full
  assumes "length d + length (segment_metadata E d) < usize_limit"
  defines "v \<equiv> verifier_new offset \<lparr>layout_data = d, layout_checksums = segment_table E d\<rparr> full"
  shows "verifier_ok (d @ segment_metadata E d) v" and "verifier_sound E (d @ segment_metadata E d) v"
    and "\<forall>b < block_count v. block_matches E (d @ segment_metadata E d) v b"
proof -
  note layout = segment_layout_of_written [OF assms(1)]
  show "verifier_ok (d @ segment_metadata E d) v" unfolding v_def by (rule verifier_new_ok [OF layout])
  show "\<forall>b < block_count v. block_matches E (d @ segment_metadata E d) v b"
    using block_matches_table [OF assms(1) refl] block_count_new [OF layout] by (simp add: v_def)
  then show "verifier_sound E (d @ segment_metadata E d) v" by (simp add: verifier_sound_def)
qed

subsection \<open>A history of reads\<close>

definition after_ranges :: "externs \<Rightarrow> bytes \<Rightarrow> (nat \<times> nat) list \<Rightarrow> segment_verifier \<Rightarrow> segment_verifier" where
  "after_ranges E mapping ranges v = fold (\<lambda>(a, b) v. snd (verify_range E mapping a b v)) ranges v"

lemma after_ranges_ok:
  assumes "verifier_ok mapping v" and "verifier_sound E mapping v"
  shows "verifier_ok mapping (after_ranges E mapping ranges v) \<and> verifier_sound E mapping (after_ranges E mapping ranges v)
    \<and> same_segment v (after_ranges E mapping ranges v)"
  using assms
proof (induction ranges arbitrary: v)
  case Nil
  then show ?case by (simp add: after_ranges_def)
next
  case (Cons range ranges)
  obtain a b where range: "range = (a, b)" by fastforce
  from verify_range_result [OF Cons.prems, of a b] obtain r v' where
    v': "verify_range E mapping a b v = (r, v')" "verifier_ok mapping v'" "verifier_sound E mapping v'" "same_segment v v'"
    by metis
  have "after_ranges E mapping (range # ranges) v = after_ranges E mapping ranges v'"
    using v'(1) by (simp add: after_ranges_def range)
  with Cons.IH [OF v'(2,3)] same_segment_trans [OF v'(4)] show ?case by simp
qed

lemma verify_range_history:
  fixes E mapping layout offset ranges
  defines "v0 \<equiv> verifier_new offset layout False"
  assumes "segment_layout_of E mapping = Inr layout" and "start \<le> end" and "end \<le> length (layout_data layout)"
  shows "\<exists>r v'. verify_range E mapping start end (after_ranges E mapping ranges v0) = (r, v') \<and> no_panic r
    \<and> (r = Inr () \<longleftrightarrow> (\<forall>b. touches b start end \<longrightarrow> block_matches E mapping v0 b))
    \<and> (r \<noteq> Inr () \<longrightarrow> (\<exists>b. touches b start end \<and> \<not> block_matches E mapping v0 b
        \<and> r = Inl (Err (corrupted_block offset b))))"
proof -
  let ?v = "after_ranges E mapping ranges v0"
  have v: "verifier_ok mapping ?v" "verifier_sound E mapping ?v" "same_segment v0 ?v"
    using after_ranges_ok [OF verifier_new_ok [OF assms(2)] verifier_new_sound [OF assms(2)]] by (simp_all add: v0_def)
  have same: "data_size ?v = length (layout_data layout)" "verifier_offset ?v = offset"
    "block_matches E mapping ?v = block_matches E mapping v0"
    using v(3) same_segment_matches [OF v(3)] by (simp_all add: same_segment_def) (simp_all add: v0_def verifier_new_def Let_def)
  from verify_range_result [OF v(1,2), of start "end"] obtain r v' where
    r: "verify_range E mapping start end ?v = (r, v')" "no_panic r"
      "r = Inr () \<Longrightarrow> \<forall>b. touches b start end \<longrightarrow> block_matches E mapping v0 b"
      "\<forall>b. touches b start end \<longrightarrow> block_matches E mapping v0 b \<Longrightarrow> r = Inr ()"
      "r \<noteq> Inr () \<Longrightarrow> \<exists>b. touches b start end \<and> \<not> block_matches E mapping v0 b \<and> r = Inl (Err (corrupted_block offset b))"
    unfolding same using assms(3,4) by metis
  then show ?thesis by blast
qed

subsection \<open>Properties\<close>

text \<open>
  C31. Caching does not weaken the check on read. Take a segment with a valid layout, a new verifier and any
  history of reads, failed ones included. A check of a range inside the data then never crashes; it
  succeeds exactly when every block the range touches has the stored checksum now, and when it
  fails it names a touched block that does not.
\<close>

theorem verify_range_exact:
  fixes E mapping layout offset ranges
  defines "v0 \<equiv> verifier_new offset layout False"
  assumes "segment_layout_of E mapping = Inr layout" and "start \<le> end" and "end \<le> length (layout_data layout)"
  shows "\<exists>r v'. verify_range E mapping start end (after_ranges E mapping ranges v0) = (r, v') \<and> no_panic r
    \<and> (r = Inr () \<longleftrightarrow> (\<forall>b. touches b start end \<longrightarrow> block_matches E mapping v0 b))
    \<and> (r \<noteq> Inr () \<longrightarrow> (\<exists>b. touches b start end \<and> \<not> block_matches E mapping v0 b
        \<and> r = Inl (Err (corrupted_block offset b))))"
  using verify_range_history [OF assms(2-4)] by (simp only: v0_def)

lemma small_layout:
  "segment_layout_of reference_externs ([1, 2, 3] @ segment_metadata reference_externs [1, 2, 3]) =
    Inr \<lparr>layout_data = [1, 2, 3], layout_checksums = segment_table reference_externs [1, 2, 3]\<rparr>"
  by (rule segment_layout_of_written)
    (simp add: length_segment_metadata usize_limit_def div_ceil_def)

theorem verify_range_exact_witness:
  "\<exists>r v'. verify_range reference_externs ([1, 2, 3] @ segment_metadata reference_externs [1, 2, 3]) 1 3
      (after_ranges reference_externs ([1, 2, 3] @ segment_metadata reference_externs [1, 2, 3]) [(0, 2), (2, 9)]
        (verifier_new 8192 \<lparr>layout_data = [1, 2, 3], layout_checksums = segment_table reference_externs [1, 2, 3]\<rparr> False))
      = (r, v') \<and> no_panic r"
  using verify_range_exact [OF small_layout, of 1 3 "[(0, 2), (2, 9)]" 8192] by auto

text \<open>
  C32. A changed byte is caught on read, and only there. Change one byte of the data of a written base and
  open it with a new verifier: after any history of reads, a read of a range in the block with the
  changed byte fails and names that block, and a read of a range that touches only other blocks still
  succeeds.
\<close>

theorem verify_range_changed_byte:
  fixes E d i x offset ranges
  defines "mapping \<equiv> d[i := x] @ segment_metadata E d"
  defines "v0 \<equiv> verifier_new offset \<lparr>layout_data = d[i := x], layout_checksums = segment_table E d\<rparr> False"
  assumes "crc32c_detects E" and lt: "length d + length (segment_metadata E d) < usize_limit"
    and "i < length d" and "d ! i \<noteq> x" and "start \<le> end" and "end \<le> length d"
  shows "fst (verify_range E mapping start end (after_ranges E mapping ranges v0)) =
    (if touches (i div 65536) start end then Inl (Err (corrupted_block offset (i div 65536))) else Inr ())"
proof -
  let ?n = "div_ceil (length d) 65536" and ?l = "\<lparr>layout_data = d[i := x], layout_checksums = segment_table E d\<rparr>"
  have layout: "segment_layout_of E mapping = Inr ?l"
    unfolding mapping_def by (rule segment_layout_of_table [OF lt]) simp
  have iff: "block_matches E mapping v0 b \<longleftrightarrow> b \<noteq> i div 65536" if "b < ?n" for b
    unfolding mapping_def v0_def by (rule block_matches_changed [OF assms(3) lt assms(5,6) that])
  have count: "b < ?n" if "touches b start end" for b
    using touched_block_count [OF verifier_new_ok [OF layout, of offset False] that] assms(8)
      block_count_new [OF layout, of offset False] by (simp add: verifier_new_def Let_def)
  from verify_range_history [OF layout, of start "end" ranges offset] assms(7,8) obtain r v' where
    r: "verify_range E mapping start end (after_ranges E mapping ranges v0) = (r, v')"
      "r = Inr () \<longleftrightarrow> (\<forall>b. touches b start end \<longrightarrow> block_matches E mapping v0 b)"
      "r \<noteq> Inr () \<longrightarrow> (\<exists>b. touches b start end \<and> \<not> block_matches E mapping v0 b
        \<and> r = Inl (Err (corrupted_block offset b)))"
    unfolding v0_def by auto
  then show ?thesis using iff count by (cases "r = Inr ()") auto
qed

lemma reference_segment_small: "length d < 1000 \<Longrightarrow> length d + length (segment_metadata E d) < usize_limit"
  using div_ceil_bounds(2) [of 65536 "length d"] by (simp add: length_segment_metadata usize_limit_def div_ceil_def)

theorem verify_range_changed_byte_witness:
  "fst (verify_range reference_externs ([1, 7, 3] @ segment_metadata reference_externs [1, 2, 3]) 1 3
      (after_ranges reference_externs ([1, 7, 3] @ segment_metadata reference_externs [1, 2, 3]) [(0, 2)]
        (verifier_new 8192 \<lparr>layout_data = [1, 7, 3], layout_checksums = segment_table reference_externs [1, 2, 3]\<rparr> False)))
    = Inl (Err (corrupted_block 8192 0))"
  using verify_range_changed_byte [OF reference.crc32c_detects_axioms reference_segment_small, of "[1, 2, 3]" 1 7 1 3 "[(0, 2)]" 8192]
  by (simp add: touches_def)

end
