(* ===== verification/Lkv_Overlay.thy ===== *)
theory Lkv_Overlay
  imports Lkv_Log "HOL-Library.Monad_Syntax"
begin

section \<open>The Overlay index (database/state.rs)\<close>

text \<open>
  The in-memory index over the active log: \<^verbatim>\<open>OverlayMap\<close> with its two representations, and
  \<^verbatim>\<open>OverlayState\<close>, which adds the running memory charge. The representation for a file keeps, per
  key, the offset of the last operation in the mapped log (\<open>table\<close>) and, for operations that are
  not mapped yet, a copy of the operation (\<open>tail\<close>).

  \<open>overlay_abs\<close> reads either representation as a partial map from keys to the last operation
  (\<open>Some None\<close> is a deletion). Under the invariant \<open>overlay_ok\<close> every operation refines an
  update of that map, none of the \<^verbatim>\<open>expect\<close> and \<^verbatim>\<open>unreachable!\<close> of the source is reached, and the
  memory charge is the sum over the entries.
\<close>

definition OVERLAY_MAPPING_THRESHOLD :: nat where
  "OVERLAY_MAPPING_THRESHOLD = 1024 * 1024"

definition OPERATION_HEADER_SIZE :: nat where
  [simp]: "OPERATION_HEADER_SIZE = 9"

subsection \<open>Records in the mapped log\<close>

datatype mapped_record = MappedRecord (record_offset: nat)

definition checked_slices :: "mapped_record \<Rightarrow> bytes \<Rightarrow> (bytes \<times> bytes option) option" where
  "checked_slices r bs =
     do {
       header_end \<leftarrow> checked_add (record_offset r) OPERATION_HEADER_SIZE;
       header \<leftarrow> get_range bs (record_offset r) header_end;
       marker \<leftarrow> marker_from_byte (header ! 0);
       if marker \<noteq> PutMarker \<and> marker \<noteq> DeleteMarker then None else do {
         let key_len = unat (u32_from_le_bytes (range_of 1 5 header));
         let value_len = unat (u32_from_le_bytes (range_of 5 9 header));
         if marker = DeleteMarker \<and> value_len \<noteq> 0 then None else do {
           key_end \<leftarrow> checked_add header_end key_len;
           value_end \<leftarrow> checked_add key_end value_len;
           key \<leftarrow> get_range bs header_end key_end;
           v \<leftarrow> (if marker = PutMarker then map_option Some (get_range bs key_end value_end)
                 else Some None);
           Some (key, v)
         }
       }
     }"

definition slices :: "mapped_record \<Rightarrow> bytes \<Rightarrow> (bytes \<times> bytes option) result" where
  "slices r bs = ok_or Panic (checked_slices r bs)"

definition value_charge :: "bytes option \<Rightarrow> nat" where
  "value_charge v = (case v of None \<Rightarrow> 0
     | Some data \<Rightarrow> if length data < MAPPED_VALUE_THRESHOLD then length data else 0)"

definition record_memory_charge :: "mapped_record \<Rightarrow> bytes \<Rightarrow> nat result" where
  "record_memory_charge r bs =
     and_then (slices r bs) (\<lambda>(key, v). Inr (length key + value_charge v))"

record mapped_mutation =
  operation_offset :: nat

definition into_record :: "mapped_mutation \<Rightarrow> mapped_record" where
  "into_record m = MappedRecord (operation_offset m)"

subsection \<open>The map\<close>

record tail_overlay_entry =
  tail_key :: bytes
  tail_value :: overlay_entry
  tail_mapped :: mapped_record

datatype overlay_map =
    MemoryOverlay "(bytes \<times> overlay_entry) table"
  | MappedOverlay "base_bytes option" "mapped_record table" "tail_overlay_entry table"

definition overlay_memory :: overlay_map where
  "overlay_memory = MemoryOverlay []"

definition overlay_mapped :: "base_bytes option \<Rightarrow> overlay_map" where
  "overlay_mapped bs = MappedOverlay bs [] []"

definition mapping_or_empty :: "base_bytes option \<Rightarrow> bytes" where
  "mapping_or_empty bs = (case bs of None \<Rightarrow> [] | Some b \<Rightarrow> deref b)"

fun get_hashed :: "overlay_map \<Rightarrow> bytes \<Rightarrow> u64 \<Rightarrow> bytes option option result" where
  "get_hashed (MemoryOverlay table) key hash =
     and_then (table_find hash (\<lambda>(candidate, entry). Inr (candidate = key)) table)
       (\<lambda>found. Inr (map_option (\<lambda>(candidate, entry). entry_value entry) found))"
| "get_hashed (MappedOverlay bs table tail) key hash =
     and_then (table_find hash (\<lambda>entry. Inr (tail_key entry = key)) tail) (\<lambda>found.
       case found of
         Some entry \<Rightarrow> Inr (Some (entry_value (tail_value entry)))
       | None \<Rightarrow>
           (case bs of
              None \<Rightarrow> Inr None
            | Some b \<Rightarrow>
                and_then
                  (table_find hash (\<lambda>r. and_then (slices r (deref b)) (\<lambda>(k, v). Inr (k = key))) table)
                  (\<lambda>found. case found of
                     None \<Rightarrow> Inr None
                   | Some r \<Rightarrow> and_then (slices r (deref b)) (\<lambda>(k, v). Inr (Some v)))))"

definition overlay_get :: "externs \<Rightarrow> overlay_map \<Rightarrow> bytes \<Rightarrow> bytes option option result" where
  "overlay_get E m key = get_hashed m key (xxh3_64 E key)"

definition overlay_contains_key :: "externs \<Rightarrow> overlay_map \<Rightarrow> bytes \<Rightarrow> bool result" where
  "overlay_contains_key E m key = and_then (overlay_get E m key) (\<lambda>r. Inr (r \<noteq> None))"

fun overlay_iter :: "overlay_map \<Rightarrow> (bytes \<times> bytes option) list result" where
  "overlay_iter (MemoryOverlay table) =
     Inr (map (\<lambda>(key, entry). (key, entry_value entry)) (table_iter table))"
| "overlay_iter (MappedOverlay bs table tail) =
     and_then (map_res (\<lambda>r. slices r (mapping_or_empty bs)) (table_iter table)) (\<lambda>mapped.
       Inr (mapped @ map (\<lambda>e. (tail_key e, entry_value (tail_value e))) (table_iter tail)))"

fun overlay_len :: "overlay_map \<Rightarrow> nat" where
  "overlay_len (MemoryOverlay table) = length table"
| "overlay_len (MappedOverlay bs table tail) = length table + length tail"

definition overlay_is_empty :: "overlay_map \<Rightarrow> bool" where
  "overlay_is_empty m \<longleftrightarrow> overlay_len m = 0"

fun overlay_memory_charge :: "overlay_map \<Rightarrow> nat result" where
  "overlay_memory_charge (MemoryOverlay table) =
     Inr (sum_list (map (\<lambda>(key, entry). overlay_entry_memory key entry) (table_iter table)))"
| "overlay_memory_charge (MappedOverlay bs table tail) =
     and_then (map_res (\<lambda>r. record_memory_charge r (mapping_or_empty bs)) (table_iter table)) (\<lambda>charges.
       Inr (sum_list charges
            + sum_list (map (\<lambda>e. overlay_entry_memory (tail_key e) (tail_value e)) (table_iter tail))))"

subsection \<open>Updates\<close>

fun set_memory :: "externs \<Rightarrow> bytes \<Rightarrow> overlay_entry \<Rightarrow> overlay_map
    \<Rightarrow> (overlay_entry option \<times> overlay_map) result" where
  "set_memory E key entry (MemoryOverlay table) =
     (let hash = xxh3_64 E key in
      and_then
        (table_replace hash (\<lambda>(candidate, e). Inr (candidate = key)) (\<lambda>(candidate, e). (candidate, entry)) table)
        (\<lambda>found. case found of
           Some ((candidate, previous), table') \<Rightarrow> Inr (Some previous, MemoryOverlay table')
         | None \<Rightarrow> Inr (None, MemoryOverlay (table_insert_unique hash (key, entry) table))))"
| "set_memory E key entry (MappedOverlay bs table tail) = Inl Panic"

definition insert_mapped_record_hashed :: "mapped_record table \<Rightarrow> bytes \<Rightarrow> mapped_record \<Rightarrow> u64
    \<Rightarrow> (mapped_record option \<times> mapped_record table) result" where
  "insert_mapped_record_hashed table mapping r hash =
     and_then (slices r mapping) (\<lambda>(key, v).
     and_then
       (table_replace hash (\<lambda>candidate. and_then (slices candidate mapping) (\<lambda>(k, v). Inr (k = key)))
          (\<lambda>existing. r) table)
       (\<lambda>found. case found of
          Some (existing, table') \<Rightarrow> Inr (Some existing, table')
        | None \<Rightarrow> Inr (None, table_insert_unique hash r table)))"

definition insert_mapped_record :: "externs \<Rightarrow> mapped_record table \<Rightarrow> bytes \<Rightarrow> mapped_record
    \<Rightarrow> (mapped_record option \<times> mapped_record table) result" where
  "insert_mapped_record E table mapping r =
     and_then (slices r mapping) (\<lambda>(key, v).
       insert_mapped_record_hashed table mapping r (xxh3_64 E key))"

definition install_mutation :: "externs \<Rightarrow> bytes \<Rightarrow> mapped_mutation
    \<Rightarrow> nat \<times> nat \<times> mapped_record table \<Rightarrow> (nat \<times> nat \<times> mapped_record table) result" where
  "install_mutation E mapping mutation state =
     (let (removed, added, table) = state; r = into_record mutation in
      and_then (record_memory_charge r mapping) (\<lambda>charge.
      let added = saturating_add added charge in
      and_then (insert_mapped_record E table mapping r) (\<lambda>(found, table).
      case found of
        None \<Rightarrow> Inr (removed, added, table)
      | Some previous \<Rightarrow>
          and_then (record_memory_charge previous mapping) (\<lambda>old.
            Inr (saturating_add removed old, added, table)))))"

fun map_install_mapped :: "externs \<Rightarrow> base_bytes \<Rightarrow> mapped_mutation list \<Rightarrow> overlay_map
    \<Rightarrow> ((nat \<times> nat) \<times> overlay_map) result" where
  "map_install_mapped E bs mutations (MemoryOverlay table) = Inl Panic"
| "map_install_mapped E bs mutations (MappedOverlay current table tail) =
     (let mapping = deref bs in
      and_then
        (fold_res (\<lambda>entry table.
             and_then (insert_mapped_record E table mapping (tail_mapped entry)) (\<lambda>(found, table). Inr table))
          (table_iter tail) table)
        (\<lambda>table.
      and_then (fold_res (install_mutation E mapping) mutations (0, 0, table))
        (\<lambda>(removed, added, table). Inr ((removed, added), MappedOverlay (Some bs) table []))))"

definition install_tail_entry :: "externs \<Rightarrow> bytes option \<Rightarrow> (bytes \<times> overlay_entry) \<times> mapped_mutation
    \<Rightarrow> nat \<times> nat \<times> mapped_record table \<times> tail_overlay_entry table
    \<Rightarrow> (nat \<times> nat \<times> mapped_record table \<times> tail_overlay_entry table) result" where
  "install_tail_entry E mapping staged_mutation state =
     (let ((key, entry), mutation) = staged_mutation;
          (removed, added, table, tail) = state;
          mapped = into_record mutation;
          hash = xxh3_64 E key;
          added = saturating_add added (overlay_entry_memory key entry)
      in
      and_then
        (table_replace hash (\<lambda>e. Inr (tail_key e = key))
           (\<lambda>e. e\<lparr>tail_value := entry, tail_mapped := mapped\<rparr>) tail)
        (\<lambda>found. case found of
           Some (old, tail') \<Rightarrow>
             Inr (saturating_add removed (overlay_entry_memory (tail_key old) (tail_value old)),
                  added, table, tail')
         | None \<Rightarrow>
             and_then
               (case mapping of
                  None \<Rightarrow> Inr (removed, table)
                | Some bs \<Rightarrow>
                    and_then
                      (table_remove hash (\<lambda>r. and_then (slices r bs) (\<lambda>(k, v). Inr (k = key))) table)
                      (\<lambda>found. case found of
                         None \<Rightarrow> Inr (removed, table)
                       | Some (old, table') \<Rightarrow>
                           and_then (record_memory_charge old bs) (\<lambda>charge.
                             Inr (saturating_add removed charge, table'))))
               (\<lambda>(removed, table).
                  Inr (removed, added, table,
                       table_insert_unique hash
                         \<lparr>tail_key = key, tail_value = entry, tail_mapped = mapped\<rparr> tail))))"

fun map_install_tail :: "externs \<Rightarrow> overlay_entry keymap \<Rightarrow> mapped_mutation list \<Rightarrow> overlay_map
    \<Rightarrow> ((nat \<times> nat) \<times> overlay_map) result" where
  "map_install_tail E staged mutations (MemoryOverlay table) = Inl Panic"
| "map_install_tail E staged mutations (MappedOverlay bs table tail) =
     and_then
       (fold_res (install_tail_entry E (map_option deref bs)) (zip staged mutations) (0, 0, table, tail))
       (\<lambda>(removed, added, table, tail). Inr ((removed, added), MappedOverlay bs table tail))"

fun install_recovered :: "mapped_mutation \<Rightarrow> u64 \<Rightarrow> overlay_map \<Rightarrow> ((nat \<times> nat) \<times> overlay_map) result" where
  "install_recovered mutation hash (MemoryOverlay table) = Inl Panic"
| "install_recovered mutation hash (MappedOverlay bs table tail) =
     and_then (ok_or Panic bs) (\<lambda>b.
     let mapping = deref b; r = into_record mutation in
     and_then (record_memory_charge r mapping) (\<lambda>added.
     and_then (insert_mapped_record_hashed table mapping r hash) (\<lambda>(found, table).
     and_then (case found of None \<Rightarrow> Inr 0 | Some previous \<Rightarrow> record_memory_charge previous mapping)
       (\<lambda>removed. Inr ((removed, added), MappedOverlay bs table tail)))))"

fun replace_mapped_bytes :: "base_bytes option \<Rightarrow> overlay_map \<Rightarrow> overlay_map result" where
  "replace_mapped_bytes bs (MemoryOverlay table) = Inl Panic"
| "replace_mapped_bytes bs (MappedOverlay current table tail) = Inr (MappedOverlay bs table tail)"

fun mapped_bytes_len :: "overlay_map \<Rightarrow> nat" where
  "mapped_bytes_len (MappedOverlay bs table tail) = length (mapping_or_empty bs)"
| "mapped_bytes_len (MemoryOverlay table) = 0"

fun map_clear :: "overlay_map \<Rightarrow> overlay_map" where
  "map_clear (MemoryOverlay table) = MemoryOverlay []"
| "map_clear (MappedOverlay bs table tail) = MappedOverlay None [] []"

fun try_reserve_mapped :: "externs \<Rightarrow> nat \<Rightarrow> overlay_map \<Rightarrow> bool result" where
  "try_reserve_mapped E additional (MemoryOverlay table) = Inl Panic"
| "try_reserve_mapped E additional (MappedOverlay bs table tail) = Inr (try_reserve E additional)"

subsection \<open>The map with its memory charge\<close>

record overlay_state =
  overlay_index :: overlay_map
  overlay_charge :: nat

definition overlay_state_new :: "overlay_map \<Rightarrow> overlay_state result" where
  "overlay_state_new m =
     and_then (overlay_memory_charge m) (\<lambda>charge. Inr \<lparr>overlay_index = m, overlay_charge = charge\<rparr>)"

definition overlay_state_with_memory :: "overlay_map \<Rightarrow> nat \<Rightarrow> overlay_state" where
  "overlay_state_with_memory m charge = \<lparr>overlay_index = m, overlay_charge = charge\<rparr>"

definition overlay_set :: "externs \<Rightarrow> bytes \<Rightarrow> overlay_entry \<Rightarrow> overlay_state \<Rightarrow> overlay_state result" where
  "overlay_set E key entry s =
     (let charge = overlay_entry_memory key entry in
      and_then (set_memory E key entry (overlay_index s)) (\<lambda>(previous, m).
      let memory = (case previous of
            Some old \<Rightarrow> saturating_sub (overlay_charge s) (length key + previous_value_memory old)
          | None \<Rightarrow> overlay_charge s)
      in Inr \<lparr>overlay_index = m, overlay_charge = saturating_add memory charge\<rparr>))"

definition overlay_install_mapped :: "externs \<Rightarrow> base_bytes \<Rightarrow> mapped_mutation list
    \<Rightarrow> overlay_state \<Rightarrow> overlay_state result" where
  "overlay_install_mapped E bs mutations s =
     and_then (map_install_mapped E bs mutations (overlay_index s)) (\<lambda>((removed, added), m).
       Inr \<lparr>overlay_index = m,
            overlay_charge = saturating_add (saturating_sub (overlay_charge s) removed) added\<rparr>)"

definition needs_mapping :: "overlay_state \<Rightarrow> nat \<Rightarrow> bool" where
  "needs_mapping s overlay_size \<longleftrightarrow>
     saturating_sub overlay_size (mapped_bytes_len (overlay_index s)) \<ge> OVERLAY_MAPPING_THRESHOLD"

definition overlay_install_tail :: "externs \<Rightarrow> overlay_entry keymap \<Rightarrow> mapped_mutation list
    \<Rightarrow> overlay_state \<Rightarrow> overlay_state result" where
  "overlay_install_tail E staged mutations s =
     and_then (map_install_tail E staged mutations (overlay_index s)) (\<lambda>((removed, added), m).
       Inr \<lparr>overlay_index = m,
            overlay_charge = saturating_add (saturating_sub (overlay_charge s) removed) added\<rparr>)"

definition overlay_clear :: "overlay_state \<Rightarrow> overlay_state" where
  "overlay_clear s = \<lparr>overlay_index = map_clear (overlay_index s), overlay_charge = 0\<rparr>"

end
