(* ===== verification/Lkv_Overlay_Correct.thy ===== *)
theory Lkv_Overlay_Correct
  imports Lkv_Overlay
begin

section \<open>The Overlay index refines a map of last operations\<close>

text \<open>
  The abstraction \<open>overlay_abs\<close>, the invariant \<open>overlay_ok\<close> relative to the bytes of the log,
  and, for each operation of \<^verbatim>\<open>OverlayMap\<close>, the refinement lemma, the preservation of the invariant
  and the change of the memory charge.
\<close>

subsection \<open>Records\<close>

definition record_key :: "bytes \<Rightarrow> mapped_record \<Rightarrow> bytes" where
  "record_key bs r = (case checked_slices r bs of Some (key, v) \<Rightarrow> key | None \<Rightarrow> [])"

definition record_value :: "bytes \<Rightarrow> mapped_record \<Rightarrow> bytes option" where
  "record_value bs r = (case checked_slices r bs of Some (key, v) \<Rightarrow> v | None \<Rightarrow> None)"

definition record_ok :: "bytes \<Rightarrow> mapped_record \<Rightarrow> bool" where
  "record_ok bs r \<longleftrightarrow> checked_slices r bs \<noteq> None"

definition record_charge :: "bytes \<Rightarrow> mapped_record \<Rightarrow> nat" where
  "record_charge bs r = length (record_key bs r) + value_charge (record_value bs r)"

lemma marker_from_byte_put_delete:
  "marker_from_byte b = Some PutMarker \<longleftrightarrow> b = 1"
  "marker_from_byte b = Some DeleteMarker \<longleftrightarrow> b = 2"
  by (auto simp: marker_from_byte_def)

text \<open>The fields of an operation at an offset, and when they make a valid operation.\<close>

definition operation_key_len :: "nat \<Rightarrow> bytes \<Rightarrow> nat" where
  "operation_key_len off bs = unat (u32_from_le_bytes (range_of (off + 1) (off + 5) bs))"

definition operation_value_len :: "nat \<Rightarrow> bytes \<Rightarrow> nat" where
  "operation_value_len off bs = unat (u32_from_le_bytes (range_of (off + 5) (off + 9) bs))"

lemma checked_slices_Some_iff:
  "checked_slices (MappedRecord off) bs = Some (key, v) \<longleftrightarrow>
     (let key_end = off + 9 + operation_key_len off bs;
          value_end = key_end + operation_value_len off bs
      in value_end < usize_limit \<and> key_end \<le> length bs \<and> key = range_of (off + 9) key_end bs
         \<and> (bs ! off = 1 \<and> value_end \<le> length bs \<and> v = Some (range_of key_end value_end bs)
            \<or> bs ! off = 2 \<and> value_end = key_end \<and> v = None))"
proof (cases "off + 9 < usize_limit \<and> off + 9 \<le> length bs")
  case False
  then have "checked_slices (MappedRecord off) bs = None"
    by (cases "off + 9 < usize_limit") (simp_all add: checked_slices_def checked_add_def get_range_def)
  with False show ?thesis by (auto simp: Let_def)
next
  case True
  let ?h = "range_of off (off + 9) bs"
  have h0: "?h ! 0 = bs ! off" using True by (simp add: nth_range_of)
  have h1: "range_of 1 5 ?h = range_of (off + 1) (off + 5) bs"
    and h5: "range_of 5 9 ?h = range_of (off + 5) (off + 9) bs"
    by (simp_all add: range_of_range_of)
  have head: "checked_add off 9 = Some (off + 9)" "get_range bs off (off + 9) = Some ?h"
    using True by (simp_all add: checked_add_def get_range_def)
  have eq: "checked_slices (MappedRecord off) bs =
      (case marker_from_byte (bs ! off) of
         Some PutMarker \<Rightarrow>
           do {
             key_end \<leftarrow> checked_add (off + 9) (operation_key_len off bs);
             value_end \<leftarrow> checked_add key_end (operation_value_len off bs);
             key \<leftarrow> get_range bs (off + 9) key_end;
             v \<leftarrow> map_option Some (get_range bs key_end value_end);
             Some (key, v)
           }
       | Some DeleteMarker \<Rightarrow>
           if operation_value_len off bs \<noteq> 0 then None
           else do {
             key_end \<leftarrow> checked_add (off + 9) (operation_key_len off bs);
             value_end \<leftarrow> checked_add key_end (operation_value_len off bs);
             key \<leftarrow> get_range bs (off + 9) key_end;
             Some (key, None)
           }
       | _ \<Rightarrow> None)"
    by (cases "marker_from_byte (bs ! off)")
      (simp_all add: checked_slices_def head h0 h1 h5 operation_key_len_def operation_value_len_def
        del: One_nat_def split: marker.split)
  consider "bs ! off = 1" | "bs ! off = 2" | "bs ! off \<noteq> 1" "bs ! off \<noteq> 2" by blast
  then show ?thesis
  proof cases
    case 1
    then show ?thesis unfolding eq
      by (auto simp: marker_from_byte_def bind_eq_Some_conv result_simps Let_def)
  next
    case 2
    then show ?thesis unfolding eq
      by (auto simp: marker_from_byte_def bind_eq_Some_conv result_simps Let_def)
  next
    case 3
    then show ?thesis unfolding eq by (simp add: marker_from_byte_def Let_def)
  qed
qed

lemma operation_lens_append:
  "off + 9 \<le> length bs \<Longrightarrow> operation_key_len off (bs @ rest) = operation_key_len off bs"
  "off + 9 \<le> length bs \<Longrightarrow> operation_value_len off (bs @ rest) = operation_value_len off bs"
  by (simp_all add: operation_key_len_def operation_value_len_def)

lemma checked_slices_mono:
  assumes "checked_slices r bs = Some p"
  shows "checked_slices r (bs @ rest) = Some p"
proof -
  obtain off where r: "r = MappedRecord off" by (cases r)
  obtain key v where p: "p = (key, v)" by fastforce
  from assms have "off + 9 \<le> length bs" by (auto simp: r p checked_slices_Some_iff Let_def)
  with assms show ?thesis
    by (auto simp: r p checked_slices_Some_iff Let_def operation_lens_append nth_append)
qed

lemma record_mono:
  assumes "record_ok bs r"
  shows "record_ok (bs @ rest) r" and "record_key (bs @ rest) r = record_key bs r"
    and "record_value (bs @ rest) r = record_value bs r"
    and "record_charge (bs @ rest) r = record_charge bs r"
  using assms checked_slices_mono [of r bs _ rest]
  by (auto simp: record_ok_def record_key_def record_value_def record_charge_def)

lemma slices_ok [simp]: "record_ok bs r \<Longrightarrow> slices r bs = Inr (record_key bs r, record_value bs r)"
  by (auto simp: record_ok_def slices_def record_key_def record_value_def)

lemma record_memory_charge_ok [simp]:
  "record_ok bs r \<Longrightarrow> record_memory_charge r bs = Inr (record_charge bs r)"
  by (simp add: record_memory_charge_def record_charge_def)

lemma record_ok_Nil [simp]: "\<not> record_ok [] r"
  by (auto simp: record_ok_def checked_slices_def get_range_def bind_eq_None_conv checked_add_def)

lemma record_okI:
  "checked_slices r bs = Some (key, v) \<Longrightarrow>
     record_ok bs r \<and> record_key bs r = key \<and> record_value bs r = v"
  by (simp add: record_ok_def record_key_def record_value_def)

subsection \<open>Abstraction and invariant\<close>

fun overlay_abs :: "overlay_map \<Rightarrow> bytes \<rightharpoonup> bytes option" where
  "overlay_abs (MemoryOverlay table) =
     (\<lambda>key. map_option (\<lambda>(k, e). entry_value e) (table_map fst table key))"
| "overlay_abs (MappedOverlay bs table tail) =
     (let m = mapping_or_empty bs
      in (\<lambda>key. map_option (record_value m) (table_map (record_key m) table key))
         ++ (\<lambda>key. map_option (\<lambda>e. entry_value (tail_value e)) (table_map tail_key tail key)))"

definition tail_entry_ok :: "bytes \<Rightarrow> tail_overlay_entry \<Rightarrow> bool" where
  "tail_entry_ok L e \<longleftrightarrow>
     entry_ok (tail_value e)
     \<and> checked_slices (tail_mapped e) L = Some (tail_key e, entry_value (tail_value e))
     \<and> (\<forall>v. entry_value (tail_value e) = Some v \<longrightarrow> length v < MAPPED_VALUE_THRESHOLD)"

definition records_ok :: "externs \<Rightarrow> bytes \<Rightarrow> mapped_record table \<Rightarrow> bool" where
  "records_ok E m table \<longleftrightarrow>
     (\<forall>r \<in> snd ` set table. record_ok m r) \<and> table_ok (xxh3_64 E) (record_key m) table"

fun overlay_ok :: "externs \<Rightarrow> bytes \<Rightarrow> overlay_map \<Rightarrow> bool" where
  "overlay_ok E L (MemoryOverlay table) \<longleftrightarrow>
     table_ok (xxh3_64 E) fst table \<and> (\<forall>(k, e) \<in> snd ` set table. entry_ok e)"
| "overlay_ok E L (MappedOverlay bs table tail) \<longleftrightarrow>
     (let m = mapping_or_empty bs in
      (\<exists>rest. L = m @ rest) \<and> records_ok E m table
      \<and> table_ok (xxh3_64 E) tail_key tail \<and> (\<forall>e \<in> snd ` set tail. tail_entry_ok L e)
      \<and> record_key m ` snd ` set table \<inter> tail_key ` snd ` set tail = {})"

fun map_charge :: "overlay_map \<Rightarrow> nat" where
  "map_charge (MemoryOverlay table) = table_sum (\<lambda>(key, entry). overlay_entry_memory key entry) table"
| "map_charge (MappedOverlay bs table tail) =
     table_sum (record_charge (mapping_or_empty bs)) table
     + table_sum (\<lambda>e. overlay_entry_memory (tail_key e) (tail_value e)) tail"

lemma overlay_memory_charge_eq:
  assumes "overlay_ok E L m"
  shows "overlay_memory_charge m = Inr (map_charge m)"
proof (cases m)
  case (MemoryOverlay table)
  then show ?thesis by (simp add: table_sum_def)
next
  case (MappedOverlay bs table tail)
  let ?m = "mapping_or_empty bs"
  from assms MappedOverlay have "record_ok ?m r" if "r \<in> set (table_iter table)" for r
    using that by (auto simp: Let_def records_ok_def table_iter_def)
  then have "map_res (\<lambda>r. record_memory_charge r ?m) (table_iter table) =
      Inr (map (record_charge ?m) (table_iter table))"
    by (intro map_res_Inr_map) simp
  with MappedOverlay show ?thesis by (simp add: table_sum_def)
qed

subsection \<open>Reading\<close>

lemma table_find_records:
  assumes "records_ok E m table"
  shows "table_find (xxh3_64 E key) (\<lambda>r. and_then (slices r m) (\<lambda>(k, v). Inr (k = key))) table =
    Inr (table_map (record_key m) table key)"
  using assms by (intro table_find_eq) (auto simp: records_ok_def)

theorem overlay_get_eq:
  assumes "overlay_ok E L m"
  shows "overlay_get E m key = Inr (overlay_abs m key)"
proof (cases m)
  case (MemoryOverlay table)
  with assms have "table_find (xxh3_64 E key) (\<lambda>(candidate, entry). Inr (candidate = key)) table =
      Inr (table_map fst table key)"
    by (intro table_find_eq) auto
  with MemoryOverlay show ?thesis by (simp add: overlay_get_def)
next
  case (MappedOverlay bs table tail)
  with assms have tail: "table_find (xxh3_64 E key) (\<lambda>entry. Inr (tail_key entry = key)) tail =
      Inr (table_map tail_key tail key)"
    by (intro table_find_eq) (auto simp: Let_def)
  show ?thesis
  proof (cases "table_map tail_key tail key")
    case (Some e)
    with MappedOverlay tail show ?thesis by (simp add: overlay_get_def Let_def map_add_def)
  next
    case None
    show ?thesis
    proof (cases bs)
      case None
      with assms MappedOverlay have "table = []"
        by (cases table) (auto simp: Let_def mapping_or_empty_def records_ok_def)
      with None MappedOverlay tail \<open>table_map tail_key tail key = None\<close> show ?thesis
        by (simp add: overlay_get_def Let_def map_add_def)
    next
      case (Some b)
      with assms MappedOverlay have ok: "records_ok E (deref b) table"
        by (simp add: Let_def mapping_or_empty_def)
      have "record_ok (deref b) r" if "table_map (record_key (deref b)) table key = Some r" for r
        using that ok table_map_key by (fastforce simp: records_ok_def)
      with Some MappedOverlay tail \<open>table_map tail_key tail key = None\<close> table_find_records [OF ok, of key]
      show ?thesis
        by (auto simp: overlay_get_def Let_def map_add_def mapping_or_empty_def split: option.splits)
    qed
  qed
qed

lemma overlay_contains_key_eq:
  "overlay_ok E L m \<Longrightarrow> overlay_contains_key E m key = Inr (key \<in> dom (overlay_abs m))"
  by (auto simp: overlay_contains_key_def overlay_get_eq)

text \<open>Iteration yields each key of the map once, with its last operation.\<close>

lemma table_iter_pairs:
  assumes "table_ok hash key_of t"
  shows "distinct (map key_of (table_iter t))"
    and "map_of (map (\<lambda>x. (key_of x, f x)) (table_iter t)) = (\<lambda>key. map_option f (table_map key_of t key))"
proof -
  show "distinct (map key_of (table_iter t))"
    using assms by (simp add: table_ok_def table_iter_def)
  show "map_of (map (\<lambda>x. (key_of x, f x)) (table_iter t)) = (\<lambda>key. map_option f (table_map key_of t key))"
    by (induction t) (auto simp: table_iter_def fun_eq_iff)
qed

theorem overlay_iter_eq:
  assumes "overlay_ok E L m"
  obtains items where "overlay_iter m = Inr items" and "distinct (map fst items)"
    and "map_of items = overlay_abs m"
proof (cases m)
  case (MemoryOverlay table)
  with assms have ok: "table_ok (xxh3_64 E) fst table" by simp
  let ?items = "map (\<lambda>(key, entry). (key, entry_value entry)) (table_iter table)"
  have "map_of ?items = overlay_abs m"
    using table_iter_pairs(2) [OF ok, of "\<lambda>x. entry_value (snd x)"] MemoryOverlay
    by (simp add: split_def)
  moreover have "distinct (map fst ?items)"
    using table_iter_pairs(1) [OF ok] by (simp add: split_def comp_def)
  moreover have "overlay_iter m = Inr ?items" using MemoryOverlay by simp
  ultimately show ?thesis using that by blast
next
  case (MappedOverlay bs table tail)
  let ?m = "mapping_or_empty bs"
  let ?mapped = "map (\<lambda>r. (record_key ?m r, record_value ?m r)) (table_iter table)"
  let ?tail = "map (\<lambda>e. (tail_key e, entry_value (tail_value e))) (table_iter tail)"
  from assms MappedOverlay have recs: "records_ok E ?m table" and tok: "table_ok (xxh3_64 E) tail_key tail"
    and disj: "record_key ?m ` snd ` set table \<inter> tail_key ` snd ` set tail = {}"
    by (auto simp: Let_def)
  from recs have rok: "table_ok (xxh3_64 E) (record_key ?m) table" by (simp add: records_ok_def)
  have "map_res (\<lambda>r. slices r ?m) (table_iter table) = Inr ?mapped"
    using recs by (intro map_res_Inr_map) (auto simp: records_ok_def table_iter_def)
  then have iter: "overlay_iter m = Inr (?mapped @ ?tail)" using MappedOverlay by simp
  have dist: "distinct (map fst (?mapped @ ?tail))"
    using table_iter_pairs(1) [OF rok] table_iter_pairs(1) [OF tok] disj
    by (simp add: comp_def table_iter_def image_image)
  have "map_of (?mapped @ ?tail) = map_of (?tail @ ?mapped)"
    unfolding map_of_append
    by (rule map_add_comm) (use dist in \<open>auto simp: dom_map_of_conv_image_fst image_image\<close>)
  also have "\<dots> = overlay_abs m"
    using table_iter_pairs(2) [OF rok, of "record_value ?m"]
      table_iter_pairs(2) [OF tok, of "\<lambda>e. entry_value (tail_value e)"] MappedOverlay
    by (simp add: Let_def)
  finally show ?thesis using iter dist that by blast
qed

subsection \<open>Inserting a record\<close>

definition records_abs :: "bytes \<Rightarrow> mapped_record table \<Rightarrow> bytes \<rightharpoonup> bytes option" where
  "records_abs m table = (\<lambda>key. map_option (record_value m) (table_map (record_key m) table key))"

lemma table_sum_found: "table_map key_of t key = Some x \<Longrightarrow> c x \<le> table_sum c t"
  by (auto dest!: table_map_key intro: table_sum_member)

definition replaced :: "('a \<Rightarrow> nat) \<Rightarrow> 'a option \<Rightarrow> nat" where
  "replaced c found = (case found of None \<Rightarrow> 0 | Some old \<Rightarrow> c old)"

lemma insert_mapped_record_hashed_ok:
  assumes "records_ok E m table" and "record_ok m r"
  obtains table' where
    "insert_mapped_record_hashed table m r (xxh3_64 E (record_key m r)) =
       Inr (table_map (record_key m) table (record_key m r), table')"
    and "records_ok E m table'"
    and "table_map (record_key m) table' = (table_map (record_key m) table)(record_key m r \<mapsto> r)"
    and "\<And>c. table_sum c table' + replaced c (table_map (record_key m) table (record_key m r)) =
       table_sum c table + c r"
proof -
  let ?key = "record_key m r" and ?T = "table_map (record_key m) table"
  from assms(1) have tok: "table_ok (xxh3_64 E) (record_key m) table" by (simp add: records_ok_def)
  have eq: "and_then (slices x m) (\<lambda>(k, v). Inr (k = ?key)) = Inr (record_key m x = ?key)"
    if "x \<in> snd ` set table" for x
    using that assms(1) by (auto simp: records_ok_def)
  note rep = table_replace_eq [OF tok eq, of "\<lambda>_. r"]
  show thesis
  proof (cases "?T ?key")
    case None
    let ?t = "table_insert_unique (xxh3_64 E ?key) r table"
    have "insert_mapped_record_hashed table m r (xxh3_64 E ?key) = Inr (?T ?key, ?t)"
      using assms(2) None rep by (simp add: insert_mapped_record_hashed_def)
    moreover have "records_ok E m ?t"
      using assms None tok table_ok_insert_unique by (auto simp: records_ok_def)
    ultimately show thesis using None by (intro that [of ?t]) (simp_all add: replaced_def)
  next
    case (Some old)
    let ?t = "table_update_key (record_key m) ?key (\<lambda>_. r) table"
    have "insert_mapped_record_hashed table m r (xxh3_64 E ?key) = Inr (?T ?key, ?t)"
      using assms(2) Some rep by (simp add: insert_mapped_record_hashed_def)
    moreover have "record_ok m x" if "x \<in> snd ` set ?t" for x
      using subsetD [OF table_update_key_elements that] assms by (auto simp: records_ok_def)
    then have "records_ok E m ?t"
      using table_ok_update_key [OF tok, of ?key "\<lambda>_. r"] by (simp add: records_ok_def)
    moreover have "table_map (record_key m) ?t = ?T(?key \<mapsto> r)"
      using table_map_update_key [of table "record_key m" ?key "\<lambda>_. r"] Some by simp
    ultimately show thesis
      using table_sum_update_key [OF tok Some, of _ "\<lambda>_. r"] Some
      by (intro that [of ?t]) (simp_all add: replaced_def)
  qed
qed

lemma insert_mapped_record_ok:
  assumes "records_ok E m table" and "record_ok m r"
  obtains table' where
    "insert_mapped_record E table m r = Inr (table_map (record_key m) table (record_key m r), table')"
    and "records_ok E m table'"
    and "table_map (record_key m) table' = (table_map (record_key m) table)(record_key m r \<mapsto> r)"
    and "\<And>c. table_sum c table' + replaced c (table_map (record_key m) table (record_key m r)) =
       table_sum c table + c r"
  using insert_mapped_record_hashed_ok [OF assms] assms(2)
  by (metis (no_types, lifting) and_then_simps(2) case_prod_conv insert_mapped_record_def slices_ok)

lemma records_abs_update:
  "table_map (record_key m) table' = (table_map (record_key m) table)(record_key m r \<mapsto> r) \<Longrightarrow>
   records_abs m table' = (records_abs m table)(record_key m r \<mapsto> record_value m r)"
  by (auto simp: records_abs_def)

lemma records_found_ok:
  "records_ok E m table \<Longrightarrow> table_map (record_key m) table key = Some r \<Longrightarrow> record_ok m r"
  by (auto simp: records_ok_def dest: table_map_key)

subsection \<open>Recovery installs an operation of the scanned log\<close>

theorem install_recovered_ok:
  assumes "overlay_ok E (deref b) (MappedOverlay (Some b) table [])"
    and "checked_slices (MappedRecord off) (deref b) = Some (key, v)"
  obtains removed table' where
    "install_recovered \<lparr>operation_offset = off\<rparr> (xxh3_64 E key) (MappedOverlay (Some b) table []) =
       Inr ((removed, length key + value_charge v), MappedOverlay (Some b) table' [])"
    and "overlay_ok E (deref b) (MappedOverlay (Some b) table' [])"
    and "overlay_abs (MappedOverlay (Some b) table' []) =
       (overlay_abs (MappedOverlay (Some b) table []))(key \<mapsto> v)"
    and "map_charge (MappedOverlay (Some b) table' []) + removed =
       map_charge (MappedOverlay (Some b) table []) + (length key + value_charge v)"
    and "removed \<le> map_charge (MappedOverlay (Some b) table [])"
proof -
  let ?m = "deref b" and ?r = "MappedRecord off"
  from assms(2) have r: "record_ok ?m ?r" "record_key ?m ?r = key" "record_value ?m ?r = v"
    by (simp_all add: record_okI)
  from assms(1) have recs: "records_ok E ?m table" by (simp add: Let_def mapping_or_empty_def)
  obtain table' where ins: "insert_mapped_record_hashed table ?m ?r (xxh3_64 E key) =
      Inr (table_map (record_key ?m) table key, table')"
    and recs': "records_ok E ?m table'"
    and map': "table_map (record_key ?m) table' = (table_map (record_key ?m) table)(key \<mapsto> ?r)"
    and sum': "\<And>c. table_sum c table' + replaced c (table_map (record_key ?m) table key) =
       table_sum c table + c ?r"
    using insert_mapped_record_hashed_ok [OF recs r(1)] unfolding r(2) by blast
  let ?removed = "replaced (record_charge ?m) (table_map (record_key ?m) table key)"
  have removed: "(case table_map (record_key ?m) table key of None \<Rightarrow> Inr 0
      | Some previous \<Rightarrow> record_memory_charge previous ?m) = Inr ?removed"
    using records_found_ok [OF recs, of key] by (auto simp: replaced_def split: option.split)
  have charge: "record_charge ?m ?r = length key + value_charge v" using r by (simp add: record_charge_def)
  show thesis
  proof (rule that)
    show "install_recovered \<lparr>operation_offset = off\<rparr> (xxh3_64 E key) (MappedOverlay (Some b) table []) =
       Inr ((?removed, length key + value_charge v), MappedOverlay (Some b) table' [])"
      using r(1) ins removed charge by (simp add: into_record_def Let_def)
    show "overlay_ok E (deref b) (MappedOverlay (Some b) table' [])"
      using recs' by (simp add: Let_def mapping_or_empty_def)
    show "overlay_abs (MappedOverlay (Some b) table' []) =
       (overlay_abs (MappedOverlay (Some b) table []))(key \<mapsto> v)"
      using map' r by (auto simp: Let_def mapping_or_empty_def map_add_def fun_eq_iff)
    show "map_charge (MappedOverlay (Some b) table' []) + ?removed =
       map_charge (MappedOverlay (Some b) table []) + (length key + value_charge v)"
      using sum' [of "record_charge ?m"] charge by (simp add: mapping_or_empty_def)
    show "?removed \<le> map_charge (MappedOverlay (Some b) table [])"
      using table_sum_found [of "record_key ?m" table key _ "record_charge ?m"]
      by (auto simp: replaced_def mapping_or_empty_def split: option.split)
  qed
qed

subsection \<open>The volatile representation\<close>

theorem set_memory_ok:
  assumes "overlay_ok E L (MemoryOverlay table)" and "entry_ok entry"
  obtains previous table' where
    "set_memory E key entry (MemoryOverlay table) = Inr (previous, MemoryOverlay table')"
    and "overlay_ok E L (MemoryOverlay table')"
    and "overlay_abs (MemoryOverlay table') = (overlay_abs (MemoryOverlay table))(key \<mapsto> entry_value entry)"
    and "map_charge (MemoryOverlay table') + replaced (overlay_entry_memory key) previous =
       map_charge (MemoryOverlay table) + overlay_entry_memory key entry"
    and "replaced (overlay_entry_memory key) previous \<le> map_charge (MemoryOverlay table)"
proof -
  let ?T = "table_map fst table" and ?f = "\<lambda>(candidate, e). (candidate, entry)"
  let ?c = "\<lambda>(key, entry). overlay_entry_memory key entry"
  from assms(1) have tok: "table_ok (xxh3_64 E) fst table" by simp
  have rep: "table_replace (xxh3_64 E key) (\<lambda>(candidate, e). Inr (candidate = key)) ?f table =
      Inr (map_option (\<lambda>x. (x, table_update_key fst key ?f table)) (?T key))"
    by (rule table_replace_eq [OF tok]) auto
  show thesis
  proof (cases "?T key")
    case None
    let ?t = "table_insert_unique (xxh3_64 E key) (key, entry) table"
    have "table_ok (xxh3_64 E) fst ?t"
      using table_ok_insert_unique [OF tok, of "(key, entry)"] None by simp
    with None rep assms show thesis
      by (intro that [of None ?t]) (auto simp: replaced_def fun_eq_iff)
  next
    case (Some x)
    then obtain old where x: "x = (key, old)" using table_map_key by fastforce
    let ?t = "table_update_key fst key ?f table"
    have "table_ok (xxh3_64 E) fst ?t"
      by (rule table_ok_update_key [OF tok]) auto
    moreover have "table_map fst ?t = ?T(key \<mapsto> (key, entry))"
      using table_map_update_key [of table fst key ?f] Some x by auto
    moreover have "table_sum ?c ?t + ?c x = table_sum ?c table + ?c (?f x)"
      by (rule table_sum_update_key [OF tok Some])
    moreover have "\<forall>(k, e) \<in> snd ` set ?t. entry_ok e"
      using assms table_update_key_elements [of fst key ?f table] by fastforce
    ultimately show thesis using Some x rep table_sum_found [OF Some, of ?c]
      by (intro that [of "Some old" ?t]) (auto simp: replaced_def fun_eq_iff)
  qed
qed

text \<open>
  \<open>overlay_set\<close> keeps the cached charge equal to the sum over the entries.
\<close>

definition overlay_state_ok :: "externs \<Rightarrow> bytes \<Rightarrow> overlay_state \<Rightarrow> bool" where
  "overlay_state_ok E L s \<longleftrightarrow>
     overlay_ok E L (overlay_index s) \<and> overlay_charge s = map_charge (overlay_index s)"

lemma overlay_entry_memory_eq: "overlay_entry_memory key e = length key + previous_value_memory e"
  by (cases e) simp_all

theorem overlay_set_ok:
  assumes "overlay_state_ok E L s" and "overlay_index s = MemoryOverlay table" and "entry_ok entry"
    and "map_charge (overlay_index s) + overlay_entry_memory key entry < usize_limit"
  obtains s' where "overlay_set E key entry s = Inr s'" and "overlay_state_ok E L s'"
    and "\<exists>table'. overlay_index s' = MemoryOverlay table'"
    and "overlay_abs (overlay_index s') = (overlay_abs (overlay_index s))(key \<mapsto> entry_value entry)"
    and "overlay_charge s' \<le> overlay_charge s + overlay_entry_memory key entry"
proof -
  from assms(1,2) have "overlay_ok E L (MemoryOverlay table)" by (simp add: overlay_state_ok_def)
  from set_memory_ok [OF this assms(3), of key] obtain previous table' where
    set: "set_memory E key entry (MemoryOverlay table) = Inr (previous, MemoryOverlay table')"
    and ok: "overlay_ok E L (MemoryOverlay table')"
    and abs: "overlay_abs (MemoryOverlay table') = (overlay_abs (MemoryOverlay table))(key \<mapsto> entry_value entry)"
    and charge: "map_charge (MemoryOverlay table') + replaced (overlay_entry_memory key) previous =
       map_charge (MemoryOverlay table) + overlay_entry_memory key entry"
    and le: "replaced (overlay_entry_memory key) previous \<le> map_charge (MemoryOverlay table)"
    by blast
  let ?s = "\<lparr>overlay_index = MemoryOverlay table', overlay_charge = map_charge (MemoryOverlay table')\<rparr>"
  have "overlay_set E key entry s = Inr ?s"
  proof (cases previous)
    case None
    with assms set charge show ?thesis
      by (simp add: overlay_set_def Let_def replaced_def overlay_state_ok_def saturating_add_def
          del: set_memory.simps map_charge.simps)
  next
    case (Some old)
    from charge Some have c: "map_charge (MemoryOverlay table') + (length key + previous_value_memory old) =
       map_charge (MemoryOverlay table) + overlay_entry_memory key entry"
      by (simp add: replaced_def overlay_entry_memory_eq)
    have "length key + previous_value_memory old \<le> map_charge (MemoryOverlay table)"
      using le Some by (simp add: replaced_def overlay_entry_memory_eq)
    with assms set c Some show ?thesis
      by (simp add: overlay_set_def Let_def overlay_state_ok_def saturating_add_def saturating_sub_def
          del: set_memory.simps map_charge.simps)
  qed
  then show thesis using ok abs charge assms
    by (intro that) (auto simp: overlay_state_ok_def simp del: map_charge.simps)
qed

subsection \<open>Installing a batch into the mapped records\<close>

fun operation_charge :: "bytes \<times> bytes option \<Rightarrow> nat" where
  "operation_charge (key, v) = length key + value_charge v"

definition locates :: "bytes \<Rightarrow> mapped_mutation \<Rightarrow> bytes \<times> bytes option \<Rightarrow> bool" where
  "locates m mutation op \<longleftrightarrow> checked_slices (into_record mutation) m = Some op"

lemma saturating_add_exact [simp]: "a + b < usize_limit \<Longrightarrow> saturating_add a b = a + b"
  by (simp add: saturating_add_def)

text \<open>
  The keys of a batch are distinct, so what a batch removes is part of the charge before it: the
  records whose keys are not yet installed account for the rest of that charge.
\<close>

definition fresh_charge :: "('a \<Rightarrow> bytes) \<Rightarrow> ('a \<Rightarrow> nat) \<Rightarrow> bytes set \<Rightarrow> 'a \<Rightarrow> nat" where
  "fresh_charge key_of c P x = (if key_of x \<in> P then 0 else c x)"

lemma fresh_charge_empty [simp]: "fresh_charge key_of c {} = c"
  by (simp add: fresh_charge_def fun_eq_iff)

lemma replaced_fresh [simp]:
  "replaced (fresh_charge key_of c (insert key P)) (table_map key_of t key) = 0"
  by (auto simp: replaced_def fresh_charge_def dest: table_map_key split: option.split)

lemma table_sum_fresh_insert:
  assumes "table_ok hash key_of t" and "key \<notin> P"
  shows "table_sum (fresh_charge key_of c (insert key P)) t + replaced c (table_map key_of t key) =
    table_sum (fresh_charge key_of c P) t"
  using assms
proof (induction t)
  case Nil
  then show ?case by (simp add: replaced_def)
next
  case (Cons hx t)
  obtain h x where hx: "hx = (h, x)" by fastforce
  show ?case
  proof (cases "key_of x = key")
    case True
    with Cons.prems hx have "table_map key_of t key = None" by (auto simp: table_map_None_iff)
    with True Cons hx show ?thesis by (simp add: replaced_def fresh_charge_def)
  next
    case False
    with Cons hx show ?thesis by (simp add: fresh_charge_def)
  qed
qed

lemma install_mutation_ok:
  assumes "records_ok E m table" and "locates m mutation op" and "fst op \<notin> P"
    and "removed + table_sum (record_charge m) table = C + added"
    and "removed + table_sum (fresh_charge (record_key m) (record_charge m) P) table = C"
    and "C + added + operation_charge op < usize_limit"
  shows "\<exists>removed' table'.
    install_mutation E m mutation (removed, added, table) = Inr (removed', added + operation_charge op, table')
    \<and> records_ok E m table' \<and> records_abs m table' = (records_abs m table)(fst op \<mapsto> snd op)
    \<and> removed' + table_sum (record_charge m) table' = C + (added + operation_charge op)
    \<and> removed' + table_sum (fresh_charge (record_key m) (record_charge m) (insert (fst op) P)) table' = C"
proof -
  let ?r = "into_record mutation" and ?key = "fst op"
  from assms(2) have r: "record_ok m ?r" "record_key m ?r = ?key" "record_value m ?r = snd op"
    using record_okI [of ?r m ?key "snd op"] by (simp_all add: locates_def)
  have charge: "record_charge m ?r = operation_charge op"
    using r by (cases op) (simp add: record_charge_def)
  obtain table' where ins: "insert_mapped_record E table m ?r =
      Inr (table_map (record_key m) table ?key, table')"
    and recs': "records_ok E m table'"
    and map': "table_map (record_key m) table' = (table_map (record_key m) table)(?key \<mapsto> ?r)"
    and sum': "\<And>c. table_sum c table' + replaced c (table_map (record_key m) table ?key) =
       table_sum c table + c ?r"
    using insert_mapped_record_ok [OF assms(1) r(1)] unfolding r(2) by blast
  let ?old = "replaced (record_charge m) (table_map (record_key m) table ?key)"
  let ?fresh = "fresh_charge (record_key m) (record_charge m) (insert ?key P)"
  note sums = sum' [of "record_charge m", unfolded charge]
  from assms(1) have tok: "table_ok (xxh3_64 E) (record_key m) table" by (simp add: records_ok_def)
  have fresh: "table_sum ?fresh table' + ?old =
      table_sum (fresh_charge (record_key m) (record_charge m) P) table"
    using sum' [of ?fresh] r(2) table_sum_fresh_insert [OF tok assms(3)] by (simp add: fresh_charge_def)
  have "removed + ?old < usize_limit" using sums assms(4,6) by linarith
  then have "install_mutation E m mutation (removed, added, table) =
      Inr (removed + ?old, added + operation_charge op, table')"
    using r(1) ins assms(6) charge records_found_ok [OF assms(1), of ?key]
    by (auto simp: install_mutation_def Let_def replaced_def split: option.split)
  moreover have "records_abs m table' = (records_abs m table)(?key \<mapsto> snd op)"
    using records_abs_update [of m table' table ?r] map' r by simp
  ultimately show ?thesis using recs' sums fresh assms(4,5)
    by (intro exI [of _ "removed + ?old"] exI [of _ table']) simp
qed

lemma install_mutations_ok:
  assumes "records_ok E m table" and "list_all2 (locates m) mutations ops"
    and "distinct (map fst ops)" and "fst ` set ops \<inter> P = {}"
    and "removed + table_sum (record_charge m) table = C + added"
    and "removed + table_sum (fresh_charge (record_key m) (record_charge m) P) table = C"
    and "C + added + sum_list (map operation_charge ops) < usize_limit"
  shows "\<exists>removed' table'.
    fold_res (install_mutation E m) mutations (removed, added, table) =
      Inr (removed', added + sum_list (map operation_charge ops), table')
    \<and> records_ok E m table' \<and> records_abs m table' = records_abs m table ++ map_of (rev ops)
    \<and> removed' + table_sum (record_charge m) table' = C + (added + sum_list (map operation_charge ops))
    \<and> removed' \<le> C"
  using assms(2,1,3-)
proof (induction arbitrary: removed added table P rule: list_all2_induct)
  case Nil
  then show ?case by auto
next
  case (Cons mutation mutations op ops)
  from Cons.prems(3) have "fst op \<notin> P" by auto
  with Cons.hyps(1) Cons.prems obtain removed1 table1 where
    step: "install_mutation E m mutation (removed, added, table) =
      Inr (removed1, added + operation_charge op, table1)"
    and table1: "records_ok E m table1" "records_abs m table1 = (records_abs m table)(fst op \<mapsto> snd op)"
    and sum1: "removed1 + table_sum (record_charge m) table1 = C + (added + operation_charge op)"
    and fresh1: "removed1 + table_sum (fresh_charge (record_key m) (record_charge m) (insert (fst op) P)) table1 = C"
    using install_mutation_ok [of E m table mutation op P removed C added] by auto
  from Cons.prems have "distinct (map fst ops)" "fst ` set ops \<inter> insert (fst op) P = {}" by auto
  from Cons.IH [OF table1(1) this sum1 fresh1] Cons.prems
  obtain removed2 table2 where
    "fold_res (install_mutation E m) mutations (removed1, added + operation_charge op, table1) =
       Inr (removed2, added + operation_charge op + sum_list (map operation_charge ops), table2)"
    "records_ok E m table2" "records_abs m table2 = records_abs m table1 ++ map_of (rev ops)"
    "removed2 + table_sum (record_charge m) table2 =
       C + (added + operation_charge op + sum_list (map operation_charge ops))" "removed2 \<le> C"
    by (auto simp: add.assoc)
  with step table1(2) show ?case
    by (intro exI [of _ removed2] exI [of _ table2]) (cases op, simp add: add.assoc map_add_upd_left)
qed

text \<open>
  Before a batch is installed in a grown mapping, the tail entries move into the record table. They
  are fresh there, so the move changes neither the map nor the charge.
\<close>

lemma records_ok_mono:
  assumes "records_ok E m table"
  shows "records_ok E (m @ rest) table" and "records_abs (m @ rest) table = records_abs m table"
    and "table_sum (record_charge (m @ rest)) table = table_sum (record_charge m) table"
    and "record_key (m @ rest) ` snd ` set table = record_key m ` snd ` set table"
proof -
  have rec: "record_ok m r" if "r \<in> snd ` set table" for r using that assms by (auto simp: records_ok_def)
  have key: "record_key (m @ rest) r = record_key m r" if "r \<in> snd ` set table" for r
    using rec [OF that] record_mono(2) by blast
  show "records_ok E (m @ rest) table"
    using assms rec record_mono(1) table_ok_cong [of table "record_key (m @ rest)" "record_key m"] key
    by (auto simp: records_ok_def)
  show "records_abs (m @ rest) table = records_abs m table"
  proof
    fix key
    have "table_map (record_key (m @ rest)) table = table_map (record_key m) table"
      by (rule table_map_cong) (rule key)
    with record_mono(3) [OF records_found_ok [OF assms, of key], of _ rest]
    show "records_abs (m @ rest) table key = records_abs m table key"
      by (auto simp: records_abs_def intro!: option.map_cong)
  qed
  show "table_sum (record_charge (m @ rest)) table = table_sum (record_charge m) table"
    using record_mono(4) [OF rec] by (intro table_sum_cong) simp
  show "record_key (m @ rest) ` snd ` set table = record_key m ` snd ` set table"
    using key by (intro image_cong) simp_all
qed

lemma tail_entry_charge:
  assumes "tail_entry_ok L e"
  shows "record_charge L (tail_mapped e) = overlay_entry_memory (tail_key e) (tail_value e)"
proof (cases "tail_value e")
  case (Put v)
  with assms show ?thesis
    by (cases v) (auto simp: tail_entry_ok_def record_charge_def value_charge_def dest!: record_okI)
next
  case Delete
  with assms show ?thesis
    by (auto simp: tail_entry_ok_def record_charge_def value_charge_def dest!: record_okI)
qed

lemma move_tail_ok:
  assumes "records_ok E L table" and "\<forall>e \<in> set es. tail_entry_ok L e"
    and "distinct (map tail_key es)" and "record_key L ` snd ` set table \<inter> tail_key ` set es = {}"
  shows "\<exists>table'. fold_res (\<lambda>entry table.
       and_then (insert_mapped_record E table L (tail_mapped entry)) (\<lambda>(found, table). Inr table)) es table =
         Inr table'
    \<and> records_ok E L table'
    \<and> records_abs L table' = records_abs L table ++ map_of (map (\<lambda>e. (tail_key e, entry_value (tail_value e))) es)
    \<and> table_sum (record_charge L) table' = table_sum (record_charge L) table
         + sum_list (map (\<lambda>e. overlay_entry_memory (tail_key e) (tail_value e)) es)"
  using assms
proof (induction es arbitrary: table)
  case Nil
  then show ?case by simp
next
  case (Cons e es)
  let ?r = "tail_mapped e" and ?key = "tail_key e"
  from Cons.prems have e: "tail_entry_ok L e" by simp
  then have r: "record_ok L ?r" "record_key L ?r = ?key" "record_value L ?r = entry_value (tail_value e)"
    using record_okI [of ?r L] by (simp_all add: tail_entry_ok_def)
  have absent: "table_map (record_key L) table ?key = None"
    using Cons.prems(4) by (auto simp: table_map_None_iff)
  obtain table1 where ins: "insert_mapped_record E table L ?r = Inr (None, table1)"
    and table1: "records_ok E L table1"
    and map1: "table_map (record_key L) table1 = (table_map (record_key L) table)(?key \<mapsto> ?r)"
    and sum1: "table_sum (record_charge L) table1 = table_sum (record_charge L) table + record_charge L ?r"
    using insert_mapped_record_ok [OF Cons.prems(1) r(1)] unfolding r(2) absent
    by (metis add.right_neutral option.simps(4) replaced_def)
  have "record_key L ` snd ` set table1 = insert ?key (record_key L ` snd ` set table)"
    using map1 table_map_dom [of "record_key L" table1] table_map_dom [of "record_key L" table] by simp
  with Cons.prems have "record_key L ` snd ` set table1 \<inter> tail_key ` set es = {}" by auto
  with Cons.IH [OF table1] Cons.prems obtain table2 where
    step: "fold_res (\<lambda>entry table. and_then (insert_mapped_record E table L (tail_mapped entry))
        (\<lambda>(found, table). Inr table)) es table1 = Inr table2"
    "records_ok E L table2"
    "table_sum (record_charge L) table2 = table_sum (record_charge L) table1
         + sum_list (map (\<lambda>e. overlay_entry_memory (tail_key e) (tail_value e)) es)"
    and "records_abs L table2 = records_abs L table1 ++ map_of (map (\<lambda>e. (tail_key e, entry_value (tail_value e))) es)"
    by auto
  moreover have "records_abs L table1 = (records_abs L table)(?key \<mapsto> entry_value (tail_value e))"
    using records_abs_update [of L table1 table ?r] map1 r by simp
  moreover have fresh: "?key \<notin> dom (map_of (map (\<lambda>e. (tail_key e, entry_value (tail_value e))) es))"
    using Cons.prems(3) by (simp add: dom_map_of_conv_image_fst image_image)
  ultimately have "records_abs L table2 =
      records_abs L table ++ map_of (map (\<lambda>e. (tail_key e, entry_value (tail_value e))) (e # es))"
    by (simp only: list.map map_of.simps fst_conv snd_conv map_add_upd map_add_upd_left [OF fresh])
  with step ins sum1 tail_entry_charge [OF e] show ?case
    by (intro exI [of _ table2] conjI) (assumption | simp)+
qed

lemma overlay_abs_mapped:
  "overlay_abs (MappedOverlay bs table tail) = records_abs (mapping_or_empty bs) table
     ++ (\<lambda>key. map_option (\<lambda>e. entry_value (tail_value e)) (table_map tail_key tail key))"
  by (simp add: Let_def records_abs_def)

text \<open>The batch written at the end of the log, as a map of last operations.\<close>

definition staged_operations :: "overlay_entry keymap \<Rightarrow> (bytes \<times> bytes option) list" where
  "staged_operations staged = map (\<lambda>(key, entry). (key, entry_value entry)) staged"

definition staged_abs :: "overlay_entry keymap \<Rightarrow> bytes \<rightharpoonup> bytes option" where
  "staged_abs staged = (\<lambda>key. map_option entry_value (keymap_get staged key))"

lemma staged_abs_eq: "staged_abs staged = map_of (staged_operations staged)"
  by (induction staged) (auto simp: staged_abs_def staged_operations_def keymap_get_def fun_eq_iff)

lemma staged_abs_rev:
  assumes "keymap_ok staged"
  shows "map_of (rev (staged_operations staged)) = staged_abs staged"
proof -
  have "distinct (map fst (staged_operations staged))"
    using assms by (simp add: keymap_ok_def staged_operations_def split_def comp_def)
  then have "map_of (rev (staged_operations staged)) = map_of (staged_operations staged)"
    by (subst map_of_inject_set) (simp_all add: rev_map [symmetric])
  then show ?thesis by (simp add: staged_abs_eq)
qed

lemma tail_entry_ok_mono: "tail_entry_ok L e \<Longrightarrow> tail_entry_ok (L @ rest) e"
  by (auto simp: tail_entry_ok_def dest: checked_slices_mono)

lemma overlay_ok_mono: "overlay_ok E L m \<Longrightarrow> overlay_ok E (L @ rest) m"
  by (cases m) (auto simp: Let_def tail_entry_ok_mono)

theorem overlay_install_mapped_ok:
  assumes "overlay_state_ok E L s" and index: "overlay_index s = MappedOverlay bs table tail"
    and b: "deref b = L @ rest" and "keymap_ok staged"
    and loc: "list_all2 (locates (deref b)) mutations (staged_operations staged)"
    and bound: "overlay_charge s + sum_list (map operation_charge (staged_operations staged)) < usize_limit"
  obtains s' where "overlay_install_mapped E b mutations s = Inr s'"
    and "overlay_state_ok E (deref b) s'" and "\<exists>table'. overlay_index s' = MappedOverlay (Some b) table' []"
    and "overlay_abs (overlay_index s') = overlay_abs (overlay_index s) ++ staged_abs staged"
    and "overlay_charge s' \<le> overlay_charge s + sum_list (map operation_charge (staged_operations staged))"
proof -
  let ?m = "mapping_or_empty bs" and ?D = "deref b" and ?ops = "staged_operations staged"
  let ?tail = "map (\<lambda>e. (tail_key e, entry_value (tail_value e))) (table_iter tail)"
  from assms(1) index have ok: "overlay_ok E L (MappedOverlay bs table tail)"
    and charge: "overlay_charge s = map_charge (MappedOverlay bs table tail)"
    by (simp_all add: overlay_state_ok_def)
  then obtain rest1 where L: "L = ?m @ rest1" and recs: "records_ok E ?m table"
    and tok: "table_ok (xxh3_64 E) tail_key tail" and es: "\<forall>e \<in> snd ` set tail. tail_entry_ok L e"
    and disj: "record_key ?m ` snd ` set table \<inter> tail_key ` snd ` set tail = {}"
    by (auto simp: Let_def)
  have D: "?D = ?m @ (rest1 @ rest)" using b L by simp
  note mono = records_ok_mono [OF recs, of "rest1 @ rest", folded D]
  have es': "\<forall>e \<in> set (table_iter tail). tail_entry_ok ?D e"
    using es tail_entry_ok_mono [of L _ rest] b by (simp add: table_iter_def)
  have "record_key ?D ` snd ` set table \<inter> tail_key ` set (table_iter tail) = {}"
    using disj mono(4) by (simp add: table_iter_def)
  from move_tail_ok [OF mono(1) es' table_iter_pairs(1) [OF tok] this] obtain table1 where
    move: "fold_res (\<lambda>entry table. and_then (insert_mapped_record E table ?D (tail_mapped entry))
        (\<lambda>(found, table). Inr table)) (table_iter tail) table = Inr table1"
    and recs1: "records_ok E ?D table1" and abs1: "records_abs ?D table1 = records_abs ?D table ++ map_of ?tail"
    and "table_sum (record_charge ?D) table1 = table_sum (record_charge ?D) table
      + sum_list (map (\<lambda>e. overlay_entry_memory (tail_key e) (tail_value e)) (table_iter tail))"
    by blast
  then have sum1: "table_sum (record_charge ?D) table1 = overlay_charge s"
    using mono(3) charge by (simp add: table_sum_def)
  have "distinct (map fst ?ops)"
    using \<open>keymap_ok staged\<close> by (simp add: keymap_ok_def staged_operations_def split_def comp_def)
  from install_mutations_ok [OF recs1 loc this, of "{}" 0 "overlay_charge s" 0] sum1 bound obtain removed table2 where
    install: "fold_res (install_mutation E ?D) mutations (0, 0, table1) =
      Inr (removed, sum_list (map operation_charge ?ops), table2)"
    and recs2: "records_ok E ?D table2" and abs2: "records_abs ?D table2 = records_abs ?D table1 ++ map_of (rev ?ops)"
    and sum2: "removed + table_sum (record_charge ?D) table2 =
      overlay_charge s + sum_list (map operation_charge ?ops)"
    and le: "removed \<le> overlay_charge s"
    by auto
  have m2: "mapping_or_empty (Some b) = ?D" by (simp add: mapping_or_empty_def)
  let ?s = "\<lparr>overlay_index = MappedOverlay (Some b) table2 [],
      overlay_charge = table_sum (record_charge ?D) table2\<rparr>"
  have "overlay_install_mapped E b mutations s = Inr ?s"
    using index move install le sum2 bound
    by (simp add: overlay_install_mapped_def Let_def saturating_sub_def)
  moreover have "overlay_state_ok E ?D ?s"
    using recs2 m2 by (simp add: overlay_state_ok_def Let_def)
  moreover have "overlay_abs (overlay_index ?s) = overlay_abs (overlay_index s) ++ staged_abs staged"
    unfolding overlay_state.select_convs index overlay_abs_mapped m2 abs2 abs1 mono(2)
      staged_abs_rev [OF \<open>keymap_ok staged\<close>] table_iter_pairs(2) [OF tok]
    by simp
  ultimately show thesis using sum2 by (intro that [of ?s]) auto
qed

subsection \<open>Installing a batch into the tail\<close>

definition small_entry :: "overlay_entry \<Rightarrow> bool" where
  "small_entry entry \<longleftrightarrow> (\<forall>v. entry_value entry = Some v \<longrightarrow> length v < MAPPED_VALUE_THRESHOLD)"

abbreviation tail_charge :: "tail_overlay_entry \<Rightarrow> nat" where
  "tail_charge e \<equiv> overlay_entry_memory (tail_key e) (tail_value e)"

definition fresh_map_charge :: "bytes set \<Rightarrow> bytes \<Rightarrow> mapped_record table \<Rightarrow> tail_overlay_entry table \<Rightarrow> nat" where
  "fresh_map_charge P m table tail =
     table_sum (fresh_charge (record_key m) (record_charge m) P) table
     + table_sum (fresh_charge tail_key tail_charge P) tail"

text \<open>The mapped record of a key that enters the tail is removed with its charge.\<close>

lemma remove_mapped_ok:
  assumes "records_ok E (mapping_or_empty bs) table"
    and "removed + table_sum (record_charge (mapping_or_empty bs)) table < usize_limit"
  shows "(case map_option deref bs of
        None \<Rightarrow> Inr (removed, table)
      | Some m \<Rightarrow>
          and_then (table_remove (xxh3_64 E key) (\<lambda>r. and_then (slices r m) (\<lambda>(k, v). Inr (k = key))) table)
            (\<lambda>found. case found of
               None \<Rightarrow> Inr (removed, table)
             | Some (old, table') \<Rightarrow>
                 and_then (record_memory_charge old m) (\<lambda>charge. Inr (saturating_add removed charge, table')))) =
    Inr (removed + replaced (record_charge (mapping_or_empty bs)) (table_map (record_key (mapping_or_empty bs)) table key),
         table_remove_key (record_key (mapping_or_empty bs)) key table)"
proof (cases bs)
  case None
  with assms have "table = []"
    by (cases table) (auto simp: mapping_or_empty_def records_ok_def)
  with None show ?thesis by (simp add: replaced_def table_remove_key_def)
next
  case (Some b)
  let ?m = "deref b"
  have m: "mapping_or_empty bs = ?m" using Some by (simp add: mapping_or_empty_def)
  from assms m have recs: "records_ok E ?m table" by simp
  have rem: "table_remove (xxh3_64 E key) (\<lambda>r. and_then (slices r ?m) (\<lambda>(k, v). Inr (k = key))) table =
      Inr (map_option (\<lambda>x. (x, table_remove_key (record_key ?m) key table)) (table_map (record_key ?m) table key))"
    using recs by (intro table_remove_eq) (auto simp: records_ok_def)
  show ?thesis
  proof (cases "table_map (record_key ?m) table key")
    case None
    then have "table_remove_key (record_key ?m) key table = table"
      by (intro table_remove_key_absent) (simp add: table_map_None_iff)
    with None Some rem m show ?thesis by (simp add: replaced_def)
  next
    case (Some old)
    have "removed + record_charge ?m old < usize_limit"
      using assms(2) table_sum_found [OF Some, of "record_charge ?m"] m by simp
    with Some \<open>bs = Some b\<close> rem m records_found_ok [OF recs Some] show ?thesis
      by (simp add: replaced_def)
  qed
qed

lemma table_sum_remove_replaced:
  assumes "table_ok hash key_of t"
  shows "table_sum c (table_remove_key key_of key t) + replaced c (table_map key_of t key) = table_sum c t"
proof (cases "table_map key_of t key")
  case None
  then have "table_remove_key key_of key t = t"
    by (intro table_remove_key_absent) (simp add: table_map_None_iff)
  with None show ?thesis by (simp add: replaced_def)
next
  case (Some x)
  then show ?thesis using table_sum_remove_key [OF assms Some] by (simp add: replaced_def)
qed

lemma install_tail_entry_ok:
  assumes ok: "overlay_ok E L (MappedOverlay bs table tail)" and loc: "locates L mutation (key, entry_value entry)"
    and entry: "entry_ok entry" "small_entry entry" and "key \<notin> P"
    and total: "removed + map_charge (MappedOverlay bs table tail) = C + added"
    and fresh: "removed + fresh_map_charge P (mapping_or_empty bs) table tail = C"
    and bound: "C + added + overlay_entry_memory key entry < usize_limit"
  shows "\<exists>removed' table' tail'.
    install_tail_entry E (map_option deref bs) ((key, entry), mutation) (removed, added, table, tail) =
      Inr (removed', added + overlay_entry_memory key entry, table', tail')
    \<and> overlay_ok E L (MappedOverlay bs table' tail')
    \<and> overlay_abs (MappedOverlay bs table' tail') =
        (overlay_abs (MappedOverlay bs table tail))(key \<mapsto> entry_value entry)
    \<and> removed' + map_charge (MappedOverlay bs table' tail') = C + (added + overlay_entry_memory key entry)
    \<and> removed' + fresh_map_charge (insert key P) (mapping_or_empty bs) table' tail' = C"
proof -
  let ?m = "mapping_or_empty bs" and ?T = "table_map tail_key tail" and ?mapped = "into_record mutation"
  let ?f = "\<lambda>e. e\<lparr>tail_value := entry, tail_mapped := ?mapped\<rparr>"
  let ?new = "\<lparr>tail_key = key, tail_value = entry, tail_mapped = ?mapped\<rparr>"
  let ?fresh_r = "fresh_charge (record_key ?m) (record_charge ?m)" and ?fresh_t = "fresh_charge tail_key tail_charge"
  from ok have L: "\<exists>rest. L = ?m @ rest" and recs: "records_ok E ?m table"
    and tok: "table_ok (xxh3_64 E) tail_key tail" and es: "\<forall>e \<in> snd ` set tail. tail_entry_ok L e"
    and disj: "record_key ?m ` snd ` set table \<inter> tail_key ` snd ` set tail = {}"
    by (simp_all add: Let_def)
  from recs have rok: "table_ok (xxh3_64 E) (record_key ?m) table" by (simp add: records_ok_def)
  have new: "tail_entry_ok L e" if "tail_key e = key" "tail_value e = entry" "tail_mapped e = ?mapped" for e
    using that loc entry by (simp add: tail_entry_ok_def locates_def small_entry_def)
  have rep: "table_replace (xxh3_64 E key) (\<lambda>e. Inr (tail_key e = key)) ?f tail =
      Inr (map_option (\<lambda>x. (x, table_update_key tail_key key ?f tail)) (?T key))"
    by (rule table_replace_eq [OF tok]) auto
  show ?thesis
  proof (cases "?T key")
    case (Some old)
    let ?tail = "table_update_key tail_key key ?f tail"
    from Some have old: "tail_key old = key" and "old \<in> snd ` set tail" by (auto dest: table_map_key)
    then have absent: "table_map (record_key ?m) table key = None"
      using disj by (auto simp: table_map_None_iff)
    have map': "table_map tail_key ?tail = ?T(key \<mapsto> ?f old)"
      using table_map_update_key [of tail tail_key key ?f] Some by simp
    note sum_t = table_sum_update_key [OF tok Some, of _ ?f]
    have le: "removed + tail_charge old < usize_limit"
      using total bound table_sum_found [OF Some, of tail_charge] by simp
    have "tail_entry_ok L e" if "e \<in> snd ` set ?tail" for e
      using subsetD [OF table_update_key_elements that] es new by auto
    moreover have "table_ok (xxh3_64 E) tail_key ?tail" by (rule table_ok_update_key [OF tok]) simp
    moreover have keys: "tail_key ` snd ` set ?tail = tail_key ` snd ` set tail"
      unfolding table_map_dom [symmetric] map' using Some by auto
    ultimately have "overlay_ok E L (MappedOverlay bs table ?tail)"
      using L recs disj by (simp add: Let_def)
    moreover have "overlay_abs (MappedOverlay bs table ?tail) =
        (overlay_abs (MappedOverlay bs table tail))(key \<mapsto> entry_value entry)"
      unfolding overlay_abs_mapped map' by (auto simp: map_add_def fun_eq_iff)
    moreover have "fresh_map_charge (insert key P) ?m table ?tail + tail_charge old = fresh_map_charge P ?m table tail"
      using table_sum_fresh_insert [OF rok \<open>key \<notin> P\<close>, of "record_charge ?m"] absent
        table_sum_fresh_insert [OF tok \<open>key \<notin> P\<close>, of tail_charge] Some old sum_t [of "?fresh_t (insert key P)"]
      by (simp add: fresh_map_charge_def replaced_def fresh_charge_def)
    moreover have "install_tail_entry E (map_option deref bs) ((key, entry), mutation) (removed, added, table, tail) =
        Inr (removed + tail_charge old, added + overlay_entry_memory key entry, table, ?tail)"
      using rep Some le bound by (simp add: install_tail_entry_def Let_def)
    ultimately show ?thesis using sum_t [of tail_charge] old total fresh
      by (intro exI [of _ "removed + tail_charge old"] exI [of _ table] exI [of _ ?tail])
        (simp del: overlay_ok.simps overlay_abs.simps)
  next
    case None
    let ?old = "replaced (record_charge ?m) (table_map (record_key ?m) table key)"
    let ?table = "table_remove_key (record_key ?m) key table"
    let ?tail = "table_insert_unique (xxh3_64 E key) ?new tail"
    note rem = remove_mapped_ok [of E bs table removed key, OF recs]
    note sum_r = table_sum_remove_replaced [OF rok, of _ key]
    have mapr: "table_map (record_key ?m) ?table = (table_map (record_key ?m) table)(key := None)"
      by (rule table_map_remove_key)
    have "tail_entry_ok L e" if "e \<in> snd ` set ?tail" for e using that es new by auto
    moreover have "table_ok (xxh3_64 E) tail_key ?tail"
      using table_ok_insert_unique [OF tok, of ?new] None by simp
    moreover have "records_ok E ?m ?table"
      using recs table_ok_remove_key [OF rok]
      by (auto simp: records_ok_def table_remove_key_def)
    moreover have "record_key ?m ` snd ` set ?table \<inter> tail_key ` snd ` set ?tail = {}"
      using disj unfolding table_map_dom [symmetric] mapr by auto
    ultimately have "overlay_ok E L (MappedOverlay bs ?table ?tail)" using L by (simp add: Let_def)
    moreover have "overlay_abs (MappedOverlay bs ?table ?tail) =
        (overlay_abs (MappedOverlay bs table tail))(key \<mapsto> entry_value entry)"
      unfolding overlay_abs_mapped records_abs_def mapr by (auto simp: map_add_def fun_eq_iff)
    moreover have "fresh_map_charge (insert key P) ?m ?table ?tail + ?old = fresh_map_charge P ?m table tail"
      using table_sum_fresh_insert [OF rok \<open>key \<notin> P\<close>, of "record_charge ?m"] sum_r [of "?fresh_r (insert key P)"]
        table_sum_fresh_insert [OF tok \<open>key \<notin> P\<close>, of tail_charge] None
      by (simp add: fresh_map_charge_def) (simp add: fresh_charge_def replaced_def)
    moreover have "install_tail_entry E (map_option deref bs) ((key, entry), mutation) (removed, added, table, tail) =
        Inr (removed + ?old, added + overlay_entry_memory key entry, ?table, ?tail)"
      using rep None rem total bound by (simp add: install_tail_entry_def Let_def)
    ultimately show ?thesis using sum_r [of "record_charge ?m"] total fresh
      by (intro exI [of _ "removed + ?old"] exI [of _ ?table] exI [of _ ?tail])
        (simp del: overlay_ok.simps overlay_abs.simps)
  qed
qed

definition staged_memory :: "overlay_entry keymap \<Rightarrow> nat" where
  "staged_memory staged = sum_list (map (\<lambda>(key, entry). overlay_entry_memory key entry) staged)"

lemma install_tail_entries_ok:
  assumes "overlay_ok E L (MappedOverlay bs table tail)"
    and "list_all2 (\<lambda>mutation (key, entry). locates L mutation (key, entry_value entry)) mutations staged"
    and "\<forall>(key, entry) \<in> set staged. entry_ok entry \<and> small_entry entry"
    and "distinct (map fst staged)" and "fst ` set staged \<inter> P = {}"
    and "removed + map_charge (MappedOverlay bs table tail) = C + added"
    and "removed + fresh_map_charge P (mapping_or_empty bs) table tail = C"
    and "C + added + staged_memory staged < usize_limit"
  shows "\<exists>removed' table' tail'.
    fold_res (install_tail_entry E (map_option deref bs)) (zip staged mutations) (removed, added, table, tail) =
      Inr (removed', added + staged_memory staged, table', tail')
    \<and> overlay_ok E L (MappedOverlay bs table' tail')
    \<and> overlay_abs (MappedOverlay bs table' tail') =
        overlay_abs (MappedOverlay bs table tail) ++ map_of (rev (staged_operations staged))
    \<and> removed' + map_charge (MappedOverlay bs table' tail') = C + (added + staged_memory staged)
    \<and> removed' \<le> C"
  using assms(2,1,3-)
proof (induction arbitrary: removed added table tail P rule: list_all2_induct)
  case Nil
  then show ?case by (auto simp: staged_memory_def staged_operations_def)
next
  case (Cons mutation mutations op staged)
  obtain key entry where op: "op = (key, entry)" by fastforce
  let ?added = "added + overlay_entry_memory key entry"
  have memory: "staged_memory (op # staged) = overlay_entry_memory key entry + staged_memory staged"
    by (simp add: staged_memory_def op)
  from Cons.hyps(1) Cons.prems op have loc: "locates L mutation (key, entry_value entry)"
    and entry: "entry_ok entry" "small_entry entry" and "key \<notin> P" by auto
  from Cons.prems(7) memory have "C + added + overlay_entry_memory key entry < usize_limit" by simp
  from install_tail_entry_ok [OF Cons.prems(1) loc entry \<open>key \<notin> P\<close> Cons.prems(5,6) this]
  obtain removed1 table1 tail1 where
    step: "install_tail_entry E (map_option deref bs) ((key, entry), mutation) (removed, added, table, tail) =
      Inr (removed1, ?added, table1, tail1)"
    and ok1: "overlay_ok E L (MappedOverlay bs table1 tail1)"
    and abs1: "overlay_abs (MappedOverlay bs table1 tail1) =
        (overlay_abs (MappedOverlay bs table tail))(key \<mapsto> entry_value entry)"
    and sum1: "removed1 + map_charge (MappedOverlay bs table1 tail1) = C + ?added"
    and fresh1: "removed1 + fresh_map_charge (insert key P) (mapping_or_empty bs) table1 tail1 = C"
    by blast
  from Cons.prems op have rest: "\<forall>(key, entry) \<in> set staged. entry_ok entry \<and> small_entry entry"
    "distinct (map fst staged)" "fst ` set staged \<inter> insert key P = {}"
    by auto
  from Cons.IH [OF ok1 rest sum1 fresh1] Cons.prems(7) memory
  obtain removed2 table2 tail2 where
    "fold_res (install_tail_entry E (map_option deref bs)) (zip staged mutations) (removed1, ?added, table1, tail1) =
      Inr (removed2, ?added + staged_memory staged, table2, tail2)"
    "overlay_ok E L (MappedOverlay bs table2 tail2)"
    "overlay_abs (MappedOverlay bs table2 tail2) =
        overlay_abs (MappedOverlay bs table1 tail1) ++ map_of (rev (staged_operations staged))"
    "removed2 + map_charge (MappedOverlay bs table2 tail2) = C + (?added + staged_memory staged)"
    "removed2 \<le> C"
    by (auto simp del: overlay_ok.simps overlay_abs.simps map_charge.simps)
  with step abs1 op memory show ?case
    by (intro exI [of _ removed2] exI [of _ table2] exI [of _ tail2])
      (simp add: add.assoc staged_operations_def map_add_upd_left
        del: overlay_ok.simps overlay_abs.simps map_charge.simps)
qed

theorem overlay_install_tail_ok:
  assumes "overlay_state_ok E L s" and index: "overlay_index s = MappedOverlay bs table tail"
    and "staged_ok staged" and "\<forall>(key, entry) \<in> set staged. small_entry entry"
    and loc: "list_all2 (locates (L @ rest)) mutations (staged_operations staged)"
    and bound: "overlay_charge s + staged_memory staged < usize_limit"
  obtains s' where "overlay_install_tail E staged mutations s = Inr s'"
    and "overlay_state_ok E (L @ rest) s'" and "\<exists>table' tail'. overlay_index s' = MappedOverlay bs table' tail'"
    and "overlay_abs (overlay_index s') = overlay_abs (overlay_index s) ++ staged_abs staged"
    and "overlay_charge s' \<le> overlay_charge s + staged_memory staged"
proof -
  from assms(1) index have ok: "overlay_ok E (L @ rest) (MappedOverlay bs table tail)"
    and charge: "overlay_charge s = map_charge (MappedOverlay bs table tail)"
    using overlay_ok_mono [of E L "overlay_index s" rest]
    by (simp_all add: overlay_state_ok_def del: overlay_ok.simps)
  have loc': "list_all2 (\<lambda>mutation (key, entry). locates (L @ rest) mutation (key, entry_value entry)) mutations staged"
    using loc by (simp add: staged_operations_def list_all2_map2 split_def)
  have staged: "\<forall>(key, entry) \<in> set staged. entry_ok entry \<and> small_entry entry" "distinct (map fst staged)"
    "keymap_ok staged"
    using assms(3,4) by (auto simp: staged_ok_def keymap_ok_def)
  have "fresh_map_charge {} (mapping_or_empty bs) table tail = overlay_charge s"
    using charge by (simp add: fresh_map_charge_def)
  with install_tail_entries_ok [OF ok loc' staged(1,2), of "{}" 0 "overlay_charge s" 0] charge bound
  obtain removed table' tail' where
    fold: "fold_res (install_tail_entry E (map_option deref bs)) (zip staged mutations) (0, 0, table, tail) =
      Inr (removed, staged_memory staged, table', tail')"
    and ok': "overlay_ok E (L @ rest) (MappedOverlay bs table' tail')"
    and abs': "overlay_abs (MappedOverlay bs table' tail') =
        overlay_abs (MappedOverlay bs table tail) ++ map_of (rev (staged_operations staged))"
    and sum': "removed + map_charge (MappedOverlay bs table' tail') = overlay_charge s + staged_memory staged"
    and le: "removed \<le> overlay_charge s"
    by (auto simp del: overlay_ok.simps overlay_abs.simps map_charge.simps)
  let ?s = "\<lparr>overlay_index = MappedOverlay bs table' tail', overlay_charge = map_charge (MappedOverlay bs table' tail')\<rparr>"
  have "overlay_install_tail E staged mutations s = Inr ?s"
    using index fold le sum' bound
    by (simp add: overlay_install_tail_def saturating_sub_def del: map_charge.simps)
  then show thesis
    using ok' abs' sum' index staged_abs_rev [OF staged(3)]
    by (intro that [of ?s])
      (auto simp: overlay_state_ok_def simp del: overlay_ok.simps overlay_abs.simps map_charge.simps)
qed

text \<open>Emptying the Overlay after a compaction.\<close>

lemma overlay_clear_ok:
  "overlay_state_ok E L (overlay_clear s)"
  "overlay_abs (overlay_index (overlay_clear s)) = Map.empty"
  "overlay_charge (overlay_clear s) = 0"
  by (cases "overlay_index s"; simp add: overlay_clear_def overlay_state_ok_def Let_def records_ok_def
      mapping_or_empty_def)+

end
