(* ===== verification/Lkv_Recovery.thy ===== *)
theory Lkv_Recovery
  imports Lkv_Overlay_Correct
begin

section \<open>Recovery of the log (database/recovery.rs)\<close>

text \<open>
  \<open>scan_overlay\<close> reads the log from its start, checks each record and installs its operations in a
  fresh Overlay index. A record that is cut off by the end of the file ends the scan without an
  error; a complete record that does not check is an error; a compaction marker ends the scan.
\<close>

subsection \<open>One operation of a batch\<close>

definition batch_operation_at :: "bytes \<Rightarrow> nat \<Rightarrow> nat \<Rightarrow> (nat \<times> bytes \<times> nat) result" where
  "batch_operation_at payload payload_offset cursor =
     and_then (ok_or (Err (invalid_base ''overlay operation offset overflow''))
       (checked_add payload_offset cursor)) (\<lambda>operation_offset.
     and_then (ok_or (Err (invalid_base ''overlay operation offset overflow''))
       (checked_add cursor 9)) (\<lambda>header_end.
     and_then (ok_or (Err (from_io InvalidData ''truncated batch operation''))
       (get_range payload cursor header_end)) (\<lambda>header.
     let marker = marker_from_byte (header ! 0);
         key_len = unat (u32_from_le_bytes (range_of 1 5 header));
         value_len = unat (u32_from_le_bytes (range_of 5 9 header))
     in
     if marker \<noteq> Some PutMarker \<and> marker \<noteq> Some DeleteMarker
        \<or> marker = Some DeleteMarker \<and> value_len \<noteq> 0
        \<or> key_len > MAX_KEY_SIZE \<or> value_len > MAX_VALUE_SIZE
     then Inl (Err (from_io InvalidData ''invalid batch operation''))
     else
     and_then (ok_or (Err (invalid_base ''batch key offset overflow''))
       (checked_add header_end key_len)) (\<lambda>key_end.
     and_then (ok_or (Err (invalid_base ''batch value offset overflow''))
       (checked_add key_end value_len)) (\<lambda>value_end.
     and_then (ok_or (Err (from_io InvalidData ''truncated batch key''))
       (get_range payload header_end key_end)) (\<lambda>key.
     if get_range payload key_end value_end = None
     then Inl (Err (from_io InvalidData ''truncated batch value''))
     else Inr (operation_offset, key, value_end)))))))"

fun apply_batch_loop :: "externs \<Rightarrow> bytes \<Rightarrow> nat \<Rightarrow> nat \<Rightarrow> nat \<Rightarrow> overlay_map \<Rightarrow> nat
    \<Rightarrow> (nat \<times> overlay_map \<times> nat) result" where
  "apply_batch_loop E payload payload_offset 0 cursor index memory = Inr (cursor, index, memory)"
| "apply_batch_loop E payload payload_offset (Suc n) cursor index memory =
     and_then (batch_operation_at payload payload_offset cursor) (\<lambda>(operation_off, key, value_end).
     and_then (install_recovered \<lparr>operation_offset = operation_off\<rparr> (xxh3_64 E key) index)
       (\<lambda>((removed, added), index).
     apply_batch_loop E payload payload_offset n value_end index
       (saturating_add (saturating_sub memory removed) added)))"

definition apply_batch_payload :: "externs \<Rightarrow> bytes \<Rightarrow> nat \<Rightarrow> overlay_map \<Rightarrow> nat
    \<Rightarrow> (overlay_map \<times> nat) result" where
  "apply_batch_payload E payload payload_offset index memory =
     and_then (ok_or (Err (from_io InvalidData ''truncated batch count''))
       (get_range payload 0 4)) (\<lambda>count_bytes.
     let count = unat (u32_from_le_bytes count_bytes) in
     if count > MAX_BATCH_OPERATIONS
     then Inl (Err (from_io InvalidData ''batch operation count exceeds the runtime limit''))
     else
     and_then (try_reserve_mapped E count index) (\<lambda>reserved.
     if \<not> reserved then Inl (Err (invalid_base ''Overlay index allocation failed''))
     else
     and_then (apply_batch_loop E payload payload_offset count 4 index memory) (\<lambda>(cursor, index, memory).
     if cursor \<noteq> length payload then Inl (Err (from_io InvalidData ''trailing bytes in batch''))
     else Inr (index, memory))))"

subsection \<open>One record of the log\<close>

text \<open>
  One turn of the scan loop: \<open>None\<close> ends the loop (a \<^verbatim>\<open>break\<close>), otherwise the offset of the next
  record with the updated index and memory charge.
\<close>

definition scan_record :: "externs \<Rightarrow> bytes \<Rightarrow> nat \<Rightarrow> nat \<Rightarrow> overlay_map \<Rightarrow> nat
    \<Rightarrow> (nat \<times> overlay_map \<times> nat) option result" where
  "scan_record E bs mapping_offset offset index memory =
     (case checked_add offset LOG_HEADER_SIZE of
        None \<Rightarrow> Inl (Err (invalid_base ''overlay header offset overflow''))
      | Some header_end \<Rightarrow>
     (case get_range bs offset header_end of
        None \<Rightarrow> Inr None
      | Some header \<Rightarrow>
     and_then (ok_or (Err (invalid_base ''overlay offset overflow'')) (checked_add mapping_offset offset))
       (\<lambda>absolute_offset.
     let expected_header_checksum =
           u32_from_le_bytes (range_of LOG_HEADER_CHECKSUM_OFFSET LOG_HEADER_SIZE header) in
     if crc32c E (take LOG_HEADER_CHECKSUM_OFFSET header) \<noteq> expected_header_checksum
     then Inl (Err (corrupted_log absolute_offset
            (''overlay header checksum mismatch at offset '' @ show_nat absolute_offset)))
     else
     let key_len = unat (u32_from_le_bytes (range_of 1 5 header));
         value_len = unat (u32_from_le_bytes (range_of 5 9 header));
         expected_record_checksum = u32_from_le_bytes (range_of 9 13 header)
     in
     and_then (ok_or (Err (from_io InvalidData ''overlay record length overflow''))
       (checked_add key_len value_len)) (\<lambda>payload_len.
     case checked_add header_end payload_len of
       None \<Rightarrow> Inl (Err (invalid_base ''overlay record offset overflow''))
     | Some record_end \<Rightarrow>
     (case get_range bs header_end record_end of
        None \<Rightarrow> Inr None
      | Some payload \<Rightarrow>
     (case marker_from_byte (header ! 0) of
        None \<Rightarrow> Inl (Err (from_io InvalidData
            (''invalid overlay operation at offset '' @ show_nat absolute_offset)))
      | Some marker \<Rightarrow>
     if marker = Compact \<and> key_len = 0 \<and> value_len = 0
     then
       (if expected_record_checksum = record_checksum E marker 0 0 [] then Inr None
        else Inl (Err (corrupted_log absolute_offset
            (''invalid compact marker checksum at offset '' @ show_nat absolute_offset))))
     else if marker \<noteq> Batch \<or> key_len \<noteq> 0
     then Inl (Err (from_io InvalidData
            (''unexpected overlay marker at offset '' @ show_nat absolute_offset)))
     else if payload_len > MAX_LOG_PAYLOAD_SIZE
     then Inl (Err (from_io InvalidData ''overlay record exceeds configured format limits''))
     else if crc32c_append E (record_checksum_start E marker (of_nat key_len) (of_nat value_len)) payload
        \<noteq> expected_record_checksum
     then Inl (Err (corrupted_log absolute_offset
            (''overlay checksum mismatch at offset '' @ show_nat absolute_offset)))
     else
     and_then (apply_batch_payload E payload header_end index memory) (\<lambda>(index, memory).
       Inr (Some (record_end, index, memory)))))))))"

lemma scan_record_advances:
  "scan_record E bs mapping_offset offset index memory = Inr (Some (next, index', memory')) \<Longrightarrow>
   offset < next \<and> next \<le> length bs"
  unfolding scan_record_def
  by (auto simp: Let_def result_simps split: option.splits if_splits)

function scan_loop :: "externs \<Rightarrow> bytes \<Rightarrow> nat \<Rightarrow> nat \<Rightarrow> overlay_map \<Rightarrow> nat
    \<Rightarrow> (nat \<times> overlay_map \<times> nat) result" where
  "scan_loop E bs mapping_offset offset index memory =
     (if offset < length bs
      then and_then (scan_record E bs mapping_offset offset index memory) (\<lambda>turn.
             case turn of
               None \<Rightarrow> Inr (offset, index, memory)
             | Some (next, index, memory) \<Rightarrow> scan_loop E bs mapping_offset next index memory)
      else Inr (offset, index, memory))"
  by pat_completeness auto
termination
  by (relation "measure (\<lambda>(E, bs, mapping_offset, offset, index, memory). length bs - offset)")
    (auto dest!: scan_record_advances)

declare scan_loop.simps [simp del]

subsection \<open>The scan\<close>

record overlay_scan =
  scan_index :: overlay_map
  scan_memory :: nat
  valid_len :: nat

definition overlay_scan_empty :: "nat \<Rightarrow> overlay_scan" where
  "overlay_scan_empty len = \<lparr>scan_index = overlay_mapped None, scan_memory = 0, valid_len = len\<rparr>"

definition release_mapping :: "overlay_scan \<Rightarrow> overlay_scan result" where
  "release_mapping scan =
     and_then (replace_mapped_bytes None (scan_index scan)) (\<lambda>index. Inr (scan\<lparr>scan_index := index\<rparr>))"

definition replace_mapping :: "base_bytes option \<Rightarrow> overlay_scan \<Rightarrow> overlay_scan result" where
  "replace_mapping mapping scan =
     and_then (replace_mapped_bytes mapping (scan_index scan)) (\<lambda>index. Inr (scan\<lparr>scan_index := index\<rparr>))"

definition into_index :: "overlay_scan \<Rightarrow> overlay_map \<times> nat" where
  "into_index scan = (scan_index scan, scan_memory scan)"

definition scan_overlay :: "externs \<Rightarrow> base_bytes \<Rightarrow> nat \<Rightarrow> overlay_scan result" where
  "scan_overlay E mapping mapping_offset =
     and_then (scan_loop E (deref mapping) mapping_offset 0 (overlay_mapped (Some mapping)) 0)
       (\<lambda>(offset, index, memory).
     and_then (ok_or (Err (invalid_base ''overlay length overflow'')) (checked_add mapping_offset offset))
       (\<lambda>len. Inr \<lparr>scan_index = index, scan_memory = memory, valid_len = len\<rparr>))"

end
