(* ===== verification/Lkv_View.thy ===== *)
theory Lkv_View
  imports Lkv_Verifier Lkv_Recovery
begin

section \<open>The active base and reads (database/state.rs, database/view.rs)\<close>

text \<open>
  A read looks at the Overlay first and then walks the hash index of the base. With verification on
  read the walk checks the blocks of every slot and record it looks at before it trusts them.
  \<^verbatim>\<open>ActiveBase\<close> is an accepted base with its verifier. A view borrows both from the database or from a
  snapshot; its reads return the verifier with what they have checked.
\<close>

subsection \<open>Lookups\<close>

definition check_if :: "bool \<Rightarrow> externs \<Rightarrow> bytes \<Rightarrow> nat \<Rightarrow> nat \<Rightarrow> (segment_verifier, failure, unit) io" where
  "check_if b E mapping start end = (if b then verify_range E mapping start end else io_return ())"

text \<open>
  The record a slot points to: \<open>Some r\<close> ends the lookup with \<open>r\<close>, \<open>None\<close> goes on to the next slot.
\<close>

definition lookup_record :: "externs \<Rightarrow> bytes \<Rightarrow> bool \<Rightarrow> nat \<Rightarrow> bytes \<Rightarrow> nat
    \<Rightarrow> (segment_verifier, failure, bytes option option) io" where
  "lookup_record E mapping verify_on_read seg_offset key absolute_offset v =
     (case checked_sub absolute_offset seg_offset of
        None \<Rightarrow> (Inr (Some None), v)
      | Some offset \<Rightarrow>
     (case checked_add offset 8 of
        None \<Rightarrow> (Inr (Some None), v)
      | Some header_end \<Rightarrow>
     (case get_range mapping offset header_end of
        None \<Rightarrow> (Inr (Some None), v)
      | Some header \<Rightarrow>
     if header_end > data_size v then (Inr (Some None), v)
     else
       io_then (io_lift (u32_at header 0)) (\<lambda>key_len.
       io_then (io_lift (u32_at header 4)) (\<lambda>val_len.
       let key_start = offset + 8 in
       case checked_add key_start (unat key_len) of
         None \<Rightarrow> io_return (Some None)
       | Some value_start \<Rightarrow>
      (case checked_add value_start (unat val_len) of
         None \<Rightarrow> io_return (Some None)
       | Some value_end \<Rightarrow>
         io_then (check_if verify_on_read E mapping offset value_end) (\<lambda>_ v.
           if value_end \<le> data_size v \<and> get_range mapping key_start value_start = Some key
           then (Inr (Some (get_range mapping value_start value_end)), v)
           else (Inr None, v))))) v)))"

text \<open>\<open>lookup_loop\<close> has the number of slots that are left as its first argument.\<close>

fun lookup_loop :: "nat \<Rightarrow> externs \<Rightarrow> bytes \<Rightarrow> bool \<Rightarrow> nat \<Rightarrow> nat \<Rightarrow> bytes \<Rightarrow> u64 \<Rightarrow> nat
    \<Rightarrow> (segment_verifier, failure, bytes option) io" where
  "lookup_loop 0 E mapping verify_on_read seg_offset slots key key_hash probe v = (Inr None, v)"
| "lookup_loop (Suc n) E mapping verify_on_read seg_offset slots key key_hash probe v =
     (let slot = unat ((key_hash + of_nat probe) AND slot_mask slots);
          slot_offset = BASE_HEADER + slot * SLOT_SIZE in
      io_then (check_if verify_on_read E mapping slot_offset (slot_offset + SLOT_SIZE)) (\<lambda>_.
      io_then (io_lift (u32_at mapping slot_offset)) (\<lambda>stored_fingerprint.
      io_then (io_lift (u64_at mapping (slot_offset + 4))) (\<lambda>absolute_offset.
      if absolute_offset = 0 then io_return None
      else if stored_fingerprint = fingerprint key_hash then
        io_then (lookup_record E mapping verify_on_read seg_offset key (unat absolute_offset)) (\<lambda>found.
        case found of
          Some r \<Rightarrow> io_return r
        | None \<Rightarrow> lookup_loop n E mapping verify_on_read seg_offset slots key key_hash (Suc probe))
      else lookup_loop n E mapping verify_on_read seg_offset slots key key_hash (Suc probe)))) v)"

definition lookup_segment :: "externs \<Rightarrow> bytes \<Rightarrow> verification_mode \<Rightarrow> nat \<Rightarrow> nat \<Rightarrow> bytes \<Rightarrow> u64
    \<Rightarrow> (segment_verifier, failure, bytes option) io" where
  "lookup_segment E mapping mode seg_offset slots key key_hash v =
     (if slots = 0 then (Inr None, v)
      else lookup_loop slots E mapping (mode = OnRead \<and> \<not> fully_verified v) seg_offset slots key key_hash 0 v)"

subsection \<open>Views\<close>

record base_view =
  view_mapping :: bytes
  view_offset :: nat
  view_slots :: nat

record read_view =
  view_base :: base_view
  view_overlay :: overlay_map
  view_verification :: verification_mode

definition view_get :: "externs \<Rightarrow> read_view \<Rightarrow> bytes \<Rightarrow> (segment_verifier, failure, bytes option) io" where
  "view_get E view key =
     (let key_hash = xxh3_64 E key in
      io_then (io_lift (get_hashed (view_overlay view) key key_hash)) (\<lambda>found.
      case found of
        Some r \<Rightarrow> io_return r
      | None \<Rightarrow> lookup_segment E (view_mapping (view_base view)) (view_verification view)
          (view_offset (view_base view)) (view_slots (view_base view)) key key_hash))"

text \<open>
  \<^verbatim>\<open>verify_pair\<close> recovers the positions of the two slices from their addresses. In the model an entry
  that comes from the base carries its position, one from the Overlay carries none.
\<close>

definition verify_pair :: "externs \<Rightarrow> read_view \<Rightarrow> (nat \<times> nat) option \<Rightarrow> (segment_verifier, failure, unit) io" where
  "verify_pair E view pair =
     (if view_verification view \<noteq> OnRead then io_return ()
      else case pair of
        None \<Rightarrow> io_return ()
      | Some (start, end) \<Rightarrow> verify_range E (view_mapping (view_base view)) start end)"

subsection \<open>The active base\<close>

record active_base =
  active_mapping :: base_bytes
  active_verifier :: segment_verifier
  active_offset :: nat
  active_checksum :: u32
  active_slots :: nat
  active_len :: nat
  active_generation :: nat
  active_log_start :: nat

definition active_new :: "base_bytes \<Rightarrow> segment_verifier \<Rightarrow> superblock \<Rightarrow> nat \<Rightarrow> nat \<Rightarrow> active_base" where
  "active_new mapping verifier sb slots len =
     \<lparr>active_mapping = mapping, active_verifier = verifier, active_offset = unat (base_offset sb),
      active_checksum = base_checksum sb, active_slots = slots, active_len = len,
      active_generation = unat (generation sb), active_log_start = unat (log_start sb)\<rparr>"

abbreviation invalid_data :: "string \<Rightarrow> failure" where
  "invalid_data msg \<equiv> Err (from_io InvalidData msg)"

definition active_open :: "externs \<Rightarrow> base_bytes \<Rightarrow> superblock \<Rightarrow> verification_mode \<Rightarrow> active_base result" where
  "active_open E mapping sb mode =
     and_then (segment_layout_of E (deref mapping)) (\<lambda>layout.
     and_then (segment_metadata_checksum E (deref mapping)) (\<lambda>checksum.
     if checksum \<noteq> base_checksum sb then Inl (invalid_data ''base checksum metadata mismatch'')
     else
     and_then (if mode = Full then verify_segment_blocks E layout (unat (base_offset sb)) else Inr ()) (\<lambda>_.
     let verifier = verifier_new (unat (base_offset sb)) layout (mode = Full) in
     and_then (read_base_header (layout_data layout)) (\<lambda>(slots, len).
     if slots \<noteq> unat (base_slots sb) \<or> len \<noteq> unat (base_len sb)
     then Inl (invalid_data ''superblock and base header disagree'')
     else
     and_then (if mode = Full then validate_base E (layout_data layout) (unat (base_offset sb)) slots len else Inr ()) (\<lambda>_.
     Inr (active_new mapping verifier sb slots len))))))"

definition active_install :: "externs \<Rightarrow> base_bytes \<Rightarrow> superblock \<Rightarrow> active_base result" where
  "active_install E mapping sb =
     and_then (segment_layout_of E (deref mapping)) (\<lambda>layout.
     and_then (read_base_header (layout_data layout)) (\<lambda>(slots, len).
     if slots \<noteq> unat (base_slots sb) \<or> len \<noteq> unat (base_len sb)
     then Inl (invalid_data ''installed superblock and base header disagree'')
     else Inr (active_new mapping (verifier_new (unat (base_offset sb)) layout True) sb slots len)))"

definition active_verify :: "externs \<Rightarrow> (active_base, failure, unit) io" where
  "active_verify E base =
     (let mapping = deref (active_mapping base) in
      case segment_layout_of E mapping of
        Inl e \<Rightarrow> (Inl e, base)
      | Inr layout \<Rightarrow>
     (case segment_metadata_checksum E mapping of
        Inl e \<Rightarrow> (Inl e, base)
      | Inr checksum \<Rightarrow>
      if checksum \<noteq> active_checksum base then (Inl (invalid_data ''base content checksum mismatch''), base)
      else
     (case verify_range E mapping 0 (length (layout_data layout)) (active_verifier base) of
        (Inl e, v) \<Rightarrow> (Inl e, base\<lparr>active_verifier := v\<rparr>)
      | (Inr _, v) \<Rightarrow>
          if semantically_verified v then (Inr (), base\<lparr>active_verifier := v\<rparr>)
          else (case validate_base E (layout_data layout) (active_offset base) (active_slots base) (active_len base) of
              Inl e \<Rightarrow> (Inl e, base\<lparr>active_verifier := v\<rparr>)
            | Inr _ \<Rightarrow> (Inr (), base\<lparr>active_verifier := mark_semantically_verified v\<rparr>)))))"

end
