(* ===== verification/Lkv_Entries.thy ===== *)
theory Lkv_Entries
  imports Lkv_View
begin

section \<open>Iterating over a view (database/transaction.rs)\<close>

text \<open>
  \<^verbatim>\<open>RawEntries\<close> walks the records of the base, skips those the Overlay shadows, and goes on with the live
  entries of the Overlay. An error is kept until it is taken, and ends the walk. \<^verbatim>\<open>Entries\<close> adds the
  check of each pair it yields. \<open>raw_overlay\<close> holds what the iterator of the Overlay has still to yield.
\<close>

text \<open>A pair with its place in the base, if it comes from there.\<close>

type_synonym item = "bytes \<times> bytes \<times> (nat \<times> nat) option"

record raw_entries =
  raw_base_offset :: nat
  raw_base_remaining :: nat
  raw_base_trusted :: bool
  raw_pending_error :: "error option"
  raw_finished :: bool
  raw_overlay :: "(bytes \<times> bytes option) list"

definition raw_entries_new :: "read_view \<Rightarrow> segment_verifier \<Rightarrow> nat \<Rightarrow> raw_entries result" where
  "raw_entries_new view v base_remaining =
     and_then (overlay_iter (view_overlay view)) (\<lambda>items.
     Inr \<lparr>raw_base_offset = BASE_HEADER + view_slots (view_base view) * SLOT_SIZE, raw_base_remaining = base_remaining,
          raw_base_trusted = semantically_verified v, raw_pending_error = None, raw_finished = False, raw_overlay = items\<rparr>)"

text \<open>
  The loop over the base, with the number of records that are left: the first record the Overlay does
  not shadow, the error of a record that cannot be read, or \<open>None\<close> at the end.
\<close>

fun raw_base_loop :: "externs \<Rightarrow> read_view \<Rightarrow> segment_verifier \<Rightarrow> bool \<Rightarrow> nat \<Rightarrow> nat
    \<Rightarrow> ((error + item option) \<times> nat \<times> nat) result" where
  "raw_base_loop E view v trusted 0 offset = Inr (Inr None, offset, 0)"
| "raw_base_loop E view v trusted (Suc n) offset =
     (let mapping = view_mapping (view_base view) in
      case (if trusted then trusted_record_at mapping offset else record_at mapping offset (data_size v)) of
        Inl (Err e) \<Rightarrow> Inr (Inl e, offset, Suc n)
      | Inl Panic \<Rightarrow> Inl Panic
      | Inl Diverges \<Rightarrow> Inl Diverges
      | Inr (key, val, stop) \<Rightarrow>
          and_then (overlay_contains_key E (view_overlay view) key) (\<lambda>shadowed.
          if \<not> shadowed then Inr (Inr (Some (key, val, Some (offset + 8, stop))), stop, n)
          else raw_base_loop E view v trusted n stop))"

text \<open>The loop over the Overlay: the first live entry and what follows it.\<close>

fun first_live :: "(bytes \<times> bytes option) list \<Rightarrow> (bytes \<times> bytes) option \<times> (bytes \<times> bytes option) list" where
  "first_live [] = (None, [])"
| "first_live ((key, Some val) # items) = (Some (key, val), items)"
| "first_live ((key, None) # items) = first_live items"

definition raw_next :: "externs \<Rightarrow> read_view \<Rightarrow> segment_verifier \<Rightarrow> raw_entries \<Rightarrow> (item option \<times> raw_entries) result" where
  "raw_next E view v st =
     (if raw_finished st then Inr (None, st)
      else
        and_then (raw_base_loop E view v (raw_base_trusted st) (raw_base_remaining st) (raw_base_offset st))
          (\<lambda>(outcome, offset, n).
        let st = st\<lparr>raw_base_offset := offset, raw_base_remaining := n\<rparr> in
        case outcome of
          Inl e \<Rightarrow> Inr (None, st\<lparr>raw_pending_error := Some e, raw_finished := True\<rparr>)
        | Inr (Some item) \<Rightarrow> Inr (Some item, st)
        | Inr None \<Rightarrow>
            if offset \<noteq> data_size v
            then Inr (None, st\<lparr>raw_pending_error := Some (invalid_base ''base record count does not match data size''),
                               raw_finished := True\<rparr>)
            else (case first_live (raw_overlay st) of
                (Some (key, val), items) \<Rightarrow> Inr (Some (key, val, None), st\<lparr>raw_overlay := items\<rparr>)
              | (None, items) \<Rightarrow> Inr (None, st\<lparr>raw_overlay := items, raw_finished := True\<rparr>))))"

definition take_error :: "raw_entries \<Rightarrow> error option \<times> raw_entries" where
  "take_error st = (raw_pending_error st, st\<lparr>raw_pending_error := None\<rparr>)"

definition raw_left :: "raw_entries \<Rightarrow> nat" where
  "raw_left st = raw_base_remaining st + length (raw_overlay st)"

text \<open>Every pair that is yielded uses up a record or an entry, so a walk ends.\<close>

lemma raw_base_loop_left:
  "raw_base_loop E view v trusted n offset = Inr (Inr (Some item), offset', n') \<Longrightarrow> n' < n"
proof (induction n arbitrary: offset trusted)
  case 0
  then show ?case by simp
next
  case (Suc n)
  from Suc.prems show ?case
    by (auto simp: Let_def result_simps less_Suc_eq split: sum.splits failure.splits if_splits dest: Suc.IH)
qed

lemma raw_base_loop_end:
  "raw_base_loop E view v trusted n offset = Inr (Inr None, offset', n') \<Longrightarrow> n' = 0"
proof (induction n arbitrary: offset trusted)
  case 0
  then show ?case by simp
next
  case (Suc n)
  from Suc.prems show ?case
    by (auto simp: Let_def result_simps split: sum.splits failure.splits if_splits dest: Suc.IH)
qed

lemma first_live_left: "first_live items = (Some p, rest) \<Longrightarrow> length rest < length items"
  by (induction items rule: first_live.induct) auto

lemma raw_next_left: "raw_next E view v st = Inr (Some item, st') \<Longrightarrow> raw_left st' < raw_left st"
  unfolding raw_next_def raw_left_def
  by (auto simp: Let_def result_simps split: if_splits sum.splits option.splits prod.splits
      dest!: raw_base_loop_left raw_base_loop_end first_live_left)

text \<open>The pairs a loop over the iterator sees until it returns \<open>None\<close>, and the iterator it leaves behind.\<close>

function raw_collect :: "externs \<Rightarrow> read_view \<Rightarrow> segment_verifier \<Rightarrow> raw_entries \<Rightarrow> (entry list \<times> raw_entries) result" where
  "raw_collect E view v st =
     (case raw_next E view v st of
        Inl e \<Rightarrow> Inl e
      | Inr (None, st') \<Rightarrow> Inr ([], st')
      | Inr (Some (key, val, at), st') \<Rightarrow>
          and_then (raw_collect E view v st') (\<lambda>(items, st'). Inr ((key, val) # items, st')))"
  by pat_completeness auto
termination
  by (relation "measure (\<lambda>(E, view, v, st). raw_left st)") (auto dest: raw_next_left)

declare raw_collect.simps [simp del]

subsection \<open>Checked iteration\<close>

record entries =
  entries_view :: read_view
  entries_inner :: raw_entries

definition entries_new :: "read_view \<Rightarrow> segment_verifier \<Rightarrow> nat \<Rightarrow> entries result" where
  "entries_new view v base_entries =
     and_then (raw_entries_new view v base_entries) (\<lambda>inner. Inr \<lparr>entries_view = view, entries_inner = inner\<rparr>)"

definition entries_next :: "externs \<Rightarrow> entries \<Rightarrow> (segment_verifier, failure, (error + entry) option \<times> entries) io" where
  "entries_next E it v =
     (case raw_next E (entries_view it) v (entries_inner it) of
        Inl e \<Rightarrow> (Inl e, v)
      | Inr (Some (key, val, at), inner) \<Rightarrow>
          (case verify_pair E (entries_view it) at v of
             (Inr _, v') \<Rightarrow> (Inr (Some (Inr (key, val)), it\<lparr>entries_inner := inner\<rparr>), v')
           | (Inl (Err e), v') \<Rightarrow> (Inr (Some (Inl e), it\<lparr>entries_inner := inner\<rparr>), v')
           | (Inl Panic, v') \<Rightarrow> (Inl Panic, v')
           | (Inl Diverges, v') \<Rightarrow> (Inl Diverges, v'))
      | Inr (None, inner) \<Rightarrow>
          (case take_error inner of (pending, inner') \<Rightarrow>
             (Inr (map_option Inl pending, it\<lparr>entries_inner := inner'\<rparr>), v)))"

lemma entries_next_left:
  "entries_next E it v = (Inr (Some (Inr p), it'), v') \<Longrightarrow> raw_left (entries_inner it') < raw_left (entries_inner it)"
  unfolding entries_next_def
  by (auto simp: take_error_def split: sum.splits option.splits prod.splits failure.splits dest: raw_next_left)

text \<open>\<^verbatim>\<open>try_fold\<close> over the iterator: it stops at the first error.\<close>

function entries_try_fold :: "externs \<Rightarrow> ('a \<Rightarrow> entry \<Rightarrow> 'a result) \<Rightarrow> 'a \<Rightarrow> entries \<Rightarrow> (segment_verifier, failure, 'a) io" where
  "entries_try_fold E f acc it v =
     (case entries_next E it v of
        (Inl e, v') \<Rightarrow> (Inl e, v')
      | (Inr (None, it'), v') \<Rightarrow> (Inr acc, v')
      | (Inr (Some (Inl e), it'), v') \<Rightarrow> (Inl (Err e), v')
      | (Inr (Some (Inr p), it'), v') \<Rightarrow>
          (case f acc p of
             Inl e \<Rightarrow> (Inl e, v')
           | Inr acc' \<Rightarrow> entries_try_fold E f acc' it' v'))"
  by pat_completeness auto
termination
  by (relation "measure (\<lambda>(E, f, acc, it, v). raw_left (entries_inner it))") (auto dest: entries_next_left [OF sym])

declare entries_try_fold.simps [simp del]

definition entries_count :: "externs \<Rightarrow> entries \<Rightarrow> (segment_verifier, failure, nat) io" where
  "entries_count E it =
     entries_try_fold E (\<lambda>len p. ok_or (Err (other ''snapshot entry count overflow'')) (checked_add len 1)) 0 it"

end
