(* ===== verification/Lkv_Storage.thy ===== *)
theory Lkv_Storage
  imports Lkv_Segment
begin

section \<open>Storage (database/storage.rs, the mapping of format/segment.rs)\<close>

text \<open>
  A database lives in a file or in memory. A file is the \<open>disk_file\<close> of the store theory. The memory
  storage keeps the superblock pages, the active base, which it shares with readers, and the bytes
  behind the base as three regions of one logical image; everything else of the image reads as
  zeros, and the log of a memory database takes up length only.
\<close>

subsection \<open>Mapping a file\<close>

definition segment_map :: "nat \<Rightarrow> nat \<Rightarrow> (disk_file, failure, bytes) io" where
  "segment_map offset sz =
     (if sz = 0 then io_lift (Inl (Err (from_io InvalidData ''cannot map an empty segment'')))
      else
      io_then (io_lift (ok_or (Err (invalid_base ''segment range overflows file offsets'')) (checked_add offset sz))) (\<lambda>last.
      io_then (question file_len) (\<lambda>len.
      if last > len then io_lift (Inl (Err (invalid_base ''segment extends beyond the database file'')))
      else question (file_mmap offset sz))))"

subsection \<open>Memory\<close>

record memory_storage =
  mem_header :: bytes
  mem_base :: "(nat \<times> bytes) option"
  tail_start :: nat
  mem_tail :: bytes
  mem_len :: nat
  mem_position :: nat

definition memory_storage_default :: memory_storage where
  "memory_storage_default =
     \<lparr>mem_header = [], mem_base = None, tail_start = DATA_START, mem_tail = [], mem_len = 0, mem_position = 0\<rparr>"

definition resize_bytes :: "externs \<Rightarrow> bytes \<Rightarrow> nat \<Rightarrow> bytes result" where
  "resize_bytes E bs len =
     (if len > length bs \<and> \<not> try_reserve E (len - length bs)
      then Inl (Err (from_io OutOfMemory ''could not grow memory storage''))
      else Inr (take len bs @ replicate (len - length bs) 0))"

definition memory_set_len :: "externs \<Rightarrow> nat \<Rightarrow> (memory_storage, failure, unit) io" where
  "memory_set_len E len m =
     (case mem_base m of
        Some _ \<Rightarrow>
          if len < tail_start m
          then (Inl (Err (from_io InvalidInput ''cannot truncate the active in-memory Base'')), m)
          else (case resize_bytes E (mem_tail m) (len - tail_start m) of
              Inl e \<Rightarrow> (Inl e, m)
            | Inr bs \<Rightarrow> (Inr (), m\<lparr>mem_tail := bs, mem_len := len\<rparr>))
      | None \<Rightarrow>
          if len \<le> DATA_START
          then (case resize_bytes E (mem_header m) len of
              Inl e \<Rightarrow> (Inl e, m)
            | Inr bs \<Rightarrow> (Inr (), m\<lparr>mem_header := bs, mem_tail := [], tail_start := DATA_START, mem_len := len\<rparr>))
          else (case resize_bytes E (mem_header m) DATA_START of
              Inl e \<Rightarrow> (Inl e, m)
            | Inr bs \<Rightarrow>
                let m = m\<lparr>mem_header := bs, tail_start := DATA_START\<rparr> in
                (case resize_bytes E (mem_tail m) (len - DATA_START) of
                   Inl e \<Rightarrow> (Inl e, m)
                 | Inr bs \<Rightarrow> (Inr (), m\<lparr>mem_tail := bs, mem_len := len\<rparr>))))"

text \<open>The piece one turn of the reading loop copies, at most \<open>n\<close> bytes.\<close>

definition memory_chunk :: "memory_storage \<Rightarrow> nat \<Rightarrow> bytes" where
  "memory_chunk m n =
     (let p = mem_position m in
      if p < length (mem_header m) then take n (drop p (mem_header m))
      else
        case mem_base m of
          Some (offset, bs) \<Rightarrow>
            if offset \<le> p \<and> p < offset + length bs then take n (drop (p - offset) bs)
            else if tail_start m \<le> p \<and> p < tail_start m + length (mem_tail m)
            then take n (drop (p - tail_start m) (mem_tail m))
            else
              let gap = (if offset > p then min (mem_len m) offset else mem_len m);
                  gap = (if tail_start m > p then min gap (tail_start m) else gap)
              in replicate (min (gap - p) n) 0
        | None \<Rightarrow>
            if tail_start m \<le> p \<and> p < tail_start m + length (mem_tail m)
            then take n (drop (p - tail_start m) (mem_tail m))
            else
              let gap = (if tail_start m > p then min (mem_len m) (tail_start m) else mem_len m)
              in replicate (min (gap - p) n) 0)"

lemma memory_chunk_not_Nil: "0 < n \<Longrightarrow> mem_position m + n \<le> mem_len m \<Longrightarrow> memory_chunk m n \<noteq> []"
  by (auto simp: memory_chunk_def Let_def split: option.split prod.split)

lemma length_memory_chunk: "length (memory_chunk m n) \<le> n"
  by (auto simp: memory_chunk_def Let_def split: option.split prod.split)

text \<open>
  The loop runs with at most \<open>mem_len m - mem_position m\<close> bytes to go, so every turn copies something.
\<close>

function memory_read_loop :: "nat \<Rightarrow> memory_storage \<Rightarrow> bytes \<times> memory_storage" where
  "memory_read_loop n m =
     (if n = 0 \<or> mem_len m < mem_position m + n then ([], m)
      else
        let chunk = memory_chunk m n;
            (rest, m') = memory_read_loop (n - length chunk) (m\<lparr>mem_position := mem_position m + length chunk\<rparr>)
        in (chunk @ rest, m'))"
  by pat_completeness auto
termination
  by (relation "measure fst") (use memory_chunk_not_Nil in auto)

declare memory_read_loop.simps [simp del]

definition memory_read :: "nat \<Rightarrow> memory_storage \<Rightarrow> bytes \<times> memory_storage" where
  "memory_read n m =
     (if n = 0 \<or> mem_position m \<ge> mem_len m then ([], m)
      else memory_read_loop (min (mem_len m - mem_position m) n) m)"

text \<open>\<^verbatim>\<open>read_exact\<close> of the standard library: reads until the buffer is full or a read returns nothing.\<close>

function memory_read_exact :: "nat \<Rightarrow> (memory_storage, io_error, bytes) io" where
  "memory_read_exact n m =
     (if n = 0 then (Inr [], m)
      else case memory_read n m of (bs, m') \<Rightarrow>
        if bs = [] then (Inl unexpected_eof, m')
        else (case memory_read_exact (n - length bs) m' of
            (Inl e, m'') \<Rightarrow> (Inl e, m'')
          | (Inr rest, m'') \<Rightarrow> (Inr (bs @ rest), m'')))"
  by pat_completeness auto
termination
  by (relation "measure fst") auto

declare memory_read_exact.simps [simp del]

definition memory_resize :: "externs \<Rightarrow> bytes \<Rightarrow> nat \<Rightarrow> io_error + bytes" where
  "memory_resize E bs len =
     (case resize_bytes E bs len of
        Inl (Err e) \<Rightarrow> Inl (IoError (kind_of e) (display e))
      | Inl _ \<Rightarrow> Inl unexpected_eof
      | Inr bs \<Rightarrow> Inr bs)"

definition memory_write :: "externs \<Rightarrow> bytes \<Rightarrow> (memory_storage, io_error, nat) io" where
  "memory_write E bs m =
     (if bs = [] then (Inr 0, m)
      else
        let start = mem_position m in
        case checked_add start (length bs) of
          None \<Rightarrow> (Inl (IoError InvalidInput ''write range overflow''), m)
        | Some stop \<Rightarrow>
            if stop \<le> DATA_START then
              (case memory_resize E (mem_header m) stop of
                 Inl e \<Rightarrow> (Inl e, m)
               | Inr header \<Rightarrow>
                   (Inr (length bs), m\<lparr>mem_header := write_at start bs header, mem_position := stop, mem_len := max (mem_len m) stop\<rparr>))
            else if start \<ge> tail_start m then
              (let start = start - tail_start m in
               case memory_resize E (mem_tail m) (start + length bs) of
                 Inl e \<Rightarrow> (Inl e, m)
               | Inr tail \<Rightarrow>
                   (Inr (length bs), m\<lparr>mem_tail := write_at start bs tail, mem_position := stop, mem_len := max (mem_len m) stop\<rparr>))
            else (Inl (IoError InvalidInput ''cannot overwrite an immutable in-memory Base''), m))"

definition memory_write_all :: "externs \<Rightarrow> bytes \<Rightarrow> (memory_storage, io_error, unit) io" where
  "memory_write_all E bs m =
     (if bs = [] then (Inr (), m)
      else case memory_write E bs m of (Inl e, m') \<Rightarrow> (Inl e, m') | (Inr _, m') \<Rightarrow> (Inr (), m'))"

definition memory_seek_start :: "nat \<Rightarrow> (memory_storage, io_error, nat) io" where
  "memory_seek_start n m = (Inr n, m\<lparr>mem_position := n\<rparr>)"

definition memory_seek_end :: "(memory_storage, io_error, nat) io" where
  "memory_seek_end m = (Inr (mem_len m), m\<lparr>mem_position := mem_len m\<rparr>)"

definition memory_load_immutable :: "externs \<Rightarrow> nat \<Rightarrow> nat \<Rightarrow> (memory_storage, failure, base_bytes) io" where
  "memory_load_immutable E offset sz m =
     (if sz = 0 then (Inl (Err (from_io InvalidData ''cannot load an empty segment'')), m)
      else case filter_option (\<lambda>stop. stop \<le> mem_len m) (checked_add offset sz) of
        None \<Rightarrow> (Inl (Err (invalid_base ''segment extends beyond memory storage'')), m)
      | Some stop \<Rightarrow>
          let copy =
            (if \<not> try_reserve E sz then (Inl (Err (from_io OutOfMemory ''could not allocate immutable bytes'')), m)
             else case memory_read_exact sz (m\<lparr>mem_position := offset\<rparr>) of
                 (Inl e, m') \<Rightarrow> (Inl (Err (error_from e)), m'\<lparr>mem_position := mem_position m\<rparr>)
               | (Inr bs, m') \<Rightarrow> (Inr (Memory bs 0 (length bs)), m'\<lparr>mem_position := mem_position m\<rparr>))
          in case mem_base m of
               Some (base_start, bs) \<Rightarrow>
                 if offset \<ge> base_start \<and> stop \<le> base_start + length bs
                 then (Inr (Memory bs (offset - base_start) (stop - base_start)), m)
                 else copy
             | None \<Rightarrow>
                 if offset = tail_start m \<and> stop = mem_len m
                 then (Inr (Memory (mem_tail m) 0 (length (mem_tail m))),
                       m\<lparr>mem_base := Some (offset, mem_tail m), mem_tail := [], tail_start := stop\<rparr>)
                 else copy)"

definition memory_replace_base :: "externs \<Rightarrow> nat \<Rightarrow> bytes \<Rightarrow> (memory_storage, failure, unit) io" where
  "memory_replace_base E offset bs m =
     (if offset < DATA_START \<or> bs = [] then (Inl (Err (from_io InvalidInput ''invalid in-memory Base range'')), m)
      else case checked_add offset (length bs) of
        None \<Rightarrow> (Inl (Err (invalid_base ''in-memory Base range overflows'')), m)
      | Some stop \<Rightarrow>
          (case resize_bytes E (mem_header m) DATA_START of
             Inl e \<Rightarrow> (Inl e, m)
           | Inr header \<Rightarrow>
               (Inr (), m\<lparr>mem_header := header, mem_base := Some (offset, bs), tail_start := stop, mem_tail := [],
                          mem_len := stop, mem_position := stop\<rparr>)))"

definition memory_extend_log :: "nat \<Rightarrow> (memory_storage, failure, unit) io" where
  "memory_extend_log additional m =
     (case checked_add (mem_len m) additional of
        None \<Rightarrow> (Inl (Err (from_io InvalidInput ''memory log size overflow'')), m)
      | Some len \<Rightarrow> (Inr (), m\<lparr>mem_len := len, mem_position := len\<rparr>))"

subsection \<open>File or memory\<close>

datatype storage = FileStorage disk_file | MemoryStorage memory_storage

text \<open>The dispatch every method of \<^verbatim>\<open>Storage\<close> starts with.\<close>

fun on_storage :: "(disk_file, 'f, 'a) io \<Rightarrow> (memory_storage, 'f, 'a) io \<Rightarrow> (storage, 'f, 'a) io" where
  "on_storage on_file on_memory (FileStorage f) = (case on_file f of (r, f') \<Rightarrow> (r, FileStorage f'))"
| "on_storage on_file on_memory (MemoryStorage m) = (case on_memory m of (r, m') \<Rightarrow> (r, MemoryStorage m'))"

definition storage_memory :: storage where
  "storage_memory = MemoryStorage memory_storage_default"

fun storage_is_memory :: "storage \<Rightarrow> bool" where
  "storage_is_memory (FileStorage f) = False"
| "storage_is_memory (MemoryStorage m) = True"

definition storage_len :: "(storage, failure, nat) io" where
  "storage_len = on_storage (question file_len) (\<lambda>m. (Inr (mem_len m), m))"

definition storage_set_len :: "externs \<Rightarrow> nat \<Rightarrow> (storage, failure, unit) io" where
  "storage_set_len E len = on_storage (question (file_set_len len)) (memory_set_len E len)"

definition sync_data :: "(storage, failure, unit) io" where
  "sync_data = on_storage (question file_sync) (io_return ())"

definition sync_all :: "(storage, failure, unit) io" where
  "sync_all = on_storage (question file_sync) (io_return ())"

definition load_immutable :: "externs \<Rightarrow> nat \<Rightarrow> nat \<Rightarrow> (storage, failure, base_bytes) io" where
  "load_immutable E offset sz =
     on_storage (io_then (segment_map offset sz) (\<lambda>mapping. io_return (Mapped mapping))) (memory_load_immutable E offset sz)"

definition replace_memory_base :: "externs \<Rightarrow> nat \<Rightarrow> bytes \<Rightarrow> (storage, failure, unit) io" where
  "replace_memory_base E offset bs =
     on_storage (io_lift (Inl (Err (from_io InvalidInput ''cannot install an in-memory Base into file storage''))))
       (memory_replace_base E offset bs)"

definition extend_memory_log :: "nat \<Rightarrow> (storage, failure, unit) io" where
  "extend_memory_log additional =
     on_storage (io_lift (Inl (Err (from_io InvalidInput ''cannot extend an in-memory log in file storage''))))
       (memory_extend_log additional)"

definition memory_ops :: "externs \<Rightarrow> memory_storage store_ops" where
  "memory_ops E = \<lparr>seek_start = memory_seek_start, seek_end = memory_seek_end, read_exact = memory_read_exact,
     write_all = memory_write_all E\<rparr>"

definition storage_ops :: "externs \<Rightarrow> storage store_ops" where
  "storage_ops E =
     \<lparr>seek_start = (\<lambda>n. on_storage (file_seek_start n) (memory_seek_start n)),
      seek_end = on_storage file_seek_end memory_seek_end,
      read_exact = (\<lambda>n. on_storage (file_read_exact n) (memory_read_exact n)),
      write_all = (\<lambda>bs. on_storage (file_write_all bs) (memory_write_all E bs))\<rparr>"

end
