(* ===== verification/Lkv_Database.thy ===== *)
theory Lkv_Database
  imports Lkv_Entries Lkv_Storage
begin

section \<open>The database (database/mod.rs)\<close>

text \<open>
  A database handle owns its storage, the active base, the Overlay and the state of the handle.
  Opening reads the newest superblock, maps and accepts its base, scans the log and cuts off an
  incomplete rest. A commit appends one record, makes it durable and only then publishes it in the
  Overlay; when a step fails after the append has begun, the handle is poisoned for writes and the
  file is cut back.

  \<open>db_snapshots\<close> is the number of snapshots that hold the snapshot guard. The methods are state
  transformers of the handle, the storage and the verifier included: a failing call on the file may
  use up an entry of its plan, and a read records the blocks it has checked. The function that opens
  a file takes what the file system returned: the file or an error, and whether the lock was taken.
\<close>

definition MIN_DATABASE_BYTES :: nat where
  "MIN_DATABASE_BYTES = DATA_START + EMPTY_SEGMENT_SIZE"

definition validate_options :: "database_options \<Rightarrow> unit result" where
  "validate_options options =
     (if max_database_bytes options < MIN_DATABASE_BYTES
      then Inl (Err (from_io InvalidInput
             (''max_database_bytes must be at least '' @ show_nat MIN_DATABASE_BYTES @ '' bytes'')))
      else Inr ())"

record database_stats =
  storage_bytes :: nat
  stats_base_bytes :: nat
  stats_base_entries :: nat
  overlay_entries :: nat
  overlay_log_bytes :: nat
  overlay_memory_bytes :: nat
  stale_bytes :: nat
  stats_generation :: nat

datatype handle_state = Healthy | WritePoisoned | Unavailable

record database =
  db_storage :: storage
  db_base :: active_base
  db_overlay :: overlay_state
  db_options :: database_options
  db_snapshots :: nat
  db_state :: handle_state

text \<open>A call on a field of the handle.\<close>

definition on_db_storage :: "(storage, failure, 'a) io \<Rightarrow> (database, failure, 'a) io" where
  "on_db_storage m db = (case m (db_storage db) of (r, s) \<Rightarrow> (r, db\<lparr>db_storage := s\<rparr>))"

definition on_db_base :: "(active_base, failure, 'a) io \<Rightarrow> (database, failure, 'a) io" where
  "on_db_base m db = (case m (db_base db) of (r, b) \<Rightarrow> (r, db\<lparr>db_base := b\<rparr>))"

definition on_db_verifier :: "(segment_verifier, failure, 'a) io \<Rightarrow> (database, failure, 'a) io" where
  "on_db_verifier m =
     on_db_base (\<lambda>base. case m (active_verifier base) of (r, v) \<Rightarrow> (r, base\<lparr>active_verifier := v\<rparr>))"

definition base_read_view :: "active_base \<Rightarrow> overlay_state \<Rightarrow> verification_mode \<Rightarrow> read_view" where
  "base_read_view base overlay mode =
     \<lparr>view_base = \<lparr>view_mapping = deref (active_mapping base), view_offset = active_offset base, view_slots = active_slots base\<rparr>,
      view_overlay = overlay_index overlay, view_verification = mode\<rparr>"

definition db_read_view :: "database \<Rightarrow> read_view" where
  "db_read_view db = base_read_view (db_base db) (db_overlay db) (verification (db_options db))"

subsection \<open>Guards\<close>

definition ensure_writable :: "database \<Rightarrow> unit result" where
  "ensure_writable db = (if db_state db \<noteq> Healthy then Inl (Err Poisoned) else Inr ())"

definition ensure_available :: "database \<Rightarrow> unit result" where
  "ensure_available db = (if db_state db = Unavailable then Inl (Err Poisoned) else Inr ())"

text \<open>Runs a method behind a guard of the handle.\<close>

definition guarded :: "(database \<Rightarrow> unit result) \<Rightarrow> (database, failure, 'a) io \<Rightarrow> (database, failure, 'a) io" where
  "guarded guard m db = (case guard db of Inl e \<Rightarrow> (Inl e, db) | Inr _ \<Rightarrow> m db)"

definition ensure_capacity :: "nat \<Rightarrow> (database, failure, unit) io" where
  "ensure_capacity additional =
     io_then (on_db_storage storage_len) (\<lambda>current db.
       let limit = max_database_bytes (db_options db) in
       case checked_add current additional of
         None \<Rightarrow> (Inl (Err (database_full limit (usize_limit - 1))), db)
       | Some required \<Rightarrow> if required > limit then (Inl (Err (database_full limit required)), db) else (Inr (), db))"

subsection \<open>Opening\<close>

text \<open>
  The rest of the log is incomplete: release the mappings, cut the file, and map base and log again.
\<close>

definition reload_truncated :: "externs \<Rightarrow> database_options \<Rightarrow> superblock \<Rightarrow> overlay_scan
    \<Rightarrow> (storage, failure, active_base \<times> overlay_scan) io" where
  "reload_truncated E options sb scan =
     io_then (io_lift (release_mapping scan)) (\<lambda>scan.
     io_then (storage_set_len E (valid_len scan)) (\<lambda>_.
     io_then sync_data (\<lambda>_.
     io_then (load_immutable E (unat (base_offset sb)) (unat (base_size sb))) (\<lambda>mapping.
     io_then (io_lift (active_open E mapping sb (verification options))) (\<lambda>base.
     io_then (io_lift (ok_or (Err (invalid_base ''overlay range precedes active Base''))
       (checked_sub (valid_len scan) (active_log_start base)))) (\<lambda>overlay_size.
     io_then (if overlay_size = 0 then io_return None
              else io_then (load_immutable E (active_log_start base) overlay_size) (\<lambda>mapping. io_return (Some mapping)))
       (\<lambda>mapping.
     io_then (io_lift (replace_mapping mapping scan)) (\<lambda>scan. io_return (base, scan)))))))))"

definition scan_log :: "externs \<Rightarrow> active_base \<Rightarrow> nat \<Rightarrow> (storage, failure, overlay_scan) io" where
  "scan_log E base overlay_size s =
     (if overlay_size = 0 then (Inr (overlay_scan_empty (active_log_start base)), s)
      else if storage_is_memory s
      then (Inl (Err (invalid_base ''in-memory database cannot contain a persisted Overlay'')), s)
      else io_then (load_immutable E (active_log_start base) overlay_size)
        (\<lambda>mapping. io_lift (scan_overlay E mapping (active_log_start base))) s)"

definition load_storage_state :: "externs \<Rightarrow> database_options \<Rightarrow> (storage, failure, active_base \<times> overlay_state) io" where
  "load_storage_state E options =
     io_then storage_len (\<lambda>len.
     io_then (read_latest_from E (storage_ops E) len) (\<lambda>sb.
     io_then (load_immutable E (unat (base_offset sb)) (unat (base_size sb))) (\<lambda>mapping.
     io_then (io_lift (active_open E mapping sb (verification options))) (\<lambda>base.
     io_then (io_lift (ok_or (Err (invalid_base ''overlay range precedes active Base''))
       (checked_sub len (active_log_start base)))) (\<lambda>initial_overlay_size.
     io_then (scan_log E base initial_overlay_size) (\<lambda>scan.
     io_then (if valid_len scan < len then reload_truncated E options sb scan else io_return (base, scan)) (\<lambda>(base, scan).
     io_then (\<lambda>s. (if storage_is_memory s then overlay_state_new overlay_memory
                    else Inr (case into_index scan of (index, memory) \<Rightarrow> overlay_state_with_memory index memory), s)) (\<lambda>overlay.
     io_then (question (seek_end (storage_ops E))) (\<lambda>_. io_return (base, overlay))))))))))"

definition from_storage :: "externs \<Rightarrow> database_options \<Rightarrow> (storage, failure, database) io" where
  "from_storage E options =
     io_then storage_len (\<lambda>len.
     if len > max_database_bytes options
     then io_lift (Inl (Err (database_full (max_database_bytes options) len)))
     else io_then (load_storage_state E options) (\<lambda>(base, overlay) s.
       (Inr \<lparr>db_storage = s, db_base = base, db_overlay = overlay, db_options = options, db_snapshots = 0, db_state = Healthy\<rparr>, s)))"

definition lock_database_file :: "io_error option \<Rightarrow> unit result" where
  "lock_database_file locked =
     (case locked of
        Some e \<Rightarrow> Inl (Err (from_io WouldBlock (''database is already open for writing: '' @ io_message e)))
      | None \<Rightarrow> Inr ())"

definition open_database_file :: "io_error + disk_file \<Rightarrow> io_error option \<Rightarrow> disk_file result" where
  "open_database_file opened locked =
     (case opened of
        Inl e \<Rightarrow> Inl (Err (error_from e))
      | Inr file \<Rightarrow> and_then (lock_database_file locked) (\<lambda>_. Inr file))"

definition open_with_options :: "externs \<Rightarrow> database_options \<Rightarrow> io_error + disk_file \<Rightarrow> io_error option
    \<Rightarrow> database result \<times> storage option" where
  "open_with_options E options opened locked =
     (case and_then (validate_options options) (\<lambda>_. open_database_file opened locked) of
        Inl e \<Rightarrow> (Inl e, None)
      | Inr file \<Rightarrow> map_prod id Some
          (io_then storage_len (\<lambda>initial_len.
           if initial_len > max_database_bytes options
           then io_lift (Inl (Err (database_full (max_database_bytes options) initial_len)))
           else from_storage E options) (FileStorage file)))"

subsection \<open>New databases\<close>

definition initialize_file :: "externs \<Rightarrow> (disk_file, failure, unit) io" where
  "initialize_file E =
     io_then (question (file_set_len DATA_START)) (\<lambda>_.
     io_then (write_base_at E file_ops DATA_START 0 []) (\<lambda>sz.
     io_then (segment_map DATA_START sz) (\<lambda>mapping.
     io_then (io_lift (segment_metadata_checksum E mapping)) (\<lambda>checksum.
     io_then (superblock_write E file_ops (superblock_new 1 DATA_START sz 0 0 (DATA_START + sz) checksum)) (\<lambda>_.
     question file_sync)))))"

definition initialize_storage :: "externs \<Rightarrow> (storage, failure, unit) io" where
  "initialize_storage E =
     io_then (storage_set_len E DATA_START) (\<lambda>_.
     io_then (write_base_at E (storage_ops E) DATA_START 0 []) (\<lambda>sz.
     io_then (load_immutable E DATA_START sz) (\<lambda>mapping.
     io_then (io_lift (segment_metadata_checksum E (deref mapping))) (\<lambda>checksum.
     io_then (superblock_write E (storage_ops E) (superblock_new 1 DATA_START sz 0 0 (DATA_START + sz) checksum)) (\<lambda>_.
     sync_all)))))"

definition memory_with_options :: "externs \<Rightarrow> database_options \<Rightarrow> database result" where
  "memory_with_options E options =
     and_then (validate_options options) (\<lambda>_.
       fst (io_then (initialize_storage E) (\<lambda>_. from_storage E options) storage_memory))"

subsection \<open>Reading\<close>

definition db_verify :: "externs \<Rightarrow> (database, failure, unit) io" where
  "db_verify E = guarded ensure_available (on_db_base (active_verify E))"

definition db_get :: "externs \<Rightarrow> bytes \<Rightarrow> (database, failure, bytes option) io" where
  "db_get E key = guarded ensure_available (\<lambda>db. on_db_verifier (view_get E (db_read_view db) key) db)"

definition db_contains_key :: "externs \<Rightarrow> bytes \<Rightarrow> (database, failure, bool) io" where
  "db_contains_key E key = io_then (db_get E key) (\<lambda>r. io_return (r \<noteq> None))"

definition db_iter :: "(database, failure, entries) io" where
  "db_iter = guarded ensure_available (\<lambda>db.
     (entries_new (db_read_view db) (active_verifier (db_base db)) (active_len (db_base db)), db))"

text \<open>\<^verbatim>\<open>raw_entries\<close> of \<^verbatim>\<open>maintenance.rs\<close> builds the same iterator from the parts of the handle.\<close>

definition iter_raw :: "database \<Rightarrow> raw_entries result" where
  "iter_raw db = raw_entries_new (db_read_view db) (active_verifier (db_base db)) (active_len (db_base db))"

definition raw_len :: "externs \<Rightarrow> (database, failure, nat) io" where
  "raw_len E db =
     (and_then (iter_raw db) (\<lambda>it.
      and_then (raw_collect E (db_read_view db) (active_verifier (db_base db)) it) (\<lambda>(items, it).
      case take_error it of (pending, it) \<Rightarrow>
        (case pending of Some e \<Rightarrow> Inl (Err e) | None \<Rightarrow> Inr (length items)))), db)"

definition db_len :: "externs \<Rightarrow> (database, failure, nat) io" where
  "db_len E = guarded ensure_available (raw_len E)"

definition db_is_empty :: "externs \<Rightarrow> (database, failure, bool) io" where
  "db_is_empty E = io_then (db_len E) (\<lambda>len. io_return (len = 0))"

definition db_stats :: "(database, failure, database_stats) io" where
  "db_stats = guarded ensure_available
     (io_then (on_db_storage storage_len) (\<lambda>bytes db.
       (Inr \<lparr>storage_bytes = bytes, stats_base_bytes = length (deref (active_mapping (db_base db))),
            stats_base_entries = active_len (db_base db), overlay_entries = overlay_len (overlay_index (db_overlay db)),
            overlay_log_bytes = saturating_sub bytes (active_log_start (db_base db)),
            overlay_memory_bytes = overlay_charge (db_overlay db),
            stale_bytes = saturating_sub (active_offset (db_base db)) DATA_START,
            stats_generation = active_generation (db_base db)\<rparr>, db)))"

definition db_sync :: "(database, failure, unit) io" where
  "db_sync = guarded ensure_available (on_db_storage sync_data)"

subsection \<open>Committing\<close>

definition rollback_or_poison :: "externs \<Rightarrow> nat \<Rightarrow> failure \<Rightarrow> (database, failure, 'a) io" where
  "rollback_or_poison E offset e db =
     (let db = db\<lparr>db_state := WritePoisoned\<rparr>;
          db = (case on_db_storage (storage_set_len E offset) db of
                  (Inr _, db) \<Rightarrow> snd (on_db_storage sync_data db)
                | (Inl _, db) \<Rightarrow> db);
          db = snd (on_db_storage (question (seek_end (storage_ops E))) db)
      in (Inl e, db))"

text \<open>A step of a commit whose error rolls back.\<close>

definition or_rollback :: "externs \<Rightarrow> nat \<Rightarrow> (database, failure, 'a) io \<Rightarrow> (database, failure, 'a) io" where
  "or_rollback E offset m db =
     (case m db of
        (Inl (Err e), db') \<Rightarrow> rollback_or_poison E offset (Err e) db'
      | r \<Rightarrow> r)"

fun mutation_offsets :: "overlay_entry keymap \<Rightarrow> nat \<Rightarrow> mapped_mutation list result" where
  "mutation_offsets [] cursor = Inr []"
| "mutation_offsets ((key, entry) # staged) cursor =
     and_then (ok_or (Err (other ''Overlay operation range overflow''))
       (Option.bind (checked_add cursor 9) (\<lambda>c. Option.bind (checked_add c (length key)) (\<lambda>c.
          checked_add c (entry_value_len entry))))) (\<lambda>cursor'.
     and_then (mutation_offsets staged cursor') (\<lambda>mutations.
     Inr (\<lparr>operation_offset = cursor\<rparr> # mutations)))"

definition mapped_mutations :: "externs \<Rightarrow> overlay_entry keymap \<Rightarrow> nat \<Rightarrow> mapped_mutation list result" where
  "mapped_mutations E staged batch_offset =
     and_then (ok_or (Err (other ''Overlay batch layout overflow'')) (checked_add batch_offset (LOG_HEADER_SIZE + 4))) (\<lambda>cursor.
     if \<not> try_reserve E (length staged) then Inl (Err (from_io OutOfMemory ''could not reserve Overlay entries''))
     else mutation_offsets staged cursor)"

definition append_batch :: "externs \<Rightarrow> overlay_entry keymap \<Rightarrow> u32 keymap \<Rightarrow> (storage, failure, unit) io" where
  "append_batch E staged value_checksums =
     io_then (io_lift (write_batch_record_with_checksums E staged value_checksums)) (\<lambda>bs.
       question (write_all (storage_ops E) bs))"

definition set_overlay_entry :: "externs \<Rightarrow> bytes \<times> overlay_entry \<Rightarrow> overlay_state \<Rightarrow> overlay_state result" where
  "set_overlay_entry E = (\<lambda>(key, entry). overlay_set E key entry)"

definition batch_record_size :: "overlay_entry keymap \<Rightarrow> nat result" where
  "batch_record_size staged =
     and_then (batch_payload_len staged) (\<lambda>payload_len.
     ok_or (Err (from_io InvalidInput ''batch record size overflow'')) (checked_add LOG_HEADER_SIZE (unat payload_len)))"

definition commit_staged_memory :: "externs \<Rightarrow> overlay_entry keymap \<Rightarrow> (database, failure, unit) io" where
  "commit_staged_memory E staged = guarded ensure_writable
     (if staged = [] then io_return ()
      else
        io_then (io_lift (batch_record_size staged)) (\<lambda>batch_record_len.
        io_then (ensure_capacity batch_record_len) (\<lambda>_.
        io_then (on_db_storage (extend_memory_log batch_record_len)) (\<lambda>_ db.
        case fold_res (set_overlay_entry E) staged (db_overlay db) of
          Inl e \<Rightarrow> (Inl e, db)
        | Inr overlay \<Rightarrow> (Inr (), db\<lparr>db_overlay := overlay\<rparr>)))))"

text \<open>After the record is durable: map the log or keep the batch in the tail, and publish it.\<close>

definition publish_batch :: "externs \<Rightarrow> nat \<Rightarrow> overlay_entry keymap \<Rightarrow> mapped_mutation list \<Rightarrow> (database, failure, unit) io" where
  "publish_batch E rollback_offset staged mutations =
     io_then (or_rollback E rollback_offset (io_then (on_db_storage storage_len) (\<lambda>len db.
       (ok_or (Err (other ''Overlay range precedes the active Base'')) (checked_sub len (active_log_start (db_base db))), db))))
       (\<lambda>overlay_size db.
     if needs_mapping (db_overlay db) overlay_size
     then io_then (or_rollback E rollback_offset (on_db_storage (load_immutable E (active_log_start (db_base db)) overlay_size)))
       (\<lambda>mapping db. case overlay_install_mapped E mapping mutations (db_overlay db) of
          Inl e \<Rightarrow> (Inl e, db) | Inr overlay \<Rightarrow> (Inr (), db\<lparr>db_overlay := overlay\<rparr>)) db
     else (case overlay_install_tail E staged mutations (db_overlay db) of
          Inl e \<Rightarrow> (Inl e, db) | Inr overlay \<Rightarrow> (Inr (), db\<lparr>db_overlay := overlay\<rparr>)))"

definition commit_staged_with :: "externs \<Rightarrow> overlay_entry keymap \<Rightarrow> u32 keymap
    \<Rightarrow> (overlay_entry keymap \<Rightarrow> u32 keymap \<Rightarrow> (storage, failure, unit) io) \<Rightarrow> (database, failure, unit) io" where
  "commit_staged_with E staged value_checksums appender = guarded ensure_writable
     (if staged = [] then io_return ()
      else
        io_then (io_lift (batch_record_size staged)) (\<lambda>batch_record_len.
        io_then (ensure_capacity batch_record_len) (\<lambda>_.
        io_then (on_db_storage (question (seek_end (storage_ops E)))) (\<lambda>rollback_offset.
        io_then (\<lambda>db. (ok_or (Err (other ''Overlay batch offset overflow''))
          (checked_sub rollback_offset (active_log_start (db_base db))), db)) (\<lambda>batch_offset.
        io_then (io_lift (mapped_mutations E staged batch_offset)) (\<lambda>mutations.
        io_then (or_rollback E rollback_offset (on_db_storage (appender staged value_checksums))) (\<lambda>_.
        io_then (or_rollback E rollback_offset (on_db_storage sync_data)) (\<lambda>_.
        publish_batch E rollback_offset staged mutations))))))))"

definition commit_staged :: "externs \<Rightarrow> overlay_entry keymap \<Rightarrow> u32 keymap \<Rightarrow> (database, failure, unit) io" where
  "commit_staged E staged value_checksums db =
     (if storage_is_memory (db_storage db) then commit_staged_memory E staged db
      else commit_staged_with E staged value_checksums (append_batch E) db)"

subsection \<open>Installing a base\<close>

definition finish_superblock_install :: "externs \<Rightarrow> active_base result \<Rightarrow> (database, failure, unit) io" where
  "finish_superblock_install E installed db =
     (case installed of
        Inl (Err e) \<Rightarrow> (Inl (Err e), db\<lparr>db_state := WritePoisoned\<rparr>)
      | Inl e \<Rightarrow> (Inl e, db)
      | Inr base \<Rightarrow>
          (case on_db_storage (question (seek_end (storage_ops E))) db of
             (Inl (Err e), db) \<Rightarrow> (Inl (Err e), db\<lparr>db_state := WritePoisoned\<rparr>)
           | (Inl e, db) \<Rightarrow> (Inl e, db)
           | (Inr _, db) \<Rightarrow> (Inr (), db\<lparr>db_base := base\<rparr>)))"

definition install_superblock :: "externs \<Rightarrow> superblock \<Rightarrow> (database, failure, unit) io" where
  "install_superblock E sb db =
     (case on_db_storage (load_immutable E (unat (base_offset sb)) (unat (base_size sb))) db of
        (mapped, db) \<Rightarrow> finish_superblock_install E (and_then mapped (\<lambda>mapping. active_install E mapping sb)) db)"

end
