(* ===== verification/Lkv_Transaction.thy ===== *)
theory Lkv_Transaction
  imports Lkv_Database
begin

section \<open>Transactions and snapshots (database/transaction.rs)\<close>

text \<open>
  A write transaction borrows the handle and stages one entry per key, with the checksum of a large
  value beside it; \<^verbatim>\<open>commit\<close> hands both to the database, and dropping the transaction gives the handle
  back as it was. A snapshot shares the base, its verifier and the Overlay of the moment it was taken.
  It reads through its own copy of the verifier here: the blocks a snapshot has checked are not seen by
  the handle, which only means that the handle may check them again.

  The closure of \<^verbatim>\<open>put_reserved\<close> reaches its buffer through \<^verbatim>\<open>write\<close> only. \<open>anon\<close> and \<open>sealed\<close> are the
  errors, if any, of the two system calls that make and seal an anonymous mapping.
\<close>

subsection \<open>Limits\<close>

definition check_single_put_size :: "nat \<Rightarrow> nat \<Rightarrow> unit result" where
  "check_single_put_size key_len val_len =
     and_then (ok_or (Err (from_io InvalidInput ''value is too large''))
       (Option.bind (checked_add 4 9) (\<lambda>len. Option.bind (checked_add len key_len) (\<lambda>len. checked_add len val_len)))) (\<lambda>serialized.
     if serialized \<le> MAX_LOG_PAYLOAD_SIZE then Inr ()
     else Inl (Err (from_io InvalidInput ''value cannot fit in a transaction record'')))"

definition check_lengths_len :: "bytes \<Rightarrow> nat \<Rightarrow> unit result" where
  "check_lengths_len key val_len =
     (if val_len > MAX_VALUE_SIZE then Inl (Err (from_io InvalidInput ''value exceeds the format limit''))
      else and_then (check_lengths key []) (\<lambda>_. check_single_put_size (length key) val_len))"

subsection \<open>Reserved values\<close>

record reserved_value =
  rv_bytes :: bytes
  rv_position :: nat
  rv_checksum :: "u32 option"

definition reserved_new :: "bytes \<Rightarrow> bool \<Rightarrow> reserved_value" where
  "reserved_new bs checksum = \<lparr>rv_bytes = bs, rv_position = 0, rv_checksum = (if checksum then Some 0 else None)\<rparr>"

definition reserved_len :: "reserved_value \<Rightarrow> nat" where
  "reserved_len rv = length (rv_bytes rv)"

definition reserved_is_empty :: "reserved_value \<Rightarrow> bool" where
  "reserved_is_empty rv \<longleftrightarrow> rv_bytes rv = []"

definition reserved_written :: "reserved_value \<Rightarrow> nat" where
  "reserved_written rv = rv_position rv"

definition require_complete :: "reserved_value \<Rightarrow> unit result" where
  "require_complete rv =
     (if rv_position rv = length (rv_bytes rv) then Inr ()
      else Inl (Err (from_io InvalidInput
             (''reserved value is incomplete: wrote '' @ show_nat (rv_position rv) @ '' of ''
              @ show_nat (length (rv_bytes rv)) @ '' bytes''))))"

definition reserved_write :: "externs \<Rightarrow> bytes \<Rightarrow> (reserved_value, io_error, nat) io" where
  "reserved_write E input rv =
     (if input = [] then (Inr 0, rv)
      else
        let remain = saturating_sub (length (rv_bytes rv)) (rv_position rv) in
        if length input > remain then (Inl (IoError InvalidInput ''reserved value length exceeded''), rv)
        else (Inr (length input),
          rv\<lparr>rv_bytes := write_at (rv_position rv) input (rv_bytes rv),
             rv_checksum := map_option (\<lambda>c. crc32c_append E c input) (rv_checksum rv),
             rv_position := rv_position rv + length input\<rparr>))"

subsection \<open>Write transactions\<close>

definition VALUE_COPY_CHUNK_SIZE :: nat where
  "VALUE_COPY_CHUNK_SIZE = 256 * 1024"

definition copy_value :: "externs \<Rightarrow> bytes \<Rightarrow> (value_bytes \<times> u32) result" where
  "copy_value E val =
     (if \<not> try_reserve E (length val) then Inl (Err (from_io OutOfMemory ''could not copy value bytes''))
      else
        (case foldl (\<lambda>(bs, checksum) chunk. (bs @ chunk, crc32c_append E checksum chunk)) ([], 0)
           (chunks VALUE_COPY_CHUNK_SIZE val)
         of (bs, checksum) \<Rightarrow> Inr (Owned bs, checksum)))"

record write_transaction =
  txn_db :: database
  txn_staged :: "overlay_entry keymap"
  txn_checksums :: "u32 keymap"

definition write_transaction_new :: "database \<Rightarrow> write_transaction" where
  "write_transaction_new db = \<lparr>txn_db = db, txn_staged = [], txn_checksums = []\<rparr>"

definition begin_write :: "database \<Rightarrow> write_transaction result" where
  "begin_write db =
     and_then (ensure_writable db) (\<lambda>_.
     let limit = overlay_memory_limit (db_options db) in
     if overlay_charge (db_overlay db) > limit
     then Inl (Err (MaintenanceRequired limit (overlay_charge (db_overlay db))))
     else Inr (write_transaction_new db))"

text \<open>The common end of \<^verbatim>\<open>put\<close> and \<^verbatim>\<open>put_reserved\<close>.\<close>

definition stage :: "bytes \<Rightarrow> value_bytes \<Rightarrow> u32 option \<Rightarrow> write_transaction \<Rightarrow> write_transaction" where
  "stage key val value_checksum txn =
     txn\<lparr>txn_checksums := (case value_checksum of
           Some checksum \<Rightarrow> keymap_insert key checksum (txn_checksums txn)
         | None \<Rightarrow> keymap_remove key (txn_checksums txn)),
         txn_staged := keymap_insert key (Put val) (txn_staged txn)\<rparr>"

definition txn_put :: "externs \<Rightarrow> bytes \<Rightarrow> bytes \<Rightarrow> (write_transaction, failure, unit) io" where
  "txn_put E key val txn =
     (case and_then (check_lengths key val) (\<lambda>_.
           and_then (check_single_put_size (length key) (length val)) (\<lambda>_.
           if length val \<ge> MAPPED_VALUE_THRESHOLD \<and> \<not> storage_is_memory (db_storage (txn_db txn))
           then and_then (copy_value E val) (\<lambda>(copied, checksum). Inr (copied, Some checksum))
           else Inr (Owned val, None)))
      of
        Inl e \<Rightarrow> (Inl e, txn)
      | Inr (copied, value_checksum) \<Rightarrow> (Inr (), stage key copied value_checksum txn))"

text \<open>Runs the closure on the buffer and returns what it has written.\<close>

definition fill_reserved :: "(reserved_value, failure, unit) io \<Rightarrow> bytes \<Rightarrow> bool \<Rightarrow> (bytes \<times> u32 option) result" where
  "fill_reserved writer buffer checksum =
     (case writer (reserved_new buffer checksum) of
        (Inl e, rv) \<Rightarrow> Inl e
      | (Inr _, rv) \<Rightarrow> and_then (require_complete rv) (\<lambda>_. Inr (rv_bytes rv, rv_checksum rv)))"

definition put_reserved :: "externs \<Rightarrow> io_error option \<Rightarrow> io_error option \<Rightarrow> bytes \<Rightarrow> nat \<Rightarrow> (reserved_value, failure, unit) io
    \<Rightarrow> (write_transaction, failure, unit) io" where
  "put_reserved E anon sealed key val_len writer txn =
     (let large = (val_len \<ge> MAPPED_VALUE_THRESHOLD \<and> \<not> storage_is_memory (db_storage (txn_db txn))) in
      case and_then (check_lengths_len key val_len) (\<lambda>_.
           if large
           then
             (case anon of
                Some e \<Rightarrow> Inl (Err (error_from e))
              | None \<Rightarrow>
                  and_then (fill_reserved writer (replicate val_len 0) True) (\<lambda>(bs, checksum).
                  case sealed of
                    Some e \<Rightarrow> Inl (Err (error_from e))
                  | None \<Rightarrow> Inr (MappedValue (Mapped bs) 0 val_len, checksum)))
           else if \<not> try_reserve E val_len then Inl (Err (from_io OutOfMemory ''could not reserve value bytes''))
           else and_then (fill_reserved writer (replicate val_len 0) large) (\<lambda>(bs, checksum). Inr (Owned bs, checksum)))
      of
        Inl e \<Rightarrow> (Inl e, txn)
      | Inr (val, value_checksum) \<Rightarrow> (Inr (), stage key val value_checksum txn))"

definition txn_delete :: "bytes \<Rightarrow> (write_transaction, failure, unit) io" where
  "txn_delete key txn =
     (case check_lengths key [] of
        Inl e \<Rightarrow> (Inl e, txn)
      | Inr _ \<Rightarrow> (Inr (), txn\<lparr>txn_checksums := keymap_remove key (txn_checksums txn),
                                txn_staged := keymap_insert key Delete (txn_staged txn)\<rparr>))"

definition txn_get :: "externs \<Rightarrow> bytes \<Rightarrow> (write_transaction, failure, bytes option) io" where
  "txn_get E key txn =
     (case keymap_get (txn_staged txn) key of
        Some entry \<Rightarrow> (Inr (entry_value entry), txn)
      | None \<Rightarrow> (case db_get E key (txn_db txn) of (r, db) \<Rightarrow> (r, txn\<lparr>txn_db := db\<rparr>)))"

definition txn_contains_key :: "externs \<Rightarrow> bytes \<Rightarrow> (write_transaction, failure, bool) io" where
  "txn_contains_key E key = io_then (txn_get E key) (\<lambda>r. io_return (r \<noteq> None))"

definition txn_commit :: "externs \<Rightarrow> write_transaction \<Rightarrow> unit result \<times> database" where
  "txn_commit E txn = commit_staged E (txn_staged txn) (txn_checksums txn) (txn_db txn)"

definition txn_abort :: "write_transaction \<Rightarrow> database" where
  "txn_abort txn = txn_db txn"

definition txn_len :: "write_transaction \<Rightarrow> nat" where
  "txn_len txn = length (txn_staged txn)"

definition txn_is_empty :: "write_transaction \<Rightarrow> bool" where
  "txn_is_empty txn \<longleftrightarrow> txn_staged txn = []"

subsection \<open>Read transactions\<close>

definition begin_read :: "database \<Rightarrow> database result" where
  "begin_read db = and_then (ensure_available db) (\<lambda>_. Inr db)"

definition read_get :: "externs \<Rightarrow> bytes \<Rightarrow> (database, failure, bytes option) io" where
  "read_get E key db = on_db_verifier (view_get E (db_read_view db) key) db"

definition read_contains_key :: "externs \<Rightarrow> bytes \<Rightarrow> (database, failure, bool) io" where
  "read_contains_key E key = io_then (read_get E key) (\<lambda>r. io_return (r \<noteq> None))"

subsection \<open>Snapshots\<close>

record snapshot =
  snap_base :: base_bytes
  snap_verification :: verification_mode
  snap_verifier :: segment_verifier
  snap_overlay_index :: overlay_map
  snap_base_offset :: nat
  snap_base_slots :: nat
  snap_base_len :: nat

definition db_snapshot :: "(database, failure, snapshot) io" where
  "db_snapshot = guarded ensure_available (\<lambda>db.
     (Inr \<lparr>snap_base = active_mapping (db_base db), snap_verification = verification (db_options db),
          snap_verifier = active_verifier (db_base db), snap_overlay_index = overlay_index (db_overlay db),
          snap_base_offset = active_offset (db_base db), snap_base_slots = active_slots (db_base db),
          snap_base_len = active_len (db_base db)\<rparr>,
      db\<lparr>db_snapshots := Suc (db_snapshots db)\<rparr>))"

text \<open>The drop of a snapshot releases the guard it holds.\<close>

definition drop_snapshot :: "database \<Rightarrow> database" where
  "drop_snapshot db = db\<lparr>db_snapshots := db_snapshots db - 1\<rparr>"

definition snap_read_view :: "snapshot \<Rightarrow> read_view" where
  "snap_read_view snap =
     \<lparr>view_base = \<lparr>view_mapping = deref (snap_base snap), view_offset = snap_base_offset snap, view_slots = snap_base_slots snap\<rparr>,
      view_overlay = snap_overlay_index snap, view_verification = snap_verification snap\<rparr>"

definition on_snap_verifier :: "(segment_verifier, failure, 'a) io \<Rightarrow> (snapshot, failure, 'a) io" where
  "on_snap_verifier m snap = (case m (snap_verifier snap) of (r, v) \<Rightarrow> (r, snap\<lparr>snap_verifier := v\<rparr>))"

definition snap_get :: "externs \<Rightarrow> bytes \<Rightarrow> (snapshot, failure, bytes option) io" where
  "snap_get E key snap = on_snap_verifier (view_get E (snap_read_view snap) key) snap"

definition snap_contains_key :: "externs \<Rightarrow> bytes \<Rightarrow> (snapshot, failure, bool) io" where
  "snap_contains_key E key = io_then (snap_get E key) (\<lambda>r. io_return (r \<noteq> None))"

definition snap_iter :: "snapshot \<Rightarrow> entries result" where
  "snap_iter snap = entries_new (snap_read_view snap) (snap_verifier snap) (snap_base_len snap)"

definition snap_len :: "externs \<Rightarrow> (snapshot, failure, nat) io" where
  "snap_len E snap =
     (case snap_iter snap of
        Inl e \<Rightarrow> (Inl e, snap)
      | Inr it \<Rightarrow> on_snap_verifier (entries_count E it) snap)"

definition snap_is_empty :: "externs \<Rightarrow> (snapshot, failure, bool) io" where
  "snap_is_empty E snap =
     (case snap_iter snap of
        Inl e \<Rightarrow> (Inl e, snap)
      | Inr it \<Rightarrow> on_snap_verifier (io_then (entries_next E it) (\<lambda>(found, it).
          case found of
            Some (Inr _) \<Rightarrow> io_return False
          | Some (Inl e) \<Rightarrow> io_lift (Inl (Err e))
          | None \<Rightarrow> io_return True)) snap)"

end
