(* ===== verification/Lkv_Maintenance.thy ===== *)
theory Lkv_Maintenance
  imports Lkv_Transaction
begin

section \<open>Compaction (database/maintenance.rs)\<close>

text \<open>
  Compaction of a file writes the live entries twice: first as a staging base behind everything the
  current superblock reaches, which is then published, and then at the start of the data area, which
  is published in turn, copied into both superblock pages and followed by cutting the file. A marker
  behind the log of either superblock ends a scan that would otherwise run into the bytes behind it.
  A database in memory builds the new base in a buffer of its own and installs it.

  Where the source advances the generation it adds one to a 64-bit integer, and so does the model.
\<close>

subsection \<open>A buffer with an origin\<close>

record offset_buffer =
  buf_origin :: nat
  buf_bytes :: bytes
  buf_position :: nat

definition offset_buffer_new :: "externs \<Rightarrow> nat \<Rightarrow> nat \<Rightarrow> offset_buffer result" where
  "offset_buffer_new E origin expected_size =
     (if \<not> try_reserve E expected_size then Inl (Err (from_io OutOfMemory ''could not reserve Base bytes''))
      else Inr \<lparr>buf_origin = origin, buf_bytes = [], buf_position = 0\<rparr>)"

definition absolute :: "offset_buffer \<Rightarrow> nat \<Rightarrow> io_error + nat" where
  "absolute b relative = ok_or (IoError InvalidInput ''Base position overflow'') (checked_add (buf_origin b) relative)"

definition buffer_seek_start :: "nat \<Rightarrow> (offset_buffer, io_error, nat) io" where
  "buffer_seek_start p b =
     (case checked_sub p (buf_origin b) of
        None \<Rightarrow> (Inl (IoError InvalidInput ''Base seek precedes its origin''), b)
      | Some relative \<Rightarrow> let b = b\<lparr>buf_position := relative\<rparr> in (absolute b relative, b))"

definition buffer_seek_end :: "(offset_buffer, io_error, nat) io" where
  "buffer_seek_end b =
     (let b = b\<lparr>buf_position := length (buf_bytes b)\<rparr> in (absolute b (length (buf_bytes b)), b))"

definition buffer_read_exact :: "nat \<Rightarrow> (offset_buffer, io_error, bytes) io" where
  "buffer_read_exact n b =
     (let p = buf_position b in
      if n \<le> length (buf_bytes b) - p \<and> p \<le> length (buf_bytes b) \<or> n = 0
      then (Inr (range_of p (p + n) (buf_bytes b)), b\<lparr>buf_position := p + n\<rparr>)
      else (Inl unexpected_eof, b\<lparr>buf_position := max p (length (buf_bytes b))\<rparr>))"

definition buffer_write_all :: "bytes \<Rightarrow> (offset_buffer, io_error, unit) io" where
  "buffer_write_all bs b =
     (if bs = [] then (Inr (), b)
      else (Inr (), b\<lparr>buf_bytes := write_at (buf_position b) bs (buf_bytes b), buf_position := buf_position b + length bs\<rparr>))"

definition buffer_ops :: "offset_buffer store_ops" where
  "buffer_ops = \<lparr>seek_start = buffer_seek_start, seek_end = buffer_seek_end, read_exact = buffer_read_exact,
     write_all = buffer_write_all\<rparr>"

subsection \<open>Building a base in memory\<close>

definition build_memory_base :: "externs \<Rightarrow> nat \<Rightarrow> nat \<Rightarrow> nat \<Rightarrow> entry list \<Rightarrow> bytes result" where
  "build_memory_base E offset expected_size len items =
     and_then (offset_buffer_new E offset expected_size) (\<lambda>buffer.
     case write_base_at E buffer_ops offset len items buffer of
       (Inl e, _) \<Rightarrow> Inl e
     | (Inr sz, buffer) \<Rightarrow>
         if length (buf_bytes buffer) \<noteq> sz then Inl (Err (other ''in-memory Base size does not match its buffer''))
         else Inr (buf_bytes buffer))"

definition detached_base :: "externs \<Rightarrow> u64 \<Rightarrow> active_base result" where
  "detached_base E g =
     and_then (build_memory_base E DATA_START EMPTY_SEGMENT_SIZE 0 []) (\<lambda>bs.
     let mapping = Memory bs 0 (length bs) in
     and_then (segment_metadata_checksum E (deref mapping)) (\<lambda>checksum.
     active_install E mapping
       (superblock_new g DATA_START EMPTY_SEGMENT_SIZE 0 0 (DATA_START + EMPTY_SEGMENT_SIZE) checksum)))"

subsection \<open>Compaction in memory\<close>

definition or_poison :: "(database, failure, 'a) io \<Rightarrow> (database, failure, 'a) io" where
  "or_poison m db =
     (case m db of
        (Inl (Err e), db') \<Rightarrow> (Inl (Err e), db'\<lparr>db_state := WritePoisoned\<rparr>)
      | r \<Rightarrow> r)"

text \<open>The pairs a loop over \<^verbatim>\<open>iter_raw\<close> sees.\<close>

definition live_entries :: "externs \<Rightarrow> database \<Rightarrow> entry list result" where
  "live_entries E db =
     and_then (iter_raw db) (\<lambda>it.
     and_then (raw_collect E (db_read_view db) (active_verifier (db_base db)) it) (\<lambda>(items, it). Inr items))"

definition install_memory_base :: "externs \<Rightarrow> nat \<Rightarrow> bytes \<Rightarrow> nat \<Rightarrow> (database, failure, unit) io" where
  "install_memory_base E offset bs live_len db =
     (let mapping = Memory bs 0 (length bs) in
      case and_then (segment_layout_of E (deref mapping)) (\<lambda>layout.
           and_then (read_base_header (layout_data layout)) (\<lambda>(slots, len).
           if len \<noteq> live_len then Inl (Err (other ''in-memory Base entry count changed''))
           else
           and_then (segment_metadata_checksum E (deref mapping)) (\<lambda>checksum.
           and_then (ok_or (Err (from_io InvalidInput ''Base range overflow'')) (checked_add offset (length bs))) (\<lambda>start.
           let sb = superblock_new (of_nat (active_generation (db_base db)) + 1) offset (length bs) slots len start checksum in
           and_then (active_install E mapping sb) (\<lambda>installed. Inr (sb, installed))))))
      of
        Inl e \<Rightarrow> (Inl e, db)
      | Inr (sb, installed) \<Rightarrow>
          io_then (or_poison (on_db_storage (io_then (superblock_write E (storage_ops E) sb) (\<lambda>_. sync_all)))) (\<lambda>_.
          io_then (or_poison (on_db_storage (replace_memory_base E offset bs))) (\<lambda>_.
          io_then (finish_superblock_install E (Inr installed)) (\<lambda>_ db.
          (Inr (), db\<lparr>db_overlay := overlay_clear (db_overlay db)\<rparr>)))) db)"

definition compact_memory :: "externs \<Rightarrow> nat \<Rightarrow> nat \<Rightarrow> (database, failure, unit) io" where
  "compact_memory E live_len expected_base_size db =
     (case and_then (ok_or (Err (from_io InvalidInput ''compact size overflow'')) (checked_add DATA_START expected_base_size)) (\<lambda>required.
           if required > max_database_bytes (db_options db)
           then Inl (Err (database_full (max_database_bytes (db_options db)) required))
           else
           and_then (live_entries E db) (\<lambda>items.
           and_then (build_memory_base E DATA_START expected_base_size live_len items) (\<lambda>bs.
           if length bs \<noteq> expected_base_size then Inl (Err (other ''base size changed while compacting''))
           else Inr bs)))
      of
        Inl e \<Rightarrow> (Inl e, db)
      | Inr bs \<Rightarrow> install_memory_base E DATA_START bs live_len db)"

subsection \<open>Compaction of a file\<close>

definition write_live_base :: "externs \<Rightarrow> nat \<Rightarrow> nat \<Rightarrow> (database, failure, written_base) io" where
  "write_live_base E offset live_len db =
     (case live_entries E db of
        Inl e \<Rightarrow> (Inl e, db)
      | Inr items \<Rightarrow> on_db_storage (write_base_with_metadata_at E (storage_ops E) offset live_len items) db)"

definition append_marker :: "externs \<Rightarrow> (database, failure, unit) io" where
  "append_marker E = on_db_storage (question (write_all (storage_ops E) (write_compact_marker E)))"

text \<open>The marker and the staging base; an error cuts the file back.\<close>

definition write_staging :: "externs \<Rightarrow> nat \<Rightarrow> nat \<Rightarrow> nat \<Rightarrow> nat \<Rightarrow> (database, failure, written_base) io" where
  "write_staging E rollback_offset source_offset live_len expected_base_size =
     io_then (or_rollback E rollback_offset (append_marker E)) (\<lambda>_.
     io_then (or_rollback E rollback_offset (on_db_storage (question (seek_start (storage_ops E) source_offset)))) (\<lambda>_.
     io_then (or_rollback E rollback_offset (write_live_base E source_offset live_len)) (\<lambda>written.
     if written_size written \<noteq> expected_base_size
     then rollback_or_poison E rollback_offset (Err (other ''base size changed while compacting''))
     else io_then (or_rollback E rollback_offset (on_db_storage sync_data)) (\<lambda>_. io_return written))))"

definition publish_superblock :: "externs \<Rightarrow> superblock \<Rightarrow> (database, failure, unit) io" where
  "publish_superblock E sb =
     io_then (or_poison (on_db_storage (superblock_write E (storage_ops E) sb))) (\<lambda>_.
     or_poison (on_db_storage sync_all))"

text \<open>The second base, at the start of the data area, with the marker behind it.\<close>

definition write_destination :: "externs \<Rightarrow> nat \<Rightarrow> nat \<Rightarrow> nat \<Rightarrow> (database, failure, written_base) io" where
  "write_destination E destination_end live_len expected_base_size =
     io_then (write_live_base E DATA_START live_len) (\<lambda>written.
     if written_size written \<noteq> expected_base_size
     then io_lift (Inl (Err (other ''base size changed while relocating compaction output'')))
     else
     io_then (on_db_storage (question (seek_start (storage_ops E) destination_end))) (\<lambda>_.
     io_then (append_marker E) (\<lambda>_.
     io_then (on_db_storage sync_data) (\<lambda>_. io_return written))))"

text \<open>The last part: the handle is unavailable while no base is mapped.\<close>

definition shrink_file :: "externs \<Rightarrow> nat \<Rightarrow> active_base \<Rightarrow> superblock \<Rightarrow> (database, failure, unit) io" where
  "shrink_file E destination_end detached sb db =
     io_then (on_db_storage (storage_set_len E destination_end)) (\<lambda>_.
     io_then (on_db_storage sync_all) (\<lambda>_ db.
     case install_superblock E sb db of
       (Inl (Err e), db) \<Rightarrow> (Inl (Err e), db\<lparr>db_state := Unavailable\<rparr>)
     | (Inl e, db) \<Rightarrow> (Inl e, db)
     | (Inr _, db) \<Rightarrow> (Inr (), db\<lparr>db_state := Healthy\<rparr>)))
     (db\<lparr>db_state := Unavailable, db_base := detached\<rparr>)"

definition relocate_base :: "externs \<Rightarrow> nat \<Rightarrow> u64 \<Rightarrow> nat \<Rightarrow> nat \<Rightarrow> (database, failure, unit) io" where
  "relocate_base E destination_end destination_generation live_len expected_base_size =
     io_then (io_lift (detached_base E destination_generation)) (\<lambda>detached.
     io_then (write_destination E destination_end live_len expected_base_size) (\<lambda>written.
     let sb = superblock_new destination_generation DATA_START (written_size written) (written_slots written)
                (written_len written) destination_end (written_checksum written) in
     io_then (publish_superblock E sb) (\<lambda>_.
     io_then (or_poison (on_db_storage (write_redundant E (storage_ops E) sb))) (\<lambda>_.
     io_then (or_poison (on_db_storage sync_all)) (\<lambda>_.
     shrink_file E destination_end detached sb)))))"

text \<open>The staging base and its superblock, and then the relocation, once the places are known.\<close>

definition compact_staged :: "externs \<Rightarrow> nat \<Rightarrow> nat \<Rightarrow> nat \<Rightarrow> nat \<Rightarrow> nat \<Rightarrow> nat \<Rightarrow> (database, failure, unit) io" where
  "compact_staged E rollback_offset destination_end source_offset source_end live_len expected_base_size =
     io_then (write_staging E rollback_offset source_offset live_len expected_base_size) (\<lambda>written db.
     let g = of_nat (active_generation (db_base db)) + 1;
         sb = superblock_new g source_offset (written_size written) (written_slots written)
                (written_len written) source_end (written_checksum written) in
     io_then (publish_superblock E sb) (\<lambda>_.
     io_then (install_superblock E sb) (\<lambda>_ db.
     relocate_base E destination_end (g + 1) live_len expected_base_size
       (db\<lparr>db_overlay := overlay_clear (db_overlay db)\<rparr>))) db)"

definition compact_file :: "externs \<Rightarrow> nat \<Rightarrow> nat \<Rightarrow> (database, failure, unit) io" where
  "compact_file E live_len expected_base_size =
     io_then (on_db_storage (question (seek_end (storage_ops E)))) (\<lambda>rollback_offset.
     io_then (io_lift (ok_or (Err (from_io InvalidInput ''compact size overflow'')) (checked_add DATA_START expected_base_size))) (\<lambda>destination_end.
     io_then (io_lift (ok_or (Err (from_io InvalidInput ''compact marker overflow'')) (checked_add rollback_offset LOG_HEADER_SIZE))) (\<lambda>marker_end.
     io_then (io_lift (ok_or (Err (from_io InvalidInput ''compact gap overflow'')) (checked_add destination_end LOG_HEADER_SIZE))) (\<lambda>gap_end.
     let source_offset = max marker_end gap_end in
     io_then (io_lift (ok_or (Err (from_io InvalidInput ''compact size overflow'')) (checked_add source_offset expected_base_size))) (\<lambda>source_end.
     io_then (ensure_capacity (source_end - rollback_offset)) (\<lambda>_.
     compact_staged E rollback_offset destination_end source_offset source_end live_len expected_base_size))))))"

text \<open>Nothing to do: the base lies at the start, the Overlay is empty and the file ends behind the base.\<close>

definition already_compact :: "(database, failure, bool) io" where
  "already_compact db =
     (if active_offset (db_base db) = DATA_START \<and> overlay_is_empty (overlay_index (db_overlay db))
      then io_then (on_db_storage storage_len) (\<lambda>len db. (Inr (len = active_log_start (db_base db)), db)) db
      else (Inr False, db))"

definition compact :: "externs \<Rightarrow> (database, failure, unit) io" where
  "compact E = guarded ensure_writable (\<lambda>db.
     if db_snapshots db \<noteq> 0
     then (Inl (Err (from_io WouldBlock ''compact requires all snapshots to be dropped'')), db)
     else
       io_then (db_verify E) (\<lambda>_.
       io_then already_compact (\<lambda>nothing_to_do.
       if nothing_to_do then io_return ()
       else (\<lambda>db.
         case and_then (live_entries E db) measure_base_iter of
           Inl e \<Rightarrow> (Inl e, db)
         | Inr (live_len, expected_base_size) \<Rightarrow>
             if storage_is_memory (db_storage db) then compact_memory E live_len expected_base_size db
             else compact_file E live_len expected_base_size db))) db)"

end
