(* ===== verification/Lkv_Storage_Correct.thy ===== *)
theory Lkv_Storage_Correct
  imports Lkv_Storage Lkv_Segment_Correct
begin

section \<open>The images of the stores\<close>

text \<open>
  A memory storage read byte by byte is one image; a read of it is a read of that image wherever the
  regions lie. A write is a write to the image only where it does not shorten a region: the source
  resizes the region to the end of the write. A file storage satisfies the laws everywhere.
\<close>

subsection \<open>Memory\<close>

definition mem_tail_byte :: "memory_storage \<Rightarrow> nat \<Rightarrow> u8" where
  "mem_tail_byte m i =
     (if tail_start m \<le> i \<and> i < tail_start m + length (mem_tail m) then mem_tail m ! (i - tail_start m) else 0)"

definition mem_rest_byte :: "memory_storage \<Rightarrow> nat \<Rightarrow> u8" where
  "mem_rest_byte m i =
     (case mem_base m of
        None \<Rightarrow> mem_tail_byte m i
      | Some (offset, bs) \<Rightarrow> if offset \<le> i \<and> i < offset + length bs then bs ! (i - offset) else mem_tail_byte m i)"

definition mem_byte :: "memory_storage \<Rightarrow> nat \<Rightarrow> u8" where
  "mem_byte m i = (if i < length (mem_header m) then mem_header m ! i else mem_rest_byte m i)"

definition mem_image :: "memory_storage \<Rightarrow> bytes" where
  "mem_image m = map (mem_byte m) [0..<mem_len m]"

text \<open>The regions lie in order and inside the image.\<close>

definition memory_ok :: "memory_storage \<Rightarrow> bool" where
  "memory_ok m \<longleftrightarrow>
     length (mem_header m) \<le> 8192 \<and> length (mem_header m) \<le> mem_len m \<and> 8192 \<le> tail_start m
     \<and> (mem_tail m \<noteq> [] \<longrightarrow> tail_start m + length (mem_tail m) \<le> mem_len m)
     \<and> (case mem_base m of None \<Rightarrow> True
        | Some (offset, bs) \<Rightarrow> 8192 \<le> offset \<and> offset + length bs \<le> tail_start m \<and> offset + length bs \<le> mem_len m)"

lemma memory_ok_position [simp]: "memory_ok (m\<lparr>mem_position := p\<rparr>) = memory_ok m"
  by (simp add: memory_ok_def split: option.split)

lemma length_mem_image [simp]: "length (mem_image m) = mem_len m"
  by (simp add: mem_image_def)

lemma nth_mem_image [simp]: "i < mem_len m \<Longrightarrow> mem_image m ! i = mem_byte m i"
  by (simp add: mem_image_def)

lemma mem_byte_position [simp]: "mem_byte (m\<lparr>mem_position := p\<rparr>) = mem_byte m"
  by (simp add: mem_byte_def mem_rest_byte_def mem_tail_byte_def fun_eq_iff split: option.split)

lemma mem_image_position [simp]: "mem_image (m\<lparr>mem_position := p\<rparr>) = mem_image m"
  by (simp add: mem_image_def)

lemma memory_chunk_nth:
  assumes "memory_ok m" and k: "k < length (memory_chunk m n)"
  shows "memory_chunk m n ! k = mem_byte m (mem_position m + k)"
proof (cases "mem_position m < length (mem_header m)")
  case True
  with k have "mem_position m + k < length (mem_header m)" "memory_chunk m n ! k = mem_header m ! (mem_position m + k)"
    by (auto simp: memory_chunk_def Let_def)
  then show ?thesis by (simp only: mem_byte_def if_True)
next
  case False
  then have byte: "mem_byte m (mem_position m + k) = mem_rest_byte m (mem_position m + k)" by (simp add: mem_byte_def)
  show ?thesis
  proof (cases "mem_base m")
    case None
    with False k show ?thesis unfolding byte
      by (auto simp: memory_chunk_def mem_rest_byte_def mem_tail_byte_def Let_def split: if_splits)
  next
    case (Some region)
    obtain offset bs where r: "region = (offset, bs)" by fastforce
    with Some assms(1) have "offset + length bs \<le> tail_start m" by (simp add: memory_ok_def)
    with Some r False k show ?thesis unfolding byte
      by (auto simp: memory_chunk_def mem_rest_byte_def mem_tail_byte_def Let_def split: if_splits)
  qed
qed

lemma memory_chunk_range:
  assumes ok: "memory_ok m" and "mem_position m + n \<le> mem_len m"
  shows "memory_chunk m n = range_of (mem_position m) (mem_position m + length (memory_chunk m n)) (mem_image m)"
proof (rule nth_equalityI)
  let ?c = "memory_chunk m n"
  have len: "mem_position m + length ?c \<le> mem_len m" using length_memory_chunk [of m n] assms(2) by simp
  then show "length ?c = length (range_of (mem_position m) (mem_position m + length ?c) (mem_image m))" by simp
  fix k
  assume "k < length ?c"
  with len show "?c ! k = range_of (mem_position m) (mem_position m + length ?c) (mem_image m) ! k"
    by (simp add: memory_chunk_nth [OF ok] nth_range_of)
qed

lemma range_of_split: "a \<le> b \<Longrightarrow> b \<le> c \<Longrightarrow> range_of a b xs @ range_of b c xs = range_of a c xs"
proof -
  assume "a \<le> b" "b \<le> c"
  then have "take (c - a) (drop a xs) = take (b - a) (drop a xs) @ take (c - b) (drop (b - a) (drop a xs))"
    using take_add [of "b - a" "c - b" "drop a xs"] by simp
  with \<open>a \<le> b\<close> show ?thesis by (simp add: range_of_def)
qed

lemma memory_read_loop_eq:
  "memory_ok m \<Longrightarrow> mem_position m + n \<le> mem_len m \<Longrightarrow> memory_read_loop n m =
     (range_of (mem_position m) (mem_position m + n) (mem_image m), m\<lparr>mem_position := mem_position m + n\<rparr>)"
proof (induction n m rule: memory_read_loop.induct)
  case (1 n m)
  show ?case
  proof (cases "n = 0")
    case True
    then show ?thesis by (subst memory_read_loop.simps) (simp add: range_of_def)
  next
    case False
    let ?c = "memory_chunk m n" and ?p = "mem_position m"
    let ?m = "m\<lparr>mem_position := ?p + length ?c\<rparr>"
    have le: "length ?c \<le> n" by (rule length_memory_chunk)
    have "memory_read_loop (n - length ?c) ?m = (range_of (?p + length ?c) (?p + n) (mem_image m), m\<lparr>mem_position := ?p + n\<rparr>)"
      using 1(1) [OF _ refl] 1(2,3) False le by simp
    then have "memory_read_loop n m = (?c @ range_of (?p + length ?c) (?p + n) (mem_image m), m\<lparr>mem_position := ?p + n\<rparr>)"
      using False 1(3) by (subst memory_read_loop.simps) (simp add: Let_def)
    moreover have "?c @ range_of (?p + length ?c) (?p + n) (mem_image m) = range_of ?p (?p + n) (mem_image m)"
      using memory_chunk_range [OF 1(2,3)] range_of_split [of ?p "?p + length ?c" "?p + n" "mem_image m"] le by simp
    ultimately show ?thesis by simp
  qed
qed

lemma memory_read_exact_eq:
  assumes "memory_ok m" and "mem_position m + n \<le> mem_len m"
  shows "memory_read_exact n m =
    (Inr (range_of (mem_position m) (mem_position m + n) (mem_image m)), m\<lparr>mem_position := mem_position m + n\<rparr>)"
proof (cases "n = 0")
  case True
  then show ?thesis by (subst memory_read_exact.simps) (simp add: range_of_def)
next
  case False
  with assms have "memory_read n m =
      (range_of (mem_position m) (mem_position m + n) (mem_image m), m\<lparr>mem_position := mem_position m + n\<rparr>)"
    by (simp add: memory_read_def memory_read_loop_eq min_absorb2)
  moreover have "range_of (mem_position m) (mem_position m + n) (mem_image m) \<noteq> []"
    using False assms by (simp add: range_of_def)
  moreover have "memory_read_exact 0 m' = (Inr [], m')" for m' by (subst memory_read_exact.simps) simp
  ultimately show ?thesis using assms False by (subst memory_read_exact.simps) simp
qed

lemma memory_read_exact_eof:
  assumes "memory_ok m" and "mem_len m < mem_position m + n" and "0 < n"
  shows "\<exists>m'. memory_read_exact n m = (Inl unexpected_eof, m') \<and> m' = m\<lparr>mem_position := mem_position m'\<rparr>"
proof (cases "mem_len m \<le> mem_position m")
  case True
  with assms show ?thesis by (subst memory_read_exact.simps) (simp add: memory_read_def)
next
  case False
  let ?n = "mem_len m - mem_position m"
  have "memory_read n m = (range_of (mem_position m) (mem_len m) (mem_image m), m\<lparr>mem_position := mem_len m\<rparr>)"
    using False assms by (simp add: memory_read_def memory_read_loop_eq min_absorb1)
  moreover have "memory_read_exact (n - ?n) (m\<lparr>mem_position := mem_len m\<rparr>) = (Inl unexpected_eof, m\<lparr>mem_position := mem_len m\<rparr>)"
    using False assms by (subst memory_read_exact.simps) (simp add: memory_read_def)
  moreover have "range_of (mem_position m) (mem_len m) (mem_image m) \<noteq> []" using False by (simp add: range_of_def)
  ultimately show ?thesis using assms by (subst memory_read_exact.simps) simp
qed

text \<open>A write that does not end inside the region it goes to.\<close>

definition memory_write_ok :: "memory_storage \<Rightarrow> nat \<Rightarrow> nat \<Rightarrow> bool" where
  "memory_write_ok m p n \<longleftrightarrow>
     p + n < usize_limit
     \<and> (if p + n \<le> 8192 then length (mem_header m) \<le> p + n
        else tail_start m \<le> p \<and> tail_start m + length (mem_tail m) \<le> p + n)"

definition memory_quiet :: "externs \<Rightarrow> memory_storage \<Rightarrow> bool" where
  "memory_quiet E m \<longleftrightarrow> memory_ok m \<and> (\<forall>n. try_reserve E n)"

lemma memory_resize_eq:
  "\<forall>n. try_reserve E n \<Longrightarrow> memory_resize E bs len = Inr (take len bs @ replicate (len - length bs) 0)"
  by (simp add: memory_resize_def resize_bytes_def)

lemma write_at_resize:
  "start + length bs = len \<Longrightarrow> length xs \<le> len \<Longrightarrow>
    write_at start bs (take len xs @ replicate (len - length xs) 0) = write_at start bs xs"
  by (cases "length xs \<le> start") (auto simp: write_at_def)

lemma memory_write_all_eq:
  assumes "memory_quiet E m" and "bs \<noteq> []" and ok: "memory_write_ok m (mem_position m) (length bs)"
  defines "stop \<equiv> mem_position m + length bs"
  shows "memory_write_all E bs m = (Inr (),
    (if stop \<le> 8192 then m\<lparr>mem_header := write_at (mem_position m) bs (mem_header m)\<rparr>
     else m\<lparr>mem_tail := write_at (mem_position m - tail_start m) bs (mem_tail m)\<rparr>)
    \<lparr>mem_position := stop, mem_len := max (mem_len m) stop\<rparr>)"
proof -
  have reserve: "\<forall>n. try_reserve E n" using assms(1) by (simp add: memory_quiet_def)
  have "checked_add (mem_position m) (length bs) = Some stop"
    using ok by (simp add: memory_write_ok_def checked_add_def stop_def)
  moreover have "write_at (mem_position m) bs (take stop (mem_header m) @ replicate (stop - length (mem_header m)) 0) =
      write_at (mem_position m) bs (mem_header m)" if "stop \<le> 8192"
    using that ok by (intro write_at_resize) (simp_all add: stop_def memory_write_ok_def)
  moreover have "write_at (mem_position m - tail_start m) bs (take (mem_position m - tail_start m + length bs) (mem_tail m)
        @ replicate (mem_position m - tail_start m + length bs - length (mem_tail m)) 0) =
      write_at (mem_position m - tail_start m) bs (mem_tail m)" if "\<not> stop \<le> 8192"
    using that ok by (intro write_at_resize) (auto simp: stop_def memory_write_ok_def)
  moreover have "tail_start m \<le> mem_position m" if "\<not> stop \<le> 8192"
    using that ok by (simp add: memory_write_ok_def stop_def)
  ultimately show ?thesis
    using assms(2) unfolding memory_write_all_def memory_write_def memory_resize_eq [OF reserve] Let_def
    by (cases "stop \<le> 8192") simp_all
qed

lemma memory_write_image:
  assumes "memory_ok m" and ok: "memory_write_ok m (mem_position m) (length bs)" and "bs \<noteq> []"
  defines "stop \<equiv> mem_position m + length bs"
  defines "m' \<equiv> (if stop \<le> 8192 then m\<lparr>mem_header := write_at (mem_position m) bs (mem_header m)\<rparr>
     else m\<lparr>mem_tail := write_at (mem_position m - tail_start m) bs (mem_tail m)\<rparr>)
    \<lparr>mem_position := stop, mem_len := max (mem_len m) stop\<rparr>"
  shows "mem_image m' = write_at (mem_position m) bs (mem_image m)" and "memory_ok m'"
proof -
  have len: "mem_len m' = max (mem_len m) stop" by (simp add: m'_def)
  have low: "mem_rest_byte m i = 0" if "i < 8192" for i
    using assms(1) that by (auto simp: mem_rest_byte_def mem_tail_byte_def memory_ok_def split: option.split)
  show "memory_ok m'"
    using assms(1) ok by (cases "stop \<le> 8192") (auto simp: memory_ok_def memory_write_ok_def m'_def stop_def split: option.splits)
  show "mem_image m' = write_at (mem_position m) bs (mem_image m)"
  proof (rule nth_equalityI)
    show "length (mem_image m') = length (write_at (mem_position m) bs (mem_image m))" by (simp add: len stop_def)
    fix i
    assume "i < length (mem_image m')"
    then have i: "i < max (mem_len m) stop" by (simp add: len)
    have w: "write_at (mem_position m) bs (mem_image m) ! i =
        (if i < mem_position m then (if i < mem_len m then mem_byte m i else 0) else if i < stop then bs ! (i - mem_position m) else mem_byte m i)"
      using nth_write_at [of i "mem_image m" "mem_position m" bs] i by (auto simp: stop_def)
    have "mem_byte m' i = write_at (mem_position m) bs (mem_image m) ! i"
    proof (cases "stop \<le> 8192")
      case True
      have h: "mem_header m' = write_at (mem_position m) bs (mem_header m)" "length (mem_header m') = stop"
        "mem_rest_byte m' = mem_rest_byte m"
        using True ok by (simp_all add: m'_def stop_def memory_write_ok_def mem_rest_byte_def mem_tail_byte_def fun_eq_iff split: option.split)
      have "mem_header m' ! i =
          (if i < mem_position m then (if i < length (mem_header m) then mem_header m ! i else 0)
           else if i < stop then bs ! (i - mem_position m) else mem_header m ! i)" if "i < stop"
        unfolding h(1) using that by (subst nth_write_at) (auto simp: stop_def)
      moreover have "length (mem_header m) \<le> stop" using True ok by (simp add: memory_write_ok_def stop_def)
      ultimately show ?thesis
        unfolding w using i h(2,3) low [of i] True assms(1) by (auto simp: mem_byte_def memory_ok_def)
    next
      case False
      have h: "mem_header m' = mem_header m" "mem_base m' = mem_base m" "tail_start m' = tail_start m"
        "mem_tail m' = write_at (mem_position m - tail_start m) bs (mem_tail m)"
        using False by (simp_all add: m'_def)
      have pos: "tail_start m \<le> mem_position m" "tail_start m + length (mem_tail m) \<le> stop"
        using False ok by (simp_all add: memory_write_ok_def stop_def)
      have tail: "mem_tail_byte m' i = (if i < mem_position m then mem_tail_byte m i else if i < stop then bs ! (i - mem_position m) else 0)"
        using pos by (auto simp: mem_tail_byte_def h nth_write_at stop_def)
      show ?thesis
        unfolding w using i tail pos assms(1)
        by (auto simp: mem_byte_def mem_rest_byte_def h memory_ok_def mem_tail_byte_def split: option.split)
    qed
    then show "mem_image m' ! i = write_at (mem_position m) bs (mem_image m) ! i" using i by (simp add: len)
  qed
qed

interpretation memory: store "memory_ops E" mem_image mem_position "memory_quiet E" "\<lambda>m n. True" memory_write_ok for E
proof unfold_locales
  fix m :: memory_storage and n :: nat and bs :: bytes
  assume quiet: "memory_quiet E m"
  then have ok: "memory_ok m" by (simp add: memory_quiet_def)
  have same: "memory_write_ok (m\<lparr>mem_position := p\<rparr>) = memory_write_ok m" "memory_quiet E (m\<lparr>mem_position := p\<rparr>)" for p
    using quiet by (simp_all add: memory_write_ok_def memory_quiet_def fun_eq_iff)
  show "\<exists>m'. seek_start (memory_ops E) n m = (Inr n, m') \<and> mem_image m' = mem_image m \<and> mem_position m' = n
      \<and> memory_quiet E m' \<and> (\<lambda>n. True) = (\<lambda>n. True) \<and> memory_write_ok m' = memory_write_ok m"
    using same [of n] by (simp add: memory_ops_def memory_seek_start_def)
  show "\<exists>m'. read_exact (memory_ops E) n m = (Inr (range_of (mem_position m) (mem_position m + n) (mem_image m)), m')
      \<and> mem_image m' = mem_image m \<and> mem_position m' = mem_position m + n
      \<and> memory_quiet E m' \<and> (\<lambda>n. True) = (\<lambda>n. True) \<and> memory_write_ok m' = memory_write_ok m"
    if "mem_position m + n \<le> length (mem_image m)"
    using that same memory_read_exact_eq [OF ok, of n] by (simp add: memory_ops_def)
  show "\<exists>e m'. read_exact (memory_ops E) n m = (Inl e, m') \<and> io_kind e = UnexpectedEof
      \<and> mem_image m' = mem_image m \<and> memory_quiet E m' \<and> (\<lambda>n. True) = (\<lambda>n. True) \<and> memory_write_ok m' = memory_write_ok m"
    if eof: "length (mem_image m) < mem_position m + n" "0 < n"
  proof -
    from memory_read_exact_eof [OF ok, of n] eof obtain m' where
      m': "memory_read_exact n m = (Inl unexpected_eof, m')" "m' = m\<lparr>mem_position := mem_position m'\<rparr>" by auto
    have "mem_image m' = mem_image m" "memory_quiet E m'" "memory_write_ok m' = memory_write_ok m"
      by (subst m'(2), simp add: same)+
    with m'(1) show ?thesis by (simp add: memory_ops_def unexpected_eof_def)
  qed
  show "\<exists>m'. write_all (memory_ops E) bs m = (Inr (), m') \<and> mem_image m' = write_at (mem_position m) bs (mem_image m)
      \<and> mem_position m' = mem_position m + length bs \<and> memory_quiet E m'"
    if "bs \<noteq> []" "memory_write_ok m (mem_position m) (length bs)"
    using memory_write_all_eq [OF quiet that] memory_write_image [OF ok that(2,1)] quiet
    by (simp add: memory_ops_def memory_quiet_def)
qed (simp add: memory_ops_def memory_write_all_def)

subsection \<open>File or memory\<close>

fun storage_image :: "storage \<Rightarrow> bytes" where
  "storage_image (FileStorage f) = contents f"
| "storage_image (MemoryStorage m) = mem_image m"

fun storage_position :: "storage \<Rightarrow> nat" where
  "storage_position (FileStorage f) = file_position f"
| "storage_position (MemoryStorage m) = mem_position m"

fun storage_quiet :: "externs \<Rightarrow> storage \<Rightarrow> bool" where
  "storage_quiet E (FileStorage f) = file_quiet f"
| "storage_quiet E (MemoryStorage m) = memory_quiet E m"

fun storage_write_ok :: "storage \<Rightarrow> nat \<Rightarrow> nat \<Rightarrow> bool" where
  "storage_write_ok (FileStorage f) = (\<lambda>p n. True)"
| "storage_write_ok (MemoryStorage m) = memory_write_ok m"

interpretation stores: store "storage_ops E" storage_image storage_position "storage_quiet E" "\<lambda>s n. True" storage_write_ok for E
proof unfold_locales
  fix s :: storage and n :: nat and bs :: bytes
  assume quiet: "storage_quiet E s"
  show "\<exists>s'. seek_start (storage_ops E) n s = (Inr n, s') \<and> storage_image s' = storage_image s \<and> storage_position s' = n
      \<and> storage_quiet E s' \<and> (\<lambda>n. True) = (\<lambda>n. True) \<and> storage_write_ok s' = storage_write_ok s"
  proof (cases s)
    case (FileStorage f)
    with quiet disk.seek_law [of f n] obtain f' where "seek_start file_ops n f = (Inr n, f')" "contents f' = contents f"
      "file_position f' = n" "file_quiet f'" by auto
    with FileStorage show ?thesis by (auto simp: storage_ops_def file_ops_def)
  next
    case (MemoryStorage m)
    with quiet memory.seek_law [of E m n] show ?thesis by (auto simp: storage_ops_def memory_ops_def)
  qed
  show "\<exists>s'. read_exact (storage_ops E) n s = (Inr (range_of (storage_position s) (storage_position s + n) (storage_image s)), s')
      \<and> storage_image s' = storage_image s \<and> storage_position s' = storage_position s + n
      \<and> storage_quiet E s' \<and> (\<lambda>n. True) = (\<lambda>n. True) \<and> storage_write_ok s' = storage_write_ok s"
    if "storage_position s + n \<le> length (storage_image s)"
  proof (cases s)
    case (FileStorage f)
    with quiet disk.read_law [of f n] that show ?thesis by (auto simp: storage_ops_def file_ops_def)
  next
    case (MemoryStorage m)
    with quiet memory.read_law [of E m n] that show ?thesis by (auto simp: storage_ops_def memory_ops_def)
  qed
  show "\<exists>e s'. read_exact (storage_ops E) n s = (Inl e, s') \<and> io_kind e = UnexpectedEof \<and> storage_image s' = storage_image s
      \<and> storage_quiet E s' \<and> (\<lambda>n. True) = (\<lambda>n. True) \<and> storage_write_ok s' = storage_write_ok s"
    if "length (storage_image s) < storage_position s + n" "0 < n"
  proof (cases s)
    case (FileStorage f)
    with quiet disk.eof_law [of f n] that show ?thesis by (auto simp: storage_ops_def file_ops_def)
  next
    case (MemoryStorage m)
    with quiet memory.eof_law [of E m n] that show ?thesis by (auto simp: storage_ops_def memory_ops_def)
  qed
  show "\<exists>s'. write_all (storage_ops E) bs s = (Inr (), s') \<and> storage_image s' = write_at (storage_position s) bs (storage_image s)
      \<and> storage_position s' = storage_position s + length bs \<and> storage_quiet E s'"
    if "bs \<noteq> []" "storage_write_ok s (storage_position s) (length bs)"
  proof (cases s)
    case (FileStorage f)
    with quiet disk.write_law [of f bs] that show ?thesis by (auto simp: storage_ops_def file_ops_def)
  next
    case (MemoryStorage m)
    with quiet memory.write_law [of E m bs] that show ?thesis by (auto simp: storage_ops_def memory_ops_def)
  qed
next
  fix s :: storage
  show "write_all (storage_ops E) [] s = (Inr (), s)"
    by (cases s) (simp_all add: storage_ops_def file_write_all_def memory_write_all_def)
qed

text \<open>A file without faults, as a storage: every range may be written, again and again.\<close>

fun file_storage_quiet :: "storage \<Rightarrow> bool" where
  "file_storage_quiet (FileStorage f) = file_quiet f"
| "file_storage_quiet (MemoryStorage m) = False"

lemma file_storage_quietE:
  assumes "file_storage_quiet s"
  obtains f where "s = FileStorage f" and "file_quiet f"
  using assms by (cases s) simp_all

lemma file_storage_quiet_is_memory: "file_storage_quiet s \<Longrightarrow> \<not> storage_is_memory s"
  by (cases s) simp_all

interpretation files: linear_store "storage_ops E" storage_image storage_position file_storage_quiet
    "\<lambda>s n. True" "\<lambda>s p n. True" 0 for E
proof unfold_locales
  fix s :: storage and n :: nat and bs :: bytes
  assume "file_storage_quiet s"
  then obtain f where f: "s = FileStorage f" "file_quiet f" by (rule file_storage_quietE)
  show "\<exists>s'. seek_start (storage_ops E) n s = (Inr n, s') \<and> storage_image s' = storage_image s \<and> storage_position s' = n
      \<and> file_storage_quiet s' \<and> (\<lambda>n. True) = (\<lambda>n. True) \<and> (\<lambda>p n. True) = (\<lambda>p n. True)"
    using f disk.seek_law [of f n] by (auto simp: storage_ops_def file_ops_def)
  show "\<exists>s'. read_exact (storage_ops E) n s = (Inr (range_of (storage_position s) (storage_position s + n) (storage_image s)), s')
      \<and> storage_image s' = storage_image s \<and> storage_position s' = storage_position s + n
      \<and> file_storage_quiet s' \<and> (\<lambda>n. True) = (\<lambda>n. True) \<and> (\<lambda>p n. True) = (\<lambda>p n. True)"
    if "storage_position s + n \<le> length (storage_image s)"
    using f disk.read_law [of f n] that by (auto simp: storage_ops_def file_ops_def)
  show "\<exists>e s'. read_exact (storage_ops E) n s = (Inl e, s') \<and> io_kind e = UnexpectedEof \<and> storage_image s' = storage_image s
      \<and> file_storage_quiet s' \<and> (\<lambda>n. True) = (\<lambda>n. True) \<and> (\<lambda>p n. True) = (\<lambda>p n. True)"
    if "length (storage_image s) < storage_position s + n" "0 < n"
    using f disk.eof_law [of f n] that by (auto simp: storage_ops_def file_ops_def)
  show "\<exists>s'. write_all (storage_ops E) bs s = (Inr (), s') \<and> storage_image s' = write_at (storage_position s) bs (storage_image s)
      \<and> storage_position s' = storage_position s + length bs \<and> file_storage_quiet s'"
    if "bs \<noteq> []"
    using f disk.write_law [of f bs] that by (auto simp: storage_ops_def file_ops_def)
next
  fix s :: storage
  show "write_all (storage_ops E) [] s = (Inr (), s)" by (rule stores.write_Nil_law)
qed simp_all

subsection \<open>Properties\<close>

text \<open>
  C39. The memory storage behaves as one flat image: wherever its header, base and tail regions lie, a
  read returns the bytes of the image, and a write that does not end inside a region it would shorten
  changes exactly its range of the image and keeps the regions well formed.
\<close>

theorem memory_refines_image:
  assumes ok: "memory_ok m" and reserve: "\<forall>n. try_reserve E n"
  shows "(\<forall>n. mem_position m + n \<le> mem_len m \<longrightarrow>
      memory_read_exact n m = (Inr (range_of (mem_position m) (mem_position m + n) (mem_image m)), m\<lparr>mem_position := mem_position m + n\<rparr>))
    \<and> (\<forall>bs. bs \<noteq> [] \<and> memory_write_ok m (mem_position m) (length bs) \<longrightarrow>
      (\<exists>m'. memory_write_all E bs m = (Inr (), m') \<and> mem_image m' = write_at (mem_position m) bs (mem_image m)
        \<and> mem_position m' = mem_position m + length bs \<and> memory_ok m'))"
proof (intro conjI allI impI)
  fix n
  assume "mem_position m + n \<le> mem_len m"
  then show "memory_read_exact n m = (Inr (range_of (mem_position m) (mem_position m + n) (mem_image m)), m\<lparr>mem_position := mem_position m + n\<rparr>)"
    by (rule memory_read_exact_eq [OF ok])
next
  fix bs :: bytes
  assume "bs \<noteq> [] \<and> memory_write_ok m (mem_position m) (length bs)"
  with memory.write_law [of E m bs] ok reserve
  show "\<exists>m'. memory_write_all E bs m = (Inr (), m') \<and> mem_image m' = write_at (mem_position m) bs (mem_image m)
      \<and> mem_position m' = mem_position m + length bs \<and> memory_ok m'"
    by (auto simp: memory_ops_def memory_quiet_def)
qed

theorem memory_refines_image_witness:
  defines "m \<equiv> memory_storage_default\<lparr>mem_header := [7], mem_len := 2, mem_position := 1\<rparr>"
  shows "memory_read_exact 1 m = (Inr [0], m\<lparr>mem_position := 2\<rparr>)
    \<and> (\<exists>m'. memory_write_all reference_externs [9] m = (Inr (), m') \<and> mem_image m' = [7, 9])"
proof -
  have "memory_ok m" "\<forall>n. try_reserve reference_externs n"
    by (simp_all add: m_def memory_ok_def memory_storage_default_def reference_externs_def)
  note law = memory_refines_image [OF this]
  have image: "mem_image m = [7, 0]"
    by (simp add: m_def mem_image_def mem_byte_def mem_rest_byte_def mem_tail_byte_def memory_storage_default_def upt_rec)
  have pos: "mem_position m = 1" "mem_len m = 2" by (simp_all add: m_def)
  have "memory_write_ok m 1 (length [9::u8])"
    by (simp add: m_def memory_write_ok_def memory_storage_default_def usize_limit_def)
  with law pos obtain m' where "memory_write_all reference_externs [9] m = (Inr (), m')" "mem_image m' = write_at 1 [9] (mem_image m)"
    by (metis list.distinct(1))
  with law image pos show ?thesis by (auto simp: range_of_def write_at_def numeral_2_eq_2)
qed

text \<open>
  C40. A write to the first superblock page of a memory storage that has both pages drops the second
  one: the header region is cut to the end of the write, and the rest of the image there reads as
  zeros. A file keeps the second page.
\<close>

theorem memory_write_truncates:
  assumes "memory_ok m" and "length (mem_header m) = DATA_START" and "mem_position m = 0"
    and "length page = SUPERBLOCK_SIZE"
  shows "\<exists>m'. memory_write_all E page m = (Inr (), m') \<and> mem_header m' = page
    \<and> (\<forall>i. SUPERBLOCK_SIZE \<le> i \<and> i < DATA_START \<longrightarrow> mem_byte m' i = 0)"
proof -
  let ?m = "m\<lparr>mem_header := page, mem_position := 4096, mem_len := mem_len m\<rparr>"
  have len: "8192 \<le> mem_len m" using assms(1,2) by (simp add: memory_ok_def)
  have "page \<noteq> []" using assms(4) by auto
  moreover have "write_at 0 page (take 4096 (mem_header m)) = page" using assms(2,4) by (simp add: write_at_def)
  ultimately have "memory_write_all E page m = (Inr (), ?m)"
    using assms(2-4) len
    by (simp add: memory_write_all_def memory_write_def memory_resize_def resize_bytes_def checked_add_def usize_limit_def max_absorb1)
  moreover have "mem_byte ?m i = 0" if "4096 \<le> i" "i < 8192" for i
    using assms(1,4) that by (auto simp: mem_byte_def mem_rest_byte_def mem_tail_byte_def memory_ok_def split: option.split)
  ultimately show ?thesis by simp
qed

theorem memory_write_truncates_witness:
  defines "m \<equiv> memory_storage_default\<lparr>mem_header := replicate 8192 7, mem_len := 8192\<rparr>"
  shows "mem_byte m 5000 = 7
    \<and> (\<exists>m'. memory_write_all reference_externs (replicate 4096 9) m = (Inr (), m') \<and> mem_byte m' 5000 = 0)"
proof -
  have "memory_ok m" "length (mem_header m) = DATA_START" "mem_position m = 0"
    by (simp_all add: m_def memory_ok_def memory_storage_default_def)
  from memory_write_truncates [OF this, of "replicate 4096 9" reference_externs]
  show ?thesis by (auto simp: m_def mem_byte_def)
qed

end
