(* ===== verification/Lkv_Fault.thy ===== *)
theory Lkv_Fault
  imports Lkv_Storage_Correct
begin

section \<open>Files with faults\<close>

text \<open>
  What each call on a file does when any call may fail. \<open>post m s Q\<close> says that \<open>Q\<close> holds of the result
  and the state of \<open>m\<close> run in \<open>s\<close>, on success and on failure, with a rule for each way the program puts
  calls together. \<open>file_step\<close> relates the storage before and after: it is still a file, and what is
  left of its plan was there before, so that a file without faults stays one.
\<close>

subsection \<open>Postconditions\<close>

definition post :: "('s, 'f, 'a) io \<Rightarrow> 's \<Rightarrow> ('f + 'a \<Rightarrow> 's \<Rightarrow> bool) \<Rightarrow> bool" where
  "post m s Q \<longleftrightarrow> Q (fst (m s)) (snd (m s))"

lemma postI: "m s = (r, s') \<Longrightarrow> Q r s' \<Longrightarrow> post m s Q"
  by (simp add: post_def)

lemma postD: "post m s Q \<Longrightarrow> m s = (r, s') \<Longrightarrow> Q r s'"
  by (simp add: post_def)

lemma post_weaken: "post m s P \<Longrightarrow> (\<And>r s'. P r s' \<Longrightarrow> Q r s') \<Longrightarrow> post m s Q"
  by (simp add: post_def)

lemma post_conj: "post m s P \<Longrightarrow> post m s Q \<Longrightarrow> post m s (\<lambda>r s'. P r s' \<and> Q r s')"
  by (simp add: post_def)

lemma post_then:
  assumes "post m s P" and "\<And>x s'. P (Inr x) s' \<Longrightarrow> post (f x) s' Q" and "\<And>e s'. P (Inl e) s' \<Longrightarrow> Q (Inl e) s'"
  shows "post (io_then m f) s Q"
proof (cases "m s")
  case (Pair r s')
  with assms show ?thesis by (cases r) (simp_all add: post_def io_then_def)
qed

lemma post_return: "Q (Inr x) s \<Longrightarrow> post (io_return x) s Q"
  by (simp add: post_def)

lemma post_lift: "Q r s \<Longrightarrow> post (io_lift r) s Q"
  by (simp add: post_def)

text \<open>A pure step of a chain: its error ends the chain and changes nothing.\<close>

lemma post_then_lift:
  assumes "\<And>x. r = Inr x \<Longrightarrow> post (f x) s Q" and "\<And>e. r = Inl e \<Longrightarrow> Q (Inl e) s"
  shows "post (io_then (io_lift r) f) s Q"
  using assms by (cases r) (simp_all add: post_def io_then_def)

lemma post_question:
  assumes "post m s (\<lambda>r s'. Q (case r of Inl e \<Rightarrow> Inl (Err (error_from e)) | Inr x \<Rightarrow> Inr x) s')"
  shows "post (question m) s Q"
proof (cases "m s")
  case (Pair r s')
  with assms show ?thesis by (cases r) (simp_all add: post_def question_def)
qed

subsection \<open>Calls on a file\<close>

fun file_of :: "storage \<Rightarrow> disk_file" where
  "file_of (FileStorage f) = f"
| "file_of (MemoryStorage m) = \<lparr>contents = [], file_position = 0, plan = []\<rparr>"

definition file_step :: "storage \<Rightarrow> storage \<Rightarrow> bool" where
  "file_step s s' \<longleftrightarrow> (\<exists>f f'. s = FileStorage f \<and> s' = FileStorage f' \<and> set (plan f') \<subseteq> set (plan f))"

lemma file_step_refl: "\<not> storage_is_memory s \<Longrightarrow> file_step s s"
  by (cases s) (simp_all add: file_step_def)

lemma file_step_trans [trans]: "file_step s s' \<Longrightarrow> file_step s' s'' \<Longrightarrow> file_step s s''"
  by (auto simp: file_step_def)

lemma file_step_is_file [simp]: "file_step s s' \<Longrightarrow> \<not> storage_is_memory s'"
  by (auto simp: file_step_def)

lemma file_step_quiet: "file_step s s' \<Longrightarrow> file_storage_quiet s \<Longrightarrow> file_storage_quiet s'"
  by (auto simp: file_step_def file_quiet_def)

text \<open>A failure that a fault of the plan is to blame for.\<close>

definition faulty :: "storage \<Rightarrow> 'a result \<Rightarrow> bool" where
  "faulty s r \<longleftrightarrow> (\<exists>e. r = Inl (Err e)) \<and> \<not> file_storage_quiet s"

lemma faulty_step: "file_step s s' \<Longrightarrow> faulty s' r \<Longrightarrow> faulty s r"
  using file_step_quiet by (auto simp: faulty_def)

lemma faulty_Inl: "faulty s (Inl e :: 'a result) \<Longrightarrow> faulty s (Inl e :: 'b result)"
  by (simp add: faulty_def)

lemma not_faulty_Inr [simp]: "\<not> faulty s (Inr x)"
  by (simp add: faulty_def)

text \<open>One fault, taken from the plan or not.\<close>

lemma next_fault_cases:
  obtains f' where "next_fault f = (None, f')" and "contents f' = contents f" and "file_position f' = file_position f"
      and "set (plan f') \<subseteq> set (plan f)"
  | e f' where "next_fault f = (Some e, f')" and "contents f' = contents f" and "file_position f' = file_position f"
      and "set (plan f') \<subseteq> set (plan f)" and "Some e \<in> set (plan f)"
proof (cases "plan f")
  case Nil
  then show thesis by (intro that(1)) (simp_all add: next_fault_def)
next
  case (Cons x xs)
  then show thesis
    by (cases x) (simp_all add: that(1) [of "f\<lparr>plan := xs\<rparr>"] that(2) [of "the x" "f\<lparr>plan := xs\<rparr>"] next_fault_def subset_insertI)
qed

lemma fault_not_quiet: "Some e \<in> set (plan f) \<Longrightarrow> \<not> file_quiet f"
  by (auto simp: file_quiet_def)

text \<open>A call without effect on failure, as the storage makes it.\<close>


text \<open>A call that has no effect when it fails, as the storage makes it.\<close>

lemma question_on_storage: "question (on_storage a b) = on_storage (question a) (question b)"
proof
  fix s
  show "question (on_storage a b) s = on_storage (question a) (question b) s"
    by (cases s) (simp_all add: question_def split: prod.split sum.split)
qed

lemma file_call_post:
  assumes is_file: "\<not> storage_is_memory s"
    and ok: "\<And>f'. contents f' = storage_image s \<Longrightarrow> file_position f' = storage_position s \<Longrightarrow> file_step s (FileStorage f') \<Longrightarrow>
      (case g f' of (Inr x, f'') \<Rightarrow> Q (Inr x) (FileStorage f'') | (Inl e, f'') \<Rightarrow> Q (Inl (Err (error_from e))) (FileStorage f''))"
    and bad: "\<And>e s'. file_step s s' \<Longrightarrow> storage_image s' = storage_image s \<Longrightarrow> storage_position s' = storage_position s \<Longrightarrow>
      \<not> file_storage_quiet s \<Longrightarrow> Q (Inl (Err e)) s'"
  shows "post (on_storage (question (file_call g)) h) s Q"
proof (cases s)
  case (FileStorage f)
  show ?thesis
  proof (cases f rule: next_fault_cases)
    case (1 f')
    with FileStorage ok [of f'] show ?thesis
      by (auto simp: post_def file_call_def question_def file_step_def split: prod.splits sum.splits)
  next
    case (2 e f')
    with FileStorage bad [of "FileStorage f'"] fault_not_quiet [OF 2(5)] show ?thesis
      by (simp add: post_def file_call_def question_def file_step_def)
  qed
qed (use is_file in simp)

lemma file_step_put [simp]:
  "file_step s (FileStorage (f\<lparr>contents := c\<rparr>)) = file_step s (FileStorage f)"
  "file_step s (FileStorage (f\<lparr>file_position := p\<rparr>)) = file_step s (FileStorage f)"
  by (auto simp: file_step_def)

lemma storage_len_post:
  assumes "\<not> storage_is_memory s"
  shows "post storage_len s (\<lambda>r s'. file_step s s' \<and> storage_image s' = storage_image s
    \<and> storage_position s' = storage_position s \<and> (r = Inr (length (storage_image s)) \<or> faulty s r))"
  unfolding storage_len_def file_len_def by (rule file_call_post [OF assms]) (simp_all add: faulty_def)

lemma storage_sync_post:
  assumes "\<not> storage_is_memory s"
  shows "post sync_data s (\<lambda>r s'. file_step s s' \<and> storage_image s' = storage_image s
    \<and> storage_position s' = storage_position s \<and> (r = Inr () \<or> faulty s r))"
  unfolding sync_data_def file_sync_def by (rule file_call_post [OF assms]) (simp_all add: faulty_def)

lemma sync_all_eq: "sync_all = sync_data"
  by (simp add: sync_all_def sync_data_def)

definition resized :: "nat \<Rightarrow> bytes \<Rightarrow> bytes" where
  "resized n img = take n img @ replicate (n - length img) 0"

lemma storage_set_len_post:
  assumes "\<not> storage_is_memory s"
  shows "post (storage_set_len E n) s (\<lambda>r s'. file_step s s'
    \<and> (r = Inr () \<and> storage_image s' = resized n (storage_image s) \<or> faulty s r \<and> storage_image s' = storage_image s))"
  unfolding storage_set_len_def file_set_len_def
  by (rule file_call_post [OF assms]) (simp_all add: faulty_def resized_def)

lemma storage_seek_post:
  assumes "\<not> storage_is_memory s"
  shows "post (question (seek_start (storage_ops E) n)) s (\<lambda>r s'. file_step s s' \<and> storage_image s' = storage_image s
    \<and> (r = Inr n \<and> storage_position s' = n \<or> faulty s r))"
  unfolding storage_ops_def store_ops.simps question_on_storage file_seek_start_def
  by (rule file_call_post [OF assms]) (simp_all add: faulty_def)

lemma storage_seek_end_post:
  assumes "\<not> storage_is_memory s"
  shows "post (question (seek_end (storage_ops E))) s (\<lambda>r s'. file_step s s' \<and> storage_image s' = storage_image s
    \<and> (r = Inr (length (storage_image s)) \<and> storage_position s' = length (storage_image s) \<or> faulty s r))"
  unfolding storage_ops_def store_ops.simps question_on_storage file_seek_end_def
  by (rule file_call_post [OF assms]) (simp_all add: faulty_def)

lemma storage_read_post:
  assumes "\<not> storage_is_memory s" and "storage_position s + n \<le> length (storage_image s)"
  shows "post (question (read_exact (storage_ops E) n)) s (\<lambda>r s'. file_step s s' \<and> storage_image s' = storage_image s
    \<and> (r = Inr (range_of (storage_position s) (storage_position s + n) (storage_image s))
         \<and> storage_position s' = storage_position s + n \<or> faulty s r))"
  unfolding storage_ops_def store_ops.simps question_on_storage file_read_exact_def Let_def
  by (rule file_call_post [OF assms(1)]) (use assms(2) in \<open>auto simp: faulty_def\<close>)

text \<open>A write that fails has written a part of its bytes, as its fault says.\<close>

lemma storage_write_post:
  assumes "\<not> storage_is_memory s" and "bs \<noteq> []"
  shows "post (question (write_all (storage_ops E) bs)) s (\<lambda>r s'. file_step s s'
    \<and> (r = Inr () \<and> storage_image s' = write_at (storage_position s) bs (storage_image s)
          \<and> storage_position s' = storage_position s + length bs
       \<or> faulty s r \<and> (\<exists>e. Some e \<in> set (plan (file_of s))
          \<and> storage_image s' = (if fault_written e = 0 then storage_image s
               else write_at (storage_position s) (take (fault_written e) bs) (storage_image s)))))"
proof (cases s)
  case (FileStorage f)
  show ?thesis
  proof (cases f rule: next_fault_cases)
    case (1 f')
    with FileStorage assms(2) show ?thesis
      by (simp add: post_def storage_ops_def file_write_all_def file_put_def question_def file_step_def)
  next
    case (2 e f')
    with FileStorage assms(2) fault_not_quiet [OF 2(5)] show ?thesis
      by (auto simp: post_def storage_ops_def file_write_all_def file_put_def question_def file_step_def faulty_def)
  qed
qed (use assms in simp)

lemma load_immutable_post:
  assumes "\<not> storage_is_memory s" and "0 < n" and "offset + n \<le> length (storage_image s)" and "offset + n < usize_limit"
  shows "post (load_immutable E offset n) s (\<lambda>r s'. file_step s s' \<and> storage_image s' = storage_image s
    \<and> (r = Inr (Mapped (range_of offset (offset + n) (storage_image s))) \<or> faulty s r))"
proof (cases s)
  case (FileStorage f)
  let ?map = "\<lambda>f. question (file_mmap offset n) f"
  show ?thesis
  proof (cases f rule: next_fault_cases)
    case (1 f')
    have map: "segment_map offset n f = ?map f'"
      using 1 assms FileStorage by (simp add: segment_map_def file_len_def file_call_def question_def checked_add_def io_then_def)
    show ?thesis
    proof (cases f' rule: next_fault_cases)
      case (1 f'')
      with map \<open>contents f' = contents f\<close> \<open>set (plan f') \<subseteq> set (plan f)\<close> FileStorage show ?thesis
        by (auto simp: post_def load_immutable_def file_mmap_def file_call_def question_def io_then_def file_step_def)
    next
      case (2 e f'')
      with \<open>set (plan f') \<subseteq> set (plan f)\<close> have "\<not> file_quiet f" by (auto simp: file_quiet_def)
      with 2 map \<open>contents f' = contents f\<close> \<open>set (plan f') \<subseteq> set (plan f)\<close> FileStorage show ?thesis
        by (auto simp: post_def load_immutable_def file_mmap_def file_call_def question_def io_then_def file_step_def faulty_def)
    qed
  next
    case (2 e f')
    with FileStorage assms fault_not_quiet [OF 2(5)] show ?thesis
      by (simp add: post_def load_immutable_def segment_map_def file_len_def file_call_def question_def checked_add_def
          io_then_def file_step_def faulty_def)
  qed
qed (use assms in simp)

subsection \<open>Writes that stay in a range\<close>

text \<open>\<open>img'\<close> is \<open>img\<close> with bytes between \<open>a\<close> and \<open>b\<close> changed, and grown to \<open>b\<close> at most.\<close>

definition within :: "nat \<Rightarrow> nat \<Rightarrow> bytes \<Rightarrow> bytes \<Rightarrow> bool" where
  "within a b img img' \<longleftrightarrow>
     length img \<le> length img' \<and> length img' \<le> max (length img) b
     \<and> (\<forall>i < length img. i < a \<or> b \<le> i \<longrightarrow> img' ! i = img ! i)"

lemma within_refl [simp]: "within a b img img"
  by (simp add: within_def)

lemma within_trans: "within a b img img1 \<Longrightarrow> within a b img1 img2 \<Longrightarrow> within a b img img2"
  by (auto simp: within_def)

lemma within_write_at: "a \<le> p \<Longrightarrow> p + length bs \<le> b \<Longrightarrow> within a b img (write_at p bs img)"
  by (auto simp: within_def nth_write_at)

lemma within_range_of:
  assumes "within a b img img'" and "d \<le> a \<or> b \<le> c" and "d \<le> length img"
  shows "range_of c d img' = range_of c d img"
  using assms by (intro nth_equalityI) (auto simp: within_def nth_range_of)

lemma within_take: "within a b img img' \<Longrightarrow> n \<le> a \<Longrightarrow> n \<le> length img \<Longrightarrow> take n img' = take n img"
  using within_range_of [of a b img img' n 0] by (simp add: range_of_def)

lemma storage_write_within:
  assumes "\<not> storage_is_memory s" and "a \<le> storage_position s" and "storage_position s + length bs \<le> b"
  shows "post (question (write_all (storage_ops E) bs)) s (\<lambda>r s'. file_step s s' \<and> within a b (storage_image s) (storage_image s')
    \<and> (r = Inr () \<and> storage_image s' = (if bs = [] then storage_image s else write_at (storage_position s) bs (storage_image s)) \<or> faulty s r))"
proof (cases "bs = []")
  case True
  with assms(1) show ?thesis by (cases s) (simp_all add: post_def storage_ops_def file_write_all_def question_def file_step_refl)
next
  case False
  from storage_write_post [OF assms(1) False, of E] show ?thesis
    by (rule post_weaken) (use assms(2,3) False in \<open>auto intro!: within_write_at split: if_splits\<close>)
qed

subsection \<open>Programs whose only extra failures are faults\<close>

text \<open>
  A program without error handling of its own either fails because of a fault or does what it does on
  the same file without faults. \<open>transparent\<close> says so and is closed under the ways to put calls together.
\<close>

definition unfaulted :: "storage \<Rightarrow> storage" where
  "unfaulted s = FileStorage ((file_of s)\<lparr>plan := []\<rparr>)"

definition transparent :: "(storage, failure, 'a) io \<Rightarrow> bool" where
  "transparent m \<longleftrightarrow>
     (\<forall>s r s'. \<not> storage_is_memory s \<and> m s = (r, s') \<longrightarrow>
        file_step s s' \<and> (faulty s r \<or> m (unfaulted s) = (r, unfaulted s')))"

lemma transparentD:
  "transparent m \<Longrightarrow> \<not> storage_is_memory s \<Longrightarrow> m s = (r, s') \<Longrightarrow>
    file_step s s' \<and> (faulty s r \<or> m (unfaulted s) = (r, unfaulted s'))"
  by (simp add: transparent_def)

lemma transparent_then:
  assumes "transparent m" and "\<And>x. transparent (f x)"
  shows "transparent (io_then m f)"
  unfolding transparent_def
proof (intro allI impI, elim conjE)
  fix s r s'
  assume s: "\<not> storage_is_memory s" and run: "io_then m f s = (r, s')"
  obtain r1 s1 where m: "m s = (r1, s1)" by fastforce
  note one = transparentD [OF assms(1) s m]
  show "file_step s s' \<and> (faulty s r \<or> io_then m f (unfaulted s) = (r, unfaulted s'))"
  proof (cases r1)
    case (Inl e)
    with m run have "r = Inl e" "s' = s1" by simp_all
    with one Inl show ?thesis by (auto intro: faulty_Inl)
  next
    case (Inr x)
    with m run have "f x s1 = (r, s')" by simp
    from transparentD [OF assms(2) file_step_is_file [OF conjunct1 [OF one]] this]
    show ?thesis using one Inr by (auto intro: file_step_trans faulty_step)
  qed
qed

lemma transparent_lift [simp]: "transparent (io_lift r)"
proof -
  have "unfaulted s = unfaulted s" for s by simp
  then show ?thesis by (auto simp: transparent_def file_step_refl)
qed

lemma transparent_return [simp]: "transparent (io_return x)"
  by (auto simp: transparent_def file_step_refl)

lemma transparent_file_call:
  assumes "\<And>f. set (plan (snd (g f))) \<subseteq> set (plan f)"
    and "\<And>f. g (f\<lparr>plan := []\<rparr>) = (fst (g f), (snd (g f))\<lparr>plan := []\<rparr>)"
  shows "transparent (on_storage (question (file_call g)) h)"
  unfolding transparent_def
proof (intro allI impI, elim conjE)
  fix s r s'
  assume "\<not> storage_is_memory s" and run: "on_storage (question (file_call g)) h s = (r, s')"
  then obtain f where s: "s = FileStorage f" by (cases s) simp_all
  show "file_step s s' \<and> (faulty s r \<or> on_storage (question (file_call g)) h (unfaulted s) = (r, unfaulted s'))"
  proof (cases f rule: next_fault_cases)
    case (1 f')
    obtain x f'' where g: "g f' = (x, f'')" by fastforce
    have "f\<lparr>plan := []\<rparr> = f'\<lparr>plan := []\<rparr>" using 1 by simp
    moreover have "next_fault (f'\<lparr>plan := []\<rparr>) = (None, f'\<lparr>plan := []\<rparr>)" by (simp add: next_fault_def)
    moreover have "set (plan f'') \<subseteq> set (plan f)" using assms(1) [of f'] 1 g by auto
    ultimately show ?thesis
      using run 1(1) g assms(2) [of f'] s
      by (cases x) (auto simp: file_call_def question_def unfaulted_def file_step_def)
  next
    case (2 e f')
    with run s fault_not_quiet [OF 2(5)] show ?thesis
      by (auto simp: file_call_def question_def file_step_def faulty_def)
  qed
qed

lemma transparent_seek: "transparent (question (seek_start (storage_ops E) n))"
  unfolding storage_ops_def store_ops.simps question_on_storage file_seek_start_def
  by (rule transparent_file_call) simp_all

lemma transparent_read: "transparent (question (read_exact (storage_ops E) n))"
  unfolding storage_ops_def store_ops.simps question_on_storage file_read_exact_def Let_def
  by (rule transparent_file_call) simp_all

lemma transparent_write: "transparent (question (write_all (storage_ops E) bs))"
  unfolding transparent_def
proof (intro allI impI, elim conjE)
  fix s r s'
  assume "\<not> storage_is_memory s" and run: "question (write_all (storage_ops E) bs) s = (r, s')"
  then obtain f where s: "s = FileStorage f" by (cases s) simp_all
  show "file_step s s' \<and> (faulty s r \<or> question (write_all (storage_ops E) bs) (unfaulted s) = (r, unfaulted s'))"
  proof (cases f rule: next_fault_cases)
    case (1 f')
    then have "f\<lparr>plan := []\<rparr> = f'\<lparr>plan := []\<rparr>" by simp
    with run s 1 show ?thesis
      by (auto simp: storage_ops_def file_write_all_def question_def unfaulted_def file_step_def next_fault_def file_put_def
          split: if_splits)
  next
    case (2 e f')
    with run s fault_not_quiet [OF 2(5)] show ?thesis
      by (auto simp: storage_ops_def file_write_all_def question_def unfaulted_def file_step_def file_put_def faulty_def split: if_splits)
  qed
qed

lemma read_blocks_chain:
  "read_blocks E ops n =
     (if n = 0 then io_return [] else io_then (question (read_exact ops (min n 65536))) (\<lambda>buffer.
        io_then (read_blocks E ops (n - min n 65536)) (\<lambda>checksums. io_return (crc32c E buffer # checksums))))"
  by (rule ext, subst read_blocks.simps) (auto simp: Let_def io_then_def split: prod.split sum.split)

lemma transparent_read_blocks: "transparent (read_blocks E (storage_ops E) n)"
proof (induction n rule: less_induct)
  case (less n)
  have "transparent (read_blocks E (storage_ops E) (n - min n 65536))" if "n \<noteq> 0"
    using that by (intro less.IH) simp
  then show ?case
    unfolding read_blocks_chain [of E "storage_ops E" n] by (auto intro!: transparent_then transparent_read)
qed

subsection \<open>Writing a base on a file with faults\<close>

text \<open>The writer as a chain of calls, once the entries are known to fit.\<close>

lemma write_base_fits:
  assumes fits: "base_fits E start slots items"
  defines "first \<equiv> start + 24 + 12 * slots"
  shows "write_base_with_metadata_at E ops start (length items) items =
    io_then (question (seek_start ops first)) (\<lambda>_.
    io_then (question (write_all ops (base_records items))) (\<lambda>_.
    write_base_index E ops start (length items) slots (base_index E slots first items) (first + length (base_records items))))"
proof -
  note facts = base_fits_facts [OF fits]
  from fits have b: "base_slot_count (length items) = Inr slots" "start + segment_length slots items < usize_limit"
    by (simp_all add: base_fits_def)
  then have "checked_mul slots 12 = Some (12 * slots)" "checked_add start 24 = Some (start + 24)"
    "checked_add (start + 24) (12 * slots) = Some first"
    by (simp_all add: checked_mul_def checked_add_def segment_length_def data_length_def first_def)
  with b(1) facts(2) show ?thesis
    by (simp add: write_base_with_metadata_at_def fun_eq_iff io_then_def first_def split: prod.split sum.split)
qed

lemma transparent_append_block_checksums: "transparent (append_block_checksums E (storage_ops E) start n)"
  unfolding append_block_checksums_def
  by (intro transparent_then transparent_seek transparent_read_blocks transparent_write transparent_lift transparent_return)

lemma transparent_write_base:
  assumes "base_fits E start slots items"
  shows "transparent (write_base_with_metadata_at E (storage_ops E) start (length items) items)"
  unfolding write_base_fits [OF assms] write_base_index_def
  by (intro transparent_then transparent_seek transparent_write transparent_append_block_checksums transparent_return)

text \<open>Where the writes go.\<close>

definition stays :: "nat \<Rightarrow> nat \<Rightarrow> (storage, failure, 'a) io \<Rightarrow> bool" where
  "stays a b m \<longleftrightarrow> (\<forall>s. \<not> storage_is_memory s \<longrightarrow>
     file_step s (snd (m s)) \<and> within a b (storage_image s) (storage_image (snd (m s))))"

lemma stays_then:
  assumes "stays a b m" and "\<And>x s s'. m s = (Inr x, s') \<Longrightarrow> stays a b (f x)"
  shows "stays a b (io_then m f)"
  unfolding stays_def
proof (intro allI impI)
  fix s
  assume s: "\<not> storage_is_memory s"
  obtain r s1 where m: "m s = (r, s1)" by fastforce
  with assms(1) s have one: "file_step s s1" "within a b (storage_image s) (storage_image s1)" by (auto simp: stays_def)
  show "file_step s (snd (io_then m f s)) \<and> within a b (storage_image s) (storage_image (snd (io_then m f s)))"
  proof (cases r)
    case (Inl e)
    with m one show ?thesis by simp
  next
    case (Inr x)
    with m assms(2) one have "file_step s1 (snd (f x s1)) \<and> within a b (storage_image s1) (storage_image (snd (f x s1)))"
      by (auto simp: stays_def)
    with m Inr one show ?thesis by (auto intro: file_step_trans within_trans)
  qed
qed

lemma stays_same: "(\<And>s. \<not> storage_is_memory s \<Longrightarrow> post m s (\<lambda>r s'. file_step s s' \<and> storage_image s' = storage_image s \<and> Q s r s')) \<Longrightarrow> stays a b m"
  by (simp add: stays_def post_def)

lemma stays_pure [simp]: "stays a b (io_lift r)" "stays a b (io_return x)"
  by (simp_all add: stays_def file_step_refl)

lemma stays_seek: "stays a b (question (seek_start (storage_ops E) n))"
  using storage_seek_post by (rule stays_same)

lemma stays_seek_write:
  assumes "a \<le> n" and "n + length bs \<le> b" and "\<And>x. stays a b (f x)"
  shows "stays a b (io_then (question (seek_start (storage_ops E) n)) (\<lambda>_. io_then (question (write_all (storage_ops E) bs)) f))"
proof -
  let ?seek = "question (seek_start (storage_ops E) n)" and ?put = "question (write_all (storage_ops E) bs)"
  have "stays a b (io_then ?seek (\<lambda>_. ?put))"
    unfolding stays_def
  proof (intro allI impI)
    fix s
    assume s: "\<not> storage_is_memory s"
    have "post (io_then ?seek (\<lambda>_. ?put)) s (\<lambda>r s'. file_step s s' \<and> within a b (storage_image s) (storage_image s'))"
    proof (rule post_then [OF storage_seek_post [OF s]])
      fix x s1
      assume s1: "file_step s s1 \<and> storage_image s1 = storage_image s \<and> (Inr x = Inr n \<and> storage_position s1 = n \<or> faulty s (Inr x))"
      then have "\<not> storage_is_memory s1" "a \<le> storage_position s1" "storage_position s1 + length bs \<le> b"
        using assms(1,2) by auto
      from storage_write_within [OF this, of E] show "post ?put s1 (\<lambda>r s'. file_step s s' \<and> within a b (storage_image s) (storage_image s'))"
        by (rule post_weaken) (use s1 in \<open>auto intro: file_step_trans\<close>)
    qed simp
    then show "file_step s (snd (io_then ?seek (\<lambda>_. ?put) s))
        \<and> within a b (storage_image s) (storage_image (snd (io_then ?seek (\<lambda>_. ?put) s)))"
      by (simp add: post_def)
  qed
  from stays_then [OF this assms(3)]
  have "stays a b (io_then (io_then ?seek (\<lambda>_. ?put)) f)" .
  moreover have "io_then (io_then ?seek (\<lambda>_. ?put)) f = io_then ?seek (\<lambda>_. io_then ?put f)"
    by (auto simp: fun_eq_iff io_then_def split: prod.split sum.split)
  ultimately show ?thesis by simp
qed

lemma read_blocks_length: "read_blocks E ops n s = (Inr cs, s') \<Longrightarrow> length cs = div_ceil n 65536"
proof (induction n arbitrary: s cs s' rule: less_induct)
  case (less n)
  show ?case
  proof (cases "n = 0")
    case True
    with less.prems show ?thesis by (subst (asm) read_blocks.simps) (simp add: div_ceil_def)
  next
    case False
    let ?len = "min n 65536"
    from less.prems False obtain s1 cs1 c where "read_blocks E ops (n - ?len) s1 = (Inr cs1, s')" "cs = c # cs1"
      by (subst (asm) read_blocks.simps) (auto simp: Let_def split: prod.splits sum.splits)
    moreover have "n - ?len < n" using False by simp
    ultimately have "length cs = Suc (div_ceil (n - ?len) 65536)" using less.IH by simp
    moreover have "n - ?len = n - 65536" by simp
    ultimately show ?thesis using False by (simp add: div_ceil_step)
  qed
qed

lemma stays_read: "stays a b (question (read_exact (storage_ops E) n))"
proof (rule stays_same [where Q = "\<lambda>s r s'. True"])
  fix s
  assume "\<not> storage_is_memory s"
  then show "post (question (read_exact (storage_ops E) n)) s (\<lambda>r s'. file_step s s' \<and> storage_image s' = storage_image s \<and> True)"
    unfolding storage_ops_def store_ops.simps question_on_storage file_read_exact_def Let_def
    by (rule file_call_post) simp_all
qed

lemma stays_read_blocks: "stays a b (read_blocks E (storage_ops E) n)"
proof (induction n rule: less_induct)
  case (less n)
  let ?len = "min n 65536"
  have "stays a b (read_blocks E (storage_ops E) (n - ?len))" if "n \<noteq> 0"
    using that by (intro less.IH) simp
  then show ?case unfolding read_blocks_chain [of E "storage_ops E" n] by (auto intro!: stays_then stays_read)
qed

lemma stays_append_block_checksums:
  assumes "a \<le> start" and "start + n + (4 * div_ceil n 65536 + 24) \<le> b"
  shows "stays a b (append_block_checksums E (storage_ops E) start n)"
  unfolding append_block_checksums_def
proof (rule stays_then [OF stays_seek], rule stays_then [OF stays_read_blocks])
  fix s s' cs
  assume "read_blocks E (storage_ops E) n s = (Inr cs, s')"
  then have cs: "length cs = div_ceil n 65536" by (rule read_blocks_length)
  show "stays a b (io_then (io_lift (checksum_metadata E n cs)) (\<lambda>metadata.
      io_then (question (seek_start (storage_ops E) (start + n))) (\<lambda>_.
      io_then (question (write_all (storage_ops E) metadata)) (\<lambda>_.
      io_then (io_lift (ok_or (invalid_input ''segment is too large'') (checked_add n (length metadata))))
        (\<lambda>total. io_return \<lparr>segment_size = total, segment_crc = crc32c E metadata\<rparr>)))))"
  proof (rule stays_then [OF stays_pure(1)])
    fix s s' :: storage and metadata
    assume "io_lift (checksum_metadata E n cs) s = (Inr metadata, s')"
    then have "length metadata = 4 * length cs + 24"
      by (auto simp: checksum_metadata_def result_simps Let_def split: if_splits)
    with assms cs show "stays a b (io_then (question (seek_start (storage_ops E) (start + n))) (\<lambda>_.
      io_then (question (write_all (storage_ops E) metadata)) (\<lambda>_.
      io_then (io_lift (ok_or (invalid_input ''segment is too large'') (checked_add n (length metadata))))
        (\<lambda>total. io_return \<lparr>segment_size = total, segment_crc = crc32c E metadata\<rparr>))))"
      by (intro stays_seek_write stays_then [OF stays_pure(1)]) simp_all
  qed
qed

lemma stays_write_base:
  assumes fits: "base_fits E start slots items"
  shows "stays start (start + segment_length slots items) (write_base_with_metadata_at E (storage_ops E) start (length items) items)"
proof -
  let ?first = "start + 24 + 12 * slots"
  have "length (base_index E slots ?first items) = slots" using base_fits_facts(1) [OF fits] by (simp add: index_ok_def)
  then show ?thesis
    unfolding write_base_fits [OF fits] write_base_index_def
    by (intro stays_seek_write stays_then [OF stays_append_block_checksums])
      (simp_all add: segment_length_def data_length_def add.assoc)
qed

theorem write_base_post:
  assumes "\<not> storage_is_memory s" and fits: "base_fits E start slots items"
  shows "post (write_base_with_metadata_at E (storage_ops E) start (length items) items) s (\<lambda>r s'. file_step s s'
    \<and> within start (start + segment_length slots items) (storage_image s) (storage_image s')
    \<and> (r = Inr \<lparr>written_size = segment_length slots items, written_slots = slots, written_len = length items,
          written_checksum = crc32c E (segment_metadata E (base_data E start slots items))\<rparr>
        \<and> storage_image s' = write_at start (segment_bytes E start slots items) (storage_image s) \<or> faulty s r))"
proof -
  let ?m = "write_base_with_metadata_at E (storage_ops E) start (length items) items"
  obtain r s' where run: "?m s = (r, s')" by fastforce
  from transparentD [OF transparent_write_base [OF fits] assms(1) run]
  have step: "file_step s s'" and "faulty s r \<or> ?m (unfaulted s) = (r, unfaulted s')" by simp_all
  moreover have "storage_image (unfaulted t) = storage_image t" if "\<not> storage_is_memory t" for t
    using that by (cases t) (simp_all add: unfaulted_def)
  moreover have "file_storage_quiet (unfaulted s)" by (simp add: unfaulted_def file_quiet_def)
  from files.write_base_image [OF this _ fits] obtain s'' where
    "?m (unfaulted s) = (Inr \<lparr>written_size = segment_length slots items, written_slots = slots, written_len = length items,
        written_checksum = crc32c E (segment_metadata E (base_data E start slots items))\<rparr>, s'')"
    "storage_image s'' = write_at start (segment_bytes E start slots items) (storage_image (unfaulted s))"
    by blast
  moreover have "within start (start + segment_length slots items) (storage_image s) (storage_image s')"
    using stays_write_base [OF fits] assms(1) run by (auto simp: stays_def)
  ultimately show ?thesis using assms(1) file_step_is_file [OF step] by (auto simp: post_def run)
qed

end
