(* ===== verification/Lkv_View_Correct.thy ===== *)
theory Lkv_View_Correct
  imports Lkv_View
begin

section \<open>Lookups return what was written\<close>

text \<open>
  Three readings of the same walk. On the bytes that were written every lookup finds the value of its
  key and nothing else. On damaged bytes, with verification on read, a lookup gives the value that
  was written or an error. On any bytes that were accepted at all it does not crash.
\<close>

subsection \<open>Reading a base that may be damaged\<close>

text \<open>
  \<open>x\<close> is what the mapping holds and \<open>d\<close> what was written. \<open>blocks_agree\<close> says that a block of \<open>x\<close>
  with the stored checksum has the bytes of \<open>d\<close>: it holds of an intact mapping, and of one with a
  changed byte because the checksum detects that.
\<close>

definition blocks_agree :: "externs \<Rightarrow> bytes \<Rightarrow> bytes \<Rightarrow> segment_verifier \<Rightarrow> bool" where
  "blocks_agree E x d v \<longleftrightarrow>
     data_size v = length d \<and> (\<forall>i < length d. block_matches E x v (i div 65536) \<longrightarrow> x ! i = d ! i)"

definition all_match :: "externs \<Rightarrow> bytes \<Rightarrow> segment_verifier \<Rightarrow> bool" where
  "all_match E x v \<longleftrightarrow> (\<forall>b < block_count v. block_matches E x v b)"

definition reading :: "externs \<Rightarrow> bytes \<Rightarrow> bytes \<Rightarrow> segment_verifier \<Rightarrow> bool" where
  "reading E x d v \<longleftrightarrow> verifier_ok x v \<and> verifier_sound E x v \<and> blocks_agree E x d v"

lemma same_segment_all_match: "same_segment v v' \<Longrightarrow> all_match E x v' = all_match E x v"
  by (simp add: all_match_def same_segment_count same_segment_matches)

lemma same_segment_agree: "same_segment v v' \<Longrightarrow> blocks_agree E x d v' = blocks_agree E x d v"
  by (simp add: blocks_agree_def same_segment_matches) (simp add: same_segment_def)

lemma byte_touched: "start \<le> i \<Longrightarrow> i < end \<Longrightarrow> touches (i div 65536) start end"
  using div_times_less_eq_dividend [of i 65536] dividend_less_div_times [of 65536 i]
  by (simp add: touches_def)

lemma reading_length: "reading E x d v \<Longrightarrow> length d \<le> length x \<and> data_size v = length d"
  by (auto simp: reading_def verifier_ok_def blocks_agree_def)

lemma matching_range:
  assumes "reading E x d v" and "end \<le> length d" and "\<forall>b. touches b start end \<longrightarrow> block_matches E x v b"
  shows "range_of start end x = range_of start end d"
proof (rule nth_equalityI)
  show "length (range_of start end x) = length (range_of start end d)"
    using assms(2) reading_length [OF assms(1)] by simp
  fix i
  assume "i < length (range_of start end x)"
  with assms(2) reading_length [OF assms(1)] have i: "start + i < end" "end \<le> length x" by simp_all
  then have "block_matches E x v ((start + i) div 65536)" using assms(3) byte_touched by simp
  with assms(1,2) i have "x ! (start + i) = d ! (start + i)" by (simp add: reading_def blocks_agree_def)
  with i assms(2) show "range_of start end x ! i = range_of start end d ! i" by (simp add: nth_range_of)
qed

lemma all_match_range:
  assumes "reading E x d v" and "all_match E x v" and "end \<le> length d"
  shows "range_of start end x = range_of start end d"
  using assms touched_block_count [of x v _ start "end"] reading_length [OF assms(1)]
  by (intro matching_range) (auto simp: all_match_def reading_def)

lemma check_if_result:
  assumes "reading E x d v" and "on \<or> all_match E x v" and "start \<le> end"
  obtains r v' where "check_if on E x start end v = (r, v')" and "reading E x d v'" and "same_segment v v'"
    and "r = Inr () \<and> (end \<le> length d \<longrightarrow> range_of start end x = range_of start end d)
        \<and> (length d < end \<longrightarrow> all_match E x v)
      \<or> (\<exists>e. r = Inl (Err e)) \<and> (end \<le> length d \<longrightarrow> \<not> all_match E x v)"
proof (cases on)
  case False
  with assms all_match_range [OF assms(1)] show thesis by (intro that [of "Inr ()" v]) (simp_all add: check_if_def)
next
  case True
  from assms(1) have ok: "verifier_ok x v" "verifier_sound E x v" and size: "data_size v = length d"
    by (auto simp: reading_def blocks_agree_def)
  from verify_range_result [OF ok, of start "end"] obtain r v' where
    r: "verify_range E x start end v = (r, v')" "verifier_ok x v'" "verifier_sound E x v'" "same_segment v v'" "no_panic r"
      "r = Inr () \<Longrightarrow> end \<le> data_size v \<Longrightarrow> \<forall>b. touches b start end \<longrightarrow> block_matches E x v b"
      "start \<le> end \<Longrightarrow> end \<le> data_size v \<Longrightarrow> r \<noteq> Inr () \<Longrightarrow>
        \<exists>b. touches b start end \<and> \<not> block_matches E x v b \<and> r = Inl (Err (corrupted_block (verifier_offset v) b))"
    by metis
  have past: "length d < end \<Longrightarrow> r = Inr () \<Longrightarrow> all_match E x v"
    using r(1) assms(3) ok(2) size
    by (cases "fully_verified v") (auto simp: verify_range_def verifier_sound_def all_match_def split: if_splits)
  have "reading E x d v'" using assms(1) r same_segment_agree [OF r(4)] by (simp add: reading_def)
  moreover have "\<exists>e. r = Inl (Err e)" if "r \<noteq> Inr ()"
    using r(5) that by (cases r) (auto simp: no_panic_def, metis failure.exhaust)
  moreover have "r = Inr () \<Longrightarrow> end \<le> length d \<Longrightarrow> range_of start end x = range_of start end d"
    using r(6) size matching_range [OF assms(1)] by simp
  moreover have "r \<noteq> Inr () \<Longrightarrow> end \<le> length d \<Longrightarrow> \<not> all_match E x v"
    using r(7) size assms(3) touched_block_count [OF ok(1)] by (auto simp: all_match_def)
  ultimately show thesis using r(1,4) True past by (intro that [of r v']) (auto simp: check_if_def)
qed

lemma lookup_record_eq:
  fixes x off
  defines "k \<equiv> u32_from_le_bytes (range_of off (off + 4) x)" and "l \<equiv> u32_from_le_bytes (range_of (off + 4) (off + 8) x)"
  defines "vs \<equiv> off + 8 + unat k" and "ve \<equiv> off + 8 + unat k + unat l"
  assumes "off + 8 \<le> data_size v" and "data_size v \<le> length x" and "length x < 2 ^ 63"
  shows "lookup_record E x on seg_offset key (seg_offset + off) v =
    io_then (check_if on E x off ve) (\<lambda>_ v.
      if ve \<le> data_size v \<and> get_range x (off + 8) vs = Some key
      then (Inr (Some (get_range x vs ve)), v) else (Inr None, v)) v"
proof -
  have adds: "checked_add off 8 = Some (off + 8)" "checked_add (off + 8) (unat k) = Some vs"
    "checked_add vs (unat l) = Some ve"
    using assms(5-7) unat_u32_less [of k] unat_u32_less [of l] by (simp_all add: checked_add_def usize_limit_def vs_def ve_def)
  have header: "get_range x off (off + 8) = Some (range_of off (off + 8) x)" using assms(5,6) by (simp add: get_range_def)
  have "u32_at (range_of off (off + 8) x) 0 = Inr k" "u32_at (range_of off (off + 8) x) 4 = Inr l"
    using assms(5,6) by (simp_all add: u32_at_in range_of_range_of k_def l_def add.commute)
  then show ?thesis using adds header assms(5) by (simp add: lookup_record_def checked_sub_def io_then_def Let_def)
qed

lemma lookup_record_written:
  assumes reading: "reading E x d v" and trusted: "on \<or> all_match E x v" and "length x < 2 ^ 63"
    and d: "d = pre @ entry_bytes (key', val) @ post" and lens: "length key' < 4294967296" "length val < 4294967296"
  obtains r v' where "lookup_record E x on seg_offset key (seg_offset + length pre) v = (r, v')"
    and "reading E x d v'" and "same_segment v v'"
    and "r = Inr (if key' = key then Some (Some val) else None) \<or> (\<exists>e. r = Inl (Err e)) \<and> \<not> all_match E x v"
proof -
  define off k l where "off = length pre" and "k = u32_from_le_bytes (range_of off (off + 4) x)"
    and "l = u32_from_le_bytes (range_of (off + 4) (off + 8) x)"
  let ?vs = "off + 8 + unat k" and ?ve = "off + 8 + unat k + unat l"
  note f = record_fields [OF lens, of pre post, folded d off_def]
  have len: "length d \<le> length x" "data_size v = length d" using reading_length [OF reading] by simp_all
  have genuine: "unat k = length key'" "unat l = length val" if "range_of off (off + 8) x = range_of off (off + 8) d"
  proof -
    have "range_of off (off + 4) x = range_of off (off + 4) d" "range_of (off + 4) (off + 8) x = range_of (off + 4) (off + 8) d"
      using arg_cong [OF that, of "range_of 0 4"] arg_cong [OF that, of "range_of 4 8"] by (simp_all add: range_of_range_of)
    then have "k = of_nat (length key')" "l = of_nat (length val)"
      using f(1,2,5) by (simp_all add: k_def l_def u32_at_in add.assoc)
    then show "unat k = length key'" "unat l = length val" using lens by (simp_all add: unat_of_nat_u32)
  qed
  have inside: "?ve \<le> length d" if "all_match E x v"
    using genuine all_match_range [OF reading that, of "off + 8" off] f(5) by simp
  have "off \<le> ?ve" by simp
  from check_if_result [OF reading trusted this] obtain r v' where
    r: "check_if on E x off ?ve v = (r, v')" "reading E x d v'" "same_segment v v'"
      "r = Inr () \<and> (?ve \<le> length d \<longrightarrow> range_of off ?ve x = range_of off ?ve d) \<and> (length d < ?ve \<longrightarrow> all_match E x v)
       \<or> (\<exists>e. r = Inl (Err e)) \<and> (?ve \<le> length d \<longrightarrow> \<not> all_match E x v)"
    by blast
  have size: "data_size v' = length d" using r(3) len(2) by (simp add: same_segment_def)
  have eq: "lookup_record E x on seg_offset key (seg_offset + length pre) v = (case r of Inl e \<Rightarrow> (Inl e, v')
      | Inr _ \<Rightarrow> if ?ve \<le> length d \<and> get_range x (off + 8) ?vs = Some key
          then (Inr (Some (get_range x ?vs ?ve)), v') else (Inr None, v'))"
    using lookup_record_eq [of off v x E on seg_offset key] r(1) f(5) len assms(3) size
    by (simp add: off_def [symmetric] k_def [symmetric] l_def [symmetric] io_then_def split: sum.splits)
  show thesis
  proof (cases "r = Inr ()")
    case False
    with r(4) obtain e where "r = Inl (Err e)" "\<not> all_match E x v" using inside by blast
    with eq r(2,3) show thesis by (intro that [of "Inl (Err e)" v']) simp_all
  next
    case True
    with r(4) inside have ve: "?ve \<le> length d" "range_of off ?ve x = range_of off ?ve d" by force+
    have sub: "range_of (off + a) (off + b) x = range_of (off + a) (off + b) d" if "b \<le> 8 + unat k + unat l" for a b
      using arg_cong [OF ve(2), of "range_of a b"] that by (simp add: range_of_range_of)
    from genuine sub [of 8 0] have g: "unat k = length key'" "unat l = length val" by simp_all
    have "range_of (off + 8) ?vs x = key'" "range_of ?vs ?ve x = val"
      using sub [of "8 + unat k" 8] sub [of "8 + unat k + unat l" "8 + unat k"] f(3,4) g by (simp_all add: add.assoc)
    then have "get_range x (off + 8) ?vs = Some key'" "get_range x ?vs ?ve = Some val"
      using ve(1) len(1) by (simp_all add: get_range_def)
    with eq True ve(1) r(2,3) show thesis
      by (intro that [of "Inr (if key' = key then Some (Some val) else None)" v']) auto
  qed
qed

text \<open>Where the records of a base are.\<close>

lemma record_offsets_split:
  "r \<in> set (record_offsets off entries) \<Longrightarrow>
    \<exists>before val after. entries = before @ (fst r, val) # after \<and> snd r = off + length (base_records before)"
proof (induction off entries rule: record_offsets.induct)
  case (1 off)
  then show ?case by simp
next
  case (2 off key v entries)
  show ?case
  proof (cases "r = (key, off)")
    case True
    then show ?thesis by (intro exI [of _ "[]"] exI [of _ v] exI [of _ entries]) simp
  next
    case False
    with 2 obtain before val after where "entries = before @ (fst r, val) # after"
      "snd r = off + 8 + length key + length v + length (base_records before)" by auto
    then show ?thesis by (intro exI [of _ "(key, v) # before"]) (simp add: length_entry_bytes)
  qed
qed

lemma base_data_record:
  assumes fits: "base_fits E start slots entries"
    and "r \<in> set (record_offsets (start + 24 + 12 * slots) entries)"
  obtains pre val post where "base_data E start slots entries = pre @ entry_bytes (fst r, val) @ post"
    and "snd r = start + length pre" and "(fst r, val) \<in> set entries"
proof -
  let ?index = "base_index E slots (start + 24 + 12 * slots) entries"
  from record_offsets_split [OF assms(2)] obtain before val after where
    e: "entries = before @ (fst r, val) # after" "snd r = start + 24 + 12 * slots + length (base_records before)"
    by blast
  let ?pre = "base_header_bytes slots (length entries) @ concat (map slot_bytes ?index) @ base_records before"
  have "base_records entries = base_records before @ entry_bytes (fst r, val) @ base_records after"
    by (subst e(1)) simp
  then have "base_data E start slots entries = ?pre @ entry_bytes (fst r, val) @ base_records after"
    by (simp add: base_data_def)
  moreover have "length ?index = slots" using base_fits_facts(1) [OF fits] by (simp add: index_ok_def)
  then have "snd r = start + length ?pre" using e(2) by simp
  moreover have "(fst r, val) \<in> set entries" by (subst e(1)) simp
  ultimately show thesis by (rule that)
qed

text \<open>The slots of the index, read through a mapping that may be damaged.\<close>

lemma slot_checked:
  assumes fits: "base_fits E start slots entries" and "p < slots"
    and same: "range_of (24 + p * 12) (24 + p * 12 + 12) x = range_of (24 + p * 12) (24 + p * 12 + 12) (base_data E start slots entries)"
    and "length (base_data E start slots entries) \<le> length x"
  defines "index \<equiv> base_index E slots (start + 24 + 12 * slots) entries"
  shows "u32_at x (24 + p * 12) = Inr (fst (index ! p))" and "u64_at x (24 + p * 12 + 4) = Inr (snd (index ! p))"
proof -
  let ?d = "base_data E start slots entries"
  note facts = base_fits_facts [OF fits]
  have "p < length index" using facts(1) assms(2) by (simp add: index_ok_def index_def)
  moreover have "?d = base_header_bytes slots (length entries) @ concat (map slot_bytes index) @ base_records entries"
    by (simp add: base_data_def index_def)
  ultimately have d: "u32_at ?d (24 + p * 12) = Inr (fst (index ! p))" "u64_at ?d (24 + p * 12 + 4) = Inr (snd (index ! p))"
    using slot_fields by blast+
  have len: "24 + p * 12 + 12 \<le> length ?d" using facts(3) assms(2) by (simp add: data_length_def)
  have "range_of (24 + p * 12) (24 + p * 12 + 4) x = range_of (24 + p * 12) (24 + p * 12 + 4) ?d"
    "range_of (24 + p * 12 + 4) (24 + p * 12 + 12) x = range_of (24 + p * 12 + 4) (24 + p * 12 + 12) ?d"
    using arg_cong [OF same, of "range_of 0 4"] arg_cong [OF same, of "range_of 4 12"] by (simp_all add: range_of_range_of)
  with d len assms(4) show "u32_at x (24 + p * 12) = Inr (fst (index ! p))" "u64_at x (24 + p * 12 + 4) = Inr (snd (index ! p))"
    by (simp_all add: u32_at_in u64_at_in add.assoc)
qed

lemma absent_key:
  assumes "map_of entries key \<noteq> None"
  obtains off where "(key, off) \<in> set (record_offsets first entries)"
proof -
  from assms have "key \<in> fst ` set entries" by (auto simp: map_of_eq_None_iff)
  also have "\<dots> = fst ` set (record_offsets first entries)"
    using arg_cong [OF map_fst_record_offsets [of first entries], of set] by simp
  finally show thesis using that by auto
qed

definition passed :: "externs \<Rightarrow> slot list \<Rightarrow> (bytes \<times> nat) list \<Rightarrow> nat \<Rightarrow> bytes \<Rightarrow> nat \<Rightarrow> bool" where
  "passed E index placed slots key probe \<longleftrightarrow>
     (\<forall>m < probe. \<forall>off. (key, off) \<in> set placed \<longrightarrow>
        index ! ((unat (xxh3_64 E key) + m) mod slots) \<noteq> slot_of E (key, off))"

lemma passed_Suc:
  "passed E index placed slots key probe \<Longrightarrow>
    (\<And>off. (key, off) \<in> set placed \<Longrightarrow> index ! ((unat (xxh3_64 E key) + probe) mod slots) \<noteq> slot_of E (key, off)) \<Longrightarrow>
    passed E index placed slots key (Suc probe)"
  by (auto simp: passed_def less_Suc_eq)

lemma passed_absent:
  assumes "index_ok E slots index (record_offsets first entries)"
    and "passed E index (record_offsets first entries) slots key probe"
    and "slots \<le> probe \<or> \<not> occupied index ((unat (xxh3_64 E key) + probe) mod slots)"
  shows "map_of entries key = None"
proof (rule ccontr)
  assume "map_of entries key \<noteq> None"
  then obtain off where placed: "(key, off) \<in> set (record_offsets first entries)" by (rule absent_key)
  with assms(1) have off: "0 < off" "off < usize_limit" and "reaches E slots index (key, off)"
    by (fastforce simp: index_ok_def)+
  then obtain j where j: "j < slots" "index ! ((unat (xxh3_64 E key) + j) mod slots) = slot_of E (key, off)"
    "\<forall>m < j. occupied index ((unat (xxh3_64 E key) + m) mod slots)" by (auto simp: reaches_def)
  have "occupied index ((unat (xxh3_64 E key) + j) mod slots)"
    using j(2) slot_of_occupied [of "(key, off)" E] off by simp
  then have occ: "\<forall>m \<le> j. occupied index ((unat (xxh3_64 E key) + m) mod slots)"
    using j(3) by (auto simp: le_less)
  have "j < probe"
  proof (rule ccontr)
    assume "\<not> j < probe"
    with occ have "occupied index ((unat (xxh3_64 E key) + probe) mod slots)" by simp
    with assms(3) j(1) \<open>\<not> j < probe\<close> show False by simp
  qed
  with assms(2) placed j(2) show False by (auto simp: passed_def)
qed

text \<open>What one occupied slot of the walk does.\<close>

lemma slot_of_distinct:
  assumes "index_ok E slots index placed" and "r \<in> set placed" and "r' \<in> set placed" and "fst r \<noteq> fst r'"
  shows "slot_of E r \<noteq> slot_of E r'"
proof
  assume "slot_of E r = slot_of E r'"
  then have "unat (of_nat (snd r) :: u64) = unat (of_nat (snd r') :: u64)" by (simp only: slot_of_def prod.inject)
  moreover have "snd r < usize_limit" "snd r' < usize_limit" using assms(1-3) by (simp_all add: index_ok_def)
  ultimately have "snd r = snd r'" by (simp only: unat_of_nat_u64)
  moreover have "inj_on snd (set placed)" using assms(1) by (simp add: index_ok_def distinct_map)
  ultimately have "r = r'" using assms(2,3) by (simp add: inj_onD)
  with assms(4) show False by simp
qed

lemma lookup_loop_step:
  assumes "unat ((hash + of_nat probe) AND slot_mask slots) = p"
    and "check_if on E x (24 + p * 12) (24 + p * 12 + 12) v = (Inr (), w)"
    and "u32_at x (24 + p * 12) = Inr fp" and "u64_at x (24 + p * 12 + 4) = Inr absolute"
  shows "lookup_loop (Suc n) E x on start slots key hash probe v =
    (if absolute = 0 then (Inr None, w)
     else if fp = fingerprint hash then
       (case lookup_record E x on start key (unat absolute) w of
          (Inl e, u) \<Rightarrow> (Inl e, u)
        | (Inr (Some r), u) \<Rightarrow> (Inr r, u)
        | (Inr None, u) \<Rightarrow> lookup_loop n E x on start slots key hash (Suc probe) u)
     else lookup_loop n E x on start slots key hash (Suc probe) w)"
  using assms by (auto simp: Let_def io_then_def split: prod.splits sum.splits option.splits)

definition lookup_result :: "externs \<Rightarrow> bytes \<Rightarrow> bytes \<Rightarrow> segment_verifier \<Rightarrow> 'a \<Rightarrow> 'a result \<times> segment_verifier \<Rightarrow> bool" where
  "lookup_result E x d v expected result \<longleftrightarrow>
     reading E x d (snd result) \<and> same_segment v (snd result)
     \<and> (fst result = Inr expected \<or> (\<exists>e. fst result = Inl (Err e)) \<and> \<not> all_match E x v)"

lemma lookup_result_trans:
  "same_segment v w \<Longrightarrow> lookup_result E x d w expected result \<Longrightarrow> lookup_result E x d v expected result"
  unfolding lookup_result_def using same_segment_trans [of v w] same_segment_all_match [of v w] by simp

lemma lookup_occupied_slot:
  fixes E start slots entries
  defines "index \<equiv> base_index E slots (start + 24 + 12 * slots) entries"
    and "placed \<equiv> record_offsets (start + 24 + 12 * slots) entries" and "d \<equiv> base_data E start slots entries"
  assumes fits: "base_fits E start slots entries" and dist: "distinct (map fst entries)" and x: "length x < 2 ^ 63"
    and reading: "reading E x d w" "on \<or> all_match E x w" and r: "r \<in> set placed" "s = slot_of E r"
  obtains f u where "lookup_record E x on start key (unat (snd s)) w = (f, u)" and "reading E x d u" and "same_segment w u"
    and "f = Inr (Some (map_of entries key)) \<or> f = Inr None \<and> (\<forall>off. (key, off) \<in> set placed \<longrightarrow> s \<noteq> slot_of E (key, off))
      \<or> (\<exists>e. f = Inl (Err e)) \<and> \<not> all_match E x w"
proof -
  have ok: "index_ok E slots index placed" using base_fits_facts(1) [OF fits] by (simp add: index_def placed_def)
  from base_data_record [OF fits r(1) [unfolded placed_def], folded d_def] obtain pre val post where
    rec: "d = pre @ entry_bytes (fst r, val) @ post" "snd r = start + length pre" "(fst r, val) \<in> set entries"
    by blast
  from ok r(1) have "snd r < usize_limit" by (simp add: index_ok_def)
  then have absolute: "unat (snd s) = start + length pre"
    using unat_of_nat_u64 [of "snd r"] rec(2) by (simp only: r(2) slot_of_def snd_conv)
  have lens: "length (fst r) < 4294967296" "length val < 4294967296"
    using fits rec(3) by (auto simp: base_fits_def entries_ok_def)
  from lookup_record_written [OF reading x rec(1) lens, of start key] obtain f u where
    f: "lookup_record E x on start key (start + length pre) w = (f, u)" "reading E x d u" "same_segment w u"
      "f = Inr (if fst r = key then Some (Some val) else None) \<or> (\<exists>e. f = Inl (Err e)) \<and> \<not> all_match E x w"
    by blast
  have "s \<noteq> slot_of E (key, off)" if "(key, off) \<in> set placed" "fst r \<noteq> key" for off
    using slot_of_distinct [OF ok r(1) that(1)] that(2) r(2) by simp
  moreover have "map_of entries key = Some val" if "fst r = key" using rec(3) dist that by auto
  ultimately show thesis using f absolute by (intro that [of f u]) (auto split: if_splits)
qed

lemma lookup_loop_written:
  fixes E start slots entries
  defines "index \<equiv> base_index E slots (start + 24 + 12 * slots) entries"
    and "placed \<equiv> record_offsets (start + 24 + 12 * slots) entries" and "d \<equiv> base_data E start slots entries"
  assumes fits: "base_fits E start slots entries" and dist: "distinct (map fst entries)" and slots: "slots_ok slots"
    and x: "length x < 2 ^ 63"
    and "reading E x d v" and "on \<or> all_match E x v" and "n + probe = slots" and "passed E index placed slots key probe"
  shows "lookup_result E x d v (map_of entries key) (lookup_loop n E x on start slots key (xxh3_64 E key) probe v)"
  using assms(8-)
proof (induction n arbitrary: probe v)
  case 0
  then show ?case
    using passed_absent [of E slots index "start + 24 + 12 * slots" entries key probe] base_fits_facts(1) [OF fits]
    by (simp add: index_def placed_def lookup_result_def)
next
  case (Suc n)
  let ?h = "xxh3_64 E key" and ?first = "start + 24 + 12 * slots"
  define p where "p = (unat ?h + probe) mod slots"
  have slot: "unat ((?h + of_nat probe) AND slot_mask slots) = p"
    unfolding p_def by (rule unat_add_and_slot_mask [OF slots])
  have p: "p < slots" using slots_ok_pos [OF slots] by (simp add: p_def)
  have ok: "index_ok E slots index placed" using base_fits_facts(1) [OF fits] by (simp add: index_def placed_def)
  have len: "length d \<le> length x" "24 + p * 12 + 12 \<le> length d" "24 + p * 12 \<le> 24 + p * 12 + 12"
    using reading_length [OF Suc.prems(1)] base_fits_facts(3) [OF fits] p by (simp_all add: d_def data_length_def)
  from check_if_result [OF Suc.prems(1,2) len(3)] obtain c w where
    c: "check_if on E x (24 + p * 12) (24 + p * 12 + 12) v = (c, w)" "reading E x d w" "same_segment v w"
      "c = Inr () \<and> range_of (24 + p * 12) (24 + p * 12 + 12) x = range_of (24 + p * 12) (24 + p * 12 + 12) d
       \<or> (\<exists>e. c = Inl (Err e)) \<and> \<not> all_match E x v"
    using len(2) by blast
  show ?case
  proof (cases "c = Inr ()")
    case False
    with c slot show ?thesis by (auto simp: Let_def io_then_def lookup_result_def)
  next
    case True
    have trusted: "on \<or> all_match E x w" using Suc.prems(2) same_segment_all_match [OF c(3)] by simp
    have fields: "u32_at x (24 + p * 12) = Inr (fst (index ! p))" "u64_at x (24 + p * 12 + 4) = Inr (snd (index ! p))"
      using slot_checked [OF fits p] c(4) True len(1) by (simp_all add: d_def index_def)
    note step = lookup_loop_step [OF slot c(1) [unfolded True] fields]
    have next_slot: "lookup_result E x d v (map_of entries key) (lookup_loop n E x on start slots key ?h (Suc probe) u)"
      if "\<And>off. (key, off) \<in> set placed \<Longrightarrow> index ! p \<noteq> slot_of E (key, off)" "reading E x d u" "same_segment v u" for u
      using that Suc.prems(3,4) Suc.prems(2) same_segment_all_match [OF that(3)]
      by (intro lookup_result_trans [OF that(3)] Suc.IH passed_Suc) (auto simp: p_def)
    consider "\<not> occupied index p" | "fst (index ! p) \<noteq> fingerprint ?h" "occupied index p"
      | r where "occupied index p" "fst (index ! p) = fingerprint ?h" "r \<in> set placed" "index ! p = slot_of E r"
      using ok p by (fastforce simp: index_ok_def)
    then show ?thesis
    proof cases
      case 1
      then have "map_of entries key = None"
        using passed_absent [of E slots index ?first entries key probe] ok Suc.prems(4) by (simp add: p_def placed_def)
      with 1 c(2,3) show ?thesis unfolding step by (simp add: lookup_result_def)
    next
      case 2
      then have "index ! p \<noteq> slot_of E (key, off)" for off by (auto simp: slot_of_def)
      from next_slot [OF this c(2,3)] 2 show ?thesis unfolding step by simp
    next
      case 3
      from lookup_occupied_slot [OF fits dist x c(2) [unfolded d_def] trusted 3(3) [unfolded placed_def] 3(4), of key, folded d_def placed_def]
      obtain f u where f: "lookup_record E x on start key (unat (snd (index ! p))) w = (f, u)" "reading E x d u" "same_segment w u"
        "f = Inr (Some (map_of entries key)) \<or> f = Inr None \<and> (\<forall>off. (key, off) \<in> set placed \<longrightarrow> index ! p \<noteq> slot_of E (key, off))
          \<or> (\<exists>e. f = Inl (Err e)) \<and> \<not> all_match E x w" by blast
      have u: "same_segment v u" by (rule same_segment_trans [OF c(3) f(3)])
      have "lookup_result E x d v (map_of entries key) (lookup_loop n E x on start slots key ?h (Suc probe) u)" if "f = Inr None"
        using next_slot [OF _ f(2) u] f(4) that by blast
      with f u 3(1,2) same_segment_all_match [OF c(3)] show ?thesis
        unfolding step by (auto simp: lookup_result_def)
    qed
  qed
qed

lemma lookup_segment_written:
  fixes E start slots entries
  defines "d \<equiv> base_data E start slots entries"
  assumes "base_fits E start slots entries" and "distinct (map fst entries)" and "length x < 2 ^ 63"
    and "reading E x d v" and "mode = OnRead \<or> all_match E x v"
  shows "lookup_result E x d v (map_of entries key) (lookup_segment E x mode start slots key (xxh3_64 E key) v)"
proof (cases "entries = []")
  case True
  with assms(2,5) show ?thesis by (simp add: base_fits_def lookup_segment_def lookup_result_def)
next
  case False
  with assms(2) have "slots_ok slots" using base_slot_count_Inr(1) [of "length entries" slots] by (simp add: base_fits_def)
  moreover have "mode = OnRead \<and> \<not> fully_verified v \<or> all_match E x v"
    using assms(5,6) by (auto simp: reading_def verifier_sound_def all_match_def)
  ultimately show ?thesis
    using lookup_loop_written [of E start slots entries x v _ slots 0 key] assms slots_ok_pos [of slots]
    by (simp add: lookup_segment_def passed_def)
qed

subsection \<open>Opening a written base\<close>

definition written_superblock :: "externs \<Rightarrow> nat \<Rightarrow> nat \<Rightarrow> entry list \<Rightarrow> superblock \<Rightarrow> bool" where
  "written_superblock E start slots entries sb \<longleftrightarrow>
     unat (base_offset sb) = start \<and> unat (base_slots sb) = slots \<and> unat (base_len sb) = length entries
     \<and> unat (base_size sb) = segment_length slots entries
     \<and> base_checksum sb = crc32c E (segment_metadata E (base_data E start slots entries))"

lemma base_fits_limits:
  assumes fits: "base_fits E start slots entries"
  defines "d \<equiv> base_data E start slots entries"
  shows "length d + length (segment_metadata E d) < usize_limit" and "read_base_header d = Inr (slots, length entries)"
proof -
  note facts = base_fits_facts [OF fits]
  show lt: "length d + length (segment_metadata E d) < usize_limit"
    using fits facts(4) by (simp add: base_fits_def segment_bytes_def d_def)
  have "slots = 0 \<or> slots_ok slots"
    using fits base_slot_count_Inr(1) [of "length entries" slots] by (cases "entries = []") (auto simp: base_fits_def)
  moreover have "length entries < usize_limit"
    using length_entries_le [of entries] fits by (simp add: base_fits_def segment_length_def data_length_def)
  ultimately show "read_base_header d = Inr (slots, length entries)"
    using lt facts(3) by (intro base_header_written) (auto simp: base_data_def data_length_def d_def)
qed

lemma active_open_written:
  assumes fits: "base_fits E start slots entries" and dist: "distinct (map fst entries)"
    and sb: "written_superblock E start slots entries sb" and mapping: "deref mapping = segment_bytes E start slots entries"
  defines "d \<equiv> base_data E start slots entries"
  shows "active_open E mapping sb mode = Inr (active_new mapping
    (verifier_new start \<lparr>layout_data = d, layout_checksums = segment_table E d\<rparr> (mode = Full)) sb slots (length entries))"
  using segment_layout_of_written [OF base_fits_limits(1) [OF fits]] base_fits_limits(2) [OF fits]
    segment_metadata_checksum_written [OF base_fits_limits(1) [OF fits]] verify_segment_blocks_written [of E d start]
    validate_base_written [OF fits dist] sb
  by (simp add: active_open_def mapping segment_bytes_def d_def written_superblock_def Let_def)

lemma active_install_written:
  assumes fits: "base_fits E start slots entries"
    and sb: "written_superblock E start slots entries sb" and mapping: "deref mapping = segment_bytes E start slots entries"
  defines "d \<equiv> base_data E start slots entries"
  shows "active_install E mapping sb = Inr (active_new mapping
    (verifier_new start \<lparr>layout_data = d, layout_checksums = segment_table E d\<rparr> True) sb slots (length entries))"
  using segment_layout_of_written [OF base_fits_limits(1) [OF fits]] base_fits_limits(2) [OF fits] sb
  by (simp add: active_install_def mapping segment_bytes_def d_def written_superblock_def)

lemma blocks_agree_written: "data_size v = length d \<Longrightarrow> blocks_agree E (d @ rest) d v"
  by (simp add: blocks_agree_def nth_append)

lemma reading_written:
  assumes fits: "base_fits E start slots entries"
  defines "d \<equiv> base_data E start slots entries"
  shows "reading E (segment_bytes E start slots entries) d
      (verifier_new offset \<lparr>layout_data = d, layout_checksums = segment_table E d\<rparr> full)"
    and "all_match E (segment_bytes E start slots entries)
      (verifier_new offset \<lparr>layout_data = d, layout_checksums = segment_table E d\<rparr> full)"
  using verifier_new_written [OF base_fits_limits(1) [OF fits], of offset full]
  by (simp_all add: reading_def all_match_def segment_bytes_def d_def blocks_agree_written verifier_new_def Let_def)

subsection \<open>Any accepted base\<close>

definition verifier_inv :: "externs \<Rightarrow> bytes \<Rightarrow> segment_verifier \<Rightarrow> bool" where
  "verifier_inv E x v \<longleftrightarrow> verifier_ok x v \<and> verifier_sound E x v"

definition safe_result :: "externs \<Rightarrow> bytes \<Rightarrow> segment_verifier \<Rightarrow> 'a result \<times> segment_verifier \<Rightarrow> bool" where
  "safe_result E x v result \<longleftrightarrow> no_panic (fst result) \<and> verifier_inv E x (snd result) \<and> same_segment v (snd result)"

lemma safe_result_return: "verifier_inv E x v \<Longrightarrow> no_panic r \<Longrightarrow> safe_result E x v (r, v)"
  by (simp add: safe_result_def)

lemma safe_result_then:
  assumes "safe_result E x v (m v)"
    and "\<And>a w. m v = (Inr a, w) \<Longrightarrow> verifier_inv E x w \<Longrightarrow> same_segment v w \<Longrightarrow> safe_result E x w (f a w)"
  shows "safe_result E x v (io_then m f v)"
proof (cases "m v")
  case (Pair r w)
  then show ?thesis
  proof (cases r)
    case (Inl e)
    with Pair assms(1) show ?thesis by (simp add: io_then_def safe_result_def no_panic_def)
  next
    case (Inr a)
    with Pair assms(1) have w: "verifier_inv E x w" "same_segment v w" by (simp_all add: safe_result_def)
    with assms(2) Pair Inr have "safe_result E x w (f a w)" by simp
    with w Pair Inr show ?thesis using same_segment_trans [of v w] by (simp add: io_then_def safe_result_def)
  qed
qed

lemma safe_result_lift: "verifier_inv E x v \<Longrightarrow> no_panic r \<Longrightarrow> safe_result E x v (io_lift r v)"
  by (simp add: safe_result_def)

lemma check_if_safe:
  assumes "verifier_inv E x v"
  shows "safe_result E x v (check_if on E x start end v)"
proof (cases on)
  case False
  with assms show ?thesis by (simp add: check_if_def safe_result_def)
next
  case True
  from assms have ok: "verifier_ok x v" "verifier_sound E x v" by (simp_all add: verifier_inv_def)
  from verify_range_result [OF ok, of start "end"] obtain r v' where
    "verify_range E x start end v = (r, v')" "verifier_ok x v'" "verifier_sound E x v'" "same_segment v v'" "no_panic r" .
  with True show ?thesis by (simp add: check_if_def safe_result_def verifier_inv_def)
qed

lemma lookup_record_safe:
  assumes "verifier_inv E x v"
  shows "safe_result E x v (lookup_record E x on seg_offset key absolute v)"
proof -
  define offset where "offset = absolute - seg_offset"
  let ?header = "range_of offset (offset + 8) x"
  have len: "data_size v \<le> length x" using assms by (simp add: verifier_inv_def verifier_ok_def)
  show ?thesis
  proof (cases "seg_offset \<le> absolute \<and> offset + 8 < usize_limit \<and> offset + 8 \<le> data_size v")
    case False
    with assms show ?thesis
      by (auto simp: lookup_record_def checked_sub_def checked_add_def get_range_def offset_def safe_result_def)
  next
    case True
    define k l where "k = u32_from_le_bytes (range_of 0 4 ?header)" and "l = u32_from_le_bytes (range_of 4 8 ?header)"
    have fields: "u32_at ?header 0 = Inr k" "u32_at ?header 4 = Inr l"
      using True len by (simp_all add: u32_at_in k_def l_def)
    let ?vs = "offset + 8 + unat k" and ?ve = "offset + 8 + unat k + unat l"
    have "lookup_record E x on seg_offset key absolute v =
        (if ?ve < usize_limit then io_then (check_if on E x offset ?ve) (\<lambda>_ v.
           if ?ve \<le> data_size v \<and> get_range x (offset + 8) ?vs = Some key
           then (Inr (Some (get_range x ?vs ?ve)), v) else (Inr None, v)) v
         else (Inr (Some None), v))"
    proof -
      have "checked_sub absolute seg_offset = Some offset" "checked_add offset 8 = Some (offset + 8)"
        "get_range x offset (offset + 8) = Some ?header" "\<not> data_size v < offset + 8"
        using True len by (simp_all add: checked_sub_def checked_add_def get_range_def offset_def [symmetric])
      then show ?thesis using fields by (auto simp: lookup_record_def checked_add_def Let_def io_then_def)
    qed
    then show ?thesis
      using assms by (auto intro!: safe_result_then check_if_safe safe_result_return)
  qed
qed

lemma lookup_loop_safe:
  assumes "slots_ok slots" and "24 + 12 * slots \<le> length x" and "verifier_inv E x v"
  shows "safe_result E x v (lookup_loop n E x on seg_offset slots key hash probe v)"
  using assms(3)
proof (induction n arbitrary: probe v)
  case 0
  then show ?case by (simp add: safe_result_def)
next
  case (Suc n)
  define p where "p = unat ((hash + of_nat probe) AND slot_mask slots)"
  have "p < slots" unfolding p_def using unat_add_and_slot_mask [OF assms(1)] slots_ok_pos [OF assms(1)] by simp
  then have bounds: "24 + p * 12 + 12 \<le> length x" using assms(2) by simp
  define fp absolute where "fp = u32_from_le_bytes (range_of (24 + p * 12) (24 + p * 12 + 4) x)"
    and "absolute = u64_from_le_bytes (range_of (24 + p * 12 + 4) (24 + p * 12 + 4 + 8) x)"
  have fields: "u32_at x (24 + p * 12) = Inr fp" "u64_at x (24 + p * 12 + 4) = Inr absolute"
    using bounds by (simp_all add: u32_at_in u64_at_in fp_def absolute_def)
  show ?case
  proof (cases "check_if on E x (24 + p * 12) (24 + p * 12 + 12) v")
    case (Pair c w)
    note c = check_if_safe [OF Suc.prems, of on "24 + p * 12" "24 + p * 12 + 12", unfolded Pair]
    show ?thesis
    proof (cases c)
      case (Inl e)
      with c Pair p_def show ?thesis by (simp add: Let_def io_then_def safe_result_def no_panic_def)
    next
      case (Inr u)
      then have "c = Inr ()" by simp
      from Inr c have w: "verifier_inv E x w" "same_segment v w" by (simp_all add: safe_result_def)
      note step = lookup_loop_step [OF p_def [symmetric] Pair [unfolded \<open>c = Inr ()\<close>] fields, of n seg_offset key]
      have rest: "safe_result E x w (lookup_loop n E x on seg_offset slots key hash (Suc probe) w')"
        if "verifier_inv E x w'" "same_segment w w'" for w'
        using Suc.IH [OF that(1), of "Suc probe"] same_segment_trans [OF that(2)] by (simp add: safe_result_def)
      obtain f w' where f: "lookup_record E x on seg_offset key (unat absolute) w = (f, w')" by fastforce
      note safe = lookup_record_safe [OF w(1), of on seg_offset key "unat absolute", unfolded f]
      have "safe_result E x w (lookup_loop (Suc n) E x on seg_offset slots key hash probe v)"
      proof (cases f)
        case (Inl e)
        with safe rest [OF w(1) same_segment_refl] w(1) show ?thesis
          unfolding step f by (simp add: safe_result_def no_panic_def)
      next
        case (Inr found)
        with safe rest [of w'] rest [OF w(1) same_segment_refl] w(1) show ?thesis
          unfolding step f by (cases found) (simp_all add: safe_result_def)
      qed
      with same_segment_trans [OF w(2)] show ?thesis by (simp add: safe_result_def)
    qed
  qed
qed

lemma lookup_segment_safe:
  assumes "slots = 0 \<or> slots_ok slots" and "24 + 12 * slots \<le> length x" and "verifier_inv E x v"
  shows "safe_result E x v (lookup_segment E x mode seg_offset slots key hash v)"
  using assms lookup_loop_safe [of slots x E v] by (auto simp: lookup_segment_def safe_result_def)

text \<open>The bounds that acceptance gives.\<close>

definition base_inv :: "externs \<Rightarrow> active_base \<Rightarrow> bool" where
  "base_inv E base \<longleftrightarrow>
     verifier_inv E (deref (active_mapping base)) (active_verifier base)
     \<and> (active_slots base = 0 \<or> slots_ok (active_slots base))
     \<and> 24 + 12 * active_slots base \<le> length (deref (active_mapping base))"

lemma slots_ok_power: "is_power_of_two n \<Longrightarrow> n < usize_limit \<Longrightarrow> slots_ok n"
proof -
  assume "is_power_of_two n" "n < usize_limit"
  then obtain k where k: "n = 2 ^ k" "(2 :: nat) ^ k < 2 ^ 64" by (auto simp: is_power_of_two_iff usize_limit_def)
  from k(2) have "k < 64" by (rule power_less_imp_less_exp [rotated]) simp
  with k(1) show "slots_ok n" by (auto simp: slots_ok_def)
qed

lemma verifier_new_inv:
  assumes "segment_layout_of E x = Inr layout" and "full \<Longrightarrow> verify_segment_blocks E layout seg_offset = Inr ()"
  shows "verifier_inv E x (verifier_new offset layout full)"
  using verifier_new_ok [OF assms(1)] verifier_new_sound [OF assms(1)]
    verify_segment_blocks_matches [OF assms(1), of seg_offset offset full] assms(2)
  by (cases full) (auto simp: verifier_inv_def verifier_sound_def)

theorem active_open_inv:
  assumes "active_open E mapping sb mode = Inr base"
  shows "base_inv E base"
proof -
  from assms obtain layout slots len where
    layout: "segment_layout_of E (deref mapping) = Inr layout" and head: "read_base_header (layout_data layout) = Inr (slots, len)"
    and full: "mode = Full \<Longrightarrow> verify_segment_blocks E layout (unat (base_offset sb)) = Inr ()"
    and base: "base = active_new mapping (verifier_new (unat (base_offset sb)) layout (mode = Full)) sb slots len"
    unfolding active_open_def Let_def by (auto simp: result_simps split: if_splits)
  note h = read_base_header_Inr [OF head]
  have "length (layout_data layout) \<le> length (deref mapping)" using segment_layout_of_Inr(3) [OF layout] by simp
  moreover have "verifier_inv E (deref mapping) (verifier_new (unat (base_offset sb)) layout (mode = Full))"
    using full by (intro verifier_new_inv [OF layout]) simp
  ultimately show ?thesis using h slots_ok_power [of slots] by (auto simp: base_inv_def base active_new_def)
qed

subsection \<open>Properties\<close>

definition after_lookups :: "externs \<Rightarrow> bytes \<Rightarrow> verification_mode \<Rightarrow> nat \<Rightarrow> nat \<Rightarrow> bytes list \<Rightarrow> segment_verifier \<Rightarrow> segment_verifier" where
  "after_lookups E x mode seg_offset slots keys v =
     fold (\<lambda>key v. snd (lookup_segment E x mode seg_offset slots key (xxh3_64 E key) v)) keys v"

lemma after_lookups_invariant:
  assumes "P v" and "\<And>key v. P v \<Longrightarrow> P (snd (lookup_segment E x mode seg_offset slots key (xxh3_64 E key) v))"
  shows "P (after_lookups E x mode seg_offset slots keys v)"
  using assms(1) unfolding after_lookups_def by (induction keys arbitrary: v) (simp_all add: assms(2))

lemma after_lookups_reading:
  fixes keys
  assumes "base_fits E start slots entries" and "distinct (map fst entries)" and "length x < 2 ^ 63"
    and "reading E x (base_data E start slots entries) v" and "mode = OnRead \<or> all_match E x v"
  defines "w \<equiv> after_lookups E x mode start slots keys v"
  shows "reading E x (base_data E start slots entries) w" and "all_match E x w = all_match E x v"
proof -
  let ?P = "\<lambda>w. reading E x (base_data E start slots entries) w \<and> all_match E x w = all_match E x v"
  have "?P w" unfolding w_def
  proof (rule after_lookups_invariant)
    show "?P v" using assms(4) by simp
    fix key u
    assume u: "?P u"
    then have "lookup_result E x (base_data E start slots entries) u (map_of entries key)
        (lookup_segment E x mode start slots key (xxh3_64 E key) u)"
      using assms by (intro lookup_segment_written) auto
    then show "?P (snd (lookup_segment E x mode start slots key (xxh3_64 E key) u))"
      using u same_segment_all_match by (auto simp: lookup_result_def)
  qed
  then show "reading E x (base_data E start slots entries) w" and "all_match E x w = all_match E x v" by simp_all
qed

text \<open>
  C24. A base is a map. Write entries with distinct keys as a base and open it, with a full check or with
  verification on read: after any sequence of earlier lookups, looking up a key returns the value it
  was written with, and nothing for every other key. The open hash index, its collisions and the
  block cache are invisible.
\<close>

theorem base_lookup_correct:
  fixes E start slots entries mode
  defines "d \<equiv> base_data E start slots entries" and "x \<equiv> segment_bytes E start slots entries"
  defines "v \<equiv> verifier_new start \<lparr>layout_data = d, layout_checksums = segment_table E d\<rparr> (mode = Full)"
  assumes "base_fits E start slots entries" and "distinct (map fst entries)" and "length x < 2 ^ 63"
  shows "fst (lookup_segment E x mode start slots key (xxh3_64 E key) (after_lookups E x mode start slots keys v))
    = Inr (map_of entries key)"
proof -
  have v: "reading E x d v" "all_match E x v" using reading_written [OF assms(4)] by (simp_all add: d_def x_def v_def)
  note w = after_lookups_reading [OF assms(4-6), folded d_def, OF v(1), of mode keys]
  show ?thesis
    using lookup_segment_written [OF assms(4-6), folded d_def, of "after_lookups E x mode start slots keys v" mode key] w v(2)
    by (auto simp: lookup_result_def)
qed

theorem base_lookup_correct_witness:
  "fst (lookup_segment reference_externs (segment_bytes reference_externs 8192 2 [([1], [2, 3])]) OnRead 8192 2 [1]
      (xxh3_64 reference_externs [1])
      (after_lookups reference_externs (segment_bytes reference_externs 8192 2 [([1], [2, 3])]) OnRead 8192 2 [[4]]
        (verifier_new 8192 \<lparr>layout_data = base_data reference_externs 8192 2 [([1], [2, 3])],
          layout_checksums = segment_table reference_externs (base_data reference_externs 8192 2 [([1], [2, 3])])\<rparr> False)))
    = Inr (Some [2, 3])"
  using base_lookup_correct [OF base_fits_sample, where mode = OnRead and key = "[1]" and keys = "[[4]]"] base_fits_facts(4) [OF base_fits_sample]
  by (simp add: segment_length_def data_length_def length_entry_bytes div_ceil_def)

text \<open>
  C25. Verification on read never returns a wrong value. Change any one byte of the data of a written base,
  in the header, the index, the keys or the values. With verification on read, after any sequence of
  lookups, looking up a key returns what was written for it or fails with an error.
\<close>

theorem lookup_changed_byte:
  fixes E start slots entries i b
  defines "d \<equiv> base_data E start slots entries"
  defines "x \<equiv> d[i := b] @ segment_metadata E d"
  defines "v \<equiv> verifier_new start \<lparr>layout_data = d[i := b], layout_checksums = segment_table E d\<rparr> False"
  assumes "crc32c_detects E" and fits: "base_fits E start slots entries" and "distinct (map fst entries)" and "length x < 2 ^ 63"
    and i: "i < length d" "d ! i \<noteq> b"
  shows "fst (lookup_segment E x OnRead start slots key (xxh3_64 E key) (after_lookups E x OnRead start slots keys v))
      = Inr (map_of entries key)
    \<or> (\<exists>e. fst (lookup_segment E x OnRead start slots key (xxh3_64 E key) (after_lookups E x OnRead start slots keys v))
      = Inl (Err e))"
proof -
  note lt = base_fits_limits(1) [OF fits, folded d_def]
  have layout: "segment_layout_of E x = Inr \<lparr>layout_data = d[i := b], layout_checksums = segment_table E d\<rparr>"
    unfolding x_def by (rule segment_layout_of_table [OF lt]) simp
  have "x ! j = d ! j" if "j < length d" "block_matches E x v (j div 65536)" for j
  proof -
    have "j div 65536 < div_ceil (length d) 65536"
      using that(1) div_ceil_bounds(1) [of 65536 "length d"] by (simp add: div_less_iff_less_mult mult.commute)
    with that(2) have "j div 65536 \<noteq> i div 65536"
      using block_matches_changed [OF assms(4) lt i] by (simp add: x_def v_def)
    then have "j \<noteq> i" by blast
    with that(1) show ?thesis by (simp add: x_def nth_append)
  qed
  then have "blocks_agree E x d v" by (simp add: blocks_agree_def v_def verifier_new_def Let_def)
  then have "reading E x d v"
    using verifier_new_ok [OF layout, of start False] verifier_new_sound [OF layout, of start] by (simp add: reading_def v_def)
  from after_lookups_reading(1) [OF fits assms(6,7), folded d_def, OF this, of OnRead keys]
    lookup_segment_written [OF fits assms(6,7), folded d_def, of _ OnRead key]
  show ?thesis by (auto simp: lookup_result_def)
qed

theorem lookup_changed_byte_witness:
  "\<exists>b. base_data reference_externs 8192 2 [([1], [2, 3])] ! 50 \<noteq> b
    \<and> fst (lookup_segment reference_externs ((base_data reference_externs 8192 2 [([1], [2, 3])])[50 := b]
        @ segment_metadata reference_externs (base_data reference_externs 8192 2 [([1], [2, 3])])) OnRead 8192 2 [1]
      (xxh3_64 reference_externs [1])
      (after_lookups reference_externs ((base_data reference_externs 8192 2 [([1], [2, 3])])[50 := b]
        @ segment_metadata reference_externs (base_data reference_externs 8192 2 [([1], [2, 3])])) OnRead 8192 2 []
        (verifier_new 8192 \<lparr>layout_data = (base_data reference_externs 8192 2 [([1], [2, 3])])[50 := b],
          layout_checksums = segment_table reference_externs (base_data reference_externs 8192 2 [([1], [2, 3])])\<rparr> False)))
    \<noteq> Inr None"
proof -
  let ?d = "base_data reference_externs 8192 2 [([1], [2, 3])]"
  have len: "length ?d = 59" using base_fits_facts(3) [OF base_fits_sample] by (simp add: data_length_def length_entry_bytes)
  have "?d ! 50 \<noteq> ?d ! 50 + 1" by simp
  then show ?thesis
    using lookup_changed_byte [OF reference.crc32c_detects_axioms base_fits_sample, where i = 50 and b = "?d ! 50 + 1" and key = "[1]" and keys = "[]"] len
    by (intro exI [of _ "?d ! 50 + 1"]) (auto simp: length_segment_metadata div_ceil_def)
qed

text \<open>
  C35. Reads never crash. Whatever bytes a base was opened from, if the open accepted them, in either mode,
  then after any sequence of lookups a read through a view, over a well-formed Overlay, returns a value,
  nothing, or an error.
\<close>

theorem view_get_safe:
  assumes "active_open E mapping sb mode = Inr base" and "overlay_ok E L overlay"
  shows "no_panic (fst (view_get E
    \<lparr>view_base = \<lparr>view_mapping = deref (active_mapping base), view_offset = active_offset base, view_slots = active_slots base\<rparr>,
     view_overlay = overlay, view_verification = mode\<rparr> key
    (after_lookups E (deref (active_mapping base)) mode (active_offset base) (active_slots base) keys (active_verifier base))))"
proof -
  let ?x = "deref (active_mapping base)"
  let ?w = "after_lookups E ?x mode (active_offset base) (active_slots base) keys (active_verifier base)"
  note inv = active_open_inv [OF assms(1), unfolded base_inv_def]
  have "verifier_inv E ?x ?w"
    by (rule after_lookups_invariant) (use inv lookup_segment_safe in \<open>auto simp: safe_result_def\<close>)
  then have "safe_result E ?x ?w (lookup_segment E ?x mode (active_offset base) (active_slots base) key (xxh3_64 E key) ?w)"
    using inv by (intro lookup_segment_safe) auto
  moreover have "get_hashed overlay key (xxh3_64 E key) = Inr (overlay_abs overlay key)"
    using overlay_get_eq [OF assms(2)] by (simp add: overlay_get_def)
  ultimately show ?thesis
    by (auto simp: view_get_def Let_def io_then_def safe_result_def split: option.split)
qed

lemma written_superblock_new:
  assumes "base_fits E start slots entries"
  shows "written_superblock E start slots entries (superblock_new gen start (segment_length slots entries) slots
    (length entries) log (crc32c E (segment_metadata E (base_data E start slots entries))))"
proof -
  have "start < usize_limit" "segment_length slots entries < usize_limit" "slots < usize_limit" "length entries < usize_limit"
    using assms length_entries_le [of entries] by (simp_all add: base_fits_def segment_length_def data_length_def)
  then show ?thesis by (simp add: written_superblock_def superblock_new_def unat_of_nat_u64)
qed

theorem view_get_safe_witness:
  "\<exists>base. active_open reference_externs (Mapped (segment_bytes reference_externs 8192 2 [([1], [2, 3])]))
      (superblock_new 1 8192 (segment_length 2 [([1], [2, 3])]) 2 1 9000
        (crc32c reference_externs (segment_metadata reference_externs (base_data reference_externs 8192 2 [([1], [2, 3])])))) OnRead = Inr base
    \<and> no_panic (fst (view_get reference_externs
    \<lparr>view_base = \<lparr>view_mapping = deref (active_mapping base), view_offset = active_offset base, view_slots = active_slots base\<rparr>,
     view_overlay = MemoryOverlay [], view_verification = OnRead\<rparr> [7]
    (after_lookups reference_externs (deref (active_mapping base)) OnRead (active_offset base) (active_slots base) [[1]] (active_verifier base))))"
proof -
  have ov: "overlay_ok reference_externs [] (MemoryOverlay [])" by (simp add: table_ok_def)
  have sb: "written_superblock reference_externs 8192 2 [([1], [2, 3])]
      (superblock_new 1 8192 (segment_length 2 [([1], [2, 3])]) 2 1 9000
        (crc32c reference_externs (segment_metadata reference_externs (base_data reference_externs 8192 2 [([1], [2, 3])]))))"
    using written_superblock_new [OF base_fits_sample, of 1 9000] by simp
  have dist: "distinct (map fst [([1 :: u8], [2, 3 :: u8])])" by simp
  note opened = active_open_written [OF base_fits_sample dist sb, of "Mapped (segment_bytes reference_externs 8192 2 [([1], [2, 3])])" OnRead]
  show ?thesis using opened view_get_safe [OF opened ov, where key = "[7]" and keys = "[[1]]"] by auto
qed

end
