(* ===== verification/Lkv_Recovery_Correct.thy ===== *)
theory Lkv_Recovery_Correct
  imports Lkv_Recovery
begin

section \<open>Recovery returns the committed batches\<close>

text \<open>
  The scan never panics, whatever the bytes; an index that it returns satisfies the invariant of the
  Overlay and accounts for its memory. On a log that the writer produced, cut off anywhere, it
  returns the batches that are complete and nothing else. A byte that changed inside a complete record
  is reported.
\<close>

subsection \<open>An operation inside a mapping\<close>

lemma range_of_inside:
  assumes "b \<le> length ys"
  shows "range_of (length xs + a) (length xs + b) (xs @ ys @ zs) = range_of a b ys"
  using assms by (cases "a \<le> b") (simp_all add: range_of_def)

lemma operation_inside:
  assumes "cursor + 9 \<le> length payload"
  shows "operation_key_len (length pre + cursor) (pre @ payload @ post) = operation_key_len cursor payload"
    and "operation_value_len (length pre + cursor) (pre @ payload @ post) = operation_value_len cursor payload"
    and "(pre @ payload @ post) ! (length pre + cursor) = payload ! cursor"
  using assms range_of_inside [of "cursor + 5" payload pre "cursor + 1" post]
    range_of_inside [of "cursor + 9" payload pre "cursor + 5" post]
  by (simp_all add: operation_key_len_def operation_value_len_def add.assoc nth_append del: One_nat_def)

text \<open>The checks on an operation, with its fields read in place.\<close>

lemma batch_operation_at_Inr_iff:
  "batch_operation_at payload payload_offset cursor = Inr (off, key, value_end) \<longleftrightarrow>
     (let key_end = cursor + 9 + operation_key_len cursor payload in
      off = payload_offset + cursor \<and> payload_offset + cursor < usize_limit
      \<and> value_end = key_end + operation_value_len cursor payload
      \<and> value_end < usize_limit \<and> value_end \<le> length payload \<and> key = range_of (cursor + 9) key_end payload
      \<and> (payload ! cursor = 1 \<or> payload ! cursor = 2 \<and> operation_value_len cursor payload = 0)
      \<and> operation_key_len cursor payload \<le> MAX_KEY_SIZE \<and> operation_value_len cursor payload \<le> MAX_VALUE_SIZE)"
proof (cases "payload_offset + cursor < usize_limit \<and> cursor + 9 < usize_limit \<and> cursor + 9 \<le> length payload")
  case False
  have "batch_operation_at payload payload_offset cursor \<noteq> Inr (off, key, value_end)"
  proof
    assume "batch_operation_at payload payload_offset cursor = Inr (off, key, value_end)"
    then have "payload_offset + cursor < usize_limit" "cursor + 9 < usize_limit" "cursor + 9 \<le> length payload"
      unfolding batch_operation_at_def and_then_Inr_iff ok_or_Inr_iff by (auto simp: result_simps)
    with False show False by simp
  qed
  with False show ?thesis by (auto simp: Let_def)
next
  case True
  let ?h = "range_of cursor (cursor + 9) payload"
  have h0: "?h ! 0 = payload ! cursor" using True by (simp add: nth_range_of)
  have h1: "range_of 1 5 ?h = range_of (cursor + 1) (cursor + 5) payload"
    and h5: "range_of 5 9 ?h = range_of (cursor + 5) (cursor + 9) payload"
    by (simp_all add: range_of_range_of)
  have head: "checked_add payload_offset cursor = Some (payload_offset + cursor)"
    "checked_add cursor 9 = Some (cursor + 9)" "get_range payload cursor (cursor + 9) = Some ?h"
    using True by (simp_all add: checked_add_def get_range_def)
  show ?thesis
    unfolding batch_operation_at_def head ok_or_simps and_then_simps h0 h1 h5 Let_def
      operation_key_len_def [symmetric] operation_value_len_def [symmetric] marker_from_byte_put_delete
    using True by (auto simp: result_simps Let_def)
qed

lemma batch_operation_at_no_panic: "no_panic (batch_operation_at payload payload_offset cursor)"
  unfolding batch_operation_at_def by (auto simp: Let_def intro!: no_panic_and_then)

lemma batch_operation_at_slices:
  assumes "batch_operation_at payload (length pre) cursor = Inr (off, key, value_end)"
    and "length (pre @ payload @ post) < usize_limit"
  obtains v where "off = length pre + cursor" and "checked_slices (MappedRecord off) (pre @ payload @ post) = Some (key, v)"
    and "cursor + length key + value_charge v \<le> value_end" and "cursor < value_end"
    and "value_end \<le> length payload"
proof -
  let ?k = "operation_key_len cursor payload" and ?v = "operation_value_len cursor payload"
  let ?D = "pre @ payload @ post"
  from assms(1) have b: "off = length pre + cursor" "value_end = cursor + 9 + ?k + ?v" "value_end \<le> length payload"
    "key = range_of (cursor + 9) (cursor + 9 + ?k) payload"
    "payload ! cursor = 1 \<or> payload ! cursor = 2 \<and> ?v = 0"
    by (auto simp: batch_operation_at_Inr_iff Let_def)
  let ?val = "if payload ! cursor = 1 then Some (range_of (cursor + 9 + ?k) value_end payload) else None"
  have len: "length key = ?k" using b by simp
  note inside = operation_inside [of cursor payload pre post]
  have r1: "range_of (length pre + cursor + 9) (length pre + cursor + 9 + ?k) ?D = key"
    using range_of_inside [of "cursor + 9 + ?k" payload pre "cursor + 9" post] b by (simp add: add.assoc)
  have r2: "range_of (length pre + cursor + 9 + ?k) (length pre + cursor + 9 + ?k + ?v) ?D =
      range_of (cursor + 9 + ?k) value_end payload"
    using range_of_inside [of value_end payload pre "cursor + 9 + ?k" post] b by (simp add: add.assoc)
  have "checked_slices (MappedRecord off) ?D = Some (key, ?val)"
    using b inside r1 r2 assms(2) by (auto simp: checked_slices_Some_iff Let_def)
  moreover have "value_charge ?val \<le> ?v" using b by (simp add: value_charge_def)
  ultimately show thesis using b len by (intro that) auto
qed

subsection \<open>An operation the writer wrote\<close>

lemma operation_written:
  fixes pre post :: bytes and key :: bytes and entry :: overlay_entry
  defines "D \<equiv> pre @ batch_operation_bytes (key, entry) @ post" and "off \<equiv> length pre"
  assumes "length key < 4294967296" and "length (entry_slice entry) < 4294967296"
  shows "D ! off = marker_byte (entry_marker entry)"
    and "operation_key_len off D = length key"
    and "operation_value_len off D = length (entry_slice entry)"
    and "range_of (off + 9) (off + 9 + length key) D = key"
    and "range_of (off + 9 + length key) (off + 9 + length key + length (entry_slice entry)) D = entry_slice entry"
proof -
  let ?k = "u32_to_le_bytes (of_nat (length key))" and ?v = "u32_to_le_bytes (of_nat (length (entry_slice entry)))"
  have D: "D = pre @ [marker_byte (entry_marker entry)] @ ?k @ ?v @ key @ entry_slice entry @ post"
    by (simp add: D_def batch_operation_bytes.simps Let_def)
  show "D ! off = marker_byte (entry_marker entry)" by (simp add: D off_def)
  have "range_of (off + 1) (off + 5) D = ?k"
    using range_of_middle [of "pre @ [marker_byte (entry_marker entry)]" "off + 1" "off + 5" ?k]
    by (simp add: D off_def)
  then show "operation_key_len off D = length key"
    using assms by (simp add: operation_key_len_def unat_of_nat_u32)
  have "range_of (off + 5) (off + 9) D = ?v"
    using range_of_middle [of "pre @ [marker_byte (entry_marker entry)] @ ?k" "off + 5" "off + 9" ?v]
    by (simp add: D off_def)
  then show "operation_value_len off D = length (entry_slice entry)"
    using assms by (simp add: operation_value_len_def unat_of_nat_u32)
  show "range_of (off + 9) (off + 9 + length key) D = key"
    using range_of_middle [of "pre @ [marker_byte (entry_marker entry)] @ ?k @ ?v" "off + 9" _ key]
    by (simp add: D off_def)
  show "range_of (off + 9 + length key) (off + 9 + length key + length (entry_slice entry)) D = entry_slice entry"
    using range_of_middle [of "pre @ [marker_byte (entry_marker entry)] @ ?k @ ?v @ key"
        "off + 9 + length key" _ "entry_slice entry"]
    by (simp add: D off_def)
qed

lemma locates_written:
  assumes "length key < 4294967296" and "length (entry_slice entry) < 4294967296"
    and "length (pre @ batch_operation_bytes (key, entry) @ post) < usize_limit"
  shows "locates (pre @ batch_operation_bytes (key, entry) @ post) \<lparr>operation_offset = length pre\<rparr>
    (key, entry_value entry)"
  using operation_written [of key entry pre post] assms
  by (cases entry) (auto simp: locates_def into_record_def checked_slices_Some_iff Let_def length_batch_operation_bytes)

lemma batch_operation_at_written:
  assumes "length key \<le> MAX_KEY_SIZE" and "length (entry_slice entry) \<le> MAX_VALUE_SIZE"
    and "payload_offset + length (pre @ batch_operation_bytes (key, entry) @ post) < usize_limit"
  shows "batch_operation_at (pre @ batch_operation_bytes (key, entry) @ post) payload_offset (length pre) =
    Inr (payload_offset + length pre, key, length (pre @ batch_operation_bytes (key, entry)))"
  using operation_written [of key entry pre post] assms
  by (cases entry) (auto simp: batch_operation_at_Inr_iff Let_def length_batch_operation_bytes)

subsection \<open>The operations of a batch\<close>

definition recovered :: "externs \<Rightarrow> base_bytes \<Rightarrow> overlay_map \<Rightarrow> nat \<Rightarrow> bool" where
  "recovered E b index memory \<longleftrightarrow>
     (\<exists>table. index = MappedOverlay (Some b) table []) \<and> overlay_ok E (deref b) index
     \<and> memory = map_charge index"

lemma recovered_empty: "recovered E b (overlay_mapped (Some b)) 0"
  by (simp add: recovered_def overlay_mapped_def Let_def mapping_or_empty_def records_ok_def)

lemma install_recovered_step:
  assumes "recovered E b index memory" and "checked_slices (MappedRecord off) (deref b) = Some (key, v)"
    and "memory + length key + value_charge v < usize_limit"
  obtains removed added index' memory' where
    "install_recovered \<lparr>operation_offset = off\<rparr> (xxh3_64 E key) index = Inr ((removed, added), index')"
    and "saturating_add (saturating_sub memory removed) added = memory'"
    and "recovered E b index' memory'" and "overlay_abs index' = (overlay_abs index)(key \<mapsto> v)"
    and "memory' \<le> memory + length key + value_charge v"
proof -
  from assms(1) obtain table where index: "index = MappedOverlay (Some b) table []"
    and ok: "overlay_ok E (deref b) (MappedOverlay (Some b) table [])"
    and memory: "memory = map_charge (MappedOverlay (Some b) table [])"
    by (auto simp: recovered_def simp del: overlay_ok.simps map_charge.simps)
  from install_recovered_ok [OF ok assms(2)] obtain removed table' where
    "install_recovered \<lparr>operation_offset = off\<rparr> (xxh3_64 E key) (MappedOverlay (Some b) table []) =
       Inr ((removed, length key + value_charge v), MappedOverlay (Some b) table' [])"
    "overlay_ok E (deref b) (MappedOverlay (Some b) table' [])"
    "overlay_abs (MappedOverlay (Some b) table' []) =
       (overlay_abs (MappedOverlay (Some b) table []))(key \<mapsto> v)"
    "map_charge (MappedOverlay (Some b) table' []) + removed = memory + (length key + value_charge v)"
    "removed \<le> memory"
    unfolding memory by metis
  with index assms(3) show thesis
    by (intro that [of removed "length key + value_charge v" "MappedOverlay (Some b) table' []"])
      (auto simp: recovered_def saturating_sub_def simp del: overlay_ok.simps map_charge.simps overlay_abs.simps
        install_recovered.simps)
qed

lemma apply_batch_loop_safe:
  assumes D: "deref b = pre @ payload @ post" "length (deref b) < usize_limit"
    and "recovered E b index memory" and "memory \<le> length pre + cursor" and "cursor \<le> length payload"
  shows "no_panic (apply_batch_loop E payload (length pre) n cursor index memory)
    \<and> (\<forall>cursor' index' memory'. apply_batch_loop E payload (length pre) n cursor index memory =
          Inr (cursor', index', memory') \<longrightarrow>
        recovered E b index' memory' \<and> memory' \<le> length pre + cursor' \<and> cursor' \<le> length payload)"
  using assms(3-)
proof (induction n arbitrary: cursor index memory)
  case 0
  then show ?case by simp
next
  case (Suc n)
  show ?case
  proof (cases "batch_operation_at payload (length pre) cursor")
    case (Inl e)
    then have "no_panic (Inl e :: (nat \<times> overlay_map \<times> nat) result)"
      using batch_operation_at_no_panic [of payload "length pre" cursor] by (simp add: no_panic_def)
    with Inl show ?thesis by simp
  next
    case (Inr r)
    obtain off key value_end where r: "r = (off, key, value_end)" using prod_cases3 by blast
    from batch_operation_at_slices [OF Inr [unfolded r]] D obtain v where
      v: "checked_slices (MappedRecord off) (deref b) = Some (key, v)"
        "cursor + length key + value_charge v \<le> value_end" "value_end \<le> length payload"
      by metis
    with Suc.prems D have "memory + length key + value_charge v < usize_limit" by simp
    from install_recovered_step [OF Suc.prems(1) v(1) this] obtain removed added index' memory' where
      step: "install_recovered \<lparr>operation_offset = off\<rparr> (xxh3_64 E key) index = Inr ((removed, added), index')"
        "saturating_add (saturating_sub memory removed) added = memory'"
      and "recovered E b index' memory'" and "memory' \<le> memory + length key + value_charge v"
      by metis
    with Suc.IH [of index' memory' value_end] Suc.prems v step Inr r show ?thesis by simp
  qed
qed

lemma apply_batch_loop_written:
  assumes D: "deref b = pre @ payload @ post" "length (deref b) < usize_limit"
    and "payload = done @ concat (map batch_operation_bytes staged)"
    and "\<forall>(key, entry) \<in> set staged. length key \<le> MAX_KEY_SIZE \<and> length (entry_slice entry) \<le> MAX_VALUE_SIZE"
    and "recovered E b index memory" and "memory \<le> length pre + length done"
  shows "\<exists>index' memory'. apply_batch_loop E payload (length pre) (length staged) (length done) index memory =
      Inr (length payload, index', memory')
    \<and> recovered E b index' memory' \<and> memory' \<le> length pre + length payload
    \<and> overlay_abs index' = overlay_abs index ++ map_of (rev (staged_operations staged))"
  using assms(3-)
proof (induction staged arbitrary: "done" index memory)
  case Nil
  then show ?case by (simp add: staged_operations_def)
next
  case (Cons op staged)
  obtain key entry where op: "op = (key, entry)" by fastforce
  let ?op = "batch_operation_bytes (key, entry)" and ?rest = "concat (map batch_operation_bytes staged)"
  have payload: "payload = done @ ?op @ ?rest" using Cons.prems(1) op by simp
  have lens: "length key \<le> MAX_KEY_SIZE" "length (entry_slice entry) \<le> MAX_VALUE_SIZE"
    using Cons.prems(2) op by auto
  have at: "batch_operation_at payload (length pre) (length done) =
      Inr (length pre + length done, key, length (done @ ?op))"
    unfolding payload by (rule batch_operation_at_written) (use lens D payload in auto)
  have "locates ((pre @ done) @ ?op @ (?rest @ post)) \<lparr>operation_offset = length (pre @ done)\<rparr> (key, entry_value entry)"
    by (rule locates_written) (use lens D payload in auto)
  then have slices: "checked_slices (MappedRecord (length pre + length done)) (deref b) = Some (key, entry_value entry)"
    using D payload by (simp add: locates_def into_record_def)
  have charge: "length key + value_charge (entry_value entry) \<le> length ?op"
    by (cases entry) (simp_all add: length_batch_operation_bytes value_charge_def)
  with Cons.prems(4) D payload have "memory + length key + value_charge (entry_value entry) < usize_limit" by simp
  from install_recovered_step [OF Cons.prems(3) slices this] obtain removed added index1 memory1 where
    step: "install_recovered \<lparr>operation_offset = length pre + length done\<rparr> (xxh3_64 E key) index =
        Inr ((removed, added), index1)"
      "saturating_add (saturating_sub memory removed) added = memory1"
    and one: "recovered E b index1 memory1" "overlay_abs index1 = (overlay_abs index)(key \<mapsto> entry_value entry)"
      "memory1 \<le> memory + length key + value_charge (entry_value entry)"
    by metis
  have le: "memory1 \<le> length pre + length (done @ ?op)" using one(3) Cons.prems(4) charge by simp
  have "payload = (done @ ?op) @ ?rest" using payload by simp
  moreover have "\<forall>(key, entry) \<in> set staged. length key \<le> MAX_KEY_SIZE \<and> length (entry_slice entry) \<le> MAX_VALUE_SIZE"
    using Cons.prems(2) by auto
  ultimately obtain index2 memory2 where
    "apply_batch_loop E payload (length pre) (length staged) (length (done @ ?op)) index1 memory1 =
       Inr (length payload, index2, memory2)"
    "recovered E b index2 memory2" "memory2 \<le> length pre + length payload"
    "overlay_abs index2 = overlay_abs index1 ++ map_of (rev (staged_operations staged))"
    using Cons.IH [of "done @ ?op" index1 memory1] one(1) le by blast
  with at step one(2) op show ?case
    by (intro exI [of _ index2] exI [of _ memory2]) (simp add: staged_operations_def map_add_upd_left)
qed

definition batch_keys_ok :: "overlay_entry keymap \<Rightarrow> bool" where
  "batch_keys_ok staged \<longleftrightarrow> (\<forall>(key, entry) \<in> set staged. length key \<le> MAX_KEY_SIZE)"

lemma no_panic_and_then_iff_Inl: "r = Inl e \<Longrightarrow> no_panic r \<Longrightarrow> no_panic (and_then r f)"
  by (simp add: no_panic_def)

lemma apply_batch_payload_safe:
  assumes D: "deref b = pre @ payload @ post" "length (deref b) < usize_limit"
    and "recovered E b index memory" and "memory \<le> length pre"
  shows "no_panic (apply_batch_payload E payload (length pre) index memory)"
    and "apply_batch_payload E payload (length pre) index memory = Inr (index', memory') \<Longrightarrow>
      recovered E b index' memory' \<and> memory' \<le> length pre + length payload"
proof -
  from assms(3) obtain table where index: "index = MappedOverlay (Some b) table []"
    by (auto simp: recovered_def)
  have le: "memory \<le> length pre + 4" using assms(4) by simp
  note loop = apply_batch_loop_safe [OF D assms(3) le]
  show "no_panic (apply_batch_payload E payload (length pre) index memory)"
    unfolding apply_batch_payload_def Let_def
    using loop by (auto intro!: no_panic_and_then simp: index get_range_def simp del: apply_batch_loop.simps)
  show "recovered E b index' memory' \<and> memory' \<le> length pre + length payload"
    if "apply_batch_payload E payload (length pre) index memory = Inr (index', memory')"
    using that loop unfolding apply_batch_payload_def Let_def
    by (auto simp: result_simps split: if_splits)
qed

lemma apply_batch_payload_written:
  assumes D: "deref b = pre @ batch_payload staged @ post" "length (deref b) < usize_limit"
    and staged: "batch_fits staged" "batch_keys_ok staged" and "try_reserve E (length staged)"
    and "recovered E b index memory" and "memory \<le> length pre"
  shows "\<exists>index' memory'. apply_batch_payload E (batch_payload staged) (length pre) index memory = Inr (index', memory')
    \<and> recovered E b index' memory' \<and> memory' \<le> length pre + length (batch_payload staged)
    \<and> overlay_abs index' = overlay_abs index ++ map_of (rev (staged_operations staged))"
proof -
  let ?n = "u32_to_le_bytes (of_nat (length staged))" and ?payload = "batch_payload staged"
  from assms(6) obtain table where index: "index = MappedOverlay (Some b) table []" by (auto simp: recovered_def)
  have "length (entry_slice entry) \<le> length ?payload" if "(key, entry) \<in> set staged" for key entry
    using that by (induction staged) (auto simp: length_batch_payload_Cons)
  with staged have lens: "\<forall>(key, entry) \<in> set staged. length key \<le> MAX_KEY_SIZE \<and> length (entry_slice entry) \<le> MAX_VALUE_SIZE"
    by (fastforce simp: batch_keys_ok_def batch_fits_def)
  have payload: "?payload = ?n @ concat (map batch_operation_bytes staged)" by (simp add: batch_payload_def)
  from assms(7) have "memory \<le> length pre + length ?n" by simp
  from apply_batch_loop_written [OF D payload lens assms(6) this] obtain index' memory' where
    loop: "apply_batch_loop E ?payload (length pre) (length staged) 4 index memory = Inr (length ?payload, index', memory')"
    and res: "recovered E b index' memory'" "memory' \<le> length pre + length ?payload"
      "overlay_abs index' = overlay_abs index ++ map_of (rev (staged_operations staged))"
    by auto
  have "range_of 0 4 ?payload = ?n"
    using range_of_middle [of "[]" 0 4 ?n "concat (map batch_operation_bytes staged)"] payload by simp
  then have count: "get_range ?payload 0 4 = Some ?n" using payload by (simp add: get_range_def)
  have "unat (of_nat (length staged) :: u32) = length staged"
    using staged by (intro unat_of_nat_u32) (simp add: batch_fits_def)
  then have "apply_batch_payload E ?payload (length pre) index memory = Inr (index', memory')"
    using count loop staged assms(5) by (simp add: apply_batch_payload_def Let_def index batch_fits_def)
  with res show ?thesis by blast
qed

subsection \<open>One record\<close>

lemma header_fields:
  fixes E m k v c
  defines "h \<equiv> write_record_header E m k v c"
  shows "h ! 0 = marker_byte m" and "range_of (Suc 0) 5 h = u32_to_le_bytes k" and "range_of 5 9 h = u32_to_le_bytes v"
    and "range_of 9 13 h = u32_to_le_bytes c"
    and "range_of 13 17 h = u32_to_le_bytes (crc32c E (take 13 h))"
proof -
  let ?b = "marker_byte m" and ?k = "u32_to_le_bytes k" and ?v = "u32_to_le_bytes v" and ?c = "u32_to_le_bytes c"
  let ?x = "u32_to_le_bytes (crc32c E ([?b] @ ?k @ ?v @ ?c))"
  have h: "h = [?b] @ ?k @ ?v @ ?c @ ?x" by (simp add: h_def write_record_header_def Let_def)
  then show "h ! 0 = ?b" by simp
  show "range_of (Suc 0) 5 h = ?k" using range_of_middle [of "[?b]" 1 5 ?k "?v @ ?c @ ?x"] h by simp
  show "range_of 5 9 h = ?v" using range_of_middle [of "[?b] @ ?k" 5 9 ?v "?c @ ?x"] h by simp
  show "range_of 9 13 h = ?c" using range_of_middle [of "[?b] @ ?k @ ?v" 9 13 ?c ?x] h by simp
  have "take 13 h = [?b] @ ?k @ ?v @ ?c" by (simp add: h)
  then show "range_of 13 17 h = u32_to_le_bytes (crc32c E (take 13 h))"
    using range_of_middle [of "[?b] @ ?k @ ?v @ ?c" 13 17 ?x "[]"] h by simp
qed

lemma scan_record_header:
  assumes D: "D = pre @ write_record_header E marker k v c @ post" and "length pre + 17 < usize_limit"
    and abs: "mapping_offset + length pre < usize_limit"
  shows "scan_record E D mapping_offset (length pre) index memory =
    (let record_end = length pre + 17 + (unat k + unat v) in
     if \<not> record_end < usize_limit then Inl (Err (invalid_base ''overlay record offset overflow''))
     else case get_range D (length pre + 17) record_end of None \<Rightarrow> Inr None
     | Some payload \<Rightarrow>
       if marker = Compact \<and> k = 0 \<and> v = 0
       then (if c = record_checksum E Compact 0 0 [] then Inr None
             else Inl (Err (corrupted_log (mapping_offset + length pre)
               (''invalid compact marker checksum at offset '' @ show_nat (mapping_offset + length pre)))))
       else if marker \<noteq> Batch \<or> k \<noteq> 0
       then Inl (Err (from_io InvalidData (''unexpected overlay marker at offset '' @ show_nat (mapping_offset + length pre))))
       else if unat k + unat v > MAX_LOG_PAYLOAD_SIZE
       then Inl (Err (from_io InvalidData ''overlay record exceeds configured format limits''))
       else if record_checksum E Batch k v payload \<noteq> c
       then Inl (Err (corrupted_log (mapping_offset + length pre)
               (''overlay checksum mismatch at offset '' @ show_nat (mapping_offset + length pre))))
       else and_then (apply_batch_payload E payload (length pre + 17) index memory)
         (\<lambda>(index, memory). Inr (Some (record_end, index, memory))))"
proof -
  let ?h = "write_record_header E marker k v c"
  have header: "get_range D (length pre) (length pre + 17) = Some ?h"
    using range_of_middle [of pre "length pre" "length pre + 17" ?h post] D by (simp add: get_range_def)
  have "unat k + unat v < usize_limit"
    using unat_u32_less [of k] unat_u32_less [of v] by (simp add: usize_limit_def)
  then have adds: "checked_add (length pre) 17 = Some (length pre + 17)"
    "checked_add mapping_offset (length pre) = Some (mapping_offset + length pre)"
    "checked_add (unat k) (unat v) = Some (unat k + unat v)"
    using assms(2) abs by (simp_all add: checked_add_def)
  have zero: "unat w = 0 \<longleftrightarrow> w = 0" for w :: u32 by (simp add: unat_eq_zero)
  show ?thesis
    unfolding scan_record_def LOG_HEADER_SIZE_def LOG_HEADER_CHECKSUM_OFFSET_def adds header option.case
      ok_or_simps and_then_simps Let_def One_nat_def header_fields u32_from_to_le_bytes marker_from_to_byte
      zero
    by (cases marker) (auto simp: checked_add_def record_checksum_def split: option.split)
qed

lemma batch_record_eq:
  obtains v where "batch_record E staged =
      write_record_header E Batch 0 v (record_checksum E Batch 0 v (batch_payload staged)) @ batch_payload staged"
    and "batch_fits staged \<Longrightarrow> unat v = length (batch_payload staged)"
proof (rule that)
  show "batch_record E staged = write_record_header E Batch 0 (of_nat (length (batch_payload staged)))
      (record_checksum E Batch 0 (of_nat (length (batch_payload staged))) (batch_payload staged)) @ batch_payload staged"
    by (simp add: batch_record_def Let_def)
  show "unat (of_nat (length (batch_payload staged)) :: u32) = length (batch_payload staged)" if "batch_fits staged"
    using that by (intro unat_of_nat_u32) (simp add: batch_fits_def)
qed

lemma scan_record_batch:
  assumes D: "deref b = pre @ batch_record E staged @ post" "length (deref b) < usize_limit"
    and abs: "mapping_offset + length pre < usize_limit"
    and staged: "batch_fits staged" "batch_keys_ok staged" and "try_reserve E (length staged)"
    and "recovered E b index memory" and "memory \<le> length pre"
  shows "\<exists>index' memory'. scan_record E (deref b) mapping_offset (length pre) index memory =
      Inr (Some (length (pre @ batch_record E staged), index', memory'))
    \<and> recovered E b index' memory' \<and> memory' \<le> length (pre @ batch_record E staged)
    \<and> overlay_abs index' = overlay_abs index ++ map_of (rev (staged_operations staged))"
proof -
  let ?p = "batch_payload staged"
  obtain v where rec: "batch_record E staged = write_record_header E Batch 0 v (record_checksum E Batch 0 v ?p) @ ?p"
    and v: "unat v = length ?p"
    using batch_record_eq [of E staged] staged(1) by metis
  let ?h = "write_record_header E Batch 0 v (record_checksum E Batch 0 v ?p)"
  have D': "deref b = pre @ ?h @ ?p @ post" using D(1) rec by simp
  have "deref b = (pre @ ?h) @ ?p @ post" using D' by simp
  from apply_batch_payload_written [OF this D(2) staged assms(6,7)] assms(8) obtain index' memory' where
    app: "apply_batch_payload E ?p (length pre + 17) index memory = Inr (index', memory')"
    and res: "recovered E b index' memory'" "memory' \<le> length pre + 17 + length ?p"
      "overlay_abs index' = overlay_abs index ++ map_of (rev (staged_operations staged))"
    by (auto simp: add.assoc)
  have "get_range (deref b) (length pre + 17) (length pre + 17 + length ?p) = Some ?p"
    using range_of_middle [of "pre @ ?h" "length pre + 17" _ ?p post] D' by (simp add: get_range_def)
  moreover have "length pre + 17 < usize_limit" "length pre + 17 + length ?p < usize_limit" using D' D(2) by simp_all
  ultimately have "scan_record E (deref b) mapping_offset (length pre) index memory =
      Inr (Some (length pre + 17 + length ?p, index', memory'))"
    using scan_record_header [OF D' _ abs] v app staged(1) by (simp add: Let_def batch_fits_def)
  with res show ?thesis by (simp add: length_batch_record add.assoc)
qed

text \<open>A record whose end is missing ends the scan.\<close>

lemma scan_record_short:
  assumes "length D < offset + 17" and "offset + 17 < usize_limit"
  shows "scan_record E D mapping_offset offset index memory = Inr None"
  using assms by (simp add: scan_record_def checked_add_def get_range_def)

lemma scan_record_torn:
  assumes "n < length (batch_record E staged)" and "batch_fits staged"
    and "length (pre @ batch_record E staged) < usize_limit" and "mapping_offset + length pre < usize_limit"
  shows "scan_record E (pre @ take n (batch_record E staged)) mapping_offset (length pre) index memory = Inr None"
proof (cases "n < 17")
  case True
  with assms show ?thesis by (intro scan_record_short) (simp_all add: length_batch_record)
next
  case False
  let ?p = "batch_payload staged"
  obtain v where rec: "batch_record E staged = write_record_header E Batch 0 v (record_checksum E Batch 0 v ?p) @ ?p"
    and v: "unat v = length ?p"
    using batch_record_eq [of E staged] assms(2) by metis
  have "pre @ take n (batch_record E staged) =
      pre @ write_record_header E Batch 0 v (record_checksum E Batch 0 v ?p) @ take (n - 17) ?p"
    using False rec by simp
  from scan_record_header [OF this, of mapping_offset index memory] show ?thesis
    using assms False v by (simp add: length_batch_record get_range_def Let_def)
qed

lemma scan_record_compact:
  assumes "length (pre @ write_compact_marker E @ post) < usize_limit" and "mapping_offset + length pre < usize_limit"
    and "crc32c_crate E"
  shows "scan_record E (pre @ write_compact_marker E @ post) mapping_offset (length pre) index memory = Inr None"
proof -
  let ?c = "checksum_parts E Compact 0 0 [] []"
  have "?c = record_checksum E Compact 0 0 []"
    by (simp add: record_checksum_def record_checksum_start_def checksum_parts_def Let_def
        crc32c_crate.append_Nil [OF assms(3)])
  with scan_record_header [of "pre @ write_compact_marker E @ post" pre E Compact 0 0 ?c post mapping_offset index memory]
    assms
  show ?thesis by (simp add: write_compact_marker_def get_range_def Let_def)
qed

subsection \<open>A record with a changed byte\<close>

lemma scan_record_bad_header:
  assumes "get_range D offset (offset + 17) = Some header" and "offset + 17 < usize_limit"
    and "mapping_offset + offset < usize_limit"
    and "crc32c E (take 13 header) \<noteq> u32_from_le_bytes (range_of 13 17 header)"
  shows "\<exists>msg. scan_record E D mapping_offset offset index memory =
    Inl (Err (corrupted_log (mapping_offset + offset) msg))"
  using assms by (auto simp: scan_record_def checked_add_def)

lemma header_update_detected:
  assumes "crc32c_detects E" and "i < 17" and "write_record_header E m k v c ! i \<noteq> x"
  defines "h \<equiv> (write_record_header E m k v c)[i := x]"
  shows "crc32c E (take 13 h) \<noteq> u32_from_le_bytes (range_of 13 17 h)"
proof -
  let ?h = "write_record_header E m k v c"
  have crc: "crc32c E ds = crc32c_append E 0 ds" for ds
    using crc32c_crate.crc32c_append_0 [OF crc32c_detects.axioms(1) [OF assms(1)]] .
  show ?thesis
  proof (cases "i < 13")
    case True
    then have "crc32c_append E 0 ((take 13 ?h)[i := x]) \<noteq> crc32c_append E 0 (take 13 ?h)"
      using assms(2,3) by (intro crc32c_detects.crc32c_update [OF assms(1)]) simp_all
    moreover have "take 13 h = (take 13 ?h)[i := x]" by (simp add: h_def take_update_swap)
    ultimately show ?thesis using True header_fields(5) [of E m k v c]
      by (simp add: h_def update_range_of crc)
  next
    case False
    have "take 13 h = take 13 ?h" using False by (simp add: h_def)
    moreover have "range_of 13 17 h \<noteq> range_of 13 17 ?h"
    proof
      assume "range_of 13 17 h = range_of 13 17 ?h"
      then have "range_of 13 17 h ! (i - 13) = range_of 13 17 ?h ! (i - 13)" by simp
      with False assms(2,3) show False by (simp add: nth_range_of h_def)
    qed
    moreover have "length (range_of 13 17 h) = 4" "length (range_of 13 17 ?h) = 4" by (simp_all add: h_def)
    ultimately show ?thesis using header_fields(5) [of E m k v c] u32_to_from_le_bytes by metis
  qed
qed

lemma scan_record_changed:
  assumes "crc32c_detects E" and "batch_fits staged"
    and "i < length (batch_record E staged)" and "batch_record E staged ! i \<noteq> x"
    and len: "length (pre @ batch_record E staged @ post) < usize_limit"
    and abs: "mapping_offset + length pre < usize_limit"
  shows "\<exists>msg. scan_record E (pre @ (batch_record E staged)[i := x] @ post) mapping_offset (length pre) index memory =
    Inl (Err (corrupted_log (mapping_offset + length pre) msg))"
proof -
  let ?p = "batch_payload staged"
  obtain v where rec: "batch_record E staged = write_record_header E Batch 0 v (record_checksum E Batch 0 v ?p) @ ?p"
    and v: "unat v = length ?p"
    using batch_record_eq [of E staged] assms(2) by metis
  let ?h = "write_record_header E Batch 0 v (record_checksum E Batch 0 v ?p)"
  show ?thesis
  proof (cases "i < 17")
    case True
    have "get_range (pre @ (batch_record E staged)[i := x] @ post) (length pre) (length pre + 17) = Some (?h[i := x])"
      using True rec range_of_middle [of pre "length pre" "length pre + 17" "?h[i := x]" "?p @ post"]
      by (simp add: get_range_def list_update_append)
    moreover have "?h ! i \<noteq> x" using True rec assms(4) by (simp add: nth_append)
    ultimately show ?thesis
      using header_update_detected [OF assms(1) True, of Batch 0 v _ x] len abs
      by (intro scan_record_bad_header) (simp_all add: length_batch_record)
  next
    case False
    let ?q = "?p[i - 17 := x]" and ?s = "record_checksum_start E Batch 0 v"
    have D: "pre @ (batch_record E staged)[i := x] @ post = pre @ ?h @ ?q @ post"
      using False rec by (simp add: list_update_append)
    have "crc32c_append E ?s ?q \<noteq> crc32c_append E ?s ?p"
      using False assms(3,4) rec by (intro crc32c_detects.crc32c_update [OF assms(1)]) (auto simp: nth_append)
    then have ne: "record_checksum E Batch 0 v ?q \<noteq> record_checksum E Batch 0 v ?p"
      by (simp add: record_checksum_def)
    have "get_range (pre @ ?h @ ?q @ post) (length pre + 17) (length pre + 17 + length ?p) = Some ?q"
      using range_of_middle [of "pre @ ?h" "length pre + 17" _ ?q post] by (simp add: get_range_def)
    with scan_record_header [OF refl _ abs, of E Batch 0 v "record_checksum E Batch 0 v ?p" "?q @ post" index memory]
      ne v len assms(2)
    show ?thesis unfolding D by (auto simp: length_batch_record Let_def batch_fits_def)
  qed
qed

subsection \<open>Any bytes at all\<close>

lemma split_at_range:
  "a \<le> b \<Longrightarrow> b \<le> length xs \<Longrightarrow> xs = take a xs @ range_of a b xs @ drop b xs"
  unfolding range_of_def by (metis append_take_drop_id append.assoc le_add_diff_inverse take_add)

lemma scan_record_safe:
  assumes len: "length (deref b) < usize_limit" and "recovered E b index memory" and "memory \<le> offset"
  shows "no_panic (scan_record E (deref b) mapping_offset offset index memory)"
    and "scan_record E (deref b) mapping_offset offset index memory = Inr (Some (next, index', memory')) \<Longrightarrow>
      recovered E b index' memory' \<and> memory' \<le> next"
proof -
  let ?D = "deref b"
  have app: "no_panic (apply_batch_payload E (range_of h n ?D) h index memory)"
    "apply_batch_payload E (range_of h n ?D) h index memory = Inr (i, m) \<Longrightarrow> recovered E b i m \<and> m \<le> n"
    if "offset \<le> h" "h \<le> n" "n \<le> length ?D" for h n i m
  proof -
    have D: "?D = take h ?D @ range_of h n ?D @ drop n ?D" using that by (intro split_at_range)
    have h: "length (take h ?D) = h" using that by simp
    have "memory \<le> length (take h ?D)" using that assms(3) by simp
    note safe = apply_batch_payload_safe [OF D len assms(2) this, unfolded h]
    show "no_panic (apply_batch_payload E (range_of h n ?D) h index memory)" by (rule safe(1))
    show "recovered E b i m \<and> m \<le> n" if "apply_batch_payload E (range_of h n ?D) h index memory = Inr (i, m)"
      using safe(2) [OF that] \<open>h \<le> n\<close> \<open>n \<le> length ?D\<close> by simp
  qed
  show "no_panic (scan_record E ?D mapping_offset offset index memory)"
    unfolding scan_record_def Let_def
    by (auto simp: result_simps intro!: no_panic_and_then app(1) split: option.split)
  show "recovered E b index' memory' \<and> memory' \<le> next"
    if "scan_record E ?D mapping_offset offset index memory = Inr (Some (next, index', memory'))"
    using that unfolding scan_record_def Let_def
    by (auto simp: result_simps split: option.splits if_splits dest!: app(2) [rotated -1])
qed

lemma scan_loop_safe:
  assumes "length (deref b) < usize_limit" and "recovered E b index memory" and "memory \<le> offset"
    and "offset \<le> length (deref b)"
  shows "no_panic (scan_loop E (deref b) mapping_offset offset index memory)
    \<and> (\<forall>offset' index' memory'. scan_loop E (deref b) mapping_offset offset index memory =
          Inr (offset', index', memory') \<longrightarrow>
        recovered E b index' memory' \<and> memory' \<le> offset' \<and> offset \<le> offset' \<and> offset' \<le> length (deref b))"
  using assms
proof (induction "length (deref b) - offset" arbitrary: offset index memory rule: less_induct)
  case less
  let ?turn = "scan_record E (deref b) mapping_offset offset index memory"
  show ?case
  proof (cases "offset < length (deref b)")
    case False
    with less.prems show ?thesis by (subst (1 2) scan_loop.simps) simp
  next
    case True
    note safe = scan_record_safe [OF less.prems(1-3), of mapping_offset]
    show ?thesis
    proof (cases ?turn)
      case (Inl e)
      with safe(1) have "no_panic (Inl e :: (nat \<times> overlay_map \<times> nat) result)" by (simp add: no_panic_def)
      with Inl True show ?thesis by (subst (1 2) scan_loop.simps) simp
    next
      case (Inr r)
      show ?thesis
      proof (cases r)
        case None
        with Inr True less.prems show ?thesis by (subst (1 2) scan_loop.simps) simp
      next
        case (Some t)
        obtain n index1 memory1 where t: "t = (n, index1, memory1)" using prod_cases3 by blast
        with Inr Some have turn: "?turn = Inr (Some (n, index1, memory1))" by simp
        from scan_record_advances [OF turn] safe(2) [OF turn] True
        have "length (deref b) - n < length (deref b) - offset" "recovered E b index1 memory1" "memory1 \<le> n"
          "n \<le> length (deref b)" "offset < n" by auto
        with less.hyps [of n index1 memory1] less.prems(1) turn True show ?thesis
          by (subst (1 2) scan_loop.simps) (fastforce intro: less_imp_le less_le_trans)
      qed
    qed
  qed
qed

subsection \<open>Where the recovered records lie\<close>

text \<open>
  Every record the scan has installed lies before the end of the records it has accepted, so an
  incomplete rest of the log may be cut off under the index.
\<close>

fun records_in :: "bytes \<Rightarrow> overlay_map \<Rightarrow> bool" where
  "records_in m (MappedOverlay bs table tail) \<longleftrightarrow> (\<forall>r \<in> snd ` set table. record_ok m r)"
| "records_in m (MemoryOverlay table) \<longleftrightarrow> True"

lemma records_in_mono: "records_in m index \<Longrightarrow> records_in (m @ rest) index"
  by (cases index) (auto intro: record_mono(1))

lemma table_replace_elements:
  "table_replace hash eq f t = Inr (Some (x, t')) \<Longrightarrow> snd ` set t' \<subseteq> insert (f x) (snd ` set t)"
proof (induction t arbitrary: t')
  case Nil
  then show ?case by simp
next
  case (Cons entry t)
  obtain h y where entry: "entry = (h, y)" by fastforce
  from Cons.prems consider "x = y" "t' = (h, f y) # t"
    | t1 where "table_replace hash eq f t = Inr (Some (x, t1))" "t' = (h, y) # t1"
    by (auto simp: entry result_simps split: if_splits option.splits)
  then show ?case
  proof cases
    case 1
    then show ?thesis by (auto simp: entry)
  next
    case 2
    with Cons.IH [OF 2(1)] show ?thesis by (auto simp: entry)
  qed
qed

lemma install_recovered_records:
  assumes "install_recovered mutation hash index = Inr (charges, index')" and "records_in m index"
    and "record_ok m (into_record mutation)"
  shows "records_in m index'"
proof (cases index)
  case (MemoryOverlay table)
  with assms(1) show ?thesis by simp
next
  case (MappedOverlay bs table tail)
  with assms(1) obtain b table' found where index': "index' = MappedOverlay bs table' tail" and
    ins: "insert_mapped_record_hashed table (deref b) (into_record mutation) hash = Inr (found, table')"
    by (auto simp: Let_def result_simps split: option.splits)
  from ins have "snd ` set table' \<subseteq> insert (into_record mutation) (snd ` set table)"
    by (auto simp: insert_mapped_record_hashed_def result_simps table_insert_unique_def image_subset_iff split: option.splits
        dest!: table_replace_elements) (metis snd_conv)
  moreover have "\<forall>r \<in> insert (into_record mutation) (snd ` set table). record_ok m r" using assms(2,3) MappedOverlay by simp
  ultimately have "\<forall>r \<in> snd ` set table'. record_ok m r" by blast
  then show ?thesis by (simp add: index')
qed

lemma apply_batch_loop_records:
  assumes "apply_batch_loop E payload (length pre) n cursor index memory = Inr (cursor', index', memory')"
    and "records_in (pre @ payload) index" and "length (pre @ payload) < usize_limit"
  shows "records_in (pre @ payload) index'"
  using assms(1,2)
proof (induction n arbitrary: cursor index memory)
  case 0
  then show ?case by simp
next
  case (Suc n)
  from Suc.prems(1) obtain off key value_end charges index1 memory1 where
    op: "batch_operation_at payload (length pre) cursor = Inr (off, key, value_end)"
    and ins: "install_recovered \<lparr>operation_offset = off\<rparr> (xxh3_64 E key) index = Inr (charges, index1)"
    and rest: "apply_batch_loop E payload (length pre) n value_end index1 memory1 = Inr (cursor', index', memory')"
    by (auto simp: result_simps)
  from batch_operation_at_slices [OF op, of "[]"] assms(3) obtain v where
    "checked_slices (MappedRecord off) (pre @ payload) = Some (key, v)" by auto
  then have "record_ok (pre @ payload) (into_record \<lparr>operation_offset = off\<rparr>)"
    by (simp add: record_ok_def into_record_def)
  from install_recovered_records [OF ins Suc.prems(2) this] show ?case by (rule Suc.IH [OF rest])
qed

lemma scan_record_records:
  assumes "scan_record E D mapping_offset offset index memory = Inr (Some (stop, index', memory'))"
    and "records_in (take offset D) index" and "length D < usize_limit"
  shows "records_in (take stop D) index'"
proof -
  let ?h = "offset + 17"
  from assms(1) have h: "?h \<le> stop" "stop \<le> length D"
    and app: "apply_batch_payload E (range_of ?h stop D) ?h index memory = Inr (index', memory')"
    unfolding scan_record_def Let_def by (auto simp: result_simps split: option.splits if_splits)
  let ?p = "range_of ?h stop D"
  have split: "take stop D = take i D @ range_of i stop D" if "i \<le> stop" for i
    using that take_add [of i "stop - i" D] by (simp add: range_of_def)
  have pre: "length (take ?h D) = ?h" using h by simp
  from app obtain n cursor where "apply_batch_loop E ?p (length (take ?h D)) n 4 index memory = Inr (cursor, index', memory')"
    unfolding apply_batch_payload_def Let_def pre by (auto simp only: and_then_Inr_iff if_distrib split: if_splits prod.splits)
  moreover have "records_in (take ?h D @ ?p) index"
    using records_in_mono [OF assms(2), of "range_of offset stop D"] h split [of offset] split [of ?h] by simp
  moreover have "length (take ?h D @ ?p) < usize_limit" using assms(3) h by simp
  ultimately have "records_in (take ?h D @ ?p) index'" by (rule apply_batch_loop_records)
  with split [OF h(1)] show ?thesis by simp
qed

lemma scan_loop_records:
  assumes "scan_loop E D mapping_offset offset index memory = Inr (stop, index', memory')"
    and "records_in (take offset D) index" and "length D < usize_limit"
  shows "records_in (take stop D) index'"
  using assms(1,2)
proof (induction "length D - offset" arbitrary: offset index memory rule: less_induct)
  case less
  show ?case
  proof (cases "offset < length D")
    case False
    with less.prems show ?thesis by (subst (asm) scan_loop.simps) simp
  next
    case True
    with less.prems(1) obtain turn where turn: "scan_record E D mapping_offset offset index memory = Inr turn"
      and rest: "(case turn of None \<Rightarrow> Inr (offset, index, memory)
        | Some (n, index, memory) \<Rightarrow> scan_loop E D mapping_offset n index memory) = Inr (stop, index', memory')"
      by (subst (asm) scan_loop.simps) (auto simp: result_simps)
    show ?thesis
    proof (cases turn)
      case None
      with rest less.prems(2) show ?thesis by simp
    next
      case (Some t)
      obtain n index1 memory1 where t: "turn = Some (n, index1, memory1)" using Some prod_cases3 by metis
      note step = turn [unfolded t]
      from scan_record_advances [OF step] True have "length D - n < length D - offset" by (simp add: diff_less_mono2)
      moreover have "scan_loop E D mapping_offset n index1 memory1 = Inr (stop, index', memory')" using rest t by simp
      moreover note scan_record_records [OF step less.prems(2) assms(3)]
      ultimately show ?thesis by (rule less.hyps)
    qed
  qed
qed

text \<open>The mapping under a recovered index is replaced by a shorter one that ends where the scan did.\<close>

lemma overlay_ok_shorter:
  assumes ok: "overlay_ok E D (MappedOverlay (Some b) table [])" and "deref b = m @ rest" and "D = deref b"
    and inside: "records_in m (MappedOverlay (Some b) table [])" and m: "mapping_or_empty b' = m"
  shows "overlay_ok E m (MappedOverlay b' table [])"
    and "overlay_abs (MappedOverlay b' table []) = overlay_abs (MappedOverlay (Some b) table [])"
    and "map_charge (MappedOverlay b' table []) = map_charge (MappedOverlay (Some b) table [])"
proof -
  have D: "mapping_or_empty (Some b) = m @ rest" using assms(2) by (simp add: mapping_or_empty_def)
  have recs: "records_ok E (m @ rest) table" using ok D by (simp add: Let_def)
  have key: "record_key (m @ rest) r = record_key m r" if "r \<in> snd ` set table" for r
    using inside that by (auto intro: record_mono(2))
  have recs': "records_ok E m table"
    using recs inside table_ok_cong [of table "record_key (m @ rest)" "record_key m" "xxh3_64 E"] key by (simp add: records_ok_def)
  show "overlay_ok E m (MappedOverlay b' table [])" using recs' m by (simp add: Let_def)
  show "overlay_abs (MappedOverlay b' table []) = overlay_abs (MappedOverlay (Some b) table [])"
    using records_ok_mono(2) [OF recs', of rest] m D by (simp only: overlay_abs_mapped)
  show "map_charge (MappedOverlay b' table []) = map_charge (MappedOverlay (Some b) table [])"
    using records_ok_mono(3) [OF recs', of rest] m D by simp
qed

subsection \<open>The batches of a log\<close>

definition batch_ok :: "overlay_entry keymap \<Rightarrow> bool" where
  "batch_ok staged \<longleftrightarrow> staged_ok staged \<and> batch_fits staged \<and> batch_keys_ok staged"

definition log_bytes :: "externs \<Rightarrow> overlay_entry keymap list \<Rightarrow> bytes" where
  "log_bytes E batches = concat (map (batch_record E) batches)"

definition replay :: "(bytes \<rightharpoonup> bytes option) \<Rightarrow> overlay_entry keymap list \<Rightarrow> bytes \<rightharpoonup> bytes option" where
  "replay m batches = foldl (\<lambda>m staged. m ++ staged_abs staged) m batches"

lemma log_bytes_simps [simp]:
  "log_bytes E [] = []"
  "log_bytes E (staged # batches) = batch_record E staged @ log_bytes E batches"
  "log_bytes E (batches @ batches') = log_bytes E batches @ log_bytes E batches'"
  by (simp_all add: log_bytes_def)

lemma replay_simps [simp]:
  "replay m [] = m"
  "replay m (staged # batches) = replay (m ++ staged_abs staged) batches"
  "replay m (batches @ batches') = replay (replay m batches) batches'"
  by (simp_all add: replay_def)

lemma scan_loop_batches:
  assumes "deref b = pre @ log_bytes E batches @ post" and len: "length (deref b) < usize_limit"
    and abs: "mapping_offset + length (deref b) < usize_limit"
    and "\<forall>staged \<in> set batches. batch_ok staged" and reserve: "\<And>n. try_reserve E n"
    and "recovered E b index memory" and "memory \<le> length pre"
  shows "\<exists>index' memory'. scan_loop E (deref b) mapping_offset (length pre) index memory =
      scan_loop E (deref b) mapping_offset (length (pre @ log_bytes E batches)) index' memory'
    \<and> recovered E b index' memory' \<and> memory' \<le> length (pre @ log_bytes E batches)
    \<and> overlay_abs index' = replay (overlay_abs index) batches"
  using assms(1,4,6,7)
proof (induction batches arbitrary: pre index memory)
  case Nil
  then show ?case by auto
next
  case (Cons staged batches)
  from Cons.prems have ok: "staged_ok staged" "batch_fits staged" "batch_keys_ok staged" by (simp_all add: batch_ok_def)
  have D: "deref b = pre @ batch_record E staged @ (log_bytes E batches @ post)" using Cons.prems by simp
  have "mapping_offset + length pre < usize_limit" using abs D by simp
  from scan_record_batch [OF D len this ok(2,3) reserve Cons.prems(3,4)] obtain index1 memory1 where
    turn: "scan_record E (deref b) mapping_offset (length pre) index memory =
      Inr (Some (length (pre @ batch_record E staged), index1, memory1))"
    and one: "recovered E b index1 memory1" "memory1 \<le> length (pre @ batch_record E staged)"
      "overlay_abs index1 = overlay_abs index ++ map_of (rev (staged_operations staged))"
    by blast
  have abs1: "overlay_abs index1 = overlay_abs index ++ staged_abs staged"
    using one(3) staged_abs_rev [of staged] ok(1) by (simp add: staged_ok_def)
  have D1: "deref b = (pre @ batch_record E staged) @ log_bytes E batches @ post" using D by simp
  have "length pre < length (deref b)" using D by (simp add: length_batch_record)
  with turn have step: "scan_loop E (deref b) mapping_offset (length pre) index memory =
      scan_loop E (deref b) mapping_offset (length (pre @ batch_record E staged)) index1 memory1"
    by (subst scan_loop.simps) simp
  from Cons.IH [OF D1 _ one(1,2)] Cons.prems(2) abs1 show ?case unfolding step by (simp add: add.assoc)
qed

text \<open>Where a cut falls: after some complete records, inside the next one.\<close>

lemma take_log_bytes:
  obtains k m where "k \<le> length batches" and "take n (log_bytes E batches) =
      log_bytes E (take k batches) @ (if k < length batches then take m (batch_record E (batches ! k)) else [])"
    and "k < length batches \<longrightarrow> m < length (batch_record E (batches ! k))
      \<and> n = length (log_bytes E (take k batches)) + m"
    and "length (log_bytes E (take k batches)) \<le> n"
proof -
  have "\<exists>k m. k \<le> length batches \<and> take n (log_bytes E batches) =
      log_bytes E (take k batches) @ (if k < length batches then take m (batch_record E (batches ! k)) else [])
    \<and> (k < length batches \<longrightarrow> m < length (batch_record E (batches ! k))
      \<and> n = length (log_bytes E (take k batches)) + m)
    \<and> length (log_bytes E (take k batches)) \<le> n"
  proof (induction batches arbitrary: n)
    case Nil
    then show ?case by simp
  next
    case (Cons staged batches)
    let ?r = "batch_record E staged"
    show ?case
    proof (cases "n < length ?r")
      case True
      then show ?thesis by (intro exI [of _ 0] exI [of _ n]) simp
    next
      case False
      from Cons.IH [of "n - length ?r"] obtain k m where
        "k \<le> length batches" "take (n - length ?r) (log_bytes E batches) =
          log_bytes E (take k batches) @ (if k < length batches then take m (batch_record E (batches ! k)) else [])"
        "k < length batches \<longrightarrow> m < length (batch_record E (batches ! k))
          \<and> n - length ?r = length (log_bytes E (take k batches)) + m"
        "length (log_bytes E (take k batches)) \<le> n - length ?r"
        by blast
      with False show ?thesis by (intro exI [of _ "Suc k"] exI [of _ m]) auto
    qed
  qed
  then show thesis using that by blast
qed

lemma scan_overlay_batches:
  assumes D: "deref b = log_bytes E batches @ rest" and abs: "mapping_offset + length (deref b) < usize_limit"
    and oks: "\<forall>staged \<in> set batches. batch_ok staged" and reserve: "\<forall>count. try_reserve E count"
    and stop: "rest = [] \<or>
      (\<forall>index memory. scan_record E (deref b) mapping_offset (length (log_bytes E batches)) index memory = Inr None)"
  obtains scan where "scan_overlay E b mapping_offset = Inr scan"
    and "overlay_abs (scan_index scan) = replay Map.empty batches"
    and "valid_len scan = mapping_offset + length (log_bytes E batches)"
    and "overlay_ok E (deref b) (scan_index scan)" and "scan_memory scan = map_charge (scan_index scan)"
    and "\<exists>table. scan_index scan = MappedOverlay (Some b) table []" and "records_in (log_bytes E batches) (scan_index scan)"
    and "scan_memory scan \<le> length (log_bytes E batches)"
proof -
  let ?done = "log_bytes E batches"
  have D': "deref b = [] @ ?done @ rest" using D by simp
  have len: "length (deref b) < usize_limit" using abs by simp
  have "\<And>count. try_reserve E count" using reserve by blast
  from scan_loop_batches [OF D' len abs oks this recovered_empty [of E b]] obtain index memory where
    loop: "scan_loop E (deref b) mapping_offset 0 (overlay_mapped (Some b)) 0 =
      scan_loop E (deref b) mapping_offset (length ?done) index memory"
    and res: "recovered E b index memory" "overlay_abs index = replay (overlay_abs (overlay_mapped (Some b))) batches"
      "memory \<le> length ?done"
    by auto
  have last_turn: "scan_loop E (deref b) mapping_offset (length ?done) index memory = Inr (length ?done, index, memory)"
    using stop D by (subst scan_loop.simps) auto
  have "records_in (take 0 (deref b)) (overlay_mapped (Some b))" by (simp add: overlay_mapped_def)
  from scan_loop_records [OF loop [unfolded last_turn] this len] D have inside: "records_in ?done index" by simp
  from last_turn loop abs D have "scan_overlay E b mapping_offset =
      Inr \<lparr>scan_index = index, scan_memory = memory, valid_len = mapping_offset + length ?done\<rparr>"
    by (simp add: scan_overlay_def checked_add_def)
  moreover have "overlay_abs (overlay_mapped (Some b)) = Map.empty" by (simp add: overlay_mapped_def Let_def)
  ultimately show thesis using res inside by (intro that) (auto simp: recovered_def)
qed

subsection \<open>A small log\<close>

definition sample_batches :: "overlay_entry keymap list" where
  "sample_batches = [[([1], Put (Owned [2, 3]))], [([1], Delete), ([4], Put (Owned []))]]"

lemma sample_batches_ok: "\<forall>staged \<in> set sample_batches. batch_ok staged"
  by (simp add: sample_batches_def batch_ok_def staged_ok_def keymap_ok_def batch_fits_def batch_keys_ok_def
      length_batch_payload_Cons batch_payload_def length_batch_operation_bytes)

lemma sample_batches_lengths:
  "length (log_bytes E (take (Suc 0) sample_batches)) = 33"
  "length (log_bytes E (take (Suc (Suc 0)) sample_batches)) = 74"
  "length (log_bytes E sample_batches) = 74"
  by (simp_all add: sample_batches_def length_batch_record batch_payload_def length_batch_operation_bytes)

lemma sample_batches_first: "replay Map.empty (take (Suc 0) sample_batches) = [[1] \<mapsto> Some [2, 3]]"
  by (auto simp: sample_batches_def staged_abs_eq staged_operations_def)

subsection \<open>Properties of the scan\<close>

text \<open>
  C20. Crash recovery is atomic per batch. Take a log of committed batches and cut it off after any
  number of bytes. The scan succeeds, and what it recovers is the replay of exactly the batches whose
  records are complete; the valid length ends after the last of them. The index it returns satisfies
  the Overlay invariant and its memory charge is the sum over its entries.
\<close>

theorem scan_overlay_torn:
  assumes "\<forall>staged \<in> set batches. batch_ok staged" and "\<forall>count. try_reserve E count"
    and "mapping_offset + length (log_bytes E batches) < usize_limit"
    and "deref b = take n (log_bytes E batches)"
  shows "\<exists>k scan. k \<le> length batches \<and> length (log_bytes E (take k batches)) \<le> n
    \<and> (k < length batches \<longrightarrow> n < length (log_bytes E (take (Suc k) batches)))
    \<and> scan_overlay E b mapping_offset = Inr scan
    \<and> overlay_abs (scan_index scan) = replay Map.empty (take k batches)
    \<and> valid_len scan = mapping_offset + length (log_bytes E (take k batches))
    \<and> overlay_ok E (deref b) (scan_index scan) \<and> scan_memory scan = map_charge (scan_index scan)"
proof -
  obtain k m where k: "k \<le> length batches" and D: "take n (log_bytes E batches) =
      log_bytes E (take k batches) @ (if k < length batches then take m (batch_record E (batches ! k)) else [])"
    and m: "k < length batches \<longrightarrow> m < length (batch_record E (batches ! k))
      \<and> n = length (log_bytes E (take k batches)) + m"
    and le: "length (log_bytes E (take k batches)) \<le> n"
    using take_log_bytes [of batches n E] by blast
  let ?done = "log_bytes E (take k batches)"
  let ?rest = "if k < length batches then take m (batch_record E (batches ! k)) else []"
  have db: "deref b = ?done @ ?rest" using D assms(4) by simp
  have abs: "mapping_offset + length (deref b) < usize_limit" using assms(3,4) by simp
  have split: "log_bytes E batches = ?done @ batch_record E (batches ! k) @ log_bytes E (drop (Suc k) batches)"
    if "k < length batches"
    using that log_bytes_simps(2,3) id_take_nth_drop [of k batches] by metis
  have "scan_record E (deref b) mapping_offset (length ?done) index memory = Inr None"
    if "k < length batches" for index memory
    using that m split [OF that] assms(1,3) unfolding db
    by (simp, intro scan_record_torn) (simp_all add: batch_ok_def)
  then have "?rest = [] \<or>
      (\<forall>index memory. scan_record E (deref b) mapping_offset (length ?done) index memory = Inr None)" by simp
  moreover have "\<forall>staged \<in> set (take k batches). batch_ok staged" using assms(1) by (meson in_set_takeD)
  moreover have "n < length (log_bytes E (take (Suc k) batches))" if "k < length batches"
    using m that by (simp add: take_Suc_conv_app_nth)
  ultimately show ?thesis
    using scan_overlay_batches [OF db abs _ assms(2)] k le by metis
qed

theorem scan_overlay_torn_witness:
  "\<exists>scan. scan_overlay reference_externs (Mapped (take 40 (log_bytes reference_externs sample_batches))) 8192 =
      Inr scan
    \<and> overlay_abs (scan_index scan) = [[1] \<mapsto> Some [2, 3]] \<and> valid_len scan = 8225"
proof -
  let ?b = "Mapped (take 40 (log_bytes reference_externs sample_batches))"
  have "\<forall>count. try_reserve reference_externs count" by (simp add: reference_externs_def)
  with scan_overlay_torn [of sample_batches reference_externs 8192 ?b 40] sample_batches_ok sample_batches_lengths(3)
  obtain k scan where "k \<le> length sample_batches" "length (log_bytes reference_externs (take k sample_batches)) \<le> 40"
    "k < length sample_batches \<longrightarrow> 40 < length (log_bytes reference_externs (take (Suc k) sample_batches))"
    "scan_overlay reference_externs ?b 8192 = Inr scan"
    "overlay_abs (scan_index scan) = replay Map.empty (take k sample_batches)"
    "valid_len scan = 8192 + length (log_bytes reference_externs (take k sample_batches))"
    by (auto simp: usize_limit_def)
  moreover from this have "k = 1"
    using sample_batches_lengths [of reference_externs]
    by (cases "k = 0"; cases "k = 2") (auto simp: sample_batches_def)
  ultimately show ?thesis
    using sample_batches_lengths(1) [of reference_externs] sample_batches_first by (intro exI [of _ scan]) simp
qed

text \<open>
  C21. The scan accepts any bytes: it returns or fails with an error value, it never panics and never
  loops. When it returns, the index satisfies the Overlay invariant for the scanned bytes (so that no
  later lookup can panic on it), the memory charge is the sum over the entries, and the valid
  length lies inside the scanned range.
\<close>

theorem scan_overlay_safe:
  assumes "length (deref b) < usize_limit"
  shows "no_panic (scan_overlay E b mapping_offset)
    \<and> (\<forall>scan. scan_overlay E b mapping_offset = Inr scan \<longrightarrow>
        overlay_ok E (deref b) (scan_index scan) \<and> scan_memory scan = map_charge (scan_index scan)
        \<and> mapping_offset \<le> valid_len scan \<and> valid_len scan \<le> mapping_offset + length (deref b))"
proof -
  note safe = scan_loop_safe [OF assms recovered_empty, of 0 E mapping_offset]
  have "no_panic (scan_overlay E b mapping_offset)"
    unfolding scan_overlay_def using safe by (auto intro!: no_panic_and_then)
  moreover have "overlay_ok E (deref b) (scan_index scan) \<and> scan_memory scan = map_charge (scan_index scan)
        \<and> mapping_offset \<le> valid_len scan \<and> valid_len scan \<le> mapping_offset + length (deref b)"
    if "scan_overlay E b mapping_offset = Inr scan" for scan
    using that safe unfolding scan_overlay_def by (auto simp: result_simps recovered_def)
  ultimately show ?thesis by blast
qed

theorem scan_overlay_safe_witness:
  "no_panic (scan_overlay reference_externs (Memory (replicate 40 7) 0 30) 8192)"
  using scan_overlay_safe [of "Memory (replicate 40 7) 0 30" reference_externs 8192]
  by (simp add: usize_limit_def)

text \<open>
  C22. A changed byte is never mistaken for data. If one byte of a complete record differs from what
  was written, the scan fails with a log checksum error that names the offset of that record; the
  batches before it do not matter, nor what follows.
\<close>

theorem scan_overlay_changed_byte:
  assumes "crc32c_detects E" and "\<forall>staged \<in> set batches. batch_ok staged" and "batch_fits staged"
    and "\<forall>count. try_reserve E count"
    and "i < length (batch_record E staged)" and "batch_record E staged ! i \<noteq> x"
    and D: "deref b = log_bytes E batches @ (batch_record E staged)[i := x] @ rest"
    and abs: "mapping_offset + length (deref b) < usize_limit"
  shows "\<exists>msg. scan_overlay E b mapping_offset =
    Inl (Err (corrupted_log (mapping_offset + length (log_bytes E batches)) msg))"
proof -
  let ?done = "log_bytes E batches"
  have len: "length (deref b) < usize_limit" using abs by simp
  have D': "deref b = [] @ ?done @ ((batch_record E staged)[i := x] @ rest)" using D by simp
  have reserve: "\<And>count. try_reserve E count" using assms(4) by blast
  from scan_loop_batches [OF D' len abs assms(2) reserve recovered_empty [of E b]] obtain index memory where
    loop: "scan_loop E (deref b) mapping_offset 0 (overlay_mapped (Some b)) 0 =
      scan_loop E (deref b) mapping_offset (length ?done) index memory"
    by auto
  from scan_record_changed [OF assms(1,3,5,6), of ?done rest mapping_offset index memory] len abs D obtain msg where
    "scan_record E (deref b) mapping_offset (length ?done) index memory =
      Inl (Err (corrupted_log (mapping_offset + length ?done) msg))"
    by auto
  moreover have "length ?done < length (deref b)" using arg_cong [OF D, of length] assms(5) by auto
  ultimately have "scan_loop E (deref b) mapping_offset (length ?done) index memory =
      Inl (Err (corrupted_log (mapping_offset + length ?done) msg))"
    by (subst scan_loop.simps) simp
  with loop show ?thesis by (auto simp: scan_overlay_def)
qed

theorem scan_overlay_changed_byte_witness:
  "\<exists>msg. scan_overlay reference_externs (Mapped (log_bytes reference_externs sample_batches
      @ (batch_record reference_externs [([1], Delete)])[0 := 9] @ [5])) 8192 =
    Inl (Err (corrupted_log 8266 msg))"
proof -
  let ?r = "batch_record reference_externs [([1], Delete)]"
  let ?b = "Mapped (log_bytes reference_externs sample_batches @ ?r[0 := 9] @ [5])"
  have "length ?r = 31" by (simp add: length_batch_record batch_payload_def length_batch_operation_bytes)
  moreover have "?r ! 0 \<noteq> 9" using header_fields(1) by (simp add: batch_record_def Let_def nth_append)
  moreover have "batch_fits [([1], Delete)]" by (simp add: batch_fits_def batch_payload_def length_batch_operation_bytes)
  moreover have "\<forall>count. try_reserve reference_externs count" by (simp add: reference_externs_def)
  ultimately show ?thesis
    using scan_overlay_changed_byte [of reference_externs sample_batches "[([1], Delete)]" 0 9 ?b "[5]" 8192]
      sample_batches_ok sample_batches_lengths(3) [of reference_externs] reference.crc32c_detects_axioms
    by (simp add: usize_limit_def)
qed

text \<open>
  C23. A compaction marker ends the log. Whatever follows the marker, a new base segment for
  instance, is not read as log records: the scan returns the batches before the marker, and the valid
  length is the offset of the marker.
\<close>

theorem scan_overlay_compact_marker:
  assumes "crc32c_crate E" and "\<forall>staged \<in> set batches. batch_ok staged" and "\<forall>count. try_reserve E count"
    and D: "deref b = log_bytes E batches @ write_compact_marker E @ rest"
    and abs: "mapping_offset + length (deref b) < usize_limit"
  shows "\<exists>scan. scan_overlay E b mapping_offset = Inr scan
    \<and> overlay_abs (scan_index scan) = replay Map.empty batches
    \<and> valid_len scan = mapping_offset + length (log_bytes E batches)"
proof -
  have "scan_record E (deref b) mapping_offset (length (log_bytes E batches)) i m = Inr None" for i m
    unfolding D by (rule scan_record_compact) (use D abs assms(1) in auto)
  then show ?thesis using scan_overlay_batches [OF D abs assms(2,3)] by metis
qed

theorem scan_overlay_compact_marker_witness:
  "\<exists>scan. scan_overlay reference_externs (Mapped (log_bytes reference_externs sample_batches
        @ write_compact_marker reference_externs @ [1, 2, 3])) 8192 = Inr scan
    \<and> overlay_abs (scan_index scan) = replay Map.empty sample_batches \<and> valid_len scan = 8266"
  using scan_overlay_compact_marker [of reference_externs sample_batches
      "Mapped (log_bytes reference_externs sample_batches @ write_compact_marker reference_externs @ [1, 2, 3])"
      "[1, 2, 3]" 8192] sample_batches_ok sample_batches_lengths(3) [of reference_externs]
    reference.crc32c_crate_axioms
  by (simp add: usize_limit_def reference_externs_def [THEN arg_cong [where f = try_reserve]])

end
