(* ===== verification/Lkv_Image.thy ===== *)
theory Lkv_Image
  imports Lkv_Fault Lkv_View_Correct Lkv_Recovery_Correct
begin

section \<open>What a database file holds\<close>

text \<open>
  \<open>disk_image E img sb items batches rest\<close> says that the bytes \<open>img\<close> are a database: the superblock \<open>sb\<close>
  is published, the base it names holds the entries \<open>items\<close>, and the log behind it is the batches
  \<open>batches\<close> followed by bytes at which a scan stops. Such a file stands for the map \<open>image_map\<close>.
  The lemmas show how the steps of the program move between such images, whole or cut short.
\<close>

subsection \<open>Published superblocks\<close>

definition page_shows :: "externs \<Rightarrow> bytes \<Rightarrow> nat \<Rightarrow> superblock \<Rightarrow> bool" where
  "page_shows E img offset sb \<longleftrightarrow>
     (\<forall>n. verdict_at E n img offset = Inr (if superblock_in_range n sb then Candidate sb else Skip))"

definition page_yields :: "externs \<Rightarrow> bytes \<Rightarrow> nat \<Rightarrow> superblock \<Rightarrow> bool" where
  "page_yields E img offset sb \<longleftrightarrow>
     (\<forall>n. \<exists>v. verdict_at E n img offset = Inr v \<and> (outranks sb v \<or> v = Candidate sb))"

definition published :: "externs \<Rightarrow> bytes \<Rightarrow> superblock \<Rightarrow> bool" where
  "published E img sb \<longleftrightarrow>
     8192 \<le> length img \<and> page_shows E img (page_offset (generation sb)) sb
     \<and> page_yields E img (page_offset (generation sb + 1)) sb"

lemma published_latest:
  assumes "published E img sb" and "superblock_in_range n sb"
  shows "latest_of E n img = Inr sb"
proof -
  note pages = page_offset_Suc [of "generation sb"]
  from assms have own: "verdict_at E n img (page_offset (generation sb)) = Inr (Candidate sb)"
    by (simp add: published_def page_shows_def)
  from assms(1) obtain v where v: "verdict_at E n img (page_offset (generation sb + 1)) = Inr v"
    and "outranks sb v \<or> v = Candidate sb"
    by (auto simp: published_def page_yields_def)
  then show ?thesis
    using latest_of_outranks [OF pages own v] latest_of_same [OF pages own] by auto
qed

lemma verdict_at_cong:
  assumes "take 8192 img' = take 8192 img" and "8192 \<le> length img" and "offset = 0 \<or> offset = 4096"
  shows "verdict_at E n img' offset = verdict_at E n img offset"
proof -
  have len: "8192 \<le> length img'" using arg_cong [OF assms(1), of length] assms(2) by simp
  have range: "range_of offset (offset + 4096) img = range_of offset (offset + 4096) (take 8192 img)" for img :: bytes
    using assms(3) by (auto simp: range_of_def drop_take min_def)
  have "range_of offset (offset + 4096) img' = range_of offset (offset + 4096) img"
    using range [of img] range [of img'] assms(1) by simp
  with len assms(2,3) show ?thesis by (auto simp: verdict_at_def get_range_def)
qed

lemma published_cong:
  assumes "published E img sb" and "take 8192 img' = take 8192 img"
  shows "published E img' sb"
proof -
  have len: "8192 \<le> length img" using assms(1) by (simp add: published_def)
  then have "8192 \<le> length img'" using arg_cong [OF assms(2), of length] by simp
  with assms verdict_at_cong [OF assms(2) len page_offset_cases] show ?thesis
    by (simp add: published_def page_shows_def page_yields_def)
qed

text \<open>A page whose first 72 bytes are written shows its superblock, whatever follows.\<close>

lemma index_range_take: "b \<le> k \<Longrightarrow> k \<le> length bs \<Longrightarrow> index_range (take k bs) a b = index_range bs a b"
  by (auto simp: index_range_def get_range_def range_of_def drop_take min_def)

lemma page_verdict_prefix:
  assumes "length page = 4096" and "take 72 page = take 72 (encode_page E sb)"
  shows "page_verdict E n page = Inr (if superblock_in_range n sb then Candidate sb else Skip)"
proof -
  let ?page = "encode_page E sb"
  have range: "index_range page a b = index_range ?page a b" if "b \<le> 72" for a b
    using index_range_take [of b 72 page a] index_range_take [of b 72 ?page a] assms that by simp
  have u32: "u32_at page o1 = u32_at ?page o1" if "o1 + 4 \<le> 72" for o1
    using range [of "o1 + 4" o1] that by (simp add: u32_at_def)
  have u64: "u64_at page o1 = u64_at ?page o1" if "o1 + 8 \<le> 72" for o1
    using range [of "o1 + 8" o1] that by (simp add: u64_at_def)
  have "take 68 page = take 68 ?page" using arg_cong [OF assms(2), of "take 68"] by simp
  then have "read_envelope E page = read_envelope E ?page"
    using assms(1) range [of 8 0] u32 [of 8] u32 [of 12] u32 [of 68] encode_page_fields(2,3,11) [of E sb]
    by (simp add: read_envelope_def Let_def)
  moreover have "decode_superblock page = decode_superblock ?page"
    using u32 u64 by (simp add: decode_superblock_def)
  ultimately show ?thesis using page_verdict_encode_page [of E n sb] by (simp only: page_verdict_def)
qed

lemma page_shows_write:
  assumes "72 \<le> n" and "8192 \<le> length img" and "offset = 0 \<or> offset = 4096"
  shows "page_shows E (write_at offset (take n (encode_page E sb)) img) offset sb"
proof -
  let ?bs = "take n (encode_page E sb)"
  let ?img = "write_at offset ?bs img" and ?page = "range_of offset (offset + 4096) (write_at offset ?bs img)"
  have "length ?page = 4096" using assms(2,3) by auto
  moreover have "take 72 ?page = take 72 (range_of offset (offset + length ?bs) ?img)"
    using assms(1) by (simp add: range_of_def min_def)
  then have "take 72 ?page = take 72 (encode_page E sb)"
    unfolding range_of_write_at_same using assms(1) by (simp add: min_def)
  ultimately have "page_verdict E k ?page = Inr (if superblock_in_range k sb then Candidate sb else Skip)" for k
    by (rule page_verdict_prefix)
  then show ?thesis using assms(2,3) by (auto simp: page_shows_def verdict_at_def get_range_def)
qed

lemma page_kept:
  assumes "8192 \<le> length img" and "{offset, off2} = {0, 4096}" and "length bs \<le> 4096"
  shows "page_shows E (write_at offset bs img) off2 sb = page_shows E img off2 sb"
    and "page_yields E (write_at offset bs img) off2 sb = page_yields E img off2 sb"
  using verdict_at_other [OF assms] by (simp_all add: page_shows_def page_yields_def)

lemma published_advance:
  assumes old: "published E img old" and g: "generation new = generation old + 1" "generation old < generation new"
    and "72 \<le> n"
  shows "published E (write_at (page_offset (generation new)) (take n (encode_page E new)) img) new"
proof -
  let ?off = "page_offset (generation new)" and ?old = "page_offset (generation old)"
  let ?img = "write_at ?off (take n (encode_page E new)) img"
  have len: "8192 \<le> length img" using old by (simp add: published_def)
  have pages: "{?off, ?old} = {0, 4096}" using page_offset_Suc [of "generation old"] g(1) by (simp add: insert_commute)
  have flip: "page_offset (generation new + 1) = ?old"
    using page_offset_Suc [of "generation new"] pages by (auto simp: doubleton_eq_iff)
  have "page_shows E img ?old old" using old by (simp add: published_def)
  then have "page_shows E ?img ?old old" using page_kept(1) [OF len pages] by simp
  then have "page_yields E ?img ?old new" using g(2) by (auto simp: page_shows_def page_yields_def outranks_def)
  moreover have "page_shows E ?img ?off new" using assms(4) len page_offset_cases by (intro page_shows_write)
  moreover have "8192 \<le> length ?img" using len by simp
  ultimately show ?thesis by (simp add: published_def flip)
qed

lemma published_redundant:
  assumes sb: "published E img sb" and "72 \<le> n"
  shows "published E (write_at (page_offset (generation sb + 1)) (take n (encode_page E sb)) img) sb"
proof -
  let ?off = "page_offset (generation sb + 1)" and ?own = "page_offset (generation sb)"
  let ?img = "write_at ?off (take n (encode_page E sb)) img"
  have len: "8192 \<le> length img" using sb by (simp add: published_def)
  have pages: "{?off, ?own} = {0, 4096}" using page_offset_Suc [of "generation sb"] by (simp add: insert_commute)
  have "page_shows E ?img ?own sb" using sb page_kept(1) [OF len pages] by (simp add: published_def)
  moreover have "page_shows E ?img ?off sb" using assms(2) len page_offset_cases by (intro page_shows_write)
  then have "page_yields E ?img ?off sb" by (auto simp: page_shows_def page_yields_def outranks_def)
  ultimately show ?thesis using len by (simp add: published_def)
qed

subsection \<open>Reading and writing pages on a file with faults\<close>

text \<open>
  What a device may do to a call: a failing write leaves whole sectors, so of a page either nothing or
  at least its first sector, and only the standard library reports the end of a file.
\<close>

definition device_faults :: "storage \<Rightarrow> bool" where
  "device_faults s \<longleftrightarrow> (\<forall>e. Some e \<in> set (plan (file_of s)) \<longrightarrow>
     (fault_written e = 0 \<or> 512 \<le> fault_written e) \<and> io_kind (fault_error e) \<noteq> UnexpectedEof)"

lemma device_faults_step: "file_step s s' \<Longrightarrow> device_faults s \<Longrightarrow> device_faults s'"
  by (fastforce simp: file_step_def device_faults_def)

lemma write_page_post:
  assumes "\<not> storage_is_memory s" and "device_faults s" and "8192 \<le> length (storage_image s)"
    and offset: "offset = 0 \<or> offset = 4096"
  shows "post (io_then (question (seek_start (storage_ops E) offset)) (\<lambda>_. question (write_all (storage_ops E) (encode_page E sb)))) s
    (\<lambda>r s'. file_step s s' \<and> (r = Inr () \<or> faulty s r)
      \<and> (faulty s r \<and> storage_image s' = storage_image s
         \<or> (\<exists>n \<ge> 72. storage_image s' = write_at offset (take n (encode_page E sb)) (storage_image s))))"
proof (rule post_then [OF storage_seek_post [OF assms(1)]])
  fix x s1
  assume s1: "file_step s s1 \<and> storage_image s1 = storage_image s \<and> (Inr x = Inr offset \<and> storage_position s1 = offset \<or> faulty s (Inr x))"
  have whole: "take 4096 (encode_page E sb) = encode_page E sb" by simp
  have page: "encode_page E sb \<noteq> []" using length_encode_page [of E sb] by fastforce
  have file1: "\<not> storage_is_memory s1" using s1 by auto
  show "post (question (write_all (storage_ops E) (encode_page E sb))) s1
      (\<lambda>r s'. file_step s s' \<and> (r = Inr () \<or> faulty s r) \<and> (faulty s r \<and> storage_image s' = storage_image s
         \<or> (\<exists>n \<ge> 72. storage_image s' = write_at offset (take n (encode_page E sb)) (storage_image s))))"
  proof (rule post_weaken [OF storage_write_post [OF file1 page, of E]])
    fix r s'
    assume wr: "file_step s1 s' \<and> (r = Inr () \<and> storage_image s' = write_at (storage_position s1) (encode_page E sb) (storage_image s1)
          \<and> storage_position s' = storage_position s1 + length (encode_page E sb)
       \<or> faulty s1 r \<and> (\<exists>e. Some e \<in> set (plan (file_of s1)) \<and> storage_image s' = (if fault_written e = 0 then storage_image s1
               else write_at (storage_position s1) (take (fault_written e) (encode_page E sb)) (storage_image s1))))"
    have step: "file_step s s'" using s1 wr file_step_trans by blast
    have "device_faults s1" using s1 assms(2) device_faults_step by blast
    with wr s1 consider (full) "r = Inr ()" "storage_image s' = write_at offset (take 4096 (encode_page E sb)) (storage_image s)"
      | (none) "faulty s1 r" "storage_image s' = storage_image s"
      | (part) e where "faulty s1 r" "512 \<le> fault_written e"
          "storage_image s' = write_at offset (take (fault_written e) (encode_page E sb)) (storage_image s)"
      unfolding whole by (auto simp: device_faults_def split: if_splits)
    then show "file_step s s' \<and> (r = Inr () \<or> faulty s r) \<and> (faulty s r \<and> storage_image s' = storage_image s
         \<or> (\<exists>n \<ge> 72. storage_image s' = write_at offset (take n (encode_page E sb)) (storage_image s)))"
    proof cases
      case full
      then have "\<exists>n \<ge> 72. storage_image s' = write_at offset (take n (encode_page E sb)) (storage_image s)"
        by (intro exI [of _ 4096]) simp
      with full(1) step show ?thesis by blast
    next
      case none
      then show ?thesis using step s1 faulty_step by blast
    next
      case part
      then show ?thesis using step s1 faulty_step by (intro conjI disjI2 exI [of _ "fault_written e"]) auto
    qed
  qed
qed (auto intro: faulty_Inl)

lemma storage_read_raw:
  assumes "\<not> storage_is_memory s" and "device_faults s" and "storage_position s + n \<le> length (storage_image s)"
  shows "post (read_exact (storage_ops E) n) s (\<lambda>r s'. file_step s s' \<and> storage_image s' = storage_image s
    \<and> (r = Inr (range_of (storage_position s) (storage_position s + n) (storage_image s))
       \<or> (\<exists>e. r = Inl e \<and> io_kind e \<noteq> UnexpectedEof) \<and> \<not> file_storage_quiet s))"
proof (cases s)
  case (FileStorage f)
  show ?thesis
  proof (cases f rule: next_fault_cases)
    case (1 f')
    with FileStorage assms(3) show ?thesis
      by (auto simp: post_def storage_ops_def file_read_exact_def file_call_def Let_def file_step_def)
  next
    case (2 e f')
    with FileStorage assms(2) fault_not_quiet [OF 2(5)] show ?thesis
      by (auto simp: post_def storage_ops_def file_read_exact_def file_call_def file_step_def device_faults_def)
  qed
qed (use assms in simp)

lemma read_pages_post:
  assumes "\<not> storage_is_memory s" and "device_faults s" and "\<forall>offset \<in> set offsets. offset + 4096 \<le> length (storage_image s)"
  shows "post (read_pages E (storage_ops E) n offsets found) s (\<lambda>r s'. file_step s s' \<and> storage_image s' = storage_image s
    \<and> (r = fold_res (\<lambda>offset found. and_then (verdict_at E n (storage_image s) offset) (\<lambda>v. Inr (update_latest v found))) offsets found
       \<or> faulty s r))"
  using assms
proof (induction offsets arbitrary: found s)
  case Nil
  then show ?case by (simp add: post_def file_step_refl)
next
  case (Cons offset offsets)
  let ?img = "storage_image s"
  let ?fold = "fold_res (\<lambda>offset found. and_then (verdict_at E n ?img offset) (\<lambda>v. Inr (update_latest v found)))"
  show ?case
    unfolding read_pages.simps
  proof (rule post_then [OF storage_seek_post [OF Cons.prems(1)]])
    fix x s1
    assume "file_step s s1 \<and> storage_image s1 = ?img \<and> (Inr x = Inr offset \<and> storage_position s1 = offset \<or> faulty s (Inr x))"
    then have s1: "file_step s s1" "storage_image s1 = ?img" "storage_position s1 = offset" by simp_all
    have dev: "device_faults s1" using device_faults_step [OF s1(1) Cons.prems(2)] .
    obtain r2 s2 where run: "read_exact (storage_ops E) 4096 s1 = (r2, s2)" by fastforce
    from storage_read_raw [OF file_step_is_file [OF s1(1)] dev, of 4096 E] s1 Cons.prems(3) run
    have s2: "file_step s s2" "storage_image s2 = ?img"
      and r2: "r2 = Inr (range_of offset (offset + 4096) ?img) \<or> (\<exists>e. r2 = Inl e \<and> io_kind e \<noteq> UnexpectedEof) \<and> \<not> file_storage_quiet s1"
      by (auto simp: post_def intro: file_step_trans)
    from r2 show "post (\<lambda>s. case read_exact (storage_ops E) SUPERBLOCK_SIZE s of
         (Inl e, s') \<Rightarrow> if io_kind e = UnexpectedEof then read_pages E (storage_ops E) n offsets found s' else (Inl (Err (error_from e)), s')
       | (Inr page, s') \<Rightarrow> io_then (io_lift (page_verdict E n page)) (\<lambda>v. read_pages E (storage_ops E) n offsets (update_latest v found)) s') s1
      (\<lambda>r s'. file_step s s' \<and> storage_image s' = ?img \<and> (r = ?fold (offset # offsets) found \<or> faulty s r))"
    proof (elim disjE)
      assume r2: "r2 = Inr (range_of offset (offset + 4096) ?img)"
      have verdict: "page_verdict E n (range_of offset (offset + 4096) ?img) = verdict_at E n ?img offset"
        using Cons.prems(3) by (simp add: verdict_at_def get_range_def)
      show ?thesis
      proof (cases "verdict_at E n ?img offset")
        case (Inl e)
        with run r2 verdict s2 show ?thesis by (simp add: post_def io_then_def)
      next
        case (Inr v)
        have "post (read_pages E (storage_ops E) n offsets (update_latest v found)) s2
            (\<lambda>r s'. file_step s2 s' \<and> storage_image s' = ?img \<and> (r = ?fold offsets (update_latest v found) \<or> faulty s2 r))"
          using Cons.IH [of s2 "update_latest v found"] s2 device_faults_step [OF s2(1) Cons.prems(2)] Cons.prems(3) by simp
        then show ?thesis
          using run r2 verdict s2 Inr by (auto simp: post_def io_then_def intro: file_step_trans faulty_step)
      qed
    next
      assume "(\<exists>e. r2 = Inl e \<and> io_kind e \<noteq> UnexpectedEof) \<and> \<not> file_storage_quiet s1"
      then obtain e where "r2 = Inl e" "io_kind e \<noteq> UnexpectedEof" "\<not> file_storage_quiet s" using file_step_quiet [OF s1(1)] by blast
      with run s2 show ?thesis by (simp add: post_def faulty_def)
    qed
  qed (auto intro: faulty_Inl)
qed

lemma read_latest_post:
  assumes "\<not> storage_is_memory s" and "device_faults s" and pub: "published E (storage_image s) sb" and "superblock_in_range n sb"
  shows "post (read_latest_from E (storage_ops E) n) s (\<lambda>r s'. file_step s s' \<and> storage_image s' = storage_image s
    \<and> (r = Inr sb \<or> faulty s r))"
proof -
  let ?fold = "fold_res (\<lambda>offset found. and_then (verdict_at E n (storage_image s) offset) (\<lambda>v. Inr (update_latest v found))) [0, 4096] (None, None)"
  have len: "\<forall>offset \<in> set [0, 4096]. offset + 4096 \<le> length (storage_image s)" using pub by (simp add: published_def)
  have latest: "and_then ?fold latest_result = Inr sb"
    using published_latest [OF pub assms(4)]
    by (cases "verdict_at E n (storage_image s) 0"; cases "verdict_at E n (storage_image s) 4096") (simp_all add: latest_of_def)
  then obtain found where found: "?fold = Inr found" "latest_result found = Inr sb" by (auto simp only: and_then_Inr_iff)
  show ?thesis
    unfolding read_latest_from_def
  proof (rule post_then)
    show "post (read_pages E (storage_ops E) n [0, SUPERBLOCK_SIZE] (None, None)) s (\<lambda>r s'. file_step s s' \<and> storage_image s' = storage_image s
        \<and> (r = Inr found \<or> faulty s r))"
      using read_pages_post [OF assms(1,2) len, of E n "(None, None)"] unfolding found by simp
  next
    fix x s1
    assume "file_step s s1 \<and> storage_image s1 = storage_image s \<and> (Inr x = Inr found \<or> faulty s (Inr x))"
    then show "post (io_lift (latest_result x)) s1 (\<lambda>r s'. file_step s s' \<and> storage_image s' = storage_image s \<and> (r = Inr sb \<or> faulty s r))"
      using found(2) by (intro post_lift) simp
  qed (auto intro: faulty_Inl)
qed

subsection \<open>The base and the log in a file\<close>

definition base_at :: "externs \<Rightarrow> bytes \<Rightarrow> superblock \<Rightarrow> entry list \<Rightarrow> bool" where
  "base_at E img sb items \<longleftrightarrow>
     (\<exists>slots. base_fits E (unat (base_offset sb)) slots items \<and> distinct (map fst items)
        \<and> written_superblock E (unat (base_offset sb)) slots items sb \<and> 8192 \<le> unat (base_offset sb)
        \<and> range_of (unat (base_offset sb)) (unat (base_offset sb) + unat (base_size sb)) img
            = segment_bytes E (unat (base_offset sb)) slots items
        \<and> unat (base_offset sb) + unat (base_size sb) \<le> unat (log_start sb) \<and> unat (log_start sb) \<le> length img)"

text \<open>Bytes at which a scan of the log stops without an error.\<close>

definition stops :: "externs \<Rightarrow> bytes \<Rightarrow> bool" where
  "stops E rest \<longleftrightarrow> rest = [] \<or>
     (\<forall>pre mapping_offset index memory. mapping_offset + length (pre @ rest) < 2 ^ 63 \<longrightarrow>
        scan_record E (pre @ rest) mapping_offset (length pre) index memory = Inr None)"

definition disk_image :: "externs \<Rightarrow> bytes \<Rightarrow> superblock \<Rightarrow> entry list \<Rightarrow> overlay_entry keymap list \<Rightarrow> bytes \<Rightarrow> bool" where
  "disk_image E img sb items batches rest \<longleftrightarrow>
     published E img sb \<and> base_at E img sb items \<and> drop (unat (log_start sb)) img = log_bytes E batches @ rest
     \<and> (\<forall>staged \<in> set batches. batch_ok staged) \<and> stops E rest \<and> length img < 2 ^ 63"

text \<open>The map a base and a log stand for.\<close>

definition live_map :: "(bytes \<rightharpoonup> bytes) \<Rightarrow> (bytes \<rightharpoonup> bytes option) \<Rightarrow> bytes \<rightharpoonup> bytes" where
  "live_map m changes = (\<lambda>key. case changes key of None \<Rightarrow> m key | Some r \<Rightarrow> r)"

definition image_map :: "entry list \<Rightarrow> overlay_entry keymap list \<Rightarrow> bytes \<rightharpoonup> bytes" where
  "image_map items batches = live_map (map_of items) (replay Map.empty batches)"

lemma live_map_empty [simp]: "live_map m Map.empty = m"
  by (simp add: live_map_def)

lemma live_map_update: "live_map m (changes ++ changes2) = live_map (live_map m changes) changes2"
  by (auto simp: live_map_def map_add_def fun_eq_iff split: option.split)

lemma image_map_append: "image_map items (batches @ [staged]) = live_map (image_map items batches) (staged_abs staged)"
  by (simp add: image_map_def live_map_update)

text \<open>A file holds a map if opening it would find that map.\<close>

definition holds :: "externs \<Rightarrow> bytes \<Rightarrow> (bytes \<rightharpoonup> bytes) \<Rightarrow> bool" where
  "holds E img m \<longleftrightarrow> (\<exists>sb items batches rest. disk_image E img sb items batches rest \<and> image_map items batches = m)"

lemma base_at_in_range:
  assumes "base_at E img sb items" and "unat (log_start sb) \<le> n"
  shows "superblock_in_range n sb"
proof -
  from assms(1) obtain slots where fits: "base_fits E (unat (base_offset sb)) slots items"
    and sb: "unat (base_size sb) = segment_length slots items" "8192 \<le> unat (base_offset sb)"
      "unat (base_offset sb) + unat (base_size sb) \<le> unat (log_start sb)"
    by (auto simp: base_at_def written_superblock_def)
  from fits have "unat (base_offset sb) + segment_length slots items < usize_limit" by (simp add: base_fits_def)
  moreover have "24 \<le> segment_length slots items" by (simp add: segment_length_def)
  ultimately show ?thesis using sb assms(2) by (simp add: superblock_in_range_def checked_add_def)
qed

lemma base_at_cong:
  assumes "base_at E img sb items" and "unat (log_start sb) \<le> length img'"
    and "range_of (unat (base_offset sb)) (unat (log_start sb)) img' = range_of (unat (base_offset sb)) (unat (log_start sb)) img"
  shows "base_at E img' sb items"
proof -
  let ?o = "unat (base_offset sb)" and ?e = "unat (base_offset sb) + unat (base_size sb)" and ?l = "unat (log_start sb)"
  have le: "?e \<le> ?l" using assms(1) by (auto simp: base_at_def)
  have "range_of ?o ?e xs = take (?e - ?o) (range_of ?o ?l xs)" for xs :: bytes
    using le by (simp add: range_of_def min_def)
  with assms(3) have "range_of ?o ?e img' = range_of ?o ?e img" by simp
  with assms(1,2) show ?thesis unfolding base_at_def by auto
qed

subsection \<open>Where a scan stops\<close>

lemma stops_Nil [simp]: "stops E []"
  by (simp add: stops_def)

lemma stops_short: "length rest < 17 \<Longrightarrow> stops E rest"
  unfolding stops_def by (intro disjI2 allI impI scan_record_short) (simp_all add: usize_limit_def)

lemma stops_torn:
  assumes "n < length (batch_record E staged)" and "batch_fits staged"
  shows "stops E (take n (batch_record E staged))"
  unfolding stops_def
proof (intro disjI2 allI impI)
  fix pre :: bytes and mapping_offset index memory
  assume lt: "mapping_offset + length (pre @ take n (batch_record E staged)) < 2 ^ 63"
  have "length (batch_record E staged) \<le> 17 + 4294967295"
    using assms(2) by (simp add: length_batch_record batch_fits_def)
  with lt assms show "scan_record E (pre @ take n (batch_record E staged)) mapping_offset (length pre) index memory = Inr None"
    by (intro scan_record_torn) (simp_all add: usize_limit_def)
qed

lemma stops_marker:
  assumes "crc32c_crate E"
  shows "stops E (write_compact_marker E @ rest)"
  unfolding stops_def
  using assms by (intro disjI2 allI impI scan_record_compact) (simp_all add: usize_limit_def)

text \<open>A marker that is cut off stops a scan as well.\<close>

lemma stops_marker_torn: "n < 17 \<Longrightarrow> stops E (take n (write_compact_marker E))"
  by (rule stops_short) simp

subsection \<open>Steps between images\<close>

lemma image_facts:
  assumes "disk_image E img sb items batches rest"
  shows "img = take (unat (log_start sb)) img @ log_bytes E batches @ rest" and "8192 \<le> unat (base_offset sb)"
    and "unat (base_offset sb) < unat (log_start sb)" and "unat (log_start sb) \<le> length img"
    and "length img = unat (log_start sb) + length (log_bytes E batches) + length rest"
proof -
  let ?l = "unat (log_start sb)"
  from assms have d: "drop ?l img = log_bytes E batches @ rest" and base: "base_at E img sb items" by (simp_all add: disk_image_def)
  show "img = take ?l img @ log_bytes E batches @ rest" using append_take_drop_id [of ?l img] d by simp
  from base obtain slots where s: "8192 \<le> unat (base_offset sb)" "unat (base_size sb) = segment_length slots items"
    "unat (base_offset sb) + unat (base_size sb) \<le> ?l" "?l \<le> length img"
    by (auto simp: base_at_def written_superblock_def)
  then show "8192 \<le> unat (base_offset sb)" "?l \<le> length img" by simp_all
  show "unat (base_offset sb) < ?l" using s by (simp add: segment_length_def)
  show "length img = ?l + length (log_bytes E batches) + length rest"
    using arg_cong [OF d, of length] s(4) by simp
qed

text \<open>Everything before the log stays, and the log changes.\<close>

lemma image_with_log:
  assumes "disk_image E img sb items batches rest" and "take (unat (log_start sb)) img' = take (unat (log_start sb)) img"
    and "drop (unat (log_start sb)) img' = log_bytes E batches' @ rest'" and "unat (log_start sb) \<le> length img'"
    and "\<forall>staged \<in> set batches'. batch_ok staged" and "stops E rest'" and "length img' < 2 ^ 63"
  shows "disk_image E img' sb items batches' rest'"
proof -
  let ?l = "unat (log_start sb)" and ?o = "unat (base_offset sb)"
  note facts = image_facts [OF assms(1)]
  have "take 8192 img' = take 8192 img"
    using arg_cong [OF assms(2), of "take 8192"] facts(2,3) by (simp add: min_def split: if_splits)
  then have "published E img' sb" using assms(1) published_cong by (auto simp: disk_image_def)
  moreover have "range_of ?o ?l img' = range_of ?o ?l img"
    using arg_cong [OF assms(2), of "drop ?o"] by (simp add: range_of_def drop_take)
  then have "base_at E img' sb items" using assms(1,4) base_at_cong by (auto simp: disk_image_def)
  ultimately show ?thesis using assms by (simp add: disk_image_def)
qed

lemma image_truncate:
  assumes "disk_image E img sb items batches rest"
  shows "disk_image E (take (unat (log_start sb) + length (log_bytes E batches)) img) sb items batches []"
proof (rule image_with_log [OF assms])
  note facts = image_facts [OF assms]
  show "take (unat (log_start sb)) (take (unat (log_start sb) + length (log_bytes E batches)) img) = take (unat (log_start sb)) img"
    by (simp add: min_def)
  have "drop (unat (log_start sb)) img = log_bytes E batches @ rest" using assms by (simp add: disk_image_def)
  then show "drop (unat (log_start sb)) (take (unat (log_start sb) + length (log_bytes E batches)) img) = log_bytes E batches @ []"
    by (simp add: drop_take)
  show "length (take (unat (log_start sb) + length (log_bytes E batches)) img) < 2 ^ 63"
    using assms by (auto simp: disk_image_def)
  show "unat (log_start sb) \<le> length (take (unat (log_start sb) + length (log_bytes E batches)) img)" using facts(4) by simp
qed (use assms in \<open>simp_all add: disk_image_def\<close>)

lemma image_append:
  assumes "disk_image E img sb items batches []" and "stops E rest" and "length (img @ rest) < 2 ^ 63"
  shows "disk_image E (img @ rest) sb items batches rest"
  using assms image_facts [OF assms(1)]
  by (intro image_with_log [OF assms(1)]) (simp_all add: disk_image_def)

lemma image_commit:
  assumes "disk_image E img sb items batches []" and "batch_ok staged" and "length (img @ batch_record E staged) < 2 ^ 63"
  shows "disk_image E (img @ batch_record E staged) sb items (batches @ [staged]) []"
  using assms image_facts [OF assms(1)]
  by (intro image_with_log [OF assms(1)]) (simp_all add: disk_image_def)

end
