(* ===== verification/Lkv_Database_Correct.thy ===== *)
theory Lkv_Database_Correct
  imports Lkv_Database Lkv_Image
begin

section \<open>Correctness of the database\<close>

text \<open>
  Opening a file recovers the map it holds, also when calls on the file fail on the way; a read returns
  what the map says; and a commit adds its batch to the map or, when it fails, leaves a file that holds
  the old or the new map and a handle that reads the old one and refuses further writes.
\<close>

subsection \<open>Steps that only look at the file\<close>

lemma io_lift_then: "io_then (io_lift (Inr x)) f = f x" and io_lift_fails: "io_then (io_lift (Inl e)) f = io_lift (Inl e)"
  by (simp_all add: fun_eq_iff)

lemma io_return_then: "io_then (io_return x) f = f x"
  by (simp add: fun_eq_iff io_then_def)

lemma io_then_assoc: "io_then (io_then m g) f = io_then m (\<lambda>x. io_then (g x) f)"
  by (auto simp: fun_eq_iff io_then_def split: prod.split sum.split)

definition at_file :: "storage \<Rightarrow> bytes \<Rightarrow> storage \<Rightarrow> bool" where
  "at_file s0 img s \<longleftrightarrow> file_step s0 s \<and> storage_image s = img"

text \<open>\<open>broken s e\<close>: the failure \<open>e\<close> is an error value, and a fault of the plan is to blame.\<close>

definition broken :: "storage \<Rightarrow> failure \<Rightarrow> bool" where
  "broken s e \<longleftrightarrow> (\<exists>err. e = Err err) \<and> \<not> file_storage_quiet s"

lemma faulty_broken: "faulty s (Inl e) \<longleftrightarrow> broken s e"
  by (simp add: faulty_def broken_def)

lemma broken_step: "file_step s s' \<Longrightarrow> broken s' e \<Longrightarrow> broken s e"
  using file_step_quiet by (auto simp: broken_def)

lemma at_file_then:
  assumes at: "at_file s0 img s"
    and m: "\<not> storage_is_memory s \<Longrightarrow> post m s (\<lambda>r s'. file_step s s' \<and> storage_image s' = storage_image s \<and> (P r s' \<or> faulty s r))"
    and f: "\<And>y s'. at_file s0 img s' \<Longrightarrow> P (Inr y) s' \<Longrightarrow> post (f y) s' Q"
    and bad: "\<And>e s'. at_file s0 img s' \<Longrightarrow> P (Inl e) s' \<or> broken s0 e \<Longrightarrow> Q (Inl e) s'"
  shows "post (io_then m f) s Q"
proof (rule post_then [OF m])
  show "\<not> storage_is_memory s" using at by (auto simp: at_file_def)
  have step: "at_file s0 img s'" if "file_step s s'" "storage_image s' = storage_image s" for s'
    using that at by (auto simp: at_file_def intro: file_step_trans)
  show "post (f y) s' Q" if "file_step s s' \<and> storage_image s' = storage_image s \<and> (P (Inr y) s' \<or> faulty s (Inr y))" for y s'
    using that f [OF step] by simp
  show "Q (Inl e) s'" if "file_step s s' \<and> storage_image s' = storage_image s \<and> (P (Inl e) s' \<or> faulty s (Inl e))" for e s'
    using that bad [OF step] at broken_step [of s0 s e] by (auto simp: at_file_def faulty_broken)
qed

lemma at_file_len:
  assumes at: "at_file s0 img s" and "\<And>s'. at_file s0 img s' \<Longrightarrow> post (f (length img)) s' Q"
    and "\<And>e s'. at_file s0 img s' \<Longrightarrow> broken s0 e \<Longrightarrow> Q (Inl e) s'"
  shows "post (io_then storage_len f) s Q"
proof (rule at_file_then [OF at, where P = "\<lambda>r s'. r = Inr (length img)"])
  assume "\<not> storage_is_memory s"
  from storage_len_post [OF this] at show "post storage_len s (\<lambda>r s'. file_step s s' \<and> storage_image s' = storage_image s
      \<and> (r = Inr (length img) \<or> faulty s r))"
    by (auto simp: at_file_def post_def)
qed (use assms in auto)

lemma at_file_load:
  assumes at: "at_file s0 img s" and bounds: "0 < n" "offset + n \<le> length img" "length img < usize_limit"
    and "\<And>s'. at_file s0 img s' \<Longrightarrow> post (f (Mapped (range_of offset (offset + n) img))) s' Q"
    and "\<And>e s'. at_file s0 img s' \<Longrightarrow> broken s0 e \<Longrightarrow> Q (Inl e) s'"
  shows "post (io_then (load_immutable E offset n) f) s Q"
proof (rule at_file_then [OF at, where P = "\<lambda>r s'. r = Inr (Mapped (range_of offset (offset + n) img))"])
  assume "\<not> storage_is_memory s"
  then show "post (load_immutable E offset n) s (\<lambda>r s'. file_step s s' \<and> storage_image s' = storage_image s
      \<and> (r = Inr (Mapped (range_of offset (offset + n) img)) \<or> faulty s r))"
    using load_immutable_post [of s n offset E] bounds at by (simp add: at_file_def)
qed (use assms in auto)

lemma at_file_seek_end:
  assumes at: "at_file s0 img s" and "\<And>s'. at_file s0 img s' \<Longrightarrow> storage_position s' = length img \<Longrightarrow> post (f (length img)) s' Q"
    and "\<And>e s'. at_file s0 img s' \<Longrightarrow> broken s0 e \<Longrightarrow> Q (Inl e) s'"
  shows "post (io_then (question (seek_end (storage_ops E))) f) s Q"
proof (rule at_file_then [OF at, where P = "\<lambda>r s'. r = Inr (length img) \<and> storage_position s' = length img"])
  assume "\<not> storage_is_memory s"
  from storage_seek_end_post [OF this, of E] at show "post (question (seek_end (storage_ops E))) s
      (\<lambda>r s'. file_step s s' \<and> storage_image s' = storage_image s
      \<and> ((r = Inr (length img) \<and> storage_position s' = length img) \<or> faulty s r))"
    by (auto simp: at_file_def post_def)
qed (use assms in auto)

lemma at_file_sync:
  assumes at: "at_file s0 img s" and "\<And>s'. at_file s0 img s' \<Longrightarrow> post (f ()) s' Q"
    and "\<And>e s'. at_file s0 img s' \<Longrightarrow> broken s0 e \<Longrightarrow> Q (Inl e) s'"
  shows "post (io_then sync_data f) s Q"
proof (rule at_file_then [OF at, where P = "\<lambda>r s'. r = Inr ()"])
  assume "\<not> storage_is_memory s"
  from storage_sync_post [OF this] show "post sync_data s (\<lambda>r s'. file_step s s' \<and> storage_image s' = storage_image s
      \<and> (r = Inr () \<or> faulty s r))"
    by (auto simp: post_def)
qed (use assms in auto)

lemma at_file_set_len:
  assumes at: "at_file s0 img s" and "\<And>s'. at_file s0 (resized n img) s' \<Longrightarrow> post (f ()) s' Q"
    and "\<And>e s'. at_file s0 img s' \<Longrightarrow> broken s0 e \<Longrightarrow> Q (Inl e) s'"
  shows "post (io_then (storage_set_len E n) f) s Q"
proof (rule post_then [OF storage_set_len_post])
  show "\<not> storage_is_memory s" using at by (auto simp: at_file_def)
  fix e s'
  assume "file_step s s' \<and> (Inl e = Inr () \<and> storage_image s' = resized n (storage_image s) \<or> faulty s (Inl e) \<and> storage_image s' = storage_image s)"
  then have "at_file s0 img s'" "broken s0 e" using at broken_step by (auto simp: at_file_def faulty_broken intro: file_step_trans)
  with assms(3) show "Q (Inl e) s'" .
next
  fix x s'
  assume "file_step s s' \<and> (Inr x = Inr () \<and> storage_image s' = resized n (storage_image s) \<or> faulty s (Inr x) \<and> storage_image s' = storage_image s)"
  then have "at_file s0 (resized n img) s'" using at by (auto simp: at_file_def intro: file_step_trans)
  from assms(2) [OF this] show "post (f x) s' Q" by simp
qed

subsection \<open>An open base and an open log\<close>

definition base_ready :: "externs \<Rightarrow> active_base \<Rightarrow> superblock \<Rightarrow> entry list \<Rightarrow> bool" where
  "base_ready E base sb items \<longleftrightarrow>
     (let off = unat (base_offset sb); slots = active_slots base; x = deref (active_mapping base) in
      base_fits E off slots items \<and> distinct (map fst items) \<and> x = segment_bytes E off slots items \<and> length x < 2 ^ 63
      \<and> active_offset base = off \<and> active_len base = length items \<and> active_log_start base = unat (log_start sb)
      \<and> active_generation base = unat (generation sb) \<and> active_checksum base = base_checksum sb
      \<and> base_checksum sb = crc32c E (segment_metadata E (base_data E off slots items))
      \<and> reading E x (base_data E off slots items) (active_verifier base) \<and> all_match E x (active_verifier base))"

definition overlay_ready :: "externs \<Rightarrow> bytes \<Rightarrow> overlay_state \<Rightarrow> overlay_entry keymap list \<Rightarrow> bool" where
  "overlay_ready E L overlay batches \<longleftrightarrow>
     overlay_state_ok E L overlay \<and> (\<exists>bs table tail. overlay_index overlay = MappedOverlay bs table tail)
     \<and> overlay_abs (overlay_index overlay) = replay Map.empty batches \<and> overlay_charge overlay \<le> length L"

lemma base_ready_open:
  assumes fits: "base_fits E (unat (base_offset sb)) slots items" and dist: "distinct (map fst items)"
    and sb: "written_superblock E (unat (base_offset sb)) slots items sb"
    and mapping: "deref mapping = segment_bytes E (unat (base_offset sb)) slots items" and "length (deref mapping) < 2 ^ 63"
  obtains base where "active_open E mapping sb mode = Inr base" and "base_ready E base sb items"
proof -
  let ?off = "unat (base_offset sb)"
  let ?d = "base_data E ?off slots items"
  let ?v = "verifier_new ?off \<lparr>layout_data = ?d, layout_checksums = segment_table E ?d\<rparr> (mode = Full)"
  note reading = reading_written [OF fits, of ?off "mode = Full"]
  have "base_ready E (active_new mapping ?v sb slots (length items)) sb items"
    using assms reading by (simp add: base_ready_def active_new_def Let_def written_superblock_def)
  with active_open_written [OF fits dist sb mapping, of mode] show thesis by (intro that)
qed

lemma base_ready_install:
  assumes fits: "base_fits E (unat (base_offset sb)) slots items" and dist: "distinct (map fst items)"
    and sb: "written_superblock E (unat (base_offset sb)) slots items sb"
    and mapping: "deref mapping = segment_bytes E (unat (base_offset sb)) slots items" and "length (deref mapping) < 2 ^ 63"
  obtains base where "active_install E mapping sb = Inr base" and "base_ready E base sb items"
proof -
  let ?off = "unat (base_offset sb)"
  let ?d = "base_data E ?off slots items"
  let ?v = "verifier_new ?off \<lparr>layout_data = ?d, layout_checksums = segment_table E ?d\<rparr> True"
  note reading = reading_written [OF fits, of ?off True]
  have "base_ready E (active_new mapping ?v sb slots (length items)) sb items"
    using assms reading by (simp add: base_ready_def active_new_def Let_def written_superblock_def)
  with active_install_written [OF fits sb mapping] show thesis by (intro that)
qed

lemma overlay_ready_empty: "overlay_ready E [] (overlay_state_with_memory (overlay_mapped None) 0) []"
  by (simp add: overlay_ready_def overlay_state_ok_def overlay_state_with_memory_def overlay_mapped_def Let_def
      records_ok_def mapping_or_empty_def)

text \<open>The scan of a whole log, and of one whose rest is cut off under the index.\<close>

lemma scan_ready:
  assumes b: "deref b = log_bytes E batches @ rest" and lt: "start + length (deref b) < 2 ^ 63"
    and oks: "\<forall>staged \<in> set batches. batch_ok staged" and reserve: "\<forall>n. try_reserve E n" and stop: "stops E rest"
  obtains scan where "scan_overlay E b start = Inr scan" and "valid_len scan = start + length (log_bytes E batches)"
    and "rest = [] \<Longrightarrow> overlay_ready E (log_bytes E batches) (overlay_state_with_memory (scan_index scan) (scan_memory scan)) batches"
    and "\<exists>scan'. release_mapping scan = Inr scan' \<and> valid_len scan' = valid_len scan
      \<and> (\<forall>b'. mapping_or_empty b' = log_bytes E batches \<longrightarrow> (\<exists>scan''. replace_mapping b' scan' = Inr scan''
          \<and> overlay_ready E (log_bytes E batches) (overlay_state_with_memory (scan_index scan'') (scan_memory scan'')) batches))"
proof -
  have "rest = [] \<or> (\<forall>index memory. scan_record E (deref b) start (length (log_bytes E batches)) index memory = Inr None)"
    using stop b lt by (auto simp: stops_def)
  moreover have "start + length (deref b) < usize_limit" using lt by (simp add: usize_limit_def)
  ultimately obtain scan table where scan: "scan_overlay E b start = Inr scan"
    "overlay_abs (scan_index scan) = replay Map.empty batches" "valid_len scan = start + length (log_bytes E batches)"
    "overlay_ok E (deref b) (scan_index scan)" "scan_memory scan = map_charge (scan_index scan)"
    "scan_index scan = MappedOverlay (Some b) table []" "records_in (log_bytes E batches) (scan_index scan)"
    "scan_memory scan \<le> length (log_bytes E batches)"
    using scan_overlay_batches [OF b _ oks reserve] by metis
  let ?L = "log_bytes E batches"
  have short: "overlay_ok E ?L (MappedOverlay b' table [])"
    "overlay_abs (MappedOverlay b' table []) = replay Map.empty batches"
    "map_charge (MappedOverlay b' table []) = scan_memory scan" if "mapping_or_empty b' = ?L" for b'
    using overlay_ok_shorter [OF _ b refl _ that, of E table] scan(2,4-7)
    by (simp_all del: overlay_ok.simps overlay_abs.simps map_charge.simps records_in.simps)
  show thesis
  proof (rule that [OF scan(1,3)])
    assume "rest = []"
    with b have "mapping_or_empty (Some b) = ?L" by (simp add: mapping_or_empty_def)
    from short [OF this] scan(6,8)
    show "overlay_ready E ?L (overlay_state_with_memory (scan_index scan) (scan_memory scan)) batches"
      by (simp add: overlay_ready_def overlay_state_ok_def overlay_state_with_memory_def del: overlay_ok.simps overlay_abs.simps map_charge.simps)
  next
    let ?scan = "scan\<lparr>scan_index := MappedOverlay None table []\<rparr>"
    have "release_mapping scan = Inr ?scan" by (simp add: release_mapping_def scan(6))
    moreover have "replace_mapping b' ?scan = Inr (scan\<lparr>scan_index := MappedOverlay b' table []\<rparr>)" for b'
      by (simp add: replace_mapping_def)
    ultimately show "\<exists>scan'. release_mapping scan = Inr scan' \<and> valid_len scan' = valid_len scan
      \<and> (\<forall>b'. mapping_or_empty b' = ?L \<longrightarrow> (\<exists>scan''. replace_mapping b' scan' = Inr scan''
          \<and> overlay_ready E ?L (overlay_state_with_memory (scan_index scan'') (scan_memory scan'')) batches))"
      using short scan(8)
      by (intro exI [of _ ?scan])
        (simp add: overlay_ready_def overlay_state_ok_def overlay_state_with_memory_def del: overlay_ok.simps overlay_abs.simps map_charge.simps)
  qed
qed

subsection \<open>Opening\<close>

lemma resized_take: "n \<le> length img \<Longrightarrow> resized n img = take n img"
  by (simp add: resized_def)

lemma image_base:
  assumes "disk_image E img sb items batches rest"
  obtains slots where "base_fits E (unat (base_offset sb)) slots items" and "distinct (map fst items)"
    and "written_superblock E (unat (base_offset sb)) slots items sb"
    and "range_of (unat (base_offset sb)) (unat (base_offset sb) + unat (base_size sb)) img = segment_bytes E (unat (base_offset sb)) slots items"
    and "0 < unat (base_size sb)" and "unat (base_offset sb) + unat (base_size sb) \<le> length img"
proof -
  from assms obtain slots where "base_fits E (unat (base_offset sb)) slots items" "distinct (map fst items)"
    "written_superblock E (unat (base_offset sb)) slots items sb"
    "range_of (unat (base_offset sb)) (unat (base_offset sb) + unat (base_size sb)) img = segment_bytes E (unat (base_offset sb)) slots items"
    "unat (base_offset sb) + unat (base_size sb) \<le> unat (log_start sb)" "unat (log_start sb) \<le> length img"
    by (auto simp: disk_image_def base_at_def)
  moreover from this(3) have "0 < unat (base_size sb)" by (simp add: written_superblock_def segment_length_def)
  ultimately show thesis by (intro that) simp_all
qed

text \<open>Mapping and accepting the base of an image.\<close>

lemma at_file_open_base:
  assumes at: "at_file s0 img s" and disk: "disk_image E img sb items batches rest"
    and f: "\<And>base s'. at_file s0 img s' \<Longrightarrow> base_ready E base sb items \<Longrightarrow> post (f base) s' Q"
    and bad: "\<And>e s'. at_file s0 img s' \<Longrightarrow> broken s0 e \<Longrightarrow> Q (Inl e) s'"
  shows "post (io_then (load_immutable E (unat (base_offset sb)) (unat (base_size sb))) (\<lambda>mapping.
    io_then (io_lift (active_open E mapping sb mode)) f)) s Q"
proof -
  let ?off = "unat (base_offset sb)" and ?n = "unat (base_size sb)"
  from disk obtain slots where base: "base_fits E ?off slots items" "distinct (map fst items)"
    "written_superblock E ?off slots items sb" "range_of ?off (?off + ?n) img = segment_bytes E ?off slots items"
    and le: "0 < ?n" "?off + ?n \<le> length img" by (rule image_base)
  have lt: "length img < 2 ^ 63" using disk by (simp add: disk_image_def)
  then have "length (deref (Mapped (range_of ?off (?off + ?n) img))) < 2 ^ 63" using le by simp
  from base_ready_open [OF base(1-3) _ this, of mode] base(4) obtain b where
    b: "active_open E (Mapped (range_of ?off (?off + ?n) img)) sb mode = Inr b" "base_ready E b sb items" by auto
  show ?thesis
    by (rule at_file_load [OF at le]) (use lt b f bad in \<open>auto simp: usize_limit_def intro!: post_then_lift\<close>)
qed

lemma at_file_open_log:
  assumes at: "at_file s0 img s" and drop: "drop start img = L" and le: "start \<le> length img" and lt: "length img < 2 ^ 63"
    and f: "\<And>mapping s'. at_file s0 img s' \<Longrightarrow> mapping_or_empty mapping = L \<Longrightarrow> post (f mapping) s' Q"
    and bad: "\<And>e s'. at_file s0 img s' \<Longrightarrow> broken s0 e \<Longrightarrow> Q (Inl e) s'"
  shows "post (io_then (if length L = 0 then io_return None
      else io_then (load_immutable E start (length L)) (\<lambda>mapping. io_return (Some mapping))) f) s Q"
proof (cases "L = []")
  case True
  with f [OF at] show ?thesis by (simp add: mapping_or_empty_def post_def)
next
  case False
  have len: "start + length L = length img" using drop le by (metis add_diff_cancel_left' le_add_diff_inverse length_drop)
  have range: "range_of start (start + length L) img = L" using drop le len by (simp add: range_of_def)
  have assoc: "io_then (io_then m (\<lambda>mapping. io_return (Some mapping))) f = io_then m (\<lambda>mapping. f (Some mapping))" for m
    by (auto simp: fun_eq_iff io_then_def split: prod.split sum.split)
  have "post (io_then (load_immutable E start (length L)) (\<lambda>mapping. f (Some mapping))) s Q"
    by (rule at_file_load [OF at]) (use False len lt f bad range in \<open>auto simp: usize_limit_def mapping_or_empty_def\<close>)
  with False assoc show ?thesis by simp
qed

definition opened :: "externs \<Rightarrow> superblock \<Rightarrow> entry list \<Rightarrow> overlay_entry keymap list \<Rightarrow> active_base \<times> overlay_state \<Rightarrow> bool" where
  "opened E sb items batches state \<longleftrightarrow>
     base_ready E (fst state) sb items \<and> overlay_ready E (log_bytes E batches) (snd state) batches"

text \<open>Cutting off the rest of the log.\<close>

lemma reload_truncated_post:
  assumes at: "at_file s0 img s" and disk: "disk_image E img sb items batches rest"
    and scan: "\<exists>scan'. release_mapping scan = Inr scan' \<and> valid_len scan' = valid_len scan
      \<and> (\<forall>b'. mapping_or_empty b' = log_bytes E batches \<longrightarrow> (\<exists>scan''. replace_mapping b' scan' = Inr scan''
          \<and> overlay_ready E (log_bytes E batches) (overlay_state_with_memory (scan_index scan'') (scan_memory scan'')) batches))"
    and valid: "valid_len scan = unat (log_start sb) + length (log_bytes E batches)"
  defines "img' \<equiv> take (valid_len scan) img"
  shows "post (reload_truncated E options sb scan) s (\<lambda>r s'. (at_file s0 img s' \<or> at_file s0 img' s')
    \<and> ((\<exists>base scan'. r = Inr (base, scan') \<and> at_file s0 img' s'
          \<and> opened E sb items batches (base, overlay_state_with_memory (scan_index scan') (scan_memory scan')))
       \<or> faulty s0 r))"
proof -
  let ?L = "log_bytes E batches" and ?start = "unat (log_start sb)"
  note facts = image_facts [OF disk]
  have disk': "disk_image E img' sb items batches []" using image_truncate [OF disk] by (simp add: img'_def valid)
  have le: "valid_len scan \<le> length img" using facts(5) valid by simp
  have bad: "(at_file s0 img s' \<or> at_file s0 img' s') \<and> (P \<or> faulty s0 (Inl e))"
    if "at_file s0 img s' \<or> at_file s0 img' s'" "broken s0 e" for P s' e
    using that by (simp add: faulty_broken)
  from scan obtain scan' where scan': "release_mapping scan = Inr scan'" "valid_len scan' = valid_len scan"
    and replace: "\<And>b'. mapping_or_empty b' = ?L \<Longrightarrow> \<exists>scan''. replace_mapping b' scan' = Inr scan''
          \<and> overlay_ready E ?L (overlay_state_with_memory (scan_index scan'') (scan_memory scan'')) batches" by blast
  have log: "drop ?start img' = ?L" "?start \<le> length img'" "length img' < 2 ^ 63"
    using disk' image_facts(4) [OF disk'] by (simp_all add: disk_image_def)
  let ?Q = "\<lambda>r s'. (at_file s0 img s' \<or> at_file s0 img' s')
    \<and> ((\<exists>base scan'. r = Inr (base, scan') \<and> at_file s0 img' s'
          \<and> opened E sb items batches (base, overlay_state_with_memory (scan_index scan') (scan_memory scan')))
       \<or> faulty s0 r)"
  let ?tail = "\<lambda>base. io_then (io_lift (ok_or (Err (invalid_base ''overlay range precedes active Base''))
       (checked_sub (valid_len scan') (active_log_start base)))) (\<lambda>overlay_size.
     io_then (if overlay_size = 0 then io_return None
              else io_then (load_immutable E (active_log_start base) overlay_size) (\<lambda>mapping. io_return (Some mapping)))
       (\<lambda>mapping.
     io_then (io_lift (replace_mapping mapping scan')) (\<lambda>scan. io_return (base, scan))))"
  have tail: "post (?tail base) s1 ?Q" if at1: "at_file s0 img' s1" and base: "base_ready E base sb items" for base s1
  proof -
    have "checked_sub (valid_len scan') (active_log_start base) = Some (length ?L)" "active_log_start base = ?start"
      using base valid scan'(2) by (simp_all add: base_ready_def Let_def checked_sub_def)
    moreover have "post (io_then (if length ?L = 0 then io_return None
         else io_then (load_immutable E ?start (length ?L)) (\<lambda>mapping. io_return (Some mapping)))
       (\<lambda>mapping. io_then (io_lift (replace_mapping mapping scan')) (\<lambda>scan. io_return (base, scan)))) s1 ?Q"
    proof (rule at_file_open_log [OF at1 log])
      fix mapping s2
      assume "at_file s0 img' s2" and "mapping_or_empty mapping = ?L"
      with replace [of mapping] base show "post (io_then (io_lift (replace_mapping mapping scan')) (\<lambda>scan. io_return (base, scan))) s2 ?Q"
        by (auto simp: post_def opened_def)
    qed (use bad in blast)
    ultimately show ?thesis by (simp only: ok_or_simps io_lift_then)
  qed
  have "reload_truncated E options sb scan = io_then (storage_set_len E (valid_len scan)) (\<lambda>_. io_then sync_data (\<lambda>_.
      io_then (load_immutable E (unat (base_offset sb)) (unat (base_size sb))) (\<lambda>mapping.
      io_then (io_lift (active_open E mapping sb (verification options))) ?tail)))"
    by (simp only: reload_truncated_def scan' io_lift_then)
  moreover have "post \<dots> s ?Q"
  proof (rule at_file_set_len [OF at])
    fix s1
    assume "at_file s0 (resized (valid_len scan) img) s1"
    then have at1: "at_file s0 img' s1" by (simp add: resized_take [OF le] img'_def)
    show "post (io_then sync_data (\<lambda>_. io_then (load_immutable E (unat (base_offset sb)) (unat (base_size sb))) (\<lambda>mapping.
        io_then (io_lift (active_open E mapping sb (verification options))) ?tail))) s1 ?Q"
      by (rule at_file_sync [OF at1], rule at_file_open_base [OF _ disk']) (use tail bad in blast)+
  qed (use bad in blast)
  ultimately show ?thesis by simp
qed

lemma at_file_latest:
  assumes at: "at_file s0 img s" and "device_faults s0" and disk: "disk_image E img sb items batches rest"
    and "\<And>s'. at_file s0 img s' \<Longrightarrow> post (f sb) s' Q"
    and "\<And>e s'. at_file s0 img s' \<Longrightarrow> broken s0 e \<Longrightarrow> Q (Inl e) s'"
  shows "post (io_then (read_latest_from E (storage_ops E) (length img)) f) s Q"
proof (rule at_file_then [OF at, where P = "\<lambda>r s'. r = Inr sb"])
  assume is_file: "\<not> storage_is_memory s"
  have "superblock_in_range (length img) sb"
    using disk image_facts(4) [OF disk] base_at_in_range by (auto simp: disk_image_def)
  then show "post (read_latest_from E (storage_ops E) (length img)) s (\<lambda>r s'. file_step s s' \<and> storage_image s' = storage_image s
      \<and> (r = Inr sb \<or> faulty s r))"
    using at assms(2) disk device_faults_step
    by (intro read_latest_post is_file) (auto simp: at_file_def disk_image_def)
qed (use assms in auto)

text \<open>The scan at open: \<open>opened_scan\<close> says what the following steps rely on.\<close>

definition opened_scan :: "externs \<Rightarrow> superblock \<Rightarrow> overlay_entry keymap list \<Rightarrow> bytes \<Rightarrow> overlay_scan \<Rightarrow> bool" where
  "opened_scan E sb batches rest scan \<longleftrightarrow>
     valid_len scan = unat (log_start sb) + length (log_bytes E batches)
     \<and> (rest = [] \<longrightarrow> overlay_ready E (log_bytes E batches) (overlay_state_with_memory (scan_index scan) (scan_memory scan)) batches)
     \<and> (\<exists>scan'. release_mapping scan = Inr scan' \<and> valid_len scan' = valid_len scan
        \<and> (\<forall>b'. mapping_or_empty b' = log_bytes E batches \<longrightarrow> (\<exists>scan''. replace_mapping b' scan' = Inr scan''
            \<and> overlay_ready E (log_bytes E batches) (overlay_state_with_memory (scan_index scan'') (scan_memory scan'')) batches)))"

lemma log_bytes_Nil_iff: "log_bytes E batches = [] \<longleftrightarrow> batches = []"
proof (cases batches)
  case (Cons staged rest)
  have "batch_record E staged \<noteq> []" using length_batch_record [of E staged] by (cases "batch_record E staged") simp_all
  with Cons show ?thesis by simp
qed simp

lemma opened_scan_empty: "opened_scan E sb [] [] (overlay_scan_empty (unat (log_start sb)))"
proof -
  have "overlay_ready E [] (overlay_state_with_memory (MappedOverlay b' [] []) 0) []" if "mapping_or_empty b' = []" for b'
    using that by (simp add: overlay_ready_def overlay_state_ok_def overlay_state_with_memory_def Let_def records_ok_def)
  then show ?thesis
    by (auto simp: opened_scan_def overlay_scan_empty_def overlay_mapped_def release_mapping_def replace_mapping_def mapping_or_empty_def)
qed

lemma at_file_scan_log:
  assumes at: "at_file s0 img s" and disk: "disk_image E img sb items batches rest" and reserve: "\<forall>n. try_reserve E n"
    and base: "base_ready E base sb items"
    and f: "\<And>scan s'. at_file s0 img s' \<Longrightarrow> opened_scan E sb batches rest scan \<Longrightarrow> post (f scan) s' Q"
    and bad: "\<And>e s'. at_file s0 img s' \<Longrightarrow> broken s0 e \<Longrightarrow> Q (Inl e) s'"
  shows "post (io_then (scan_log E base (length (log_bytes E batches @ rest))) f) s Q"
proof -
  let ?L = "log_bytes E batches @ rest" and ?start = "unat (log_start sb)"
  have start: "active_log_start base = ?start" using base by (simp add: base_ready_def Let_def)
  show ?thesis
  proof (cases "?L = []")
    case True
    then have "batches = []" "rest = []" by (simp_all add: log_bytes_Nil_iff)
    with f [OF at] opened_scan_empty [of E sb] start show ?thesis
      by (simp add: post_def io_then_def scan_log_def)
  next
    case False
    have is_file: "\<not> storage_is_memory s" using at by (auto simp: at_file_def)
    have d: "drop ?start img = ?L" "\<forall>staged \<in> set batches. batch_ok staged" "stops E rest" "length img < 2 ^ 63"
      using disk by (simp_all add: disk_image_def)
    have le: "?start \<le> length img" "?start + length ?L = length img" using image_facts(4,5) [OF disk] by simp_all
    let ?b = "Mapped (range_of ?start (?start + length ?L) img)"
    have b: "deref ?b = ?L" using d(1) le by (simp add: range_of_def)
    have "?start + length (deref ?b) < 2 ^ 63" using b le d(4) by simp
    from scan_ready [OF b this d(2) reserve d(3)] obtain scan where scan: "scan_overlay E ?b ?start = Inr scan"
      "opened_scan E sb batches rest scan"
      unfolding opened_scan_def by metis
    have "scan_log E base (length ?L) s =
        io_then (load_immutable E ?start (length ?L)) (\<lambda>mapping. io_lift (scan_overlay E mapping ?start)) s"
      using False is_file start by (simp only: scan_log_def length_0_conv if_False)
    then have unfold: "io_then (scan_log E base (length ?L)) f s =
        io_then (load_immutable E ?start (length ?L)) (\<lambda>mapping. io_then (io_lift (scan_overlay E mapping ?start)) f) s"
      by (simp only: io_then_assoc [symmetric] io_then_def [of _ f])
    have "post (io_then (load_immutable E ?start (length ?L)) (\<lambda>mapping. io_then (io_lift (scan_overlay E mapping ?start)) f)) s Q"
    proof (rule at_file_load [OF at])
      show "0 < length ?L" "?start + length ?L \<le> length img" "length img < usize_limit"
        using False le d(4) by (simp_all add: usize_limit_def)
      show "post (io_then (io_lift (scan_overlay E ?b ?start)) f) s' Q" if "at_file s0 img s'" for s'
        unfolding scan(1) io_lift_then using that scan(2) by (rule f)
    qed (rule bad)
    then show ?thesis by (simp only: post_def unfold)
  qed
qed

theorem load_storage_state_post:
  assumes at: "at_file s0 img s" and dev: "device_faults s0" and disk: "disk_image E img sb items batches rest"
    and reserve: "\<forall>n. try_reserve E n"
  defines "img' \<equiv> take (unat (log_start sb) + length (log_bytes E batches)) img"
  shows "post (load_storage_state E options) s (\<lambda>r s'. (at_file s0 img s' \<or> at_file s0 img' s')
    \<and> ((\<exists>state. r = Inr state \<and> at_file s0 img' s' \<and> storage_position s' = length img' \<and> opened E sb items batches state)
       \<or> faulty s0 r))"
    (is "post _ s ?Q")
proof -
  let ?start = "unat (log_start sb)"
  note facts = image_facts [OF disk]
  have bad: "?Q (Inl e) s'" if "at_file s0 img s' \<or> at_file s0 img' s'" "broken s0 e" for s' e
    using that by (simp add: faulty_broken)
  let ?fin = "\<lambda>(base, scan). io_then (\<lambda>s. (if storage_is_memory s then overlay_state_new overlay_memory
        else Inr (case into_index scan of (index, memory) \<Rightarrow> overlay_state_with_memory index memory), s)) (\<lambda>overlay.
     io_then (question (seek_end (storage_ops E))) (\<lambda>_. io_return (base, overlay)))"
  have fin: "post (?fin (base, scan)) s1 ?Q"
    if at1: "at_file s0 img' s1" and ready: "opened E sb items batches (base, overlay_state_with_memory (scan_index scan) (scan_memory scan))"
    for base scan s1
  proof -
    have "\<not> storage_is_memory s1" using at1 by (auto simp: at_file_def)
    then have "?fin (base, scan) s1 = io_then (question (seek_end (storage_ops E)))
        (\<lambda>_. io_return (base, overlay_state_with_memory (scan_index scan) (scan_memory scan))) s1"
      by (simp add: io_then_def [of "\<lambda>s. (_, s)"] into_index_def)
    moreover have "post (io_then (question (seek_end (storage_ops E)))
        (\<lambda>_. io_return (base, overlay_state_with_memory (scan_index scan) (scan_memory scan)))) s1 ?Q"
      by (rule at_file_seek_end [OF at1]) (use ready bad in \<open>auto intro!: post_return\<close>)
    ultimately show ?thesis by (simp only: post_def)
  qed
  let ?cut = "\<lambda>base scan. io_then (if valid_len scan < length img then reload_truncated E options sb scan else io_return (base, scan)) ?fin"
  have cut: "post (?cut base scan) s1 ?Q"
    if at1: "at_file s0 img s1" and base: "base_ready E base sb items" and scan: "opened_scan E sb batches rest scan" for base scan s1
  proof (cases "rest = []")
    case True
    then have "img' = img" "\<not> valid_len scan < length img" using facts(5) scan by (simp_all add: img'_def opened_scan_def)
    from at1 base scan True \<open>img' = img\<close> have "post (?fin (base, scan)) s1 ?Q"
      by (intro fin) (simp_all add: opened_def opened_scan_def)
    with \<open>\<not> valid_len scan < length img\<close> show ?thesis by (simp only: if_False io_return_then)
  next
    case False
    then have lt: "valid_len scan < length img" using facts(5) scan by (simp add: opened_scan_def)
    have valid: "valid_len scan = ?start + length (log_bytes E batches)" using scan by (simp add: opened_scan_def)
    have img': "take (valid_len scan) img = img'" by (simp add: img'_def valid)
    from scan have "\<exists>scan'. release_mapping scan = Inr scan' \<and> valid_len scan' = valid_len scan
      \<and> (\<forall>b'. mapping_or_empty b' = log_bytes E batches \<longrightarrow> (\<exists>scan''. replace_mapping b' scan' = Inr scan''
          \<and> overlay_ready E (log_bytes E batches) (overlay_state_with_memory (scan_index scan'') (scan_memory scan'')) batches))"
      unfolding opened_scan_def by (elim conjE)
    note reload = reload_truncated_post [OF at1 disk this valid, of options, unfolded img']
    have "post (io_then (reload_truncated E options sb scan) ?fin) s1 ?Q"
      by (rule post_then [OF reload]) (use fin bad in \<open>auto simp: faulty_broken\<close>)
    with lt show ?thesis by simp
  qed
  show ?thesis
    unfolding load_storage_state_def
  proof (rule at_file_len [OF at], rule at_file_latest [OF _ dev disk], assumption, rule at_file_open_base [OF _ disk], assumption)
    fix s1 s2 s3 base
    assume at3: "at_file s0 img s3" and base: "base_ready E base sb items"
    have "checked_sub (length img) (active_log_start base) = Some (length (log_bytes E batches @ rest))"
      using base facts(5) by (simp add: base_ready_def Let_def checked_sub_def)
    moreover have "post (io_then (scan_log E base (length (log_bytes E batches @ rest))) (?cut base)) s3 ?Q"
      by (rule at_file_scan_log [OF at3 disk reserve base]) (use cut base bad in blast)+
    ultimately show "post (io_then (io_lift (ok_or (Err (invalid_base ''overlay range precedes active Base''))
        (checked_sub (length img) (active_log_start base)))) (\<lambda>n. io_then (scan_log E base n) (?cut base))) s3 ?Q"
      by (simp only: ok_or_simps io_lift_then)
  qed (use bad in blast)+
qed

subsection \<open>Handles\<close>

text \<open>
  \<open>db_reads E db m\<close>: the base and the Overlay of the handle stand for the map \<open>m\<close>. \<open>db_on_file E db m\<close>:
  the file of the handle holds the same base and log, so it holds \<open>m\<close> as well and ends with the log.
\<close>

definition db_reads :: "externs \<Rightarrow> database \<Rightarrow> (bytes \<rightharpoonup> bytes) \<Rightarrow> bool" where
  "db_reads E db m \<longleftrightarrow> db_state db \<noteq> Unavailable
     \<and> (\<exists>sb items batches. opened E sb items batches (db_base db, db_overlay db) \<and> image_map items batches = m)"

definition file_db :: "externs \<Rightarrow> database \<Rightarrow> superblock \<Rightarrow> entry list \<Rightarrow> overlay_entry keymap list \<Rightarrow> bool" where
  "file_db E db sb items batches \<longleftrightarrow> \<not> storage_is_memory (db_storage db)
     \<and> disk_image E (storage_image (db_storage db)) sb items batches []
     \<and> opened E sb items batches (db_base db, db_overlay db)"

definition db_on_file :: "externs \<Rightarrow> database \<Rightarrow> (bytes \<rightharpoonup> bytes) \<Rightarrow> bool" where
  "db_on_file E db m \<longleftrightarrow> db_state db = Healthy
     \<and> (\<exists>sb items batches. file_db E db sb items batches \<and> image_map items batches = m)"

lemma db_on_file_reads: "db_on_file E db m \<Longrightarrow> db_reads E db m"
  unfolding db_on_file_def db_reads_def file_db_def by auto

lemma db_on_file_holds: "db_on_file E db m \<Longrightarrow> holds E (storage_image (db_storage db)) m"
  unfolding db_on_file_def file_db_def holds_def by blast

lemma from_storage_post:
  assumes at: "at_file s0 img s" and dev: "device_faults s0" and disk: "disk_image E img sb items batches rest"
    and reserve: "\<forall>n. try_reserve E n" and len: "length img \<le> max_database_bytes options"
  shows "post (from_storage E options) s (\<lambda>r s'. file_step s0 s' \<and> holds E (storage_image s') (image_map items batches)
    \<and> length (storage_image s') \<le> length img
    \<and> ((\<exists>db. r = Inr db \<and> db_storage db = s' \<and> db_options db = options \<and> db_snapshots db = 0 \<and> db_on_file E db (image_map items batches))
       \<or> faulty s0 r))"
    (is "post _ s ?Q")
proof -
  let ?m = "image_map items batches"
  define img' where "img' = take (unat (log_start sb) + length (log_bytes E batches)) img"
  have disk': "disk_image E img' sb items batches []" using image_truncate [OF disk] by (simp add: img'_def)
  have "length img' \<le> length img" by (simp add: img'_def)
  then have held: "holds E (storage_image s') ?m" "file_step s0 s'" "length (storage_image s') \<le> length img"
    if "at_file s0 img s' \<or> at_file s0 img' s'" for s'
    using that disk disk' by (auto simp: at_file_def holds_def)
  have bad: "?Q (Inl e) s'" if "at_file s0 img s' \<or> at_file s0 img' s'" "broken s0 e" for s' e
    using held [OF that(1)] that(2) by (simp add: faulty_broken)
  have good: "?Q (Inr \<lparr>db_storage = s', db_base = base, db_overlay = overlay, db_options = options, db_snapshots = 0, db_state = Healthy\<rparr>) s'"
    if "at_file s0 img' s'" "opened E sb items batches (base, overlay)" for s' base overlay
  proof -
    have "\<not> storage_is_memory s'" "storage_image s' = img'" using that(1) by (auto simp: at_file_def)
    with that held [of s'] disk' show ?thesis by (auto simp: db_on_file_def file_db_def)
  qed
  let ?mk = "\<lambda>(base, overlay) s. (Inr \<lparr>db_storage = s, db_base = base, db_overlay = overlay, db_options = options,
    db_snapshots = 0, db_state = Healthy\<rparr> :: database result, s)"
  have tail: "post (io_then (load_storage_state E options) ?mk) s1 ?Q" if at1: "at_file s0 img s1" for s1
  proof (rule post_then [OF load_storage_state_post [OF at1 dev disk reserve, of options, folded img'_def]])
    fix state s2
    assume "(at_file s0 img s2 \<or> at_file s0 img' s2) \<and> ((\<exists>state'. Inr state = Inr state' \<and> at_file s0 img' s2
      \<and> storage_position s2 = length img' \<and> opened E sb items batches state') \<or> faulty s0 (Inr state))"
    with good show "post (?mk state) s2 ?Q" by (cases state) (auto simp: post_def)
  qed (use bad in \<open>auto simp: faulty_broken\<close>)
  show ?thesis
    unfolding from_storage_def
    by (rule at_file_len [OF at]) (use tail bad len in auto)
qed

subsection \<open>Reading\<close>

lemma base_ready_verifier:
  assumes "base_ready E base sb items"
    and "reading E (deref (active_mapping base)) (base_data E (active_offset base) (active_slots base) items) v"
    and "same_segment (active_verifier base) v"
  shows "base_ready E (base\<lparr>active_verifier := v\<rparr>) sb items"
  using assms same_segment_all_match by (auto simp: base_ready_def Let_def)

lemma view_get_opened:
  assumes "opened E sb items batches (base, overlay)"
  shows "\<exists>v. view_get E (base_read_view base overlay mode) key (active_verifier base) = (Inr (image_map items batches key), v)
    \<and> opened E sb items batches (base\<lparr>active_verifier := v\<rparr>, overlay)"
proof -
  let ?x = "deref (active_mapping base)" and ?v = "active_verifier base"
  let ?look = "lookup_segment E ?x mode (active_offset base) (active_slots base) key (xxh3_64 E key) ?v"
  from assms have base: "base_ready E base sb items" and overlay: "overlay_ready E (log_bytes E batches) overlay batches"
    by (simp_all add: opened_def)
  from overlay have found: "get_hashed (overlay_index overlay) key (xxh3_64 E key) = Inr (replay Map.empty batches key)"
    using overlay_get_eq [of E "log_bytes E batches" "overlay_index overlay" key]
    by (simp add: overlay_ready_def overlay_state_ok_def overlay_get_def)
  have look: "lookup_result E ?x (base_data E (active_offset base) (active_slots base) items) ?v (map_of items key) ?look"
    using base by (intro lookup_segment_written) (auto simp: base_ready_def Let_def)
  obtain r v where rv: "?look = (r, v)" by fastforce
  with look base have r: "r = Inr (map_of items key)"
    and kept: "opened E sb items batches (base\<lparr>active_verifier := v\<rparr>, overlay)"
    using assms base_ready_verifier [OF base, of v]
    by (auto simp: lookup_result_def opened_def base_ready_def Let_def)
  have "opened E sb items batches (base\<lparr>active_verifier := ?v\<rparr>, overlay)" using assms by simp
  with found rv r kept show ?thesis
    by (auto simp: view_get_def base_read_view_def image_map_def live_map_def io_then_def split: option.splits)
qed

text \<open>A read changes nothing but what the verifier knows.\<close>

definition reverified :: "database \<Rightarrow> database \<Rightarrow> bool" where
  "reverified db db' \<longleftrightarrow> (\<exists>v. db' = db\<lparr>db_base := (db_base db)\<lparr>active_verifier := v\<rparr>\<rparr>)"

lemma db_get_reads:
  assumes "db_reads E db m"
  shows "\<exists>db'. db_get E key db = (Inr (m key), db') \<and> reverified db db' \<and> db_reads E db' m \<and> (db_on_file E db m \<longrightarrow> db_on_file E db' m)"
proof -
  have step: "\<exists>db'. db_get E key db = (Inr (image_map items batches key), db') \<and> reverified db db'
      \<and> opened E sb items batches (db_base db', db_overlay db')"
    if "db_state db \<noteq> Unavailable" "opened E sb items batches (db_base db, db_overlay db)" for sb items batches
    using view_get_opened [OF that(2), of "verification (db_options db)" key] that(1)
    by (auto simp: db_get_def guarded_def ensure_available_def on_db_verifier_def on_db_base_def db_read_view_def reverified_def)
  have kept: "db_storage db' = db_storage db \<and> db_state db' = db_state db" if "reverified db db'" for db'
    using that by (auto simp: reverified_def)
  show ?thesis
  proof (cases "db_on_file E db m")
    case True
    then obtain sb items batches where "db_state db = Healthy" "file_db E db sb items batches" "image_map items batches = m"
      by (auto simp: db_on_file_def)
    with step [of sb items batches] kept show ?thesis
      by (fastforce simp: db_on_file_def db_reads_def file_db_def)
  next
    case False
    from assms obtain sb items batches where "db_state db \<noteq> Unavailable"
      "opened E sb items batches (db_base db, db_overlay db)" "image_map items batches = m"
      by (auto simp: db_reads_def)
    with step [of sb items batches] kept False show ?thesis by (fastforce simp: db_reads_def)
  qed
qed

end
