(* ===== verification/Lkv_New_Correct.thy ===== *)
theory Lkv_New_Correct
  imports Lkv_Database_Correct
begin

section \<open>New database files\<close>

text \<open>
  The image of a new database: two pages for the superblock, the first one empty, and an empty base. It
  holds the empty map, and \<open>initialize_file\<close> writes it or reports an error.
\<close>

subsection \<open>The image of an empty database\<close>

definition empty_superblock :: "externs \<Rightarrow> superblock" where
  "empty_superblock E = superblock_new 1 8192 (segment_length 0 []) 0 0 (8192 + segment_length 0 [])
     (crc32c E (segment_metadata E (base_data E 8192 0 [])))"

definition empty_image :: "externs \<Rightarrow> bytes" where
  "empty_image E = write_at 4096 (encode_page E (empty_superblock E))
     (write_at 8192 (segment_bytes E 8192 0 []) (replicate 8192 0))"

lemma segment_length_empty: "segment_length 0 [] = 52"
  by (simp add: segment_length_def data_length_def div_ceil_def)

lemma base_fits_empty: "\<forall>n. try_reserve E n \<Longrightarrow> base_fits E 8192 0 []"
  by (simp add: base_fits_def entries_ok_def base_slot_count_def segment_length_empty usize_limit_def)

lemma empty_superblock_fields:
  "generation (empty_superblock E) = 1" "unat (base_offset (empty_superblock E)) = 8192"
  "unat (base_size (empty_superblock E)) = 52" "unat (log_start (empty_superblock E)) = 8244"
  by (simp_all add: empty_superblock_def superblock_new_def segment_length_empty unat_of_nat)

lemma page_offset_first: "page_offset 1 = 4096" "page_offset 2 = 0"
  by (simp_all add: page_offset_def)

lemma zero_page_skipped: "page_verdict E n (replicate 4096 0) = Inr Skip"
proof -
  have "hd (range_of 0 8 (replicate 4096 (0 :: u8))) \<noteq> hd MAGIC" by (simp add: range_of_def MAGIC_def)
  then have "range_of 0 8 (replicate 4096 (0 :: u8)) \<noteq> MAGIC" by metis
  then show ?thesis by (simp add: page_verdict_def read_envelope_def index_range_def get_range_def)
qed

lemma empty_disk_image:
  assumes "\<forall>n. try_reserve E n"
  shows "disk_image E (empty_image E) (empty_superblock E) [] [] []"
proof -
  let ?sb = "empty_superblock E" and ?seg = "segment_bytes E 8192 0 []" and ?img = "empty_image E"
  let ?base = "write_at 8192 ?seg (replicate 8192 0)"
  note fits = base_fits_empty [OF assms]
  have seg: "length ?seg = 52" using base_fits_facts(4) [OF fits] by (simp add: segment_length_empty)
  have base: "?base = replicate 8192 0 @ ?seg" by (simp add: write_at_def)
  have len: "length ?img = 8244" using seg by (simp add: empty_image_def base)
  have "8192 \<le> length ?base" using seg by (simp add: base)
  then have shown: "page_shows E ?img 4096 ?sb"
    using page_shows_write [of 4096 ?base 4096 E ?sb] by (simp add: empty_image_def)
  have "{4096, 0} = {0, 4096 :: nat}" by auto
  from page_kept(2) [OF \<open>8192 \<le> length ?base\<close> this, of "encode_page E ?sb" E ?sb]
  have "page_yields E ?img 0 ?sb = page_yields E ?base 0 ?sb" by (simp add: empty_image_def)
  moreover have "range_of 0 4096 ?base = replicate 4096 0" by (simp add: base range_of_def)
  then have "page_yields E ?base 0 ?sb"
    using \<open>8192 \<le> length ?base\<close> by (simp add: page_yields_def verdict_at_def get_range_def zero_page_skipped outranks_def)
  ultimately have "published E ?img ?sb"
    using shown len by (simp add: published_def empty_superblock_fields page_offset_first)
  moreover have "range_of 8192 8244 ?img = ?seg"
    using range_of_write_at_after [of 4096 "encode_page E ?sb" 8192 8244 ?base] seg
    by (simp add: empty_image_def base range_of_def)
  then have "base_at E ?img ?sb []"
    unfolding base_at_def using fits len
    by (intro exI [of _ 0]) (simp add: empty_superblock_fields written_superblock_def segment_length_empty,
        simp add: empty_superblock_def superblock_new_def segment_length_empty)
  ultimately show ?thesis using len by (simp add: disk_image_def empty_superblock_fields)
qed

subsection \<open>Writing it\<close>

text \<open>A call on a file storage is the call on the file.\<close>

definition lifts :: "(storage, 'f, 'a) io \<Rightarrow> (disk_file, 'f, 'a) io \<Rightarrow> bool" where
  "lifts m m' \<longleftrightarrow> (\<forall>f. m (FileStorage f) = (case m' f of (r, f') \<Rightarrow> (r, FileStorage f')))"

lemma lifts_then: "lifts m m' \<Longrightarrow> (\<And>x. lifts (f x) (f' x)) \<Longrightarrow> lifts (io_then m f) (io_then m' f')"
  by (auto simp: lifts_def io_then_def split: prod.split sum.split)

lemma lifts_pure [simp]: "lifts (io_lift r) (io_lift r)" "lifts (io_return x) (io_return x)"
  by (simp_all add: lifts_def)

lemma lifts_question: "lifts m m' \<Longrightarrow> lifts (question m) (question m')"
  by (auto simp: lifts_def question_def split: prod.split sum.split)

lemma lifts_calls:
  "lifts (seek_start (storage_ops E) n) (seek_start file_ops n)" "lifts (read_exact (storage_ops E) n) (read_exact file_ops n)"
  "lifts (write_all (storage_ops E) bs) (write_all file_ops bs)" "lifts (storage_set_len E n) (question (file_set_len n))"
  "lifts sync_all (question file_sync)"
  by (simp_all add: lifts_def storage_ops_def file_ops_def storage_set_len_def sync_all_def)

lemma lifts_read_blocks: "lifts (read_blocks E (storage_ops E) n) (read_blocks E file_ops n)"
proof (induction n rule: less_induct)
  case (less n)
  have "lifts (read_blocks E (storage_ops E) (n - min n 65536)) (read_blocks E file_ops (n - min n 65536))" if "n \<noteq> 0"
    using that by (intro less.IH) simp
  then show ?case
    unfolding read_blocks_chain [of E "storage_ops E" n] read_blocks_chain [of E file_ops n]
    by (cases "n = 0") (simp add: lifts_def, auto intro!: lifts_then lifts_question lifts_calls)
qed

lemma lifts_write_base:
  assumes "base_fits E start slots items"
  shows "lifts (write_base_at E (storage_ops E) start (length items) items) (write_base_at E file_ops start (length items) items)"
  unfolding write_base_at_def write_base_fits [OF assms] write_base_index_def append_block_checksums_def
  by (intro lifts_then lifts_question lifts_calls lifts_read_blocks lifts_pure)

lemma initialize_lifts:
  assumes "\<forall>n. try_reserve E n"
  shows "initialize_storage E (FileStorage f) = (case initialize_file E f of (r, f') \<Rightarrow> (r, FileStorage f'))"
proof -
  have load: "lifts (io_then (load_immutable E off sz) g) (io_then (segment_map off sz) g')"
    if "\<And>x. lifts (g (Mapped x)) (g' x)" for off sz and g :: "base_bytes \<Rightarrow> (storage, failure, unit) io" and g'
    using that by (auto simp: lifts_def io_then_def load_immutable_def split: prod.split sum.split)
  have base: "lifts (write_base_at E (storage_ops E) 8192 0 []) (write_base_at E file_ops 8192 0 [])"
    using lifts_write_base [OF base_fits_empty [OF assms]] by simp
  have "lifts (initialize_storage E) (initialize_file E)"
    unfolding initialize_storage_def initialize_file_def superblock_write_def DATA_START_def
    by (intro lifts_then load base lifts_calls lifts_question) (simp_all add: lifts_then lifts_calls lifts_question)
  then show ?thesis by (simp add: lifts_def)
qed

lemma superblock_write_post:
  assumes at: "at_file s0 img s" and off: "page_offset (generation sb) \<le> length img"
    and good: "\<And>s'. at_file s0 (write_at (page_offset (generation sb)) (encode_page E sb) img) s' \<Longrightarrow> post (f ()) s' Q"
    and bad: "\<And>e s'. file_step s0 s' \<Longrightarrow> broken s0 e \<Longrightarrow> Q (Inl e) s'"
  shows "post (io_then (superblock_write E (storage_ops E) sb) f) s Q"
proof -
  let ?off = "page_offset (generation sb)"
  have is_file: "\<not> storage_is_memory s" using at by (auto simp: at_file_def)
  have page: "encode_page E sb \<noteq> []" using length_encode_page [of E sb] by fastforce
  show ?thesis
    unfolding superblock_write_def io_then_assoc
  proof (rule post_then [OF storage_seek_post [OF is_file]])
    fix x s1
    assume s1: "file_step s s1 \<and> storage_image s1 = storage_image s \<and> (Inr x = Inr ?off \<and> storage_position s1 = ?off \<or> faulty s (Inr x))"
    with at have at1: "at_file s0 img s1" "storage_position s1 = ?off" using file_step_trans by (auto simp: at_file_def)
    then have file1: "\<not> storage_is_memory s1" by (auto simp: at_file_def)
    show "post (io_then (question (write_all (storage_ops E) (encode_page E sb))) f) s1 Q"
    proof (rule post_then [OF storage_write_post [OF file1 page]])
      fix y s2
      assume "file_step s1 s2 \<and> (Inr y = Inr () \<and> storage_image s2 = write_at (storage_position s1) (encode_page E sb) (storage_image s1)
          \<and> storage_position s2 = storage_position s1 + length (encode_page E sb) \<or> faulty s1 (Inr y) \<and> (\<exists>e. Some e \<in> set (plan (file_of s1))
          \<and> storage_image s2 = (if fault_written e = 0 then storage_image s1
               else write_at (storage_position s1) (take (fault_written e) (encode_page E sb)) (storage_image s1))))"
      with at1 have "at_file s0 (write_at ?off (encode_page E sb) img) s2" using file_step_trans by (auto simp: at_file_def)
      from good [OF this] show "post (f y) s2 Q" by simp
    next
      fix e s2
      assume s2: "file_step s1 s2 \<and> (Inl e = Inr () \<and> storage_image s2 = write_at (storage_position s1) (encode_page E sb) (storage_image s1)
          \<and> storage_position s2 = storage_position s1 + length (encode_page E sb) \<or> faulty s1 (Inl e) \<and> (\<exists>e. Some e \<in> set (plan (file_of s1))
          \<and> storage_image s2 = (if fault_written e = 0 then storage_image s1
               else write_at (storage_position s1) (take (fault_written e) (encode_page E sb)) (storage_image s1))))"
      with at1 have "file_step s0 s2" using file_step_trans by (auto simp: at_file_def)
      moreover from s2 at1 have "broken s0 e" using broken_step [of s0 s1 e] by (auto simp: at_file_def faulty_broken)
      ultimately show "Q (Inl e) s2" by (rule bad)
    qed
  next
    fix e s1
    assume s1: "file_step s s1 \<and> storage_image s1 = storage_image s \<and> (Inl e = Inr ?off \<and> storage_position s1 = ?off \<or> faulty s (Inl e))"
    with at have "file_step s0 s1" "broken s0 e"
      using file_step_trans broken_step [of s0 s e] by (auto simp: at_file_def faulty_broken)
    then show "Q (Inl e) s1" by (rule bad)
  qed
qed

lemma initialize_storage_post:
  assumes reserve: "\<forall>n. try_reserve E n" and at: "at_file s0 [] s"
  shows "post (initialize_storage E) s (\<lambda>r s'. file_step s0 s' \<and> (r = Inr () \<and> storage_image s' = empty_image E \<or> faulty s0 r))"
    (is "post _ s ?Q")
proof -
  note fits = base_fits_empty [OF reserve]
  let ?seg = "segment_bytes E 8192 0 []" and ?sum = "crc32c E (segment_metadata E (base_data E 8192 0 []))"
  let ?base = "write_at 8192 ?seg (replicate 8192 0)"
  have seg: "length ?seg = 52" using base_fits_facts(4) [OF fits] by (simp add: segment_length_empty)
  have bad: "?Q (Inl e) s'" if "file_step s0 s'" "broken s0 e" for e s' using that by (simp add: faulty_broken)
  have bad': "?Q (Inl e) s'" if "at_file s0 img s'" "broken s0 e" for e s' img using that by (simp add: at_file_def faulty_broken)
  have checksum: "segment_metadata_checksum E ?seg = Inr ?sum"
    using segment_metadata_checksum_written [OF base_fits_limits(1) [OF fits]] by (simp add: segment_bytes_def)
  have range: "range_of 8192 (8192 + 52) ?base = ?seg" using range_of_write_at_same [of 8192 ?seg] seg by simp
  let ?publish = "\<lambda>checksum. io_then (superblock_write E (storage_ops E) (superblock_new 1 8192 52 0 0 (8192 + 52) checksum)) (\<lambda>_. sync_all)"
  let ?tail = "\<lambda>sz. io_then (load_immutable E 8192 sz) (\<lambda>mapping.
     io_then (io_lift (segment_metadata_checksum E (deref mapping))) (\<lambda>checksum.
     io_then (superblock_write E (storage_ops E) (superblock_new 1 8192 sz 0 0 (8192 + sz) checksum)) (\<lambda>_. sync_all)))"
  have sb: "superblock_new 1 8192 52 0 0 (8192 + 52) ?sum = empty_superblock E" by (simp add: empty_superblock_def segment_length_empty)
  have publish: "post (?publish ?sum) s1 ?Q" if at1: "at_file s0 ?base s1" for s1
    unfolding sb
  proof (rule superblock_write_post [OF at1])
    fix s2
    assume "at_file s0 (write_at (page_offset (generation (empty_superblock E))) (encode_page E (empty_superblock E)) ?base) s2"
    then have at2: "at_file s0 (empty_image E) s2" by (simp add: empty_image_def empty_superblock_fields page_offset_first)
    then have "\<not> storage_is_memory s2" by (auto simp: at_file_def)
    from storage_sync_post [OF this] at2 show "post sync_all s2 ?Q"
      by (auto simp: sync_all_eq post_def at_file_def intro: file_step_trans faulty_step)
  qed (use bad in \<open>auto simp: empty_superblock_fields page_offset_first\<close>)
  have tail: "post (?tail 52) s1 ?Q" if at1: "at_file s0 ?base s1" for s1
  proof (rule at_file_load [OF at1])
    show "post (io_then (io_lift (segment_metadata_checksum E (deref (Mapped (range_of 8192 (8192 + 52) ?base))))) ?publish) s2 ?Q"
      if "at_file s0 ?base s2" for s2
      unfolding range deref.simps checksum io_lift_then using that by (rule publish)
  qed (use bad' seg in \<open>auto simp: usize_limit_def\<close>)
  have base: "post (io_then (write_base_at E (storage_ops E) 8192 0 []) ?tail) s1 ?Q" if at1: "at_file s0 (replicate 8192 0) s1" for s1
  proof -
    have "\<not> storage_is_memory s1" using at1 by (auto simp: at_file_def)
    note base_post = write_base_post [OF this fits]
    show ?thesis
      unfolding write_base_at_def io_then_assoc io_return_then
    proof (rule post_then [OF base_post [simplified]], goal_cases)
      case (1 w s2)
      with at1 have "at_file s0 ?base s2" "written_size w = 52"
        using file_step_trans by (auto simp: at_file_def segment_length_empty)
      with tail show ?case by simp
    next
      case (2 e s2)
      with at1 show ?case
        using file_step_trans broken_step [of s0 s1 e] by (auto simp: at_file_def faulty_broken)
    qed
  qed
  show ?thesis
    unfolding initialize_storage_def DATA_START_def
    by (rule at_file_set_len [OF at]) (use base bad' in \<open>auto simp: resized_def\<close>)
qed

lemma initialize_file_post:
  assumes "\<forall>n. try_reserve E n" and "contents f = []" and run: "initialize_file E f = (r, f')"
  shows "set (plan f') \<subseteq> set (plan f) \<and> (r = Inr () \<and> contents f' = empty_image E \<or> (\<exists>e. r = Inl (Err e)) \<and> \<not> file_quiet f)"
proof -
  have at: "at_file (FileStorage f) [] (FileStorage f)" using assms(2) by (simp add: at_file_def file_step_refl)
  have "initialize_storage E (FileStorage f) = (r, FileStorage f')" using initialize_lifts [OF assms(1), of f] run by simp
  from postD [OF initialize_storage_post [OF assms(1) at] this] show ?thesis
    by (auto simp: file_step_def faulty_def)
qed

end
