(* ===== verification/Lkv_Commit_Correct.thy ===== *)
theory Lkv_Commit_Correct
  imports Lkv_New_Correct
begin

section \<open>Correctness of commits\<close>

text \<open>
  A commit of a handle on a file, for every plan of faults: it succeeds and the batch is part of the file
  and of the handle; or it is refused and nothing has changed; or it fails on the way, and then the handle
  is poisoned for writes, still reads the old map, and the file holds the old or the new map.
\<close>

subsection \<open>Where the operations of a batch lie in the log\<close>

lemma value_charge_le: "value_charge (entry_value entry) \<le> length (entry_slice entry)"
  by (cases entry) (simp_all add: value_charge_def)

lemma operations_length: "(\<forall>op \<in> set staged. c op \<le> length (batch_operation_bytes op)) \<Longrightarrow>
    sum_list (map c staged) \<le> length (batch_record E staged)"
proof -
  assume "\<forall>op \<in> set staged. c op \<le> length (batch_operation_bytes op)"
  then have "sum_list (map c staged) \<le> length (concat (map batch_operation_bytes staged))"
    by (induction staged) auto
  then show ?thesis by (simp add: length_batch_record batch_payload_def)
qed

lemma operations_charge: "sum_list (map operation_charge (staged_operations staged)) \<le> length (batch_record E staged)"
proof -
  have "operation_charge (key, entry_value entry) \<le> length (batch_operation_bytes (key, entry))" for key entry
    using value_charge_le [of entry] by (simp add: length_batch_operation_bytes)
  then have "sum_list (map (operation_charge \<circ> (\<lambda>(key, entry). (key, entry_value entry))) staged) \<le> length (batch_record E staged)"
    by (intro operations_length) auto
  then show ?thesis by (simp add: staged_operations_def)
qed

lemma staged_memory_le:
  assumes "staged_ok staged"
  shows "staged_memory staged \<le> length (batch_record E staged)"
proof -
  have "value_memory_charge v \<le> length (as_slice v)" if "value_ok v" for v
    using that by (cases v) auto
  then have "overlay_entry_memory key entry \<le> length (batch_operation_bytes (key, entry))" if "(key, entry) \<in> set staged" for key entry
    using assms that by (cases entry) (fastforce simp: staged_ok_def length_batch_operation_bytes)+
  then have "sum_list (map (\<lambda>(key, entry). overlay_entry_memory key entry) staged) \<le> length (batch_record E staged)"
    by (intro operations_length) auto
  then show ?thesis by (simp add: staged_memory_def)
qed

lemma mutation_offsets_written:
  assumes "\<forall>(key, entry) \<in> set staged. entry_ok entry \<and> length key < 4294967296 \<and> length (entry_slice entry) < 4294967296"
    and "length (pre @ concat (map batch_operation_bytes staged)) < usize_limit"
  shows "\<exists>mutations. mutation_offsets staged (length pre) = Inr mutations
    \<and> list_all2 (locates (pre @ concat (map batch_operation_bytes staged))) mutations (staged_operations staged)"
  using assms
proof (induction staged arbitrary: pre)
  case Nil
  show ?case by (simp add: staged_operations_def)
next
  case (Cons op staged)
  obtain key entry where op: "op = (key, entry)" by fastforce
  let ?op = "batch_operation_bytes (key, entry)" and ?rest = "concat (map batch_operation_bytes staged)"
  have entry: "entry_ok entry" "length key < 4294967296" "length (entry_slice entry) < 4294967296"
    using Cons.prems(1) by (auto simp: op)
  have len: "length (pre @ ?op @ ?rest) < usize_limit" using Cons.prems(2) by (simp add: op)
  then have "length (pre @ ?op) < usize_limit" by simp
  with length_entry_slice [OF entry(1)] have cursor: "Option.bind (checked_add (length pre) 9) (\<lambda>c. Option.bind (checked_add c (length key)) (\<lambda>c.
      checked_add c (entry_value_len entry))) = Some (length (pre @ ?op))"
    by (simp add: checked_add_def length_batch_operation_bytes)
  from Cons.IH [of "pre @ ?op"] Cons.prems(1) len obtain mutations where
    "mutation_offsets staged (length (pre @ ?op)) = Inr mutations"
    "list_all2 (locates (pre @ ?op @ ?rest)) mutations (staged_operations staged)" by auto
  moreover have "locates (pre @ ?op @ ?rest) \<lparr>operation_offset = length pre\<rparr> (key, entry_value entry)"
    by (rule locates_written [OF entry(2,3) len])
  ultimately show ?case using cursor by (simp add: op staged_operations_def)
qed

lemma batch_operation_limits:
  assumes "batch_ok staged"
  shows "\<forall>(key, entry) \<in> set staged. entry_ok entry \<and> length key < 4294967296 \<and> length (entry_slice entry) < 4294967296"
proof -
  have "length (batch_operation_bytes op) \<le> length (concat (map batch_operation_bytes staged))" if "op \<in> set staged" for op
    using that by (induction staged) auto
  with assms show ?thesis
    by (fastforce simp: batch_ok_def staged_ok_def batch_fits_def batch_payload_def length_batch_operation_bytes)
qed

lemma mapped_mutations_written:
  assumes "batch_ok staged" and "length (log @ batch_record E staged) < usize_limit"
  shows "if try_reserve E (length staged)
    then \<exists>mutations. mapped_mutations E staged (length log) = Inr mutations
      \<and> list_all2 (locates (log @ batch_record E staged)) mutations (staged_operations staged)
    else mapped_mutations E staged (length log) = Inl (Err (from_io OutOfMemory ''could not reserve Overlay entries''))"
proof -
  obtain header where rec: "batch_record E staged = header @ concat (map batch_operation_bytes staged)" "length header = 21"
    by (simp add: batch_record_def batch_payload_def Let_def flip: append_assoc)
  have "length log + 21 < usize_limit" using assms(2) by (simp add: length_batch_record batch_payload_def)
  then have "checked_add (length log) (LOG_HEADER_SIZE + 4) = Some (length (log @ header))" using rec(2) by (simp add: checked_add_def)
  moreover have "length ((log @ header) @ concat (map batch_operation_bytes staged)) < usize_limit" using assms(2) rec by simp
  ultimately show ?thesis
    using mutation_offsets_written [OF batch_operation_limits [OF assms(1)], of "log @ header"] rec(1)
    by (simp add: mapped_mutations_def)
qed

lemma batch_record_size_eq:
  assumes "staged_ok staged"
  shows "if batch_fits staged then batch_record_size staged = Inr (length (batch_record E staged))
    else \<exists>e. batch_record_size staged = Inl (Err e) \<and> kind_of e = InvalidInput"
proof (cases "batch_fits staged")
  case True
  then have "batch_payload_len staged = Inr (of_nat (length (batch_payload staged)))" "length (batch_payload staged) < 4294967296"
    using batch_payload_len_eq [OF assms] by (auto simp: batch_fits_def)
  with True show ?thesis
    by (simp add: batch_record_size_def length_batch_record unat_of_nat_u32 checked_add_def usize_limit_def)
next
  case False
  then have "\<exists>e. write_batch_record_inner E staged None = Inl (Err e) \<and> kind_of e = InvalidInput"
    using assms by (rule write_batch_record_inner_fails [rotated])
  moreover have "\<forall>n. batch_payload_len staged \<noteq> Inr n" using False batch_payload_len_eq [OF assms] by simp
  ultimately obtain e where "batch_payload_len staged = Inl (Err e)" "kind_of e = InvalidInput"
    by (cases "batch_payload_len staged") (auto simp: write_batch_record_inner_def)
  with False show ?thesis by (simp add: batch_record_size_def)
qed

subsection \<open>Publishing a batch in the Overlay\<close>

lemma overlay_ready_charge:
  assumes "overlay_ready E L overlay batches" and "length (L @ batch_record E staged) < usize_limit" and "staged_ok staged"
  shows "overlay_charge overlay + sum_list (map operation_charge (staged_operations staged)) \<le> length (L @ batch_record E staged)"
    and "overlay_charge overlay + staged_memory staged \<le> length (L @ batch_record E staged)"
  using assms operations_charge [of staged E] staged_memory_le [OF assms(3), of E] by (simp_all add: overlay_ready_def)

lemma publish_mapped:
  assumes ready: "overlay_ready E L overlay batches" and ok: "batch_ok staged"
    and b: "deref b = L @ batch_record E staged" and lt: "length (L @ batch_record E staged) < usize_limit"
    and loc: "list_all2 (locates (L @ batch_record E staged)) mutations (staged_operations staged)"
  shows "\<exists>overlay'. overlay_install_mapped E b mutations overlay = Inr overlay'
    \<and> overlay_ready E (L @ batch_record E staged) overlay' (batches @ [staged])"
proof -
  have staged: "staged_ok staged" using ok by (simp add: batch_ok_def)
  note charge = overlay_ready_charge(1) [OF ready lt staged]
  from ready obtain bs table tail where index: "overlay_state_ok E L overlay" "overlay_index overlay = MappedOverlay bs table tail"
    by (auto simp: overlay_ready_def)
  have keys: "keymap_ok staged" using staged by (simp add: staged_ok_def)
  have bound: "overlay_charge overlay + sum_list (map operation_charge (staged_operations staged)) < usize_limit"
    using charge lt by simp
  from overlay_install_mapped_ok [OF index b keys loc [folded b] bound] obtain overlay' where
    new: "overlay_install_mapped E b mutations overlay = Inr overlay'" "overlay_state_ok E (deref b) overlay'"
    "\<exists>table'. overlay_index overlay' = MappedOverlay (Some b) table' []"
    "overlay_abs (overlay_index overlay') = overlay_abs (overlay_index overlay) ++ staged_abs staged"
    "overlay_charge overlay' \<le> overlay_charge overlay + sum_list (map operation_charge (staged_operations staged))" .
  have "overlay_ready E (L @ batch_record E staged) overlay' (batches @ [staged])"
    using new(2-4) ready le_trans [OF new(5) charge] b by (auto simp: overlay_ready_def)
  with new(1) show ?thesis by blast
qed

lemma publish_tail:
  assumes ready: "overlay_ready E L overlay batches" and ok: "batch_ok staged"
    and small: "\<not> needs_mapping overlay (length (L @ batch_record E staged))" and lt: "length (L @ batch_record E staged) < usize_limit"
    and loc: "list_all2 (locates (L @ batch_record E staged)) mutations (staged_operations staged)"
  shows "\<exists>overlay'. overlay_install_tail E staged mutations overlay = Inr overlay'
    \<and> overlay_ready E (L @ batch_record E staged) overlay' (batches @ [staged])"
proof -
  have staged: "staged_ok staged" using ok by (simp add: batch_ok_def)
  note charge = overlay_ready_charge(2) [OF ready lt staged]
  from ready obtain bs table tail where index: "overlay_state_ok E L overlay" "overlay_index overlay = MappedOverlay bs table tail"
    by (auto simp: overlay_ready_def)
  then have "length (mapping_or_empty bs) \<le> length L" by (auto simp: overlay_state_ok_def Let_def)
  with small index(2) have short: "length (batch_record E staged) < MAPPED_VALUE_THRESHOLD"
    by (auto simp: needs_mapping_def OVERLAY_MAPPING_THRESHOLD_def MAPPED_VALUE_THRESHOLD_def saturating_sub_def)
  have "length (entry_slice entry) \<le> length (batch_record E staged)" if "(key, entry) \<in> set staged" for key entry
  proof -
    have "length (batch_operation_bytes (key, entry)) \<le> length (concat (map batch_operation_bytes staged))"
      using that by (induction staged) auto
    then show ?thesis by (simp add: length_batch_operation_bytes length_batch_record batch_payload_def)
  qed
  then have vals: "\<forall>(key, entry) \<in> set staged. small_entry entry"
    using short by (fastforce simp: small_entry_def elim: entry_value.elims)
  have bound: "overlay_charge overlay + staged_memory staged < usize_limit" using charge lt by simp
  from overlay_install_tail_ok [OF index staged vals loc bound] obtain overlay' where
    new: "overlay_install_tail E staged mutations overlay = Inr overlay'" "overlay_state_ok E (L @ batch_record E staged) overlay'"
    "\<exists>table' tail'. overlay_index overlay' = MappedOverlay bs table' tail'"
    "overlay_abs (overlay_index overlay') = overlay_abs (overlay_index overlay) ++ staged_abs staged"
    "overlay_charge overlay' \<le> overlay_charge overlay + staged_memory staged" .
  have "overlay_ready E (L @ batch_record E staged) overlay' (batches @ [staged])"
    using new(2-4) ready le_trans [OF new(5) charge] by (auto simp: overlay_ready_def)
  with new(1) show ?thesis by blast
qed

subsection \<open>Steps of a handle\<close>

lemma post_db_then:
  assumes "post m (db_storage db) P"
    and "\<And>x s'. P (Inr x) s' \<Longrightarrow> post (f x) (db\<lparr>db_storage := s'\<rparr>) Q"
    and "\<And>e s'. P (Inl e) s' \<Longrightarrow> Q (Inl e) (db\<lparr>db_storage := s'\<rparr>)"
  shows "post (io_then (on_db_storage m) f) db Q"
proof (cases "m (db_storage db)")
  case (Pair r s')
  with assms show ?thesis by (cases r) (simp_all add: post_def io_then_def on_db_storage_def)
qed

lemma rollback_post:
  assumes at: "at_file s0 img s" and n: "n \<le> length img"
  shows "post (rollback_or_poison E n e :: (database, failure, 'a) io) (db\<lparr>db_storage := s\<rparr>)
    (\<lambda>r db'. r = Inl e \<and> (\<exists>s'. db' = db\<lparr>db_storage := s', db_state := WritePoisoned\<rparr> \<and> (at_file s0 (take n img) s' \<or> at_file s0 img s')))"
proof -
  have keep: "at_file s0 (take n img) s2 \<or> at_file s0 img s2"
    if "at_file s0 (take n img) s1 \<or> at_file s0 img s1" "file_step s1 s2" "storage_image s2 = storage_image s1" for s1 s2
    using that file_step_trans by (auto simp: at_file_def)
  have "\<not> storage_is_memory s" using at by (auto simp: at_file_def)
  obtain r1 s1 where set_len: "storage_set_len E n s = (r1, s1)" by fastforce
  from storage_set_len_post [OF \<open>\<not> storage_is_memory s\<close>, of E n] at resized_take [OF n]
  have s1: "at_file s0 (take n img) s1 \<or> at_file s0 img s1" by (auto simp: post_def set_len at_file_def intro: file_step_trans)
  define s2 where "s2 = (case r1 of Inl _ \<Rightarrow> s1 | Inr _ \<Rightarrow> snd (sync_data s1))"
  have "\<not> storage_is_memory s1" using s1 by (auto simp: at_file_def)
  from storage_sync_post [OF this] have "file_step s1 (snd (sync_data s1)) \<and> storage_image (snd (sync_data s1)) = storage_image s1"
    by (simp add: post_def split: prod.splits)
  with s1 keep [OF s1] have s2: "at_file s0 (take n img) s2 \<or> at_file s0 img s2" by (auto simp: s2_def split: sum.split)
  then have "\<not> storage_is_memory s2" by (auto simp: at_file_def)
  from storage_seek_end_post [OF this, of E] have "file_step s2 (snd (question (seek_end (storage_ops E)) s2))
      \<and> storage_image (snd (question (seek_end (storage_ops E)) s2)) = storage_image s2"
    by (simp add: post_def split: prod.splits)
  with keep [OF s2] have "at_file s0 (take n img) (snd (question (seek_end (storage_ops E)) s2))
      \<or> at_file s0 img (snd (question (seek_end (storage_ops E)) s2))" by blast
  moreover have "rollback_or_poison E n e (db\<lparr>db_storage := s\<rparr>) =
      (Inl e :: 'a result, db\<lparr>db_storage := snd (question (seek_end (storage_ops E)) s2), db_state := WritePoisoned\<rparr>)"
    by (simp add: rollback_or_poison_def on_db_storage_def set_len s2_def Let_def split: sum.split prod.split)
  ultimately show ?thesis by (intro postI) auto
qed

text \<open>What a failed commit leaves: a poisoned handle and a file with a part of the record, or none of it.\<close>

definition poisoned_by :: "database \<Rightarrow> bytes \<Rightarrow> database \<Rightarrow> bool" where
  "poisoned_by db chunk db' \<longleftrightarrow>
     (\<exists>s' k. db' = db\<lparr>db_storage := s', db_state := WritePoisoned\<rparr>
        \<and> at_file (db_storage db) (storage_image (db_storage db) @ take k chunk) s')"

lemma rollback_poisons:
  assumes at: "at_file (db_storage db) (img @ take k chunk) s" and img: "img = storage_image (db_storage db)"
  shows "post (rollback_or_poison E (length img) e :: (database, failure, 'a) io) (db\<lparr>db_storage := s\<rparr>) (\<lambda>r db'. r = Inl e \<and> poisoned_by db chunk db')"
proof (rule post_weaken [OF rollback_post [OF at]])
  show "length img \<le> length (img @ take k chunk)" by simp
  fix r :: "'a result" and db'
  assume "r = Inl e \<and> (\<exists>s'. db' = db\<lparr>db_storage := s', db_state := WritePoisoned\<rparr>
    \<and> (at_file (db_storage db) (take (length img) (img @ take k chunk)) s' \<or> at_file (db_storage db) (img @ take k chunk) s'))"
  then obtain s' where "r = Inl e" "db' = db\<lparr>db_storage := s', db_state := WritePoisoned\<rparr>"
    "at_file (db_storage db) (img @ take 0 chunk) s' \<or> at_file (db_storage db) (img @ take k chunk) s'" by auto
  then show "r = Inl e \<and> poisoned_by db chunk db'" using img unfolding poisoned_by_def by blast
qed

text \<open>A step after the append has begun.\<close>

lemma commit_step:
  fixes m :: "(storage, failure, 'a) io"
  assumes step: "post m s (\<lambda>r s'. \<exists>k. at_file (db_storage db) (storage_image (db_storage db) @ take k chunk) s'
      \<and> ((\<exists>x. r = Inr x \<and> P x s') \<or> faulty (db_storage db) r))"
    and good: "\<And>x s'. P x s' \<Longrightarrow> post (f x) (db\<lparr>db_storage := s'\<rparr>) Q"
    and bad: "\<And>e db'. poisoned_by db chunk db' \<Longrightarrow> \<not> file_storage_quiet (db_storage db) \<Longrightarrow> Q (Inl (Err e)) db'"
    and m': "m' (db\<lparr>db_storage := s\<rparr>) = on_db_storage m (db\<lparr>db_storage := s\<rparr>)"
    and off: "off = length (storage_image (db_storage db))"
  shows "post (io_then (or_rollback E off m') f) (db\<lparr>db_storage := s\<rparr>) Q"
proof (cases "m s")
  case (Pair r s')
  with step obtain k where at: "at_file (db_storage db) (storage_image (db_storage db) @ take k chunk) s'"
    and r: "(\<exists>x. r = Inr x \<and> P x s') \<or> faulty (db_storage db) r" by (auto simp: post_def)
  have m'_eq: "m' (db\<lparr>db_storage := s\<rparr>) = (r, db\<lparr>db_storage := s'\<rparr>)" by (simp add: m' on_db_storage_def Pair)
  show ?thesis
  proof (cases r)
    case (Inr x)
    with r good [of x s'] m'_eq show ?thesis by (simp add: post_def io_then_def or_rollback_def)
  next
    case (Inl e)
    with r obtain err where e: "e = Err err" "\<not> file_storage_quiet (db_storage db)" by (auto simp: faulty_def)
    obtain r2 db2 where roll: "rollback_or_poison E off (Err err) (db\<lparr>db_storage := s'\<rparr>) = (r2 :: 'a result, db2)" by fastforce
    have "r2 = Inl (Err err) \<and> poisoned_by db chunk db2"
      by (rule postD [OF rollback_poisons [OF at refl] roll [unfolded off]])
    with bad [of db2 err] e roll m'_eq Inl show ?thesis by (simp add: post_def io_then_def or_rollback_def)
  qed
qed

text \<open>The same for a step that only looks at the file, which holds the whole record by then.\<close>

lemma commit_look:
  fixes m :: "(storage, failure, 'a) io"
  assumes at: "at_file (db_storage db) (storage_image (db_storage db) @ chunk) s"
    and step: "\<not> storage_is_memory s \<Longrightarrow> post m s (\<lambda>r s'. file_step s s' \<and> storage_image s' = storage_image s \<and> (r = Inr x \<or> faulty s r))"
    and good: "\<And>s'. at_file (db_storage db) (storage_image (db_storage db) @ chunk) s' \<Longrightarrow> post (f x) (db\<lparr>db_storage := s'\<rparr>) Q"
    and bad: "\<And>e db'. poisoned_by db chunk db' \<Longrightarrow> \<not> file_storage_quiet (db_storage db) \<Longrightarrow> Q (Inl (Err e)) db'"
    and m': "m' (db\<lparr>db_storage := s\<rparr>) = on_db_storage m (db\<lparr>db_storage := s\<rparr>)"
    and off: "off = length (storage_image (db_storage db))"
  shows "post (io_then (or_rollback E off m') f) (db\<lparr>db_storage := s\<rparr>) Q"
proof (rule commit_step [where P = "\<lambda>y s'. y = x \<and> at_file (db_storage db) (storage_image (db_storage db) @ chunk) s'" and chunk = chunk and m = m])
  have "\<not> storage_is_memory s" using at by (auto simp: at_file_def)
  from step [OF this] show "post m s (\<lambda>r s'. \<exists>k. at_file (db_storage db) (storage_image (db_storage db) @ take k chunk) s'
      \<and> ((\<exists>y. r = Inr y \<and> y = x \<and> at_file (db_storage db) (storage_image (db_storage db) @ chunk) s') \<or> faulty (db_storage db) r))"
  proof (rule post_weaken)
    fix r s'
    assume "file_step s s' \<and> storage_image s' = storage_image s \<and> (r = Inr x \<or> faulty s r)"
    with at have "at_file (db_storage db) (storage_image (db_storage db) @ chunk) s'" "r = Inr x \<or> faulty (db_storage db) r"
      using file_step_trans faulty_step [of "db_storage db" s r] by (auto simp: at_file_def)
    then show "\<exists>k. at_file (db_storage db) (storage_image (db_storage db) @ take k chunk) s'
      \<and> ((\<exists>y. r = Inr y \<and> y = x \<and> at_file (db_storage db) (storage_image (db_storage db) @ chunk) s') \<or> faulty (db_storage db) r)"
      by (intro exI [of _ "length chunk"]) auto
  qed
qed (use good bad m' off in auto)

definition committed :: "externs \<Rightarrow> database \<Rightarrow> bytes \<Rightarrow> overlay_entry keymap list \<Rightarrow> database \<Rightarrow> bool" where
  "committed E db chunk batches db' \<longleftrightarrow>
     (\<exists>s' overlay'. db' = db\<lparr>db_storage := s', db_overlay := overlay'\<rparr>
        \<and> at_file (db_storage db) (storage_image (db_storage db) @ chunk) s' \<and> overlay_ready E (log_bytes E batches) overlay' batches)"

lemma publish_batch_post:
  assumes db: "file_db E db sb items batches" and ok: "batch_ok staged"
    and at: "at_file (db_storage db) (storage_image (db_storage db) @ batch_record E staged) s"
    and lt: "length (storage_image (db_storage db) @ batch_record E staged) < 2 ^ 63"
    and loc: "list_all2 (locates (log_bytes E batches @ batch_record E staged)) mutations (staged_operations staged)"
  shows "post (publish_batch E (length (storage_image (db_storage db))) staged mutations) (db\<lparr>db_storage := s\<rparr>)
    (\<lambda>r db'. r = Inr () \<and> committed E db (batch_record E staged) (batches @ [staged]) db'
      \<or> (\<exists>e. r = Inl (Err e) \<and> \<not> file_storage_quiet (db_storage db) \<and> poisoned_by db (batch_record E staged) db'))"
    (is "post _ _ ?Q")
proof -
  let ?img = "storage_image (db_storage db)" and ?rec = "batch_record E staged" and ?L = "log_bytes E batches"
  let ?start = "active_log_start (db_base db)"
  have disk: "disk_image E ?img sb items batches []" and ready: "overlay_ready E ?L (db_overlay db) batches"
    and start: "?start = unat (log_start sb)"
    using db by (auto simp: file_db_def opened_def base_ready_def Let_def)
  note facts = image_facts [OF disk]
  have len: "length (?img @ ?rec) = ?start + length (?L @ ?rec)" using facts(5) start by simp
  have ltL: "length (?L @ ?rec) < usize_limit" using len lt by (simp add: usize_limit_def)
  have range: "range_of ?start (?start + length (?L @ ?rec)) (?img @ ?rec) = ?L @ ?rec"
    using facts(1,4) start len by (simp add: range_of_def disk [unfolded disk_image_def, THEN conjunct2, THEN conjunct2, THEN conjunct1])
  have good: "?Q (Inr ()) (db\<lparr>db_storage := s1, db_overlay := overlay'\<rparr>)"
    if "at_file (db_storage db) (?img @ ?rec) s1" "overlay_ready E (?L @ ?rec) overlay' (batches @ [staged])" for s1 overlay'
    using that by (auto simp: committed_def)
  have bad: "?Q (Inl (Err e)) db'" if "poisoned_by db ?rec db'" "\<not> file_storage_quiet (db_storage db)" for e db'
    using that by simp
  let ?install = "\<lambda>r db. case r of Inl e \<Rightarrow> (Inl e, db) | Inr overlay \<Rightarrow> (Inr () :: unit result, db\<lparr>db_overlay := overlay\<rparr>)"
  let ?publish = "\<lambda>overlay_size db. if needs_mapping (db_overlay db) overlay_size
     then io_then (or_rollback E (length ?img) (on_db_storage (load_immutable E (active_log_start (db_base db)) overlay_size)))
       (\<lambda>mapping db. ?install (overlay_install_mapped E mapping mutations (db_overlay db)) db) db
     else ?install (overlay_install_tail E staged mutations (db_overlay db)) db"
  have publish: "post (?publish (length (?L @ ?rec))) (db\<lparr>db_storage := s1\<rparr>) ?Q" if at1: "at_file (db_storage db) (?img @ ?rec) s1" for s1
  proof (cases "needs_mapping (db_overlay db) (length (?L @ ?rec))")
    case True
    have "post (io_then (or_rollback E (length ?img) (on_db_storage (load_immutable E ?start (length (?L @ ?rec)))))
       (\<lambda>mapping db. ?install (overlay_install_mapped E mapping mutations (db_overlay db)) db)) (db\<lparr>db_storage := s1\<rparr>) ?Q"
    proof (rule commit_look [OF at1, where x = "Mapped (?L @ ?rec)" and m = "load_immutable E ?start (length (?L @ ?rec))"])
      assume "\<not> storage_is_memory s1"
      with load_immutable_post [of s1 "length (?L @ ?rec)" ?start E] at1 range len lt
      show "post (load_immutable E ?start (length (?L @ ?rec))) s1
        (\<lambda>r s'. file_step s1 s' \<and> storage_image s' = storage_image s1 \<and> (r = Inr (Mapped (?L @ ?rec)) \<or> faulty s1 r))"
        by (simp add: at_file_def usize_limit_def length_batch_record)
    next
      fix s2
      assume "at_file (db_storage db) (?img @ ?rec) s2"
      with publish_mapped [OF ready ok _ ltL loc, of "Mapped (?L @ ?rec)"] good
      show "post (\<lambda>db. ?install (overlay_install_mapped E (Mapped (?L @ ?rec)) mutations (db_overlay db)) db) (db\<lparr>db_storage := s2\<rparr>) ?Q"
        by (auto simp: post_def)
    qed (use bad in auto)
    with True show ?thesis by (simp add: post_def)
  next
    case False
    with publish_tail [OF ready ok False ltL loc] good [OF at1] show ?thesis by (auto simp: post_def)
  qed
  let ?size = "io_then (on_db_storage storage_len) (\<lambda>len db.
       (ok_or (Err (other ''Overlay range precedes the active Base'')) (checked_sub len (active_log_start (db_base db))), db))"
  let ?m = "io_then storage_len (\<lambda>len. io_lift (ok_or (Err (other ''Overlay range precedes the active Base'')) (checked_sub len ?start)))"
  show ?thesis
    unfolding publish_batch_def
  proof (rule commit_look [OF at, where x = "length (?L @ ?rec)" and m = ?m])
    show "?size (db\<lparr>db_storage := s\<rparr>) = on_db_storage ?m (db\<lparr>db_storage := s\<rparr>)"
      by (simp add: io_then_def on_db_storage_def split: prod.split sum.split)
    assume "\<not> storage_is_memory s"
    have "checked_sub (length (?img @ ?rec)) ?start = Some (length (?L @ ?rec))" using len by (simp add: checked_sub_def)
    with at storage_len_post [OF \<open>\<not> storage_is_memory s\<close>]
    show "post ?m s (\<lambda>r s'. file_step s s' \<and> storage_image s' = storage_image s \<and> (r = Inr (length (?L @ ?rec)) \<or> faulty s r))"
      by (auto simp: post_def io_then_def at_file_def split: prod.splits sum.splits)
  qed (use publish bad in blast)+
qed

subsection \<open>The commit\<close>

text \<open>A commit that is refused before it writes.\<close>

definition unchanged :: "database \<Rightarrow> database \<Rightarrow> bool" where
  "unchanged db db' \<longleftrightarrow> (\<exists>s'. db' = db\<lparr>db_storage := s'\<rparr> \<and> at_file (db_storage db) (storage_image (db_storage db)) s')"

lemma unchanged_refl: "\<not> storage_is_memory (db_storage db) \<Longrightarrow> unchanged db db"
  unfolding unchanged_def at_file_def using file_step_refl by (intro exI [of _ "db_storage db"]) simp

lemma unchanged_look:
  fixes m :: "(storage, failure, 'a) io"
  assumes same: "unchanged db db1"
    and step: "\<not> storage_is_memory (db_storage db1) \<Longrightarrow> post m (db_storage db1)
      (\<lambda>r s'. file_step (db_storage db1) s' \<and> storage_image s' = storage_image (db_storage db1)
        \<and> ((\<exists>x. r = Inr x \<and> P x s') \<or> faulty (db_storage db1) r))"
    and good: "\<And>x db'. unchanged db db' \<Longrightarrow> P x (db_storage db') \<Longrightarrow> post (f x) db' Q"
    and bad: "\<And>e db'. unchanged db db' \<Longrightarrow> \<not> file_storage_quiet (db_storage db) \<Longrightarrow> Q (Inl (Err e)) db'"
  shows "post (io_then (on_db_storage m) f) db1 Q"
proof -
  obtain s1 where db1: "db1 = db\<lparr>db_storage := s1\<rparr>" and at: "at_file (db_storage db) (storage_image (db_storage db)) s1"
    using same by (auto simp: unchanged_def)
  have "\<not> storage_is_memory s1" using at by (auto simp: at_file_def)
  then have "post m (db_storage db1) (\<lambda>r s'. file_step s1 s' \<and> storage_image s' = storage_image s1 \<and> ((\<exists>x. r = Inr x \<and> P x s') \<or> faulty s1 r))"
    using step by (simp add: db1)
  then show ?thesis
  proof (rule post_db_then)
    fix x s'
    assume s': "file_step s1 s' \<and> storage_image s' = storage_image s1 \<and> ((\<exists>y. Inr x = Inr y \<and> P y s') \<or> faulty s1 (Inr x))"
    with at have "unchanged db (db1\<lparr>db_storage := s'\<rparr>)" using file_step_trans by (auto simp: unchanged_def db1 at_file_def)
    with s' good [of "db1\<lparr>db_storage := s'\<rparr>" x] show "post (f x) (db1\<lparr>db_storage := s'\<rparr>) Q" by simp
  next
    fix e s'
    assume s': "file_step s1 s' \<and> storage_image s' = storage_image s1 \<and> ((\<exists>y. Inl e = Inr y \<and> P y s') \<or> faulty s1 (Inl e :: 'a result))"
    with at have "unchanged db (db1\<lparr>db_storage := s'\<rparr>)" using file_step_trans by (auto simp: unchanged_def db1 at_file_def)
    moreover from s' at have "faulty (db_storage db) (Inl e :: 'a result)" using faulty_step by (auto simp: at_file_def)
    ultimately show "Q (Inl e) (db1\<lparr>db_storage := s'\<rparr>)" using bad by (auto simp: faulty_def)
  qed
qed

lemma ensure_capacity_post:
  assumes same: "unchanged db db1" and "length (storage_image (db_storage db)) + n < usize_limit"
    and good: "\<And>db'. unchanged db db' \<Longrightarrow> length (storage_image (db_storage db)) + n \<le> max_database_bytes (db_options db) \<Longrightarrow> post (f ()) db' Q"
    and bad: "\<And>e db'. unchanged db db' \<Longrightarrow> \<not> file_storage_quiet (db_storage db) \<Longrightarrow> Q (Inl (Err e)) db'"
    and full: "\<And>db'. unchanged db db' \<Longrightarrow> max_database_bytes (db_options db) < length (storage_image (db_storage db)) + n
      \<Longrightarrow> Q (Inl (Err (database_full (max_database_bytes (db_options db)) (length (storage_image (db_storage db)) + n)))) db'"
  shows "post (io_then (ensure_capacity n) f) db1 Q"
proof -
  have image: "storage_image (db_storage db1) = storage_image (db_storage db)" using same by (auto simp: unchanged_def at_file_def)
  have options: "db_options db' = db_options db" if "unchanged db db'" for db' using that by (auto simp: unchanged_def)
  show ?thesis
    unfolding ensure_capacity_def io_then_assoc
  proof (rule unchanged_look [OF same, where P = "\<lambda>x s'. x = length (storage_image (db_storage db))"])
    assume "\<not> storage_is_memory (db_storage db1)"
    from storage_len_post [OF this] show "post storage_len (db_storage db1) (\<lambda>r s'. file_step (db_storage db1) s'
        \<and> storage_image s' = storage_image (db_storage db1)
        \<and> ((\<exists>x. r = Inr x \<and> x = length (storage_image (db_storage db))) \<or> faulty (db_storage db1) r))"
      by (auto simp: post_def image)
  next
    fix x db'
    assume db': "unchanged db db'" and x: "x = length (storage_image (db_storage db))"
    have "checked_add x n = Some (x + n)" using assms(2) x by (simp add: checked_add_def)
    with db' x good [OF db'] full [OF db'] show "post (io_then (\<lambda>db. let limit = max_database_bytes (db_options db) in
       case checked_add x n of
         None \<Rightarrow> (Inl (Err (database_full limit (usize_limit - 1))), db)
       | Some required \<Rightarrow> if required > limit then (Inl (Err (database_full limit required)), db) else (Inr (), db)) f) db' Q"
      by (cases "x + n > max_database_bytes (db_options db)") (simp_all add: post_def io_then_def options Let_def)
  qed (rule bad)
qed

text \<open>The append of the record: on a fault a part of it is in the file, and the handle is poisoned.\<close>

lemma append_batch_step:
  assumes crate: "crc32c_crate E" and ok: "batch_ok staged"
    and sums: "checksums_ok E staged (if cached \<noteq> [] then Some cached else None)"
    and at: "at_file (db_storage db) (storage_image (db_storage db)) s" and pos: "storage_position s = length (storage_image (db_storage db))"
  shows "post (append_batch E staged cached) s (\<lambda>r s'. \<exists>k. at_file (db_storage db) (storage_image (db_storage db) @ take k (batch_record E staged)) s'
      \<and> ((\<exists>x. r = Inr x \<and> at_file (db_storage db) (storage_image (db_storage db) @ batch_record E staged) s') \<or> faulty (db_storage db) r))"
proof -
  let ?img = "storage_image (db_storage db)" and ?rec = "batch_record E staged"
  have bs: "write_batch_record_with_checksums E staged cached = Inr ?rec"
    using write_batch_record_inner_eq [OF crate _ sums] ok by (simp add: write_batch_record_with_checksums_def batch_ok_def)
  have "?rec \<noteq> []" using length_batch_record [of E staged] by (cases ?rec) simp_all
  moreover have "\<not> storage_is_memory s" using at by (auto simp: at_file_def)
  ultimately have "post (question (write_all (storage_ops E) ?rec)) s (\<lambda>r s'. \<exists>k. at_file (db_storage db) (?img @ take k ?rec) s'
      \<and> ((\<exists>x. r = Inr x \<and> at_file (db_storage db) (?img @ ?rec) s') \<or> faulty (db_storage db) r))"
  proof (rule post_weaken [OF storage_write_post [rotated]])
    fix r s'
    assume s': "file_step s s' \<and> (r = Inr () \<and> storage_image s' = write_at (storage_position s) ?rec (storage_image s)
          \<and> storage_position s' = storage_position s + length ?rec
       \<or> faulty s r \<and> (\<exists>e. Some e \<in> set (plan (file_of s))
          \<and> storage_image s' = (if fault_written e = 0 then storage_image s
               else write_at (storage_position s) (take (fault_written e) ?rec) (storage_image s))))"
    have put: "write_at (storage_position s) xs (storage_image s) = ?img @ xs" for xs
      using at pos by (simp add: at_file_def write_at_def)
    have step: "file_step (db_storage db) s'" using s' at file_step_trans by (auto simp: at_file_def)
    from s' show "\<exists>k. at_file (db_storage db) (?img @ take k ?rec) s'
      \<and> ((\<exists>x. r = Inr x \<and> at_file (db_storage db) (?img @ ?rec) s') \<or> faulty (db_storage db) r)"
    proof (elim conjE disjE exE)
      assume "r = Inr ()" "storage_image s' = write_at (storage_position s) ?rec (storage_image s)"
      with step put show ?thesis by (intro exI [of _ "length ?rec"]) (simp add: at_file_def)
    next
      fix e
      assume "faulty s r" and e: "storage_image s' = (if fault_written e = 0 then storage_image s
               else write_at (storage_position s) (take (fault_written e) ?rec) (storage_image s))"
      from at \<open>faulty s r\<close> have "faulty (db_storage db) r" using faulty_step [of "db_storage db" s r] by (auto simp: at_file_def)
      moreover from e at put have "storage_image s' = ?img @ take (fault_written e) ?rec" by (auto simp: at_file_def)
      ultimately show ?thesis using step by (intro exI [of _ "fault_written e"]) (simp add: at_file_def)
    qed
  qed
  then show ?thesis by (simp add: append_batch_def bs io_lift_then)
qed

lemma commit_after_capacity:
  assumes crate: "crc32c_crate E" and db: "file_db E db sb items batches" and ok: "batch_ok staged"
    and sums: "checksums_ok E staged (if cached \<noteq> [] then Some cached else None)"
    and lt: "length (storage_image (db_storage db) @ batch_record E staged) < 2 ^ 63" and same: "unchanged db db1"
    and oom: "\<And>db'. unchanged db db' \<Longrightarrow> \<not> try_reserve E (length staged)
      \<Longrightarrow> Q (Inl (Err (from_io OutOfMemory ''could not reserve Overlay entries''))) db'"
    and bad: "\<And>e db'. unchanged db db' \<Longrightarrow> \<not> file_storage_quiet (db_storage db) \<Longrightarrow> Q (Inl (Err e)) db'"
    and poisoned: "\<And>e db'. poisoned_by db (batch_record E staged) db' \<Longrightarrow> \<not> file_storage_quiet (db_storage db) \<Longrightarrow> Q (Inl (Err e)) db'"
    and good: "\<And>db'. committed E db (batch_record E staged) (batches @ [staged]) db' \<Longrightarrow> Q (Inr ()) db'"
  shows "post (io_then (on_db_storage (question (seek_end (storage_ops E)))) (\<lambda>rollback_offset.
        io_then (\<lambda>db. (ok_or (Err (other ''Overlay batch offset overflow''))
          (checked_sub rollback_offset (active_log_start (db_base db))), db)) (\<lambda>batch_offset.
        io_then (io_lift (mapped_mutations E staged batch_offset)) (\<lambda>mutations.
        io_then (or_rollback E rollback_offset (on_db_storage (append_batch E staged cached))) (\<lambda>_.
        io_then (or_rollback E rollback_offset (on_db_storage sync_data)) (\<lambda>_.
        publish_batch E rollback_offset staged mutations)))))) db1 Q"
proof (rule unchanged_look [OF same, where P = "\<lambda>x s'. x = length (storage_image (db_storage db)) \<and> storage_position s' = x"])
  let ?img = "storage_image (db_storage db)" and ?rec = "batch_record E staged" and ?L = "log_bytes E batches"
  have image: "storage_image (db_storage db1) = ?img" using same by (auto simp: unchanged_def at_file_def)
  assume "\<not> storage_is_memory (db_storage db1)"
  from storage_seek_end_post [OF this, of E] show "post (question (seek_end (storage_ops E))) (db_storage db1) (\<lambda>r s'. file_step (db_storage db1) s'
      \<and> storage_image s' = storage_image (db_storage db1)
      \<and> ((\<exists>x. r = Inr x \<and> x = length ?img \<and> storage_position s' = x) \<or> faulty (db_storage db1) r))"
    by (auto simp: post_def image)
next
  let ?img = "storage_image (db_storage db)" and ?rec = "batch_record E staged" and ?L = "log_bytes E batches"
  fix x db2
  assume same2: "unchanged db db2" and x: "x = length ?img \<and> storage_position (db_storage db2) = x"
  then obtain s2 where db2: "db2 = db\<lparr>db_storage := s2\<rparr>" and at2: "at_file (db_storage db) ?img s2" by (auto simp: unchanged_def)
  have disk: "disk_image E ?img sb items batches []" and start: "active_log_start (db_base db) = unat (log_start sb)"
    using db by (auto simp: file_db_def opened_def base_ready_def Let_def)
  have off: "checked_sub x (active_log_start (db_base db2)) = Some (length ?L)"
    using image_facts(5) [OF disk] start x by (simp add: db2 checked_sub_def)
  have "length (?L @ ?rec) < usize_limit" using image_facts(5) [OF disk] lt by (simp add: usize_limit_def)
  note mutations = mapped_mutations_written [OF ok this]
  let ?tail = "\<lambda>mutations. io_then (or_rollback E x (on_db_storage (append_batch E staged cached))) (\<lambda>_.
        io_then (or_rollback E x (on_db_storage sync_data)) (\<lambda>_. publish_batch E x staged mutations))"
  have tail: "post (?tail ms) (db\<lparr>db_storage := s2\<rparr>) Q" if loc: "list_all2 (locates (?L @ ?rec)) ms (staged_operations staged)" for ms
  proof (rule commit_step [where P = "\<lambda>_ s'. at_file (db_storage db) (?img @ ?rec) s'" and chunk = ?rec and m = "append_batch E staged cached"])
    fix y :: unit and s3
    assume at3: "at_file (db_storage db) (?img @ ?rec) s3"
    show "post (io_then (or_rollback E x (on_db_storage sync_data)) (\<lambda>_. publish_batch E x staged ms)) (db\<lparr>db_storage := s3\<rparr>) Q"
    proof (rule commit_look [OF at3, where x = "()" and m = sync_data])
      assume "\<not> storage_is_memory s3"
      from storage_sync_post [OF this] show "post sync_data s3 (\<lambda>r s'. file_step s3 s' \<and> storage_image s' = storage_image s3 \<and> (r = Inr () \<or> faulty s3 r))"
        by (auto simp: post_def)
    next
      fix s4
      assume "at_file (db_storage db) (?img @ ?rec) s4"
      note publish_batch_post [OF db ok this lt loc, folded x [THEN conjunct1]]
      then show "post (publish_batch E x staged ms) (db\<lparr>db_storage := s4\<rparr>) Q"
        by (rule post_weaken) (use good poisoned in auto)
    qed (use poisoned x in auto)
  qed (use append_batch_step [OF crate ok sums at2] x poisoned in \<open>auto simp: db2\<close>)
  have "post (io_then (io_lift (mapped_mutations E staged (length ?L))) ?tail) db2 Q"
    by (rule post_then_lift) (use mutations tail oom [OF same2] in \<open>auto simp: db2 split: if_splits\<close>)
  then show "post (io_then (\<lambda>db. (ok_or (Err (other ''Overlay batch offset overflow''))
          (checked_sub x (active_log_start (db_base db))), db)) (\<lambda>batch_offset. io_then (io_lift (mapped_mutations E staged batch_offset)) ?tail)) db2 Q"
    by (simp add: post_def io_then_def [of "\<lambda>db. (_, db)"] off)
qed (rule bad)

text \<open>Every outcome of a commit.\<close>

definition commit_refused :: "externs \<Rightarrow> database \<Rightarrow> overlay_entry keymap \<Rightarrow> error \<Rightarrow> bool" where
  "commit_refused E db staged e \<longleftrightarrow>
     \<not> batch_fits staged \<and> kind_of e = InvalidInput
     \<or> max_database_bytes (db_options db) < length (storage_image (db_storage db)) + length (batch_record E staged)
       \<and> e = database_full (max_database_bytes (db_options db)) (length (storage_image (db_storage db)) + length (batch_record E staged))
     \<or> \<not> try_reserve E (length staged) \<and> kind_of e = OutOfMemory
     \<or> \<not> file_storage_quiet (db_storage db)"

theorem commit_staged_post:
  assumes crate: "crc32c_crate E" and db: "file_db E db sb items batches" and healthy: "db_state db = Healthy"
    and limit: "max_database_bytes (db_options db) < 2 ^ 63" and "staged \<noteq> []"
    and staged: "staged_ok staged" and keys: "batch_keys_ok staged"
    and sums: "checksums_ok E staged (if cached \<noteq> [] then Some cached else None)"
  shows "post (commit_staged E staged cached) db (\<lambda>r db'.
      r = Inr () \<and> batch_fits staged \<and> length (storage_image (db_storage db') ) \<le> max_database_bytes (db_options db)
        \<and> committed E db (batch_record E staged) (batches @ [staged]) db'
      \<or> (\<exists>e. r = Inl (Err e) \<and> unchanged db db' \<and> commit_refused E db staged e)
      \<or> (\<exists>e. r = Inl (Err e) \<and> batch_fits staged \<and> poisoned_by db (batch_record E staged) db' \<and> \<not> file_storage_quiet (db_storage db)
          \<and> length (storage_image (db_storage db)) + length (batch_record E staged) \<le> max_database_bytes (db_options db)))"
    (is "post _ db ?Q")
proof -
  let ?img = "storage_image (db_storage db)" and ?rec = "batch_record E staged"
  have is_file: "\<not> storage_is_memory (db_storage db)" and disk: "disk_image E ?img sb items batches []" using db by (auto simp: file_db_def)
  have same: "unchanged db db" using is_file by (rule unchanged_refl)
  have unfold: "commit_staged E staged cached db = commit_staged_with E staged cached (append_batch E) db"
    using is_file by (simp add: commit_staged_def)
  have bad: "?Q (Inl (Err e)) db'" if "unchanged db db'" "\<not> file_storage_quiet (db_storage db)" for e db'
    using that by (auto simp: commit_refused_def)
  have "post (commit_staged_with E staged cached (append_batch E)) db ?Q"
  proof (cases "batch_fits staged")
    case False
    then obtain e where "batch_record_size staged = Inl (Err e)" "kind_of e = InvalidInput"
      using batch_record_size_eq [OF staged] by auto
    with False same healthy assms(5) show ?thesis
      by (auto simp: post_def commit_staged_with_def guarded_def ensure_writable_def io_then_def commit_refused_def)
  next
    case True
    then have size: "batch_record_size staged = Inr (length ?rec)" and ok: "batch_ok staged"
      using batch_record_size_eq [OF staged, of E] staged keys by (simp_all add: batch_ok_def)
    have "length ?img < 2 ^ 63" using disk by (simp add: disk_image_def)
    moreover have "length ?rec \<le> 17 + 4294967295" using True by (simp add: length_batch_record batch_fits_def)
    ultimately have le: "length ?img + length ?rec < usize_limit" by (simp add: usize_limit_def)
    let ?tail = "\<lambda>_ :: unit. io_then (on_db_storage (question (seek_end (storage_ops E)))) (\<lambda>rollback_offset.
        io_then (\<lambda>db. (ok_or (Err (other ''Overlay batch offset overflow''))
          (checked_sub rollback_offset (active_log_start (db_base db))), db)) (\<lambda>batch_offset.
        io_then (io_lift (mapped_mutations E staged batch_offset)) (\<lambda>mutations.
        io_then (or_rollback E rollback_offset (on_db_storage (append_batch E staged cached))) (\<lambda>_.
        io_then (or_rollback E rollback_offset (on_db_storage sync_data)) (\<lambda>_.
        publish_batch E rollback_offset staged mutations)))))"
    have tail: "post (?tail ()) db1 ?Q" if same1: "unchanged db db1" and cap: "length ?img + length ?rec \<le> max_database_bytes (db_options db)" for db1
    proof (rule commit_after_capacity [OF crate db ok sums _ same1])
      show "length (?img @ ?rec) < 2 ^ 63" using cap limit by simp
    qed (use True cap bad in \<open>auto simp: commit_refused_def committed_def at_file_def\<close>)
    have "post (io_then (ensure_capacity (length ?rec)) ?tail) db ?Q"
      by (rule ensure_capacity_post [OF same le]) (use tail bad in \<open>auto simp: commit_refused_def\<close>)
    with healthy assms(5) size show ?thesis
      by (simp add: post_def commit_staged_with_def guarded_def ensure_writable_def)
  qed
  then show ?thesis by (simp only: post_def unfold)
qed

end
