(* ===== verification/Lkv_Database_Properties.thy ===== *)
theory Lkv_Database_Properties
  imports Lkv_Commit_Correct
begin

section \<open>Properties of database files\<close>

text \<open>
  What a user of a database on a file can rely on: opening recovers the map the file holds, reads return
  it, a commit is atomic and durable, and the file stays within its limit. All of it holds for every plan of
  faults of the file; only the statements that a call succeeds ask for a file without faults.
\<close>

subsection \<open>Opening\<close>

lemma open_with_options_post:
  assumes held: "holds E (contents f) m" and dev: "device_faults (FileStorage f)" and reserve: "\<forall>n. try_reserve E n"
    and options: "MIN_DATABASE_BYTES \<le> max_database_bytes options" "length (contents f) \<le> max_database_bytes options"
  shows "\<exists>r s'. open_with_options E options (Inr f) None = (r, Some s') \<and> file_step (FileStorage f) s' \<and> holds E (storage_image s') m
    \<and> length (storage_image s') \<le> length (contents f)
    \<and> ((\<exists>db. r = Inr db \<and> db_storage db = s' \<and> db_options db = options \<and> db_snapshots db = 0 \<and> db_on_file E db m) \<or> faulty (FileStorage f) r)"
proof -
  let ?s = "FileStorage f"
  from held obtain sb items batches rest where disk: "disk_image E (contents f) sb items batches rest" and m: "image_map items batches = m"
    by (auto simp: holds_def)
  have at: "at_file ?s (contents f) ?s" by (simp add: at_file_def file_step_refl)
  let ?Q = "\<lambda>r s'. file_step ?s s' \<and> holds E (storage_image s') m
    \<and> length (storage_image s') \<le> length (contents f)
    \<and> ((\<exists>db. r = Inr db \<and> db_storage db = s' \<and> db_options db = options \<and> db_snapshots db = 0 \<and> db_on_file E db m) \<or> faulty ?s r)"
  let ?m = "io_then storage_len (\<lambda>initial_len.
           if initial_len > max_database_bytes options
           then io_lift (Inl (Err (database_full (max_database_bytes options) initial_len)))
           else from_storage E options)"
  have "post ?m ?s ?Q"
  proof (rule at_file_len [OF at])
    fix s1
    assume "at_file ?s (contents f) s1"
    from from_storage_post [OF this dev disk reserve options(2)] options(2) m
    show "post (if length (contents f) > max_database_bytes options
        then io_lift (Inl (Err (database_full (max_database_bytes options) (length (contents f)))))
        else from_storage E options) s1 ?Q" by simp
  qed (use held in \<open>auto simp: at_file_def faulty_broken\<close>)
  moreover obtain r s' where run: "?m ?s = (r, s')" by fastforce
  moreover have "open_with_options E options (Inr f) None = (r, Some s')"
    using run options(1) by (simp add: open_with_options_def validate_options_def open_database_file_def lock_database_file_def)
  ultimately show ?thesis by (auto dest: postD)
qed

text \<open>
  C5. Recovery. Take a file that holds a map: its newest valid superblock names a base and a log of complete
  batches, followed by nothing, by a record that is cut off anywhere, or by a compaction marker with anything
  behind it. Opening it, whatever calls on the file fail on the way, leaves a file that holds the same map. If
  it returns a handle, the handle is healthy, its base and Overlay stand for that map, and its file ends with
  the last complete batch. If it fails, it fails with an error value; on a file without faults it succeeds.
\<close>

theorem open_recovers:
  assumes "holds E (contents f) m" and "device_faults (FileStorage f)" and "\<forall>n. try_reserve E n"
    and "MIN_DATABASE_BYTES \<le> max_database_bytes options" and "length (contents f) \<le> max_database_bytes options"
  shows "\<exists>r s'. open_with_options E options (Inr f) None = (r, Some s') \<and> holds E (storage_image s') m
    \<and> (\<forall>db. r = Inr db \<longrightarrow> db_storage db = s' \<and> db_on_file E db m)
    \<and> (\<forall>e. r = Inl e \<longrightarrow> (\<exists>err. e = Err err))
    \<and> (file_quiet f \<longrightarrow> (\<exists>db. r = Inr db))"
  using open_with_options_post [OF assms] by (auto simp: faulty_def)

definition empty_file :: "externs \<Rightarrow> disk_file" where
  "empty_file E = \<lparr>contents = empty_image E, file_position = 0, plan = []\<rparr>"

lemma length_empty_image:
  assumes "\<forall>n. try_reserve E n"
  shows "length (empty_image E) = 8244"
  using image_facts(5) [OF empty_disk_image [OF assms]] by (simp add: empty_superblock_fields)

lemma empty_file_facts:
  assumes "\<forall>n. try_reserve E n"
  shows "holds E (contents (empty_file E)) Map.empty" and "device_faults (FileStorage (empty_file E))"
    and "MIN_DATABASE_BYTES \<le> max_database_bytes default_options" and "length (contents (empty_file E)) \<le> max_database_bytes default_options"
    and "file_quiet (empty_file E)"
proof -
  have "image_map [] [] = Map.empty" by (simp add: image_map_def)
  then show "holds E (contents (empty_file E)) Map.empty"
    using empty_disk_image [OF assms] by (auto simp: holds_def empty_file_def)
qed (simp_all add: empty_file_def device_faults_def default_options_def MIN_DATABASE_BYTES_def DATA_START_def EMPTY_SEGMENT_SIZE_def
    length_empty_image [OF assms] file_quiet_def)

lemma reference_reserve: "\<forall>n. try_reserve reference_externs n"
  by (simp add: reference_externs_def)

theorem open_recovers_witness:
  "\<exists>db. fst (open_with_options reference_externs default_options (Inr (empty_file reference_externs)) None) = Inr db
    \<and> db_on_file reference_externs db Map.empty"
  using open_recovers [OF empty_file_facts(1,2) [OF reference_reserve] reference_reserve empty_file_facts(3,4) [OF reference_reserve]]
    empty_file_facts(5) [OF reference_reserve] by auto

subsection \<open>Reading\<close>

text \<open>
  C6. Reads refine the map. On a handle whose base and Overlay stand for a map, a read of any key in any
  verification mode returns what the map says of it. It changes nothing of the handle but the blocks its
  verifier has checked, and the handle goes on to stand for the same map.
\<close>

theorem db_get_correct:
  assumes "db_reads E db m"
  shows "\<exists>db'. db_get E key db = (Inr (m key), db') \<and> reverified db db' \<and> db_reads E db' m"
  using db_get_reads [OF assms, of key] by blast

lemma empty_file_opened:
  assumes "\<forall>n. try_reserve E n"
  obtains db where "fst (open_with_options E default_options (Inr (empty_file E)) None) = Inr db" and "db_on_file E db Map.empty"
    and "db_options db = default_options" and "length (storage_image (db_storage db)) \<le> 8244" and "file_storage_quiet (db_storage db)"
proof -
  note facts = empty_file_facts [OF assms]
  from open_with_options_post [OF facts(1,2) assms facts(3,4)] facts(5) obtain db where
    db: "fst (open_with_options E default_options (Inr (empty_file E)) None) = Inr db" "db_on_file E db Map.empty"
    "db_options db = default_options" "file_step (FileStorage (empty_file E)) (db_storage db)"
    "length (storage_image (db_storage db)) \<le> length (contents (empty_file E))"
    by (auto simp: faulty_def)
  moreover from db(4) facts(5) have "file_storage_quiet (db_storage db)" using file_step_quiet by auto
  ultimately show thesis using length_empty_image [OF assms] by (intro that) (simp_all add: empty_file_def)
qed

theorem db_get_correct_witness:
  "\<exists>db db'. fst (open_with_options reference_externs default_options (Inr (empty_file reference_externs)) None) = Inr db
    \<and> db_get reference_externs [1, 2] db = (Inr None, db')"
proof -
  obtain db where db: "fst (open_with_options reference_externs default_options (Inr (empty_file reference_externs)) None) = Inr db"
    "db_on_file reference_externs db Map.empty" using empty_file_opened [OF reference_reserve] by metis
  from db_get_correct [OF db_on_file_reads [OF db(2)], of "[1, 2]"] db(1) show ?thesis by blast
qed

subsection \<open>Committing\<close>

lemma torn_commit_holds:
  assumes disk: "disk_image E img sb items batches []" and ok: "batch_ok staged" and lt: "length (img @ batch_record E staged) < 2 ^ 63"
  shows "holds E (img @ take k (batch_record E staged)) (image_map items batches)
    \<or> holds E (img @ take k (batch_record E staged)) (live_map (image_map items batches) (staged_abs staged))"
proof (cases "k < length (batch_record E staged)")
  case True
  have "stops E (take k (batch_record E staged))" using True ok by (intro stops_torn) (simp_all add: batch_ok_def)
  from image_append [OF disk this] lt True show ?thesis unfolding holds_def by auto
next
  case False
  with image_commit [OF disk ok lt] have "holds E (img @ take k (batch_record E staged)) (image_map items (batches @ [staged]))"
    unfolding holds_def by auto
  then show ?thesis by (simp add: image_map_append)
qed

lemma unchanged_on_file: "unchanged db db' \<Longrightarrow> db_on_file E db m \<Longrightarrow> db_on_file E db' m"
  by (fastforce simp: unchanged_def db_on_file_def file_db_def at_file_def)

lemma commit_outcome:
  assumes crate: "crc32c_crate E" and db: "db_on_file E db m" and limit: "max_database_bytes (db_options db) < 2 ^ 63"
    and staged: "staged_ok staged" "batch_keys_ok staged" "checksums_ok E staged (if cached \<noteq> [] then Some cached else None)"
    and run: "commit_staged E staged cached db = (r, db')"
  shows "r = Inr () \<and> db_on_file E db' (live_map m (staged_abs staged)) \<and> db_options db' = db_options db
      \<and> (staged = [] \<and> db' = db \<or> length (storage_image (db_storage db')) \<le> max_database_bytes (db_options db))
    \<or> (\<exists>e. r = Inl (Err e) \<and> db_on_file E db' m \<and> unchanged db db' \<and> commit_refused E db staged e)
    \<or> (\<exists>e. r = Inl (Err e) \<and> db_reads E db' m \<and> db_state db' = WritePoisoned \<and> \<not> file_storage_quiet (db_storage db)
        \<and> length (storage_image (db_storage db')) \<le> max_database_bytes (db_options db)
        \<and> (holds E (storage_image (db_storage db')) m \<or> holds E (storage_image (db_storage db')) (live_map m (staged_abs staged))))"
proof (cases "staged = []")
  case True
  have "staged_abs [] = Map.empty" by (simp add: staged_abs_def fun_eq_iff)
  moreover from db run True have "r = Inr () \<and> db' = db"
    by (auto simp: db_on_file_def file_db_def commit_staged_def commit_staged_with_def guarded_def ensure_writable_def)
  ultimately show ?thesis using db True by simp
next
  case False
  from db obtain sb items batches where healthy: "db_state db = Healthy" and fdb: "file_db E db sb items batches"
    and m: "image_map items batches = m" by (auto simp: db_on_file_def)
  let ?img = "storage_image (db_storage db)" and ?rec = "batch_record E staged"
  have disk: "disk_image E ?img sb items batches []" and opened: "opened E sb items batches (db_base db, db_overlay db)"
    using fdb by (simp_all add: file_db_def)
  from postD [OF commit_staged_post [OF crate fdb healthy limit False staged] run]
  show ?thesis
  proof (elim disjE exE conjE)
    assume r: "r = Inr ()" and fits: "batch_fits staged" and cap: "length (storage_image (db_storage db')) \<le> max_database_bytes (db_options db)"
      and "committed E db ?rec (batches @ [staged]) db'"
    then obtain s' overlay' where db': "db' = db\<lparr>db_storage := s', db_overlay := overlay'\<rparr>" "at_file (db_storage db) (?img @ ?rec) s'"
      "overlay_ready E (log_bytes E (batches @ [staged])) overlay' (batches @ [staged])" by (auto simp: committed_def)
    have ok: "batch_ok staged" using staged fits by (simp add: batch_ok_def)
    have "length (?img @ ?rec) < 2 ^ 63" using cap db'(1,2) limit by (auto simp: at_file_def)
    from image_commit [OF disk ok this] db' opened healthy
    have "file_db E db' sb items (batches @ [staged])"
      by (auto simp: file_db_def opened_def at_file_def)
    then have "db_on_file E db' (image_map items (batches @ [staged]))"
      using healthy db'(1) by (auto simp: db_on_file_def)
    with r cap m db'(1) show ?thesis by (simp add: image_map_append)
  next
    fix e
    assume "r = Inl (Err e)" "unchanged db db'" "commit_refused E db staged e"
    moreover from this(2) have "db_on_file E db' m" using db by (rule unchanged_on_file)
    ultimately show ?thesis by blast
  next
    fix e
    assume r: "r = Inl (Err e)" and fits: "batch_fits staged" and "poisoned_by db ?rec db'" and noisy: "\<not> file_storage_quiet (db_storage db)"
      and cap: "length ?img + length ?rec \<le> max_database_bytes (db_options db)"
    then obtain s' k where db': "db' = db\<lparr>db_storage := s', db_state := WritePoisoned\<rparr>" "storage_image s' = ?img @ take k ?rec"
      by (auto simp: poisoned_by_def at_file_def)
    have "batch_ok staged" "length (?img @ ?rec) < 2 ^ 63" using staged fits cap limit by (simp_all add: batch_ok_def)
    from torn_commit_holds [OF disk this, of k] r noisy cap db' opened m show ?thesis
      by (auto simp: db_reads_def)
  qed
qed

text \<open>
  C2. Commits are atomic and durable across a crash. Take a healthy handle on a file and commit a batch of
  puts and deletes to it while any calls on the file fail, a write after any part of its bytes. Whatever is then
  in the file is opened again, with other faults. If that returns a handle, all its reads agree on one map:
  the map before the commit, or that map with the whole batch applied; and if the commit had returned
  success, it is the latter.
\<close>

theorem commit_reopen:
  assumes "crc32c_crate E" and "\<forall>n. try_reserve E n"
    and "db_on_file E db m" and "max_database_bytes (db_options db) < 2 ^ 63"
    and "staged_ok staged" and "batch_keys_ok staged" and "checksums_ok E staged (if cached \<noteq> [] then Some cached else None)"
    and "commit_staged E staged cached db = (r, db')"
    and "contents f = storage_image (db_storage db')" and "device_faults (FileStorage f)"
    and "MIN_DATABASE_BYTES \<le> max_database_bytes options" and "length (contents f) \<le> max_database_bytes options"
    and "open_with_options E options (Inr f) None = (Inr db2, s2)"
  shows "\<exists>m'. (m' = m \<or> m' = live_map m (staged_abs staged)) \<and> (r = Inr () \<longrightarrow> m' = live_map m (staged_abs staged))
    \<and> (\<forall>key. fst (db_get E key db2) = Inr (m' key))"
proof -
  have reads: "\<forall>key. fst (db_get E key db2) = Inr (m' key)" if "holds E (contents f) m'" for m'
  proof -
    from open_with_options_post [OF that assms(10,2,11,12)] assms(13) have "db_on_file E db2 m'" by auto
    from db_get_reads [OF db_on_file_reads [OF this]] show ?thesis by (metis fst_conv)
  qed
  from commit_outcome [OF assms(1,3-8)] have
    "\<exists>m'. (m' = m \<or> m' = live_map m (staged_abs staged)) \<and> (r = Inr () \<longrightarrow> m' = live_map m (staged_abs staged)) \<and> holds E (contents f) m'"
    unfolding assms(9) by (auto dest: db_on_file_holds)
  with reads show ?thesis by blast
qed

definition sample_batch :: "overlay_entry keymap" where
  "sample_batch = [([1], Put (Owned [2, 3])), ([4], Delete)]"

lemma sample_batch_facts:
  "staged_ok sample_batch" "batch_keys_ok sample_batch" "batch_fits sample_batch" "length (batch_record E sample_batch) = 43"
  "checksums_ok E sample_batch None"
  by (simp_all add: sample_batch_def staged_ok_def keymap_ok_def batch_keys_ok_def batch_fits_def batch_payload_def
      length_batch_operation_bytes length_batch_record MAX_KEY_SIZE_def MAX_BATCH_OPERATIONS_def MAX_LOG_PAYLOAD_SIZE_def checksums_ok_def)

lemma sample_batch_map: "live_map Map.empty (staged_abs sample_batch) = [[1] \<mapsto> [2, 3]]"
  by (auto simp: live_map_def staged_abs_eq staged_operations_def sample_batch_def fun_eq_iff)

text \<open>A handle on an empty file whose third call fails after 20 bytes.\<close>

definition failing :: "database \<Rightarrow> database" where
  "failing db = db\<lparr>db_storage := FileStorage ((file_of (db_storage db))\<lparr>plan := [None, None, Some (Fault 20 unexpected_eof)]\<rparr>)\<rparr>"

lemma failing_on_file:
  assumes "db_on_file E db m"
  shows "db_on_file E (failing db) m" and "db_options (failing db) = db_options db"
    and "storage_image (db_storage (failing db)) = storage_image (db_storage db)"
proof -
  have "\<not> storage_is_memory (db_storage db)" using assms by (auto simp: db_on_file_def file_db_def)
  then obtain f where f: "db_storage db = FileStorage f" by (cases "db_storage db") simp_all
  with assms show "db_on_file E (failing db) m"
    by (fastforce simp: failing_def db_on_file_def file_db_def)
qed (use assms in \<open>auto simp: failing_def db_on_file_def file_db_def elim: storage_is_memory.elims\<close>)

theorem commit_reopen_witness:
  "\<exists>db r db' m' db2 s2. fst (open_with_options reference_externs default_options (Inr (empty_file reference_externs)) None) = Inr db
    \<and> commit_staged reference_externs sample_batch [] (failing db) = (r, db')
    \<and> open_with_options reference_externs default_options
        (Inr \<lparr>contents = storage_image (db_storage db'), file_position = 0, plan = []\<rparr>) None = (Inr db2, s2)
    \<and> (m' = Map.empty \<or> m' = [[1] \<mapsto> [2, 3]]) \<and> (\<forall>key. fst (db_get reference_externs key db2) = Inr (m' key))"
proof -
  let ?E = reference_externs
  note crate = reference.crc32c_crate_axioms
  obtain db where db: "fst (open_with_options ?E default_options (Inr (empty_file ?E)) None) = Inr db" "db_on_file ?E db Map.empty"
    "db_options db = default_options" "length (storage_image (db_storage db)) \<le> 8244"
    using empty_file_opened [OF reference_reserve] by metis
  note start = failing_on_file [OF db(2)]
  have limit: "max_database_bytes (db_options (failing db)) < 2 ^ 63" using start(2) db(3) by (simp add: default_options_def)
  have sums: "checksums_ok ?E sample_batch (if [] \<noteq> ([] :: u32 keymap) then Some [] else None)" by (simp add: sample_batch_facts)
  obtain r db' where run: "commit_staged ?E sample_batch [] (failing db) = (r, db')" by fastforce
  note outcome = commit_outcome [OF crate start(1) limit sample_batch_facts(1,2) sums run]
  let ?f = "\<lparr>contents = storage_image (db_storage db'), file_position = 0, plan = []\<rparr>"
  have "length (storage_image (db_storage db')) \<le> 1099511627776"
    using outcome start(2,3) db(3,4) by (auto simp: default_options_def sample_batch_def unchanged_def at_file_def)
  then have len: "length (contents ?f) \<le> max_database_bytes default_options" by (simp add: default_options_def)
  have dev: "device_faults (FileStorage ?f)" by (simp add: device_faults_def)
  obtain m' where "holds ?E (contents ?f) m'" using outcome db_on_file_holds by fastforce
  from open_with_options_post [OF this dev reference_reserve empty_file_facts(3) [OF reference_reserve] len]
  obtain db2 s2 where again: "open_with_options ?E default_options (Inr ?f) None = (Inr db2, s2)"
    by (auto simp: faulty_def file_quiet_def)
  from commit_reopen [OF crate reference_reserve start(1) limit sample_batch_facts(1,2) sums run _ dev empty_file_facts(3) [OF reference_reserve] len again]
    db(1) run again show ?thesis by (auto simp: sample_batch_map)
qed

lemma poisoned_refuses: "db_state db = WritePoisoned \<Longrightarrow> commit_staged E staged cached db = (Inl (Err Poisoned), db)"
  by (simp add: commit_staged_def commit_staged_memory_def commit_staged_with_def guarded_def ensure_writable_def)

text \<open>
  C7. What the caller of a commit sees. If it succeeds, the handle is healthy and stands for the map with the
  batch applied. If it fails, it fails with an error value and the handle still reads the old map: either
  nothing has changed and the handle is still healthy, or the handle is poisoned and from then on refuses
  every commit without touching anything.
\<close>

theorem commit_handle:
  assumes "crc32c_crate E" and "db_on_file E db m" and "max_database_bytes (db_options db) < 2 ^ 63"
    and "staged_ok staged" and "batch_keys_ok staged" and "checksums_ok E staged (if cached \<noteq> [] then Some cached else None)"
    and "commit_staged E staged cached db = (r, db')"
  shows "(r = Inr () \<longrightarrow> db_on_file E db' (live_map m (staged_abs staged)))
    \<and> (\<forall>e. r = Inl e \<longrightarrow> (\<exists>err. e = Err err) \<and> db_reads E db' m
        \<and> (db_on_file E db' m
           \<or> db_state db' = WritePoisoned \<and> (\<forall>staged2 cached2. commit_staged E staged2 cached2 db' = (Inl (Err Poisoned), db'))))"
  using commit_outcome [OF assms] db_on_file_reads poisoned_refuses by auto

lemma sample_commit:
  obtains db db' where "fst (open_with_options reference_externs default_options (Inr (empty_file reference_externs)) None) = Inr db"
    and "db_on_file reference_externs db Map.empty" and "max_database_bytes (db_options db) < 2 ^ 63"
    and "file_storage_quiet (db_storage db)" and "commit_staged reference_externs sample_batch [] db = (Inr (), db')"
proof -
  let ?E = reference_externs
  obtain db where db: "fst (open_with_options ?E default_options (Inr (empty_file ?E)) None) = Inr db" "db_on_file ?E db Map.empty"
    "db_options db = default_options" "length (storage_image (db_storage db)) \<le> 8244" "file_storage_quiet (db_storage db)"
    using empty_file_opened [OF reference_reserve] by metis
  have limit: "max_database_bytes (db_options db) < 2 ^ 63" using db(3) by (simp add: default_options_def)
  have sums: "checksums_ok ?E sample_batch (if [] \<noteq> ([] :: u32 keymap) then Some [] else None)" by (simp add: sample_batch_facts)
  obtain r db' where run: "commit_staged ?E sample_batch [] db = (r, db')" by fastforce
  from commit_outcome [OF reference.crc32c_crate_axioms db(2) limit sample_batch_facts(1,2) sums run] db(3-5)
  have "r = Inr ()" by (auto simp: commit_refused_def sample_batch_facts default_options_def reference_reserve)
  with db limit run show thesis by (intro that) simp_all
qed

theorem commit_handle_witness:
  "\<exists>db db'. fst (open_with_options reference_externs default_options (Inr (empty_file reference_externs)) None) = Inr db
    \<and> commit_staged reference_externs sample_batch [] db = (Inr (), db') \<and> db_on_file reference_externs db' [[1] \<mapsto> [2, 3]]"
proof -
  obtain db db' where db: "fst (open_with_options reference_externs default_options (Inr (empty_file reference_externs)) None) = Inr db"
    "db_on_file reference_externs db Map.empty" "max_database_bytes (db_options db) < 2 ^ 63"
    "commit_staged reference_externs sample_batch [] db = (Inr (), db')" by (rule sample_commit)
  from commit_handle [OF reference.crc32c_crate_axioms db(2,3) sample_batch_facts(1,2) _ db(4)] db(1,4)
  show ?thesis by (auto simp: sample_batch_map sample_batch_facts)
qed

text \<open>
  C8. A commit on a file without faults succeeds whenever it can: the batch fits the format, and the file with
  its record does not exceed the limit of the database. Otherwise the error says which of the two it was, and the
  handle is unchanged and healthy.
\<close>

theorem commit_succeeds:
  assumes "crc32c_crate E" and "\<forall>n. try_reserve E n" and "db_on_file E db m" and "max_database_bytes (db_options db) < 2 ^ 63"
    and "staged_ok staged" and "batch_keys_ok staged" and "checksums_ok E staged (if cached \<noteq> [] then Some cached else None)"
    and "file_storage_quiet (db_storage db)"
  shows "\<exists>r db'. commit_staged E staged cached db = (r, db')
    \<and> (if r = Inr () then db_on_file E db' (live_map m (staged_abs staged)) else db_on_file E db' m)
    \<and> (batch_fits staged \<and> length (storage_image (db_storage db)) + length (batch_record E staged) \<le> max_database_bytes (db_options db)
        \<longrightarrow> r = Inr ())
    \<and> (\<forall>e. r = Inl (Err e) \<longrightarrow> \<not> batch_fits staged \<and> kind_of e = InvalidInput
        \<or> e = database_full (max_database_bytes (db_options db)) (length (storage_image (db_storage db)) + length (batch_record E staged)))"
proof -
  obtain r db' where run: "commit_staged E staged cached db = (r, db')" by fastforce
  from commit_outcome [OF assms(1,3-7) run] assms(2,8) run show ?thesis by (auto simp: commit_refused_def)
qed

theorem commit_succeeds_witness:
  "\<exists>db r db'. fst (open_with_options reference_externs default_options (Inr (empty_file reference_externs)) None) = Inr db
    \<and> commit_staged reference_externs sample_batch [] db = (r, db')
    \<and> (if r = Inr () then db_on_file reference_externs db' [[1] \<mapsto> [2, 3]] else db_on_file reference_externs db' Map.empty)"
proof -
  obtain db db' where db: "fst (open_with_options reference_externs default_options (Inr (empty_file reference_externs)) None) = Inr db"
    "db_on_file reference_externs db Map.empty" "max_database_bytes (db_options db) < 2 ^ 63" "file_storage_quiet (db_storage db)"
    by (rule sample_commit)
  have sums: "checksums_ok reference_externs sample_batch (if [] \<noteq> ([] :: u32 keymap) then Some [] else None)"
    by (simp add: sample_batch_facts)
  from commit_succeeds [OF reference.crc32c_crate_axioms reference_reserve db(2,3) sample_batch_facts(1,2) sums db(4),
      unfolded sample_batch_map] db(1)
  show ?thesis by blast
qed

subsection \<open>Sequences of commits\<close>

text \<open>Runs commits one after the other and collects the batches of those that succeed.\<close>

fun commits :: "externs \<Rightarrow> (overlay_entry keymap \<times> u32 keymap) list \<Rightarrow> database \<Rightarrow> overlay_entry keymap list \<times> database" where
  "commits E [] db = ([], db)"
| "commits E ((staged, cached) # rest) db =
     (case commit_staged E staged cached db of (r, db1) \<Rightarrow>
        (case commits E rest db1 of (acked, db2) \<Rightarrow> (if r = Inr () then staged # acked else acked, db2)))"

definition apply_batches :: "(bytes \<rightharpoonup> bytes) \<Rightarrow> overlay_entry keymap list \<Rightarrow> bytes \<rightharpoonup> bytes" where
  "apply_batches m batches = foldl (\<lambda>m staged. live_map m (staged_abs staged)) m batches"

lemma apply_batches_Nil [simp]: "apply_batches m [] = m"
  and apply_batches_Cons [simp]: "apply_batches m (staged # rest) = apply_batches (live_map m (staged_abs staged)) rest"
  by (simp_all add: apply_batches_def)

definition sequence_ok :: "externs \<Rightarrow> (overlay_entry keymap \<times> u32 keymap) list \<Rightarrow> bool" where
  "sequence_ok E batches \<longleftrightarrow> (\<forall>(staged, cached) \<in> set batches. staged_ok staged \<and> batch_keys_ok staged
     \<and> checksums_ok E staged (if cached \<noteq> [] then Some cached else None))"

lemma commits_poisoned: "db_state db = WritePoisoned \<Longrightarrow> commits E batches db = ([], db)"
  by (induction batches) (auto simp: poisoned_refuses)

text \<open>
  C3. A history of commits on one handle, some of which may fail in any way. The handle reads the batches
  that were acknowledged, in their order and nothing else. The file never exceeds the limit of the database, and
  it holds the acknowledged batches, or these followed by the whole of one further batch whose commit failed.
\<close>

theorem commit_history:
  assumes "crc32c_crate E" and "db_on_file E db m" and "max_database_bytes (db_options db) < 2 ^ 63"
    and "length (storage_image (db_storage db)) \<le> max_database_bytes (db_options db)"
    and "sequence_ok E batches" and "commits E batches db = (acked, db')"
  shows "db_reads E db' (apply_batches m acked)
    \<and> length (storage_image (db_storage db')) \<le> max_database_bytes (db_options db)
    \<and> (holds E (storage_image (db_storage db')) (apply_batches m acked)
       \<or> (\<exists>staged \<in> fst ` set batches. holds E (storage_image (db_storage db')) (apply_batches m (acked @ [staged]))))"
  using assms(2-6)
proof (induction batches arbitrary: db m acked db')
  case Nil
  then show ?case using db_on_file_reads db_on_file_holds by auto
next
  case (Cons b rest)
  obtain staged cached where b: "b = (staged, cached)" by fastforce
  obtain r db1 where one: "commit_staged E staged cached db = (r, db1)" by fastforce
  obtain acked1 db2 where two: "commits E rest db1 = (acked1, db2)" by fastforce
  have db': "db' = db2" "acked = (if r = Inr () then staged # acked1 else acked1)" using Cons.prems(5) one two by (auto simp: b)
  have ok: "staged_ok staged" "batch_keys_ok staged" "checksums_ok E staged (if cached \<noteq> [] then Some cached else None)" "sequence_ok E rest"
    using Cons.prems(4) by (auto simp: b sequence_ok_def)
  have poisoned: ?case if r: "r = Inl (Err e)" and db1: "db_reads E db1 m" "db_state db1 = WritePoisoned"
      "length (storage_image (db_storage db1)) \<le> max_database_bytes (db_options db)"
      and image: "holds E (storage_image (db_storage db1)) m \<or> holds E (storage_image (db_storage db1)) (live_map m (staged_abs staged))" for e
  proof -
    have "acked1 = []" "db2 = db1" using commits_poisoned [OF db1(2), of E rest] two by auto
    with r db1 image show ?thesis by (auto simp: db' b)
  qed
  from commit_outcome [OF assms(1) Cons.prems(1,2) ok(1-3) one] show ?case
  proof (elim disjE exE conjE)
    assume r: "r = Inr ()" and db1: "db_on_file E db1 (live_map m (staged_abs staged))" "db_options db1 = db_options db"
      and "staged = []" and "db1 = db"
    with Cons.IH [OF db1(1) _ _ ok(4) two] Cons.prems(2,3) show ?thesis by (auto simp: db' b)
  next
    assume r: "r = Inr ()" and db1: "db_on_file E db1 (live_map m (staged_abs staged))" "db_options db1 = db_options db"
      and "length (storage_image (db_storage db1)) \<le> max_database_bytes (db_options db)"
    with Cons.IH [OF db1(1) _ _ ok(4) two] Cons.prems(2) show ?thesis by (auto simp: db' b)
  next
    fix e
    assume r: "r = Inl (Err e)" and db1: "db_on_file E db1 m" and same: "unchanged db db1"
    have "db_options db1 = db_options db" "storage_image (db_storage db1) = storage_image (db_storage db)"
      using same by (auto simp: unchanged_def at_file_def)
    with Cons.IH [OF db1 _ _ ok(4) two] Cons.prems(2,3) r show ?thesis by (auto simp: db' b)
  qed (use poisoned in blast)+
qed

theorem commit_history_witness:
  "\<exists>db acked db'. fst (open_with_options reference_externs default_options (Inr (empty_file reference_externs)) None) = Inr db
    \<and> commits reference_externs [(sample_batch, []), ([([9], Put (Owned []))], [])] (failing db) = (acked, db')
    \<and> db_reads reference_externs db' (apply_batches Map.empty acked)"
proof -
  let ?E = reference_externs and ?batches = "[(sample_batch, []), ([([9], Put (Owned []))], [])] :: (overlay_entry keymap \<times> u32 keymap) list"
  obtain db where db: "fst (open_with_options ?E default_options (Inr (empty_file ?E)) None) = Inr db" "db_on_file ?E db Map.empty"
    "db_options db = default_options" "length (storage_image (db_storage db)) \<le> 8244" using empty_file_opened [OF reference_reserve] by metis
  note start = failing_on_file [OF db(2)]
  obtain acked db' where run: "commits ?E ?batches (failing db) = (acked, db')" by fastforce
  have limit: "max_database_bytes (db_options (failing db)) < 2 ^ 63"
    "length (storage_image (db_storage (failing db))) \<le> max_database_bytes (db_options (failing db))"
    using start db(3,4) by (simp_all add: default_options_def)
  have ok: "sequence_ok ?E ?batches"
    by (simp add: sequence_ok_def sample_batch_facts staged_ok_def batch_keys_ok_def keymap_ok_def MAX_KEY_SIZE_def checksums_ok_def sample_batch_def)
  from commit_history [OF reference.crc32c_crate_axioms start(1) limit ok run] db(1) run show ?thesis by blast
qed

end
