(* ===== verification/Lkv_Entries_Correct.thy ===== *)
theory Lkv_Entries_Correct
  imports Lkv_Database_Correct
begin

section \<open>Correctness of iteration\<close>

text \<open>
  A walk over an open handle yields the entries of the base that the Overlay does not shadow, in the order
  of the base, and then the live entries of the Overlay: each key of the map once, with its value.
\<close>

subsection \<open>What a walk yields\<close>

definition unshadowed :: "(bytes \<rightharpoonup> bytes option) \<Rightarrow> entry list \<Rightarrow> entry list" where
  "unshadowed changes items = filter (\<lambda>(key, val). changes key = None) items"

fun live_changes :: "(bytes \<times> bytes option) list \<Rightarrow> entry list" where
  "live_changes [] = []"
| "live_changes ((key, Some val) # changes) = (key, val) # live_changes changes"
| "live_changes ((key, None) # changes) = live_changes changes"

lemma live_changes_keys: "fst ` set (live_changes changes) \<subseteq> fst ` set changes"
  by (induction changes rule: live_changes.induct) auto

lemma live_changes_distinct: "distinct (map fst changes) \<Longrightarrow> distinct (map fst (live_changes changes))"
proof (induction changes rule: live_changes.induct)
  case (2 key val changes)
  then have "key \<notin> fst ` set (live_changes changes)" using live_changes_keys [of changes] by auto
  with 2 show ?case by simp
qed simp_all

lemma map_of_live_changes:
  "distinct (map fst changes) \<Longrightarrow> map_of (live_changes changes) key = (case map_of changes key of None \<Rightarrow> None | Some r \<Rightarrow> r)"
proof (induction changes rule: live_changes.induct)
  case (3 k changes)
  then have "k \<notin> fst ` set (live_changes changes)" using live_changes_keys [of changes] by auto
  moreover have "map_of changes k = None" using 3 by (simp add: map_of_eq_None_iff)
  ultimately show ?case using 3 by (cases "key = k") simp_all
qed simp_all

lemma walk_map:
  assumes "distinct (map fst items)" and "distinct (map fst changes)" and "map_of changes = c"
  shows "distinct (map fst (unshadowed c items @ live_changes changes))"
    and "map_of (unshadowed c items @ live_changes changes) = live_map (map_of items) c"
proof -
  have "key \<notin> fst ` set changes" if "(key, val) \<in> set (unshadowed c items)" for key val
  proof -
    from that have "map_of changes key = None" using assms(3) by (auto simp: unshadowed_def)
    then show ?thesis by (simp add: map_of_eq_None_iff)
  qed
  then have "fst ` set (unshadowed c items) \<inter> fst ` set changes = {}" by force
  then have disj: "fst ` set (unshadowed c items) \<inter> fst ` set (live_changes changes) = {}" using live_changes_keys by blast
  have "distinct (map fst (unshadowed c items))" using assms(1) by (auto simp: unshadowed_def distinct_map_filter)
  with live_changes_distinct [OF assms(2)] disj show "distinct (map fst (unshadowed c items @ live_changes changes))" by simp
  have filter: "map_of (unshadowed c items) key = (if c key = None then map_of items key else None)" for key
    unfolding unshadowed_def by (induction items) auto
  show "map_of (unshadowed c items @ live_changes changes) = live_map (map_of items) c"
  proof
    fix key
    show "map_of (unshadowed c items @ live_changes changes) key = live_map (map_of items) c key"
      using filter [of key] map_of_live_changes [OF assms(2), of key] assms(3)
      by (auto simp: live_map_def map_add_def split: option.splits)
  qed
qed

subsection \<open>The loop over the base\<close>

text \<open>\<open>walking\<close>: the records of \<open>items\<close> are still to come, and the data of the base ends with them.\<close>

definition walking :: "read_view \<Rightarrow> segment_verifier \<Rightarrow> nat \<Rightarrow> entry list \<Rightarrow> bool" where
  "walking view v offset items \<longleftrightarrow>
     (\<exists>pre post. view_mapping (view_base view) = pre @ base_records items @ post \<and> offset = length pre
        \<and> data_size v = length (pre @ base_records items)) \<and> entries_ok items \<and> data_size v < usize_limit"

lemma walking_record:
  assumes "walking view v offset ((key, val) # items)"
  defines "stop \<equiv> offset + length (entry_bytes (key, val))"
  shows "(if trusted then trusted_record_at (view_mapping (view_base view)) offset
          else record_at (view_mapping (view_base view)) offset (data_size v)) = Inr (key, val, stop)"
    and "walking view v stop items" and "stop \<le> data_size v"
proof -
  from assms(1) obtain pre post where m: "view_mapping (view_base view) = pre @ entry_bytes (key, val) @ base_records items @ post"
    and off: "offset = length pre" and size: "data_size v = length (pre @ entry_bytes (key, val) @ base_records items)" "data_size v < usize_limit"
    and ok: "entries_ok ((key, val) # items)"
    by (auto simp: walking_def)
  have lens: "length key < 4294967296" "length val < 4294967296" using ok by (auto simp: entries_ok_def)
  show "(if trusted then trusted_record_at (view_mapping (view_base view)) offset
          else record_at (view_mapping (view_base view)) offset (data_size v)) = Inr (key, val, stop)"
    using trusted_record_at_written [OF lens, of pre "base_records items @ post"]
      record_at_written [OF lens _ size(2), of pre "base_records items @ post"] m size(1)
    by (simp add: off stop_def)
  show "walking view v stop items"
    unfolding walking_def
  proof (intro conjI exI)
    show "view_mapping (view_base view) = (pre @ entry_bytes (key, val)) @ base_records items @ post" using m by simp
  qed (use size ok in \<open>simp_all add: stop_def off entries_ok_def\<close>)
  show "stop \<le> data_size v" using size(1) by (simp add: stop_def off)
qed

lemma walking_append: "walking view v offset (xs @ ys) \<Longrightarrow> walking view v (offset + length (base_records xs)) ys"
  unfolding walking_def
proof (elim conjE exE, intro conjI)
  fix pre post
  assume "view_mapping (view_base view) = pre @ base_records (xs @ ys) @ post" "offset = length pre"
    "data_size v = length (pre @ base_records (xs @ ys))"
  then show "\<exists>pre' post. view_mapping (view_base view) = pre' @ base_records ys @ post \<and> offset + length (base_records xs) = length pre'
      \<and> data_size v = length (pre' @ base_records ys)"
    by (intro exI [of _ "pre @ base_records xs"] exI [of _ post]) (simp add: base_records_def)
qed (auto simp: entries_ok_def)

definition shadowed :: "(bytes \<rightharpoonup> bytes option) \<Rightarrow> entry \<Rightarrow> bool" where
  "shadowed c item \<longleftrightarrow> c (fst item) \<noteq> None"

lemma raw_base_loop_walk:
  assumes "walking view v offset items" and overlay: "overlay_ok E L (view_overlay view)"
  defines "c \<equiv> overlay_abs (view_overlay view)"
  shows "raw_base_loop E view v trusted (length items) offset =
    (let at = offset + length (base_records (takeWhile (shadowed c) items)) in
     case dropWhile (shadowed c) items of
       [] \<Rightarrow> Inr (Inr None, at, 0)
     | (key, val) # rest \<Rightarrow>
         Inr (Inr (Some (key, val, Some (at + 8, at + length (entry_bytes (key, val))))), at + length (entry_bytes (key, val)), length rest))"
  using assms(1)
proof (induction items arbitrary: offset)
  case Nil
  show ?case by simp
next
  case (Cons item items)
  obtain key val where item: "item = (key, val)" by fastforce
  let ?stop = "offset + length (entry_bytes (key, val))"
  note rec = walking_record [OF Cons.prems [unfolded item]]
  have shadow: "overlay_contains_key E (view_overlay view) key = Inr (c key \<noteq> None)"
    using overlay_contains_key_eq [OF overlay, of key] by (auto simp: c_def dom_def)
  have loop: "raw_base_loop E view v trusted (length (item # items)) offset =
      (if c key = None then Inr (Inr (Some (key, val, Some (offset + 8, ?stop))), ?stop, length items)
       else raw_base_loop E view v trusted (length items) ?stop)"
    unfolding length_Cons raw_base_loop.simps Let_def rec(1) by (simp add: shadow)
  show ?case unfolding loop using Cons.IH [OF rec(2)] by (simp add: item add.assoc shadowed_def)
qed

subsection \<open>The whole walk\<close>

lemma unshadowed_dropWhile: "unshadowed c items = unshadowed c (dropWhile (shadowed c) items)"
  by (induction items) (auto simp: unshadowed_def shadowed_def)

lemma first_live_eq:
  "first_live changes = (case live_changes changes of [] \<Rightarrow> (None, []) | p # rest \<Rightarrow> (Some p, snd (first_live changes)))"
  "live_changes changes = p # rest \<Longrightarrow> live_changes (snd (first_live changes)) = rest"
  by (induction changes rule: live_changes.induct) (auto split: list.splits)

definition iterating :: "read_view \<Rightarrow> segment_verifier \<Rightarrow> raw_entries \<Rightarrow> entry list \<Rightarrow> bool" where
  "iterating view v st items \<longleftrightarrow> \<not> raw_finished st \<and> raw_pending_error st = None
     \<and> (\<exists>base. walking view v (raw_base_offset st) base \<and> raw_base_remaining st = length base
          \<and> items = unshadowed (overlay_abs (view_overlay view)) base @ live_changes (raw_overlay st))"

definition in_data :: "segment_verifier \<Rightarrow> (nat \<times> nat) option \<Rightarrow> bool" where
  "in_data v at \<longleftrightarrow> (\<forall>a b. at = Some (a, b) \<longrightarrow> a \<le> b \<and> b \<le> data_size v)"

lemma raw_next_iterating:
  assumes it: "iterating view v st items" and overlay: "overlay_ok E L (view_overlay view)"
  shows "case items of
      [] \<Rightarrow> \<exists>st'. raw_next E view v st = Inr (None, st') \<and> raw_pending_error st' = None
    | (key, val) # rest \<Rightarrow> \<exists>at st'. raw_next E view v st = Inr (Some (key, val, at), st') \<and> in_data v at \<and> iterating view v st' rest"
proof -
  let ?c = "overlay_abs (view_overlay view)" and ?changes = "raw_overlay st"
  from it obtain base where st: "\<not> raw_finished st" "raw_pending_error st = None"
    and walk: "walking view v (raw_base_offset st) base" "raw_base_remaining st = length base"
    and items: "items = unshadowed ?c base @ live_changes ?changes"
    by (auto simp: iterating_def)
  note loop = raw_base_loop_walk [OF walk(1) overlay, of "raw_base_trusted st", unfolded Let_def, folded walk(2)]
  have walk2: "walking view v (raw_base_offset st + length (base_records (takeWhile (shadowed ?c) base))) (dropWhile (shadowed ?c) base)"
    using walking_append [of view v "raw_base_offset st" "takeWhile (shadowed ?c) base" "dropWhile (shadowed ?c) base"] walk(1) by simp
  show ?thesis
  proof (cases "dropWhile (shadowed ?c) base")
    case Nil
    then have none: "unshadowed ?c base = []" using unshadowed_dropWhile [of ?c base] unfolding Nil by (simp add: unshadowed_def)
    let ?st = "st\<lparr>raw_base_offset := data_size v, raw_base_remaining := 0\<rparr>"
    have "raw_base_loop E view v (raw_base_trusted st) (raw_base_remaining st) (raw_base_offset st) = Inr (Inr None, data_size v, 0)"
      using loop walk2 unfolding Nil by (auto simp: walking_def)
    then have raw: "raw_next E view v st = (case first_live ?changes of
        (Some (key, val), items) \<Rightarrow> Inr (Some (key, val, None), ?st\<lparr>raw_overlay := items\<rparr>)
      | (None, items) \<Rightarrow> Inr (None, ?st\<lparr>raw_overlay := items, raw_finished := True\<rparr>))"
      using st by (simp add: raw_next_def Let_def)
    have end_walk: "walking view v (data_size v) []" using walk2 unfolding Nil by (auto simp: walking_def)
    show ?thesis
    proof (cases "live_changes ?changes")
      case Nil
      then show ?thesis using raw none st first_live_eq(1) [of ?changes] by (simp add: items)
    next
      case (Cons p rest)
      obtain key val where p: "p = (key, val)" by fastforce
      obtain changes' where first: "first_live ?changes = (Some (key, val), changes')" "live_changes changes' = rest"
        using first_live_eq(1) [of ?changes] first_live_eq(2) [OF Cons] Cons by (cases "first_live ?changes") (auto simp: p)
      have "iterating view v (?st\<lparr>raw_overlay := changes'\<rparr>) rest"
        using st end_walk first(2) by (auto simp: iterating_def unshadowed_def)
      then show ?thesis using raw none first(1) Cons by (auto simp: items p in_data_def)
    qed
  next
    case (Cons item rest)
    obtain key val where item: "item = (key, val)" by fastforce
    have "\<not> shadowed ?c item" using Cons by (metis hd_dropWhile list.discI list.sel(1))
    then have "unshadowed ?c base = (key, val) # unshadowed ?c rest"
      using unshadowed_dropWhile [of ?c base] Cons by (simp add: unshadowed_def shadowed_def item)
    then have items': "items = (key, val) # unshadowed ?c rest @ live_changes ?changes" by (simp add: items)
    let ?at = "raw_base_offset st + length (base_records (takeWhile (shadowed ?c) base))"
    let ?stop = "?at + length (entry_bytes (key, val))"
    let ?st = "st\<lparr>raw_base_offset := ?stop, raw_base_remaining := length rest\<rparr>"
    have "raw_next E view v st = Inr (Some (key, val, Some (?at + 8, ?stop)), ?st)"
      using loop Cons st by (simp add: raw_next_def item)
    moreover note rec = walking_record [OF walk2 [unfolded Cons item]]
    have "in_data v (Some (?at + 8, ?stop))" using rec(3) by (simp add: in_data_def length_entry_bytes)
    moreover have "iterating view v ?st (unshadowed ?c rest @ live_changes ?changes)"
      using st rec(2) by (auto simp: iterating_def)
    ultimately show ?thesis by (auto simp: items')
  qed
qed

lemma raw_collect_iterating:
  assumes "iterating view v st items" and overlay: "overlay_ok E L (view_overlay view)"
  shows "\<exists>st'. raw_collect E view v st = Inr (items, st') \<and> raw_pending_error st' = None"
  using assms(1)
proof (induction items arbitrary: st)
  case Nil
  from raw_next_iterating [OF Nil overlay] show ?case by (subst raw_collect.simps) auto
next
  case (Cons p items)
  obtain key val where p: "p = (key, val)" by fastforce
  from raw_next_iterating [OF Cons.prems overlay] obtain at st' where
    "raw_next E view v st = Inr (Some (key, val, at), st')" "iterating view v st' items" by (auto simp: p)
  with Cons.IH [of st'] show ?case by (subst raw_collect.simps) (auto simp: p)
qed

text \<open>The walk over an open base and Overlay, from its start.\<close>

lemma raw_entries_new_iterating:
  fixes mode
  assumes "opened E sb items batches (base, overlay)"
  defines "view \<equiv> base_read_view base overlay mode"
  obtains st live where "raw_entries_new view (active_verifier base) (active_len base) = Inr st"
    and "iterating view (active_verifier base) st live" and "distinct (map fst live)"
    and "map_of live = image_map items batches" and "overlay_ok E (log_bytes E batches) (view_overlay view)"
    and "entries_ok items" and "set live \<subseteq> set items \<union> {(key, val) | key val. replay Map.empty batches key = Some (Some val)}"
proof -
  let ?L = "log_bytes E batches" and ?c = "replay Map.empty batches" and ?v = "active_verifier base"
  let ?d = "base_data E (active_offset base) (active_slots base) items"
  from assms(1) have base: "base_fits E (active_offset base) (active_slots base) items" "distinct (map fst items)"
    "deref (active_mapping base) = segment_bytes E (active_offset base) (active_slots base) items"
    "length (deref (active_mapping base)) < 2 ^ 63" "active_len base = length items" "reading E (deref (active_mapping base)) ?d ?v"
    by (auto simp: opened_def base_ready_def Let_def)
  from assms(1) have overlay: "overlay_ok E ?L (overlay_index overlay)" "overlay_abs (overlay_index overlay) = ?c"
    by (simp_all add: opened_def overlay_ready_def overlay_state_ok_def)
  from overlay_iter_eq [OF overlay(1)] obtain changes where changes: "overlay_iter (overlay_index overlay) = Inr changes"
    "distinct (map fst changes)" "map_of changes = ?c" using overlay(2) by auto
  have ok: "entries_ok items" using base(1) by (simp add: base_fits_def)
  have size: "data_size ?v = length ?d" using reading_length [OF base(6)] by simp
  let ?head = "base_header_bytes (active_slots base) (length items)
    @ concat (map slot_bytes (base_index E (active_slots base) (active_offset base + 24 + 12 * active_slots base) items))"
  have head: "length ?head = 24 + 12 * active_slots base" using base_fits_facts(1) [OF base(1)] by (simp add: index_ok_def)
  have d: "?d = ?head @ base_records items" by (simp add: base_data_def)
  have "walking view ?v (24 + 12 * active_slots base) items"
    unfolding walking_def
  proof (intro conjI exI)
    show "view_mapping (view_base view) = ?head @ base_records items @ segment_metadata E ?d"
      using base(3) by (simp add: view_def base_read_view_def segment_bytes_def base_data_def)
    show "data_size ?v = length (?head @ base_records items)" using size d by simp
    show "data_size ?v < usize_limit" using reading_length [OF base(6)] base(4) by (simp add: usize_limit_def)
  qed (use head ok in simp_all)
  let ?st = "\<lparr>raw_base_offset = BASE_HEADER + active_slots base * SLOT_SIZE, raw_base_remaining = length items,
      raw_base_trusted = semantically_verified ?v, raw_pending_error = None, raw_finished = False, raw_overlay = changes\<rparr>"
  let ?live = "unshadowed ?c items @ live_changes changes"
  show thesis
  proof (rule that)
    show "raw_entries_new view ?v (active_len base) = Inr ?st"
      using changes(1) base(5) by (simp add: raw_entries_new_def view_def base_read_view_def)
    show "iterating view ?v ?st ?live"
      using \<open>walking view ?v _ items\<close> overlay(2) by (auto simp: iterating_def view_def base_read_view_def mult.commute)
    show "distinct (map fst ?live)" "map_of ?live = image_map items batches"
      using walk_map [OF base(2) changes(2,3)] by (simp_all add: image_map_def)
    show "overlay_ok E ?L (view_overlay view)" using overlay(1) by (simp add: view_def base_read_view_def)
    have "replay Map.empty batches key = Some (Some val)" if "(key, val) \<in> set (live_changes changes)" for key val
    proof -
      from that live_changes_distinct [OF changes(2)] have "map_of (live_changes changes) key = Some val" by simp
      then show ?thesis
        using map_of_live_changes [OF changes(2), of key] changes(3) by (auto split: option.splits)
    qed
    then show "set ?live \<subseteq> set items \<union> {(key, val) | key val. replay Map.empty batches key = Some (Some val)}"
      by (auto simp: unshadowed_def)
  qed (rule ok)
qed

subsection \<open>Checked iteration\<close>

lemma iterating_same: "same_segment v v' \<Longrightarrow> iterating view v st items \<Longrightarrow> iterating view v' st items"
  by (simp add: iterating_def walking_def same_segment_def)

lemma verify_pair_good:
  assumes "reading E (view_mapping (view_base view)) d v" and "all_match E (view_mapping (view_base view)) v" and "in_data v at"
  obtains v' where "verify_pair E view at v = (Inr (), v')" and "reading E (view_mapping (view_base view)) d v'" and "same_segment v v'"
proof (cases "view_verification view = OnRead \<and> at \<noteq> None")
  case False
  then have "verify_pair E view at v = (Inr (), v)" by (cases at) (auto simp: verify_pair_def)
  with assms(1) same_segment_refl show thesis by (intro that) blast+
next
  case True
  then obtain a b where at: "at = Some (a, b)" "a \<le> b" "b \<le> length d"
    using assms(3) reading_length [OF assms(1)] by (auto simp: in_data_def)
  from check_if_result [OF assms(1) _ at(2), of True] obtain r v' where
    v': "verify_range E (view_mapping (view_base view)) a b v = (r, v')" "reading E (view_mapping (view_base view)) d v'" "same_segment v v'"
    "r = Inr () \<or> (b \<le> length d \<longrightarrow> \<not> all_match E (view_mapping (view_base view)) v)"
    unfolding check_if_def by (simp, metis)
  with assms(2) at True show thesis by (intro that) (auto simp: verify_pair_def)
qed

lemma entries_try_fold_iterating:
  assumes "iterating view v (entries_inner it) items" and "entries_view it = view" and overlay: "overlay_ok E L (view_overlay view)"
    and "reading E (view_mapping (view_base view)) d v" and "all_match E (view_mapping (view_base view)) v"
  shows "\<exists>v'. entries_try_fold E f acc it v = (fold_res (\<lambda>p acc. f acc p) items acc, v')
    \<and> reading E (view_mapping (view_base view)) d v' \<and> same_segment v v'"
  using assms(1,2,4,5)
proof (induction items arbitrary: it v acc)
  case Nil
  from raw_next_iterating [OF Nil.prems(1) overlay] Nil.prems show ?case
    by (subst entries_try_fold.simps) (auto simp: entries_next_def take_error_def)
next
  case (Cons p items)
  obtain key val where p: "p = (key, val)" by fastforce
  from raw_next_iterating [OF Cons.prems(1) overlay] obtain at st' where
    raw: "raw_next E view v (entries_inner it) = Inr (Some (key, val, at), st')" "in_data v at" "iterating view v st' items" by (auto simp: p)
  from verify_pair_good [OF Cons.prems(3,4) raw(2)] obtain v1 where
    v1: "verify_pair E view at v = (Inr (), v1)" "reading E (view_mapping (view_base view)) d v1" "same_segment v v1" .
  let ?it = "it\<lparr>entries_inner := st'\<rparr>"
  have step: "entries_next E it v = (Inr (Some (Inr p), ?it), v1)"
    using raw(1) v1(1) Cons.prems(2) by (simp add: entries_next_def p)
  show ?case
  proof (cases "f acc p")
    case (Inl e)
    with step v1 show ?thesis by (subst entries_try_fold.simps) auto
  next
    case (Inr acc')
    have "all_match E (view_mapping (view_base view)) v1" using same_segment_all_match [OF v1(3)] Cons.prems(4) by simp
    from Cons.IH [of v1 ?it acc'] iterating_same [OF v1(3) raw(3)] Cons.prems(2) v1(2) this obtain v2 where
      "entries_try_fold E f acc' ?it v1 = (fold_res (\<lambda>p acc. f acc p) items acc', v2)"
      "reading E (view_mapping (view_base view)) d v2" "same_segment v1 v2" by auto
    with step Inr v1(3) same_segment_trans show ?thesis by (subst entries_try_fold.simps) auto
  qed
qed

text \<open>On an open base and Overlay: what \<^verbatim>\<open>Entries\<close> yields.\<close>

lemma entries_new_opened:
  assumes opened: "opened E sb items batches (base, overlay)"
  obtains it live where "entries_new (base_read_view base overlay mode) (active_verifier base) (active_len base) = Inr it"
    and "distinct (map fst live)" and "map_of live = image_map items batches"
    and "\<And>f acc. \<exists>v'. entries_try_fold E f acc it (active_verifier base) = (fold_res (\<lambda>p acc. f acc p) live acc, v')
      \<and> opened E sb items batches (base\<lparr>active_verifier := v'\<rparr>, overlay)"
proof -
  let ?view = "base_read_view base overlay mode" and ?v = "active_verifier base"
  from raw_entries_new_iterating [OF opened, of mode] obtain st live where
    st: "raw_entries_new ?view ?v (active_len base) = Inr st" "iterating ?view ?v st live" "distinct (map fst live)"
      "map_of live = image_map items batches" "overlay_ok E (log_bytes E batches) (view_overlay ?view)" by metis
  from opened have base: "base_ready E base sb items" by (simp add: opened_def)
  let ?d = "base_data E (active_offset base) (active_slots base) items"
  have reading: "reading E (view_mapping (view_base ?view)) ?d ?v" "all_match E (view_mapping (view_base ?view)) ?v"
    using base by (auto simp: base_ready_def Let_def base_read_view_def)
  show thesis
  proof (rule that [OF _ st(3,4)])
    show "entries_new ?view ?v (active_len base) = Inr \<lparr>entries_view = ?view, entries_inner = st\<rparr>"
      using st(1) by (simp add: entries_new_def)
    fix f :: "'a \<Rightarrow> entry \<Rightarrow> 'a result" and acc
    from entries_try_fold_iterating [of ?view ?v "\<lparr>entries_view = ?view, entries_inner = st\<rparr>", OF _ _ st(5) reading, of live f acc] st(2)
    obtain v' where v': "entries_try_fold E f acc \<lparr>entries_view = ?view, entries_inner = st\<rparr> ?v = (fold_res (\<lambda>p acc. f acc p) live acc, v')"
      "reading E (view_mapping (view_base ?view)) ?d v'" "same_segment ?v v'" by auto
    have "opened E sb items batches (base\<lparr>active_verifier := v'\<rparr>, overlay)"
      using opened base_ready_verifier [OF base _ v'(3)] v'(2) by (simp add: opened_def base_read_view_def)
    with v'(1) show "\<exists>v'. entries_try_fold E f acc \<lparr>entries_view = ?view, entries_inner = st\<rparr> ?v = (fold_res (\<lambda>p acc. f acc p) live acc, v')
      \<and> opened E sb items batches (base\<lparr>active_verifier := v'\<rparr>, overlay)" by blast
  qed
qed

lemma fold_res_collect: "fold_res (\<lambda>p acc. Inr (acc @ [p])) items acc = Inr (acc @ items)"
  by (induction items arbitrary: acc) simp_all

lemma fold_res_count:
  "n + length items < usize_limit \<Longrightarrow> fold_res (\<lambda>p len. ok_or e (checked_add len 1)) items n = Inr (n + length items)"
  by (induction items arbitrary: n) (simp_all add: checked_add_def)

end
