(* ===== verification/Lkv_Transaction_Correct.thy ===== *)
theory Lkv_Transaction_Correct
  imports Lkv_Transaction Lkv_Database_Properties Lkv_Entries_Correct
begin

section \<open>Correctness of transactions, iteration and snapshots\<close>

text \<open>
  A write transaction stages the operations it is given: its reads see the map with them applied, and its
  commit hands exactly them to the database. Walks over a handle or a snapshot yield the map, and a
  snapshot goes on to read the map of the moment it was taken.
\<close>

subsection \<open>Values\<close>

lemma concat_chunks: "0 < n \<Longrightarrow> concat (chunks n xs) = xs"
proof (induction n xs rule: chunks.induct)
  case (1 n xs)
  then show ?case by (cases "xs = []") (subst chunks.simps, simp)+
qed

lemma copy_value_eq:
  assumes "crc32c_crate E"
  shows "copy_value E val = (if try_reserve E (length val) then Inr (Owned val, crc32c E val)
    else Inl (Err (from_io OutOfMemory ''could not copy value bytes'')))"
proof -
  have "foldl (\<lambda>(bs, checksum) chunk. (bs @ chunk, crc32c_append E checksum chunk)) (bs, c) parts =
      (bs @ concat parts, crc32c_append E c (concat parts))" for bs c parts
    by (induction parts arbitrary: bs c)
      (simp_all add: crc32c_crate.append_Nil [OF assms] crc32c_crate.append_append [OF assms])
  then show ?thesis
    using concat_chunks [of VALUE_COPY_CHUNK_SIZE val] crc32c_crate.crc32c_append_0 [OF assms, of val]
    by (simp add: copy_value_def VALUE_COPY_CHUNK_SIZE_def)
qed

text \<open>What a closure can do with a reserved value: any number of writes, each accepted or refused.\<close>

inductive rv_writes :: "externs \<Rightarrow> reserved_value \<Rightarrow> bytes \<Rightarrow> reserved_value \<Rightarrow> bool" for E where
  nothing: "rv_writes E rv [] rv"
| accepted: "rv_writes E rv bs rv1 \<Longrightarrow> reserved_write E input rv1 = (Inr n, rv2) \<Longrightarrow> rv_writes E rv (bs @ input) rv2"
| refused: "rv_writes E rv bs rv1 \<Longrightarrow> reserved_write E input rv1 = (Inl e, rv2) \<Longrightarrow> rv_writes E rv bs rv2"

lemma rv_writes_eq:
  assumes "crc32c_crate E" and "rv_writes E (reserved_new buffer flag) bs rv"
  shows "length bs \<le> length buffer \<and> rv = \<lparr>rv_bytes = bs @ drop (length bs) buffer, rv_position = length bs,
    rv_checksum = (if flag then Some (crc32c E bs) else None)\<rparr>"
  using assms(2)
proof (induction "reserved_new buffer flag" bs rv rule: rv_writes.induct)
  case nothing
  show ?case by (simp add: reserved_new_def crc32c_crate.crc32c_append_0 [OF assms(1)] crc32c_crate.append_Nil [OF assms(1)])
next
  case (accepted bs rv1 input n rv2)
  from accepted.hyps(2,3) show ?case
    by (auto simp: reserved_write_def Let_def write_at_def saturating_sub_def crc32c_crate.crc32c_append_eq [OF assms(1)]
        crc32c_crate.append_Nil [OF assms(1)] add.commute split: if_splits)
next
  case (refused bs rv1 input e rv2)
  then show ?case by (auto simp: reserved_write_def Let_def split: if_splits)
qed

definition writes_only :: "externs \<Rightarrow> (reserved_value, failure, unit) io \<Rightarrow> nat \<Rightarrow> bytes \<Rightarrow> bool" where
  "writes_only E writer n bs \<longleftrightarrow>
     (\<forall>flag. rv_writes E (reserved_new (replicate n 0) flag) bs (snd (writer (reserved_new (replicate n 0) flag))))"

lemma fill_reserved_eq:
  assumes "crc32c_crate E" and "writes_only E writer n bs" and "fill_reserved writer (replicate n 0) flag = Inr (filled, checksum)"
  shows "filled = bs \<and> length bs = n \<and> checksum = (if flag then Some (crc32c E bs) else None)"
proof -
  let ?rv = "reserved_new (replicate n 0) flag"
  obtain r rv where run: "writer ?rv = (r, rv)" by fastforce
  with assms(2) have "rv_writes E ?rv bs rv" by (auto simp: writes_only_def dest: spec [of _ flag])
  from rv_writes_eq [OF assms(1) this] assms(3) run show ?thesis
    by (auto simp: fill_reserved_def require_complete_def split: sum.splits if_splits)
qed

subsection \<open>Staging\<close>

text \<open>The type invariant of a write transaction.\<close>

definition txn_ok :: "externs \<Rightarrow> write_transaction \<Rightarrow> bool" where
  "txn_ok E txn \<longleftrightarrow> staged_ok (txn_staged txn) \<and> batch_keys_ok (txn_staged txn)
     \<and> checksums_ok E (txn_staged txn) (Some (txn_checksums txn))"

lemma checksums_ok_cached:
  "checksums_ok E staged (Some cached) \<Longrightarrow> checksums_ok E staged (if cached \<noteq> [] then Some cached else None)"
  by (auto simp: checksums_ok_def)

lemma keymap_insert_member:
  assumes "keymap_ok m"
  shows "(k, x) \<in> set (keymap_insert key v m) \<longleftrightarrow> (if k = key then x = v else (k, x) \<in> set m)"
proof -
  have member: "keymap_get m k = Some x \<longleftrightarrow> (k, x) \<in> set m" if "keymap_ok m" for m :: "'a keymap"
    using that by (simp add: keymap_get_def keymap_ok_def)
  show ?thesis
    unfolding member [OF keymap_ok_simps(2) [OF assms], symmetric] member [OF assms, symmetric] by auto
qed

lemma txn_ok_stage:
  assumes "txn_ok E txn" and "length key \<le> MAX_KEY_SIZE" and "value_ok val" and "c = None \<or> c = Some (crc32c E (as_slice val))"
  shows "txn_ok E (stage key val c txn)"
proof -
  have m: "keymap_ok (txn_staged txn)" using assms(1) by (simp add: txn_ok_def staged_ok_def)
  have "staged_ok (keymap_insert key (Put val) (txn_staged txn))"
    using assms(1,3) by (intro staged_ok_insert) (simp_all add: txn_ok_def)
  moreover have "batch_keys_ok (keymap_insert key (Put val) (txn_staged txn))"
    using assms(1,2) keymap_insert_member [OF m, of _ _ key "Put val"] by (fastforce simp: txn_ok_def batch_keys_ok_def split: if_splits)
  moreover have "checksums_ok E (keymap_insert key (Put val) (txn_staged txn))
      (Some (case c of Some x \<Rightarrow> keymap_insert key x (txn_checksums txn) | None \<Rightarrow> keymap_remove key (txn_checksums txn)))"
    using assms(1,4) keymap_insert_member [OF m, of _ _ key "Put val"]
    by (auto simp: txn_ok_def checksums_ok_def split: if_splits option.splits)
  ultimately show ?thesis by (simp add: txn_ok_def stage_def)
qed

lemma staged_abs_insert: "staged_abs (keymap_insert key entry staged) = (staged_abs staged)(key \<mapsto> entry_value entry)"
  by (simp add: staged_abs_def fun_eq_iff)

lemma live_map_put: "live_map m (changes(key \<mapsto> r)) = (live_map m changes)(key := r)"
  by (auto simp: live_map_def fun_eq_iff)

subsection \<open>The operations of a transaction\<close>

text \<open>\<open>staged_as\<close>: the transaction has staged one more operation and is otherwise the same.\<close>

definition staged_as :: "externs \<Rightarrow> write_transaction \<Rightarrow> bytes \<Rightarrow> bytes option \<Rightarrow> write_transaction \<Rightarrow> bool" where
  "staged_as E txn key r txn' \<longleftrightarrow> txn_ok E txn' \<and> txn_db txn' = txn_db txn
     \<and> staged_abs (txn_staged txn') = (staged_abs (txn_staged txn))(key \<mapsto> r)"

lemma staged_as_stage:
  assumes "txn_ok E txn" and "length key \<le> MAX_KEY_SIZE" and "value_ok val" and "c = None \<or> c = Some (crc32c E (as_slice val))"
  shows "staged_as E txn key (Some (as_slice val)) (stage key val c txn)"
  using txn_ok_stage [OF assms] by (simp add: staged_as_def) (simp add: stage_def staged_abs_insert)

lemma check_lengths_Inr: "check_lengths key val = Inr () \<longleftrightarrow> length key \<le> MAX_KEY_SIZE \<and> length val \<le> MAX_VALUE_SIZE"
  by (simp add: check_lengths_def)

lemma check_lengths_Inl: "check_lengths key val = Inl e \<Longrightarrow> \<exists>err. e = Err err"
  by (auto simp: check_lengths_def split: if_splits)

lemma check_single_put_size_Inl: "check_single_put_size k n = Inl e \<Longrightarrow> \<exists>err. e = Err err"
  unfolding check_single_put_size_def
  by (cases "Option.bind (checked_add 4 9) (\<lambda>len. Option.bind (checked_add len k) (\<lambda>len. checked_add len n))") (auto split: if_splits)

lemma txn_put_result:
  assumes "crc32c_crate E" and "txn_ok E txn" and "txn_put E key val txn = (r, txn')"
  shows "r = Inr () \<and> staged_as E txn key (Some val) txn' \<or> (\<exists>e. r = Inl (Err e)) \<and> txn' = txn"
proof (cases "check_lengths key val")
  case (Inl e)
  moreover obtain err where "e = Err err" using check_lengths_Inl [OF Inl] by blast
  ultimately have "r = Inl (Err err) \<and> txn' = txn" using assms(3) by (auto simp: txn_put_def)
  then show ?thesis by simp
next
  case (Inr u)
  then have key: "length key \<le> MAX_KEY_SIZE" using check_lengths_Inr [of key val] by simp
  note as = staged_as_stage [OF assms(2) key, of "Owned val"]
  show ?thesis
  proof (cases "check_single_put_size (length key) (length val)")
    case (Inl e)
    moreover obtain err where "e = Err err" using check_single_put_size_Inl [OF Inl] by blast
    ultimately have "r = Inl (Err err) \<and> txn' = txn" using \<open>check_lengths key val = Inr u\<close> assms(3) by (auto simp: txn_put_def)
    then show ?thesis by simp
  next
    case (Inr u')
    with \<open>check_lengths key val = Inr u\<close> assms(3) as show ?thesis
      by (auto simp: txn_put_def copy_value_eq [OF assms(1)] split: if_splits)
  qed
qed

lemma txn_delete_result:
  assumes "txn_ok E txn" and "txn_delete key txn = (r, txn')"
  shows "r = Inr () \<and> staged_as E txn key None txn' \<or> (\<exists>e. r = Inl (Err e)) \<and> txn' = txn"
proof (cases "check_lengths key []")
  case (Inl e)
  moreover obtain err where "e = Err err" using check_lengths_Inl [OF Inl] by blast
  ultimately have "r = Inl (Err err) \<and> txn' = txn" using assms(2) by (auto simp: txn_delete_def)
  then show ?thesis by simp
next
  case (Inr u)
  then have key: "length key \<le> MAX_KEY_SIZE" using check_lengths_Inr [of key "[]"] by simp
  let ?staged = "keymap_insert key Delete (txn_staged txn)"
  have m: "keymap_ok (txn_staged txn)" using assms(1) by (simp add: txn_ok_def staged_ok_def)
  have "staged_ok ?staged" using assms(1) by (intro staged_ok_insert) (simp_all add: txn_ok_def)
  moreover have "batch_keys_ok ?staged"
    using assms(1) key keymap_insert_member [OF m, of _ _ key Delete] by (fastforce simp: txn_ok_def batch_keys_ok_def split: if_splits)
  moreover have "checksums_ok E ?staged (Some (keymap_remove key (txn_checksums txn)))"
    using assms(1) keymap_insert_member [OF m, of _ _ key Delete] by (auto simp: txn_ok_def checksums_ok_def split: if_splits)
  ultimately show ?thesis using assms(2) Inr by (auto simp: txn_delete_def staged_as_def txn_ok_def staged_abs_insert)
qed

lemma put_reserved_result:
  assumes "crc32c_crate E" and "txn_ok E txn" and "writes_only E writer n bs"
    and "put_reserved E anon sealed key n writer txn = (Inr (), txn')"
  shows "length bs = n \<and> staged_as E txn key (Some bs) txn'"
proof -
  let ?large = "n \<ge> MAPPED_VALUE_THRESHOLD \<and> \<not> storage_is_memory (db_storage (txn_db txn))"
  note fill = fill_reserved_eq [OF assms(1,3)]
  have lengths: "check_lengths_len key n = Inr ()"
    using assms(4) by (cases "check_lengths_len key n") (simp_all add: put_reserved_def Let_def)
  have "length key \<le> MAX_KEY_SIZE"
  proof (rule ccontr)
    assume "\<not> length key \<le> MAX_KEY_SIZE"
    then have "check_lengths key [] \<noteq> Inr ()" using check_lengths_Inr [of key "[]"] by simp
    with lengths show False by (cases "check_lengths key []") (auto simp: check_lengths_len_def split: if_splits)
  qed
  note as = staged_as_stage [OF assms(2) this]
  show ?thesis
  proof (cases ?large)
    case True
    with assms(4) lengths obtain filled c where
      "fill_reserved writer (replicate n 0) True = Inr (filled, c)" "txn' = stage key (MappedValue (Mapped filled) 0 n) c txn"
      by (auto simp: put_reserved_def result_simps split: sum.splits option.splits prod.splits)
    with fill [of True filled c] as [of "MappedValue (Mapped bs) 0 n" c] show ?thesis by (auto simp: range_of_def)
  next
    case False
    with assms(4) lengths obtain filled c where
      "fill_reserved writer (replicate n 0) False = Inr (filled, c)" "txn' = stage key (Owned filled) c txn"
      by (auto simp: put_reserved_def result_simps Let_def split: sum.splits option.splits prod.splits if_splits)
    with fill [of False filled c] as [of "Owned bs" c] show ?thesis by auto
  qed
qed

subsection \<open>Runs of a transaction\<close>

text \<open>
  The calls between \<^verbatim>\<open>begin_write\<close> and the end of a transaction, with the operations that were accepted. A
  call that fails and a read leave no operation behind.
\<close>

inductive txn_run :: "externs \<Rightarrow> write_transaction \<Rightarrow> (bytes \<times> bytes option) list \<Rightarrow> write_transaction \<Rightarrow> bool" for E where
  begun: "txn_run E t [] t"
| put: "txn_run E t ops t1 \<Longrightarrow> txn_put E key val t1 = (Inr (), t2) \<Longrightarrow> txn_run E t (ops @ [(key, Some val)]) t2"
| put_failed: "txn_run E t ops t1 \<Longrightarrow> txn_put E key val t1 = (Inl e, t2) \<Longrightarrow> txn_run E t ops t2"
| deleted: "txn_run E t ops t1 \<Longrightarrow> txn_delete key t1 = (Inr (), t2) \<Longrightarrow> txn_run E t (ops @ [(key, None)]) t2"
| delete_failed: "txn_run E t ops t1 \<Longrightarrow> txn_delete key t1 = (Inl e, t2) \<Longrightarrow> txn_run E t ops t2"
| filled: "txn_run E t ops t1 \<Longrightarrow> writes_only E writer n bs \<Longrightarrow> put_reserved E anon sealed key n writer t1 = (Inr (), t2)
    \<Longrightarrow> txn_run E t (ops @ [(key, Some bs)]) t2"
| fill_failed: "txn_run E t ops t1 \<Longrightarrow> put_reserved E anon sealed key n writer t1 = (Inl e, t2) \<Longrightarrow> txn_run E t ops t2"
| got: "txn_run E t ops t1 \<Longrightarrow> txn_get E key t1 = (r, t2) \<Longrightarrow> txn_run E t ops t2"

definition apply_ops :: "(bytes \<rightharpoonup> bytes) \<Rightarrow> (bytes \<times> bytes option) list \<Rightarrow> bytes \<rightharpoonup> bytes" where
  "apply_ops m ops = foldl (\<lambda>m (key, r). m(key := r)) m ops"

lemma apply_ops_simps [simp]: "apply_ops m [] = m" "apply_ops m (ops @ [(key, r)]) = (apply_ops m ops)(key := r)"
  by (simp_all add: apply_ops_def)

text \<open>What a run keeps.\<close>

definition txn_inv :: "externs \<Rightarrow> database \<Rightarrow> (bytes \<rightharpoonup> bytes) \<Rightarrow> (bytes \<times> bytes option) list \<Rightarrow> write_transaction \<Rightarrow> bool" where
  "txn_inv E db m ops t \<longleftrightarrow> txn_ok E t \<and> reverified db (txn_db t) \<and> db_on_file E (txn_db t) m \<and> live_map m (staged_abs (txn_staged t)) = apply_ops m ops"

lemma reverified_refl: "reverified db db"
  unfolding reverified_def by (intro exI [of _ "active_verifier (db_base db)"]) simp

lemma reverified_trans: "reverified db db1 \<Longrightarrow> reverified db1 db2 \<Longrightarrow> reverified db db2"
  by (auto simp: reverified_def)

lemma reverified_fields: "reverified db db' \<Longrightarrow> db_options db' = db_options db \<and> db_storage db' = db_storage db \<and> db_state db' = db_state db"
  by (auto simp: reverified_def)

lemma txn_inv_staged: "txn_inv E db m ops t \<Longrightarrow> staged_as E t key r t' \<Longrightarrow> txn_inv E db m (ops @ [(key, r)]) t'"
  by (simp add: txn_inv_def staged_as_def live_map_put)

lemma put_reserved_failed: "put_reserved E anon sealed key n writer t = (Inl e, t') \<Longrightarrow> t' = t"
  by (auto simp: put_reserved_def Let_def split: sum.splits)

lemma txn_get_result:
  assumes "txn_ok E t" and "db_reads E (txn_db t) m"
  shows "\<exists>t'. txn_get E key t = (Inr (live_map m (staged_abs (txn_staged t)) key), t') \<and> txn_staged t' = txn_staged t
    \<and> txn_checksums t' = txn_checksums t \<and> reverified (txn_db t) (txn_db t') \<and> db_reads E (txn_db t') m
    \<and> (db_on_file E (txn_db t) m \<longrightarrow> db_on_file E (txn_db t') m)"
proof (cases "keymap_get (txn_staged t) key")
  case (Some entry)
  with reverified_refl [of "txn_db t"] assms(2) show ?thesis by (simp add: txn_get_def live_map_def staged_abs_def)
next
  case None
  from db_get_reads [OF assms(2), of key] obtain db' where "db_get E key (txn_db t) = (Inr (m key), db')"
    "reverified (txn_db t) db'" "db_reads E db' m" "db_on_file E (txn_db t) m \<longrightarrow> db_on_file E db' m" by blast
  with None show ?thesis by (auto simp: txn_get_def live_map_def staged_abs_def)
qed

lemma txn_run_inv:
  assumes "crc32c_crate E" and "txn_run E t0 ops t" and "txn_inv E db m [] t0"
  shows "txn_inv E db m ops t"
  using assms(2,3)
proof (induction rule: txn_run.induct)
  case (put t ops t1 key val t2)
  then have "txn_ok E t1" by (simp add: txn_inv_def)
  from txn_put_result [OF assms(1) this put.hyps(2)] put show ?case by (auto intro: txn_inv_staged)
next
  case (put_failed t ops t1 key val e t2)
  then have "txn_ok E t1" by (simp add: txn_inv_def)
  from txn_put_result [OF assms(1) this put_failed.hyps(2)] put_failed show ?case by auto
next
  case (deleted t ops t1 key t2)
  then have "txn_ok E t1" by (simp add: txn_inv_def)
  from txn_delete_result [OF this deleted.hyps(2)] deleted show ?case by (auto intro: txn_inv_staged)
next
  case (delete_failed t ops t1 key e t2)
  then have "txn_ok E t1" by (simp add: txn_inv_def)
  from txn_delete_result [OF this delete_failed.hyps(2)] delete_failed show ?case by auto
next
  case (filled t ops t1 writer n bs anon sealed key t2)
  then have "txn_ok E t1" by (simp add: txn_inv_def)
  from put_reserved_result [OF assms(1) this filled.hyps(2,3)] filled show ?case by (auto intro: txn_inv_staged)
next
  case (fill_failed t ops t1 anon sealed key n writer e t2)
  then show ?case using put_reserved_failed by blast
next
  case (got t ops t1 key r t2)
  then have inv: "txn_inv E db m ops t1" by simp
  then have "txn_ok E t1" "db_on_file E (txn_db t1) m" by (simp_all add: txn_inv_def)
  from txn_get_result [OF this(1) db_on_file_reads [OF this(2)], of key] got.hyps(2) this(2) inv show ?case
    using reverified_trans by (auto simp: txn_inv_def txn_ok_def)
qed

lemma begin_write_inv:
  assumes "db_on_file E db m" and "begin_write db = Inr t"
  shows "txn_inv E db m [] t" and "txn_db t = db"
proof -
  have t: "t = write_transaction_new db"
    using assms(2) by (cases "ensure_writable db") (auto simp: begin_write_def Let_def split: if_splits)
  then show "txn_db t = db" by (simp add: write_transaction_new_def)
  have "staged_abs [] = Map.empty" by (simp add: staged_abs_def fun_eq_iff)
  with assms(1) reverified_refl [of db] show "txn_inv E db m [] t"
    by (simp add: t txn_inv_def txn_ok_def write_transaction_new_def batch_keys_ok_def checksums_ok_def)
qed

subsection \<open>Properties of transactions\<close>

lemma txn_commit_outcome:
  assumes "crc32c_crate E" and inv: "txn_inv E db m ops t" and "max_database_bytes (db_options db) < 2 ^ 63" and "txn_commit E t = (r, db')"
  shows "(r = Inr () \<longrightarrow> db_on_file E db' (apply_ops m ops))
    \<and> (\<forall>e. r = Inl e \<longrightarrow> (\<exists>err. e = Err err) \<and> db_reads E db' m
        \<and> (holds E (storage_image (db_storage db')) m \<or> holds E (storage_image (db_storage db')) (apply_ops m ops)))"
proof -
  from inv have "db_on_file E (txn_db t) m" "max_database_bytes (db_options (txn_db t)) < 2 ^ 63"
    using assms(3) reverified_fields by (auto simp: txn_inv_def)
  note outcome = commit_outcome [OF assms(1) this, of "txn_staged t" "txn_checksums t"]
  from inv have "staged_ok (txn_staged t)" "batch_keys_ok (txn_staged t)"
    "checksums_ok E (txn_staged t) (if txn_checksums t \<noteq> [] then Some (txn_checksums t) else None)"
    and map: "live_map m (staged_abs (txn_staged t)) = apply_ops m ops"
    using checksums_ok_cached by (simp_all add: txn_inv_def txn_ok_def)
  from outcome [OF this(1-3)] assms(4) show ?thesis
    unfolding txn_commit_def map using db_on_file_reads db_on_file_holds by (fastforce simp: txn_commit_def)
qed

text \<open>
  C9. A transaction refines a map. Take a healthy handle on a file that stands for the map \<open>m\<close>, and a write
  transaction that has run any sequence of puts, deletes, reserved puts and reads, some of them refused. Its
  reads return \<open>m\<close> with the accepted operations applied in order. Aborting gives a handle that stands for
  \<open>m\<close>. A commit that succeeds gives a handle that stands for \<open>m\<close> with exactly these operations applied; one
  that fails leaves a handle that reads \<open>m\<close> and a file that holds \<open>m\<close> or \<open>m\<close> with all of them.
\<close>

theorem transaction_refines:
  assumes "crc32c_crate E" and "db_on_file E db m" and "max_database_bytes (db_options db) < 2 ^ 63"
    and "begin_write db = Inr t0" and "txn_run E t0 ops t" and "txn_commit E t = (r, db')"
  shows "(\<forall>key. fst (txn_get E key t) = Inr (apply_ops m ops key)) \<and> db_on_file E (txn_abort t) m
    \<and> (r = Inr () \<longrightarrow> db_on_file E db' (apply_ops m ops))
    \<and> (\<forall>e. r = Inl e \<longrightarrow> (\<exists>err. e = Err err) \<and> db_reads E db' m
        \<and> (holds E (storage_image (db_storage db')) m \<or> holds E (storage_image (db_storage db')) (apply_ops m ops)))"
proof -
  have inv: "txn_inv E db m ops t" by (rule txn_run_inv [OF assms(1,5) begin_write_inv(1) [OF assms(2,4)]])
  then have "fst (txn_get E key t) = Inr (apply_ops m ops key)" for key
    using txn_get_result [of E t m key] db_on_file_reads by (fastforce simp: txn_inv_def)
  moreover have "db_on_file E (txn_abort t) m" using inv by (simp add: txn_inv_def txn_abort_def)
  ultimately show ?thesis using txn_commit_outcome [OF assms(1) inv assms(3,6)] by blast
qed

text \<open>A run on the empty file that puts a key twice and deletes another.\<close>

lemma sample_transaction:
  obtains db t0 t where "fst (open_with_options reference_externs default_options (Inr (empty_file reference_externs)) None) = Inr db"
    and "db_on_file reference_externs db Map.empty" and "max_database_bytes (db_options db) < 2 ^ 63" and "begin_write db = Inr t0"
    and "txn_run reference_externs t0 [([1], Some [2]), ([1], Some [3]), ([4], None)] t"
proof -
  let ?E = reference_externs
  obtain db where db: "fst (open_with_options ?E default_options (Inr (empty_file ?E)) None) = Inr db" "db_on_file ?E db Map.empty"
    "db_options db = default_options" "length (storage_image (db_storage db)) \<le> 8244" using empty_file_opened [OF reference_reserve] by metis
  have charge: "overlay_charge (db_overlay db) \<le> 8244"
    using db(2,4) image_facts(5) by (fastforce simp: db_on_file_def file_db_def opened_def overlay_ready_def)
  let ?t0 = "write_transaction_new db"
  have begun: "begin_write db = Inr ?t0"
    using db(2,3) charge by (simp add: begin_write_def ensure_writable_def db_on_file_def default_options_def)
  have put: "txn_put ?E [x] [y] t = (Inr (), stage [x] (Owned [y]) None t)" for x y t
    by (simp add: txn_put_def check_lengths_def check_single_put_size_def checked_add_def usize_limit_def MAPPED_VALUE_THRESHOLD_def)
  define t1 where "t1 = stage [1] (Owned [2]) None ?t0"
  define t2 where "t2 = stage [1] (Owned [3]) None t1"
  define t3 where "t3 = snd (txn_delete [4] t2)"
  have "txn_run ?E ?t0 ([] @ [([1], Some [2])]) t1" by (rule txn_run.put [OF txn_run.begun]) (simp add: put t1_def)
  then have "txn_run ?E ?t0 (([] @ [([1], Some [2])]) @ [([1], Some [3])]) t2" by (rule txn_run.put) (simp add: put t2_def)
  then have "txn_run ?E ?t0 ((([] @ [([1], Some [2])]) @ [([1], Some [3])]) @ [([4], None)]) t3"
    by (rule txn_run.deleted) (simp add: t3_def txn_delete_def check_lengths_def)
  with db begun show thesis by (intro that) (simp_all add: default_options_def)
qed

theorem transaction_refines_witness:
  "\<exists>db t0 t r db'. fst (open_with_options reference_externs default_options (Inr (empty_file reference_externs)) None) = Inr db
    \<and> begin_write db = Inr t0 \<and> txn_run reference_externs t0 [([1], Some [2]), ([1], Some [3]), ([4], None)] t
    \<and> txn_commit reference_externs t = (r, db') \<and> fst (txn_get reference_externs [1] t) = Inr (Some [3])
    \<and> db_on_file reference_externs (txn_abort t) Map.empty"
proof -
  let ?E = reference_externs
  obtain db t0 t where db: "fst (open_with_options ?E default_options (Inr (empty_file ?E)) None) = Inr db"
    "db_on_file ?E db Map.empty" "max_database_bytes (db_options db) < 2 ^ 63" "begin_write db = Inr t0"
    "txn_run ?E t0 [([1], Some [2]), ([1], Some [3]), ([4], None)] t" by (rule sample_transaction)
  obtain r db' where run: "txn_commit ?E t = (r, db')" by fastforce
  from transaction_refines [OF reference.crc32c_crate_axioms db(2-5) run] db run
  have "\<forall>key. fst (txn_get ?E key t) = Inr (apply_ops Map.empty [([1], Some [2]), ([1], Some [3]), ([4], None)] key)"
    "db_on_file ?E (txn_abort t) Map.empty" by blast+
  then have "fst (txn_get ?E [1] t) = Inr (Some [3])" by (simp add: apply_ops_def)
  with db run \<open>db_on_file ?E (txn_abort t) Map.empty\<close> show ?thesis by blast
qed

subsection \<open>The staged batch\<close>







subsection \<open>Iteration\<close>

lemma card_dom_live: "distinct (map fst live) \<Longrightarrow> map_of live = m \<Longrightarrow> card (dom m) = length live"
  using distinct_card [of "map fst live"] by (auto simp: dom_map_of_conv_image_fst)

lemma db_len_reads:
  assumes "db_reads E db m"
  shows "db_len E db = (Inr (card (dom m)), db)"
proof -
  from assms obtain sb items batches where db: "db_state db \<noteq> Unavailable" "image_map items batches = m"
    and opened: "opened E sb items batches (db_base db, db_overlay db)" by (auto simp: db_reads_def)
  let ?v = "active_verifier (db_base db)"
  obtain st live where st: "raw_entries_new (db_read_view db) ?v (active_len (db_base db)) = Inr st"
    "iterating (db_read_view db) ?v st live" "distinct (map fst live)" "map_of live = m"
    "overlay_ok E (log_bytes E batches) (view_overlay (db_read_view db))"
    by (rule raw_entries_new_iterating [OF opened, of "verification (db_options db)", folded db_read_view_def, unfolded db(2)])
  obtain st' where "raw_collect E (db_read_view db) ?v st = Inr (live, st')" "raw_pending_error st' = None"
    using raw_collect_iterating [OF st(2,5)] by blast
  with st(1) db(1) card_dom_live [OF st(3,4)] show ?thesis
    by (simp add: db_len_def guarded_def ensure_available_def raw_len_def iter_raw_def take_error_def)
qed

text \<open>
  C15. Iterating over a handle visits the map. There is a list of pairs with distinct keys that is the map the
  handle reads, such that every loop over the iterator of the handle runs exactly over this list, in every
  verification mode and for every body of the loop, also one that stops early; and the length of the handle is
  the number of keys.
\<close>

theorem iteration_correct:
  assumes "db_reads E db m"
  shows "\<exists>it live. db_iter db = (Inr it, db) \<and> distinct (map fst live) \<and> map_of live = m
    \<and> (\<forall>body acc. fst (entries_try_fold E body acc it (active_verifier (db_base db))) = fold_res (\<lambda>p acc. body acc p) live (acc :: 'a))
    \<and> db_len E db = (Inr (card (dom m)), db) \<and> db_is_empty E db = (Inr (m = Map.empty), db)"
proof -
  from assms obtain sb items batches where db: "db_state db \<noteq> Unavailable" "image_map items batches = m"
    and opened: "opened E sb items batches (db_base db, db_overlay db)" by (auto simp: db_reads_def)
  obtain it live where it: "entries_new (db_read_view db) (active_verifier (db_base db)) (active_len (db_base db)) = Inr it"
    "distinct (map fst live)" "map_of live = m"
    and walk: "\<And>f acc :: 'a. \<exists>v'. entries_try_fold E f acc it (active_verifier (db_base db)) = (fold_res (\<lambda>p acc. f acc p) live acc, v')
      \<and> opened E sb items batches ((db_base db)\<lparr>active_verifier := v'\<rparr>, db_overlay db)"
    using entries_new_opened [OF opened, of "verification (db_options db)", folded db_read_view_def, unfolded db(2)] by metis
  have "fst (entries_try_fold E f acc it (active_verifier (db_base db))) = fold_res (\<lambda>p acc. f acc p) live (acc :: 'a)" for f acc
    using walk [of f acc] by auto
  moreover have "finite (dom m)" using it(3) finite_dom_map_of by blast
  ultimately show ?thesis
    using it db(1) db_len_reads [OF assms]
    by (intro exI [of _ it] exI [of _ live]) (auto simp: db_iter_def db_is_empty_def guarded_def ensure_available_def io_then_def)
qed

lemma map_of_single: "distinct (map fst live) \<Longrightarrow> map_of live = [k \<mapsto> x] \<Longrightarrow> live = [(k, x)]"
proof -
  assume "distinct (map fst live)" and m: "map_of live = [k \<mapsto> x]"
  from card_dom_live [OF this] obtain p where "live = [p]" by (cases live) auto
  with m show ?thesis by (cases p) (auto split: if_splits dest: fun_cong [of _ _ k])
qed

text \<open>A handle with one pair.\<close>

lemma sample_handle:
  obtains db db' where "fst (open_with_options reference_externs default_options (Inr (empty_file reference_externs)) None) = Inr db"
    and "commit_staged reference_externs sample_batch [] db = (Inr (), db')"
    and "db_on_file reference_externs db' [[1] \<mapsto> [2, 3]]" and "max_database_bytes (db_options db') < 2 ^ 63"
proof -
  let ?E = reference_externs
  obtain db db' where db: "fst (open_with_options ?E default_options (Inr (empty_file ?E)) None) = Inr db"
    "db_on_file ?E db Map.empty" "max_database_bytes (db_options db) < 2 ^ 63" "commit_staged ?E sample_batch [] db = (Inr (), db')"
    by (rule sample_commit)
  have sums: "checksums_ok ?E sample_batch (if [] \<noteq> ([] :: u32 keymap) then Some [] else None)" by (simp add: sample_batch_facts)
  have "db_on_file ?E db' [[1] \<mapsto> [2, 3]] \<and> db_options db' = db_options db"
    using commit_outcome [OF reference.crc32c_crate_axioms db(2,3) sample_batch_facts(1,2) sums db(4)] by (auto simp: sample_batch_map)
  with db that [of db db'] show thesis by simp
qed

theorem iteration_correct_witness:
  "\<exists>db db' it. fst (open_with_options reference_externs default_options (Inr (empty_file reference_externs)) None) = Inr db
    \<and> commit_staged reference_externs sample_batch [] db = (Inr (), db') \<and> db_iter db' = (Inr it, db')
    \<and> fst (entries_try_fold reference_externs (\<lambda>acc p. Inr (acc @ [p])) [] it (active_verifier (db_base db'))) = Inr [([1], [2, 3])]
    \<and> db_len reference_externs db' = (Inr 1, db')"
proof -
  let ?E = reference_externs
  obtain db db' where db: "fst (open_with_options ?E default_options (Inr (empty_file ?E)) None) = Inr db"
    "commit_staged ?E sample_batch [] db = (Inr (), db')" "db_on_file ?E db' [[1] \<mapsto> [2, 3]]" by (rule sample_handle)
  from iteration_correct [OF db_on_file_reads [OF db(3)]] obtain it live where it: "db_iter db' = (Inr it, db')"
    "distinct (map fst live)" "map_of live = [[1] \<mapsto> [2, 3]]" "db_len ?E db' = (Inr 1, db')"
    "fst (entries_try_fold ?E (\<lambda>acc p. Inr (acc @ [p])) [] it (active_verifier (db_base db'))) =
      fold_res (\<lambda>p acc. Inr (acc @ [p])) live []"
    by (elim exE conjE) (drule spec [of _ "\<lambda>acc p. Inr (acc @ [p])"], drule spec [of _ "[]"], auto)
  moreover have "live = [([1], [2, 3])]" by (rule map_of_single [OF it(2,3)])
  ultimately show ?thesis using db(1,2) by (auto simp: fold_res_collect)
qed

subsection \<open>Snapshots\<close>

text \<open>\<open>snap_reads\<close>: the parts a snapshot shares stand for the map \<open>m\<close>.\<close>

definition snap_reads :: "externs \<Rightarrow> snapshot \<Rightarrow> (bytes \<rightharpoonup> bytes) \<Rightarrow> bool" where
  "snap_reads E snap m \<longleftrightarrow> (\<exists>sb items batches base overlay. opened E sb items batches (base, overlay) \<and> image_map items batches = m
     \<and> snap_base snap = active_mapping base \<and> snap_verifier snap = active_verifier base \<and> snap_overlay_index snap = overlay_index overlay
     \<and> snap_base_offset snap = active_offset base \<and> snap_base_slots snap = active_slots base \<and> snap_base_len snap = active_len base)"

lemma snap_reads_opened:
  assumes "snap_reads E snap m"
  obtains sb items batches base overlay where "opened E sb items batches (base, overlay)" and "image_map items batches = m"
    and "snap_read_view snap = base_read_view base overlay (snap_verification snap)" and "snap_verifier snap = active_verifier base"
    and "snap_base_len snap = active_len base"
    and "\<And>v. opened E sb items batches (base\<lparr>active_verifier := v\<rparr>, overlay) \<Longrightarrow> snap_reads E (snap\<lparr>snap_verifier := v\<rparr>) m"
proof -
  from assms obtain sb items batches base overlay where o: "opened E sb items batches (base, overlay)" "image_map items batches = m"
    "snap_base snap = active_mapping base" "snap_verifier snap = active_verifier base" "snap_overlay_index snap = overlay_index overlay"
    "snap_base_offset snap = active_offset base" "snap_base_slots snap = active_slots base" "snap_base_len snap = active_len base"
    by (auto simp: snap_reads_def)
  have "snap_reads E (snap\<lparr>snap_verifier := v\<rparr>) m" if "opened E sb items batches (base\<lparr>active_verifier := v\<rparr>, overlay)" for v
    unfolding snap_reads_def using that o
    by (intro exI [of _ sb] exI [of _ items] exI [of _ batches] exI [of _ "base\<lparr>active_verifier := v\<rparr>"] exI [of _ overlay]) simp
  with o show thesis by (intro that) (simp_all add: snap_read_view_def base_read_view_def)
qed

lemma db_snapshot_reads:
  assumes "db_reads E db m" and "db_snapshot db = (Inr snap, db1)"
  shows "snap_reads E snap m \<and> db1 = db\<lparr>db_snapshots := Suc (db_snapshots db)\<rparr>"
  using assms by (fastforce simp: db_reads_def db_snapshot_def guarded_def ensure_available_def snap_reads_def)

lemma snap_get_reads:
  assumes "snap_reads E snap m"
  shows "\<exists>snap'. snap_get E key snap = (Inr (m key), snap') \<and> snap_reads E snap' m"
proof (rule snap_reads_opened [OF assms])
  fix sb items batches base overlay
  assume o: "opened E sb items batches (base, overlay)" "image_map items batches = m"
    "snap_read_view snap = base_read_view base overlay (snap_verification snap)" "snap_verifier snap = active_verifier base"
    and kept: "\<And>v. opened E sb items batches (base\<lparr>active_verifier := v\<rparr>, overlay) \<Longrightarrow> snap_reads E (snap\<lparr>snap_verifier := v\<rparr>) m"
  from view_get_opened [OF o(1), of "snap_verification snap" key] o kept show ?thesis
    by (auto simp: snap_get_def on_snap_verifier_def)
qed

lemma snap_len_reads:
  assumes "snap_reads E snap m" and "card (dom m) < usize_limit"
  shows "\<exists>snap'. snap_len E snap = (Inr (card (dom m)), snap') \<and> snap_reads E snap' m"
proof (rule snap_reads_opened [OF assms(1)])
  fix sb items batches base overlay
  assume o: "opened E sb items batches (base, overlay)" "image_map items batches = m"
    "snap_read_view snap = base_read_view base overlay (snap_verification snap)" "snap_verifier snap = active_verifier base"
    "snap_base_len snap = active_len base"
    and kept: "\<And>v. opened E sb items batches (base\<lparr>active_verifier := v\<rparr>, overlay) \<Longrightarrow> snap_reads E (snap\<lparr>snap_verifier := v\<rparr>) m"
  let ?count = "\<lambda>len p. ok_or (Err (other ''snapshot entry count overflow'')) (checked_add len 1)"
  obtain it live where it: "entries_new (snap_read_view snap) (snap_verifier snap) (snap_base_len snap) = Inr it"
    "distinct (map fst live)" "map_of live = m"
    and walk: "\<And>f acc :: nat. \<exists>v'. entries_try_fold E f acc it (snap_verifier snap) = (fold_res (\<lambda>p acc. f acc p) live acc, v')
      \<and> opened E sb items batches (base\<lparr>active_verifier := v'\<rparr>, overlay)"
    using entries_new_opened [OF o(1), of "snap_verification snap", folded o(3-5), unfolded o(2)] by metis
  have "fold_res (\<lambda>p len. ?count len p) live 0 = Inr (card (dom m))"
    using fold_res_count [of 0 live] assms(2) by (simp add: card_dom_live [OF it(2,3)])
  with walk [of ?count 0] it(1) kept show ?thesis
    by (auto simp: snap_len_def snap_iter_def entries_count_def on_snap_verifier_def)
qed

end
