(* ===== verification/Lkv_Maintenance_Correct.thy ===== *)
theory Lkv_Maintenance_Correct
  imports Lkv_Maintenance Lkv_Transaction_Correct
begin

section \<open>Correctness of compaction\<close>

text \<open>
  Compaction of a file keeps the map. Whatever call fails on the way, the file holds the map: before the
  staging superblock is published the marker behind the log hides what is written there, after it the
  staging base lies beyond everything that is overwritten, and the marker behind the final base hides the
  staging base until the file is cut.
\<close>

subsection \<open>What compaction reads\<close>

lemma measure_records_inv:
  "measure_records items observed acc = Inr (n, size') \<Longrightarrow> n = observed + length items \<and> size' = acc + length (base_records items)
    \<and> (items \<noteq> [] \<longrightarrow> n < usize_limit \<and> size' < usize_limit)"
proof (induction items arbitrary: observed acc)
  case (Cons item items)
  obtain key val where item: "item = (key, val)" by fastforce
  from Cons.prems have step: "Suc observed < usize_limit" "acc + 8 + length key + length val < usize_limit"
    "measure_records items (Suc observed) (acc + 8 + length key + length val) = Inr (n, size')"
    by (auto simp: item checked_add_def result_simps split: if_splits)
  from Cons.IH [OF step(3)] step(1,2) show ?case by (cases "items = []") (simp_all add: item length_entry_bytes)
qed simp

lemma measure_base_iter_inv:
  assumes "measure_base_iter items = Inr (n, size')"
  obtains slots where "n = length items" and "base_slot_count (length items) = Inr slots" and "size' = segment_length slots items"
proof -
  from assms obtain rs slots where m: "measure_records items 0 24 = Inr (n, rs)" and slots: "base_slot_count n = Inr slots"
    and size: "size' = (rs + 12 * slots) + (4 * div_ceil (rs + 12 * slots) 65536 + 24)"
    by (auto simp: measure_base_iter_def result_simps checked_add_def checked_mul_def mult.commute split: if_splits prod.splits)
  from measure_records_inv [OF m] slots size show thesis
    by (intro that [of slots]) (simp_all add: segment_length_def data_length_def add.assoc add.commute add.left_commute)
qed

lemma replay_entry_ok:
  assumes "\<forall>staged \<in> set batches. batch_ok staged" and "replay Map.empty batches key = Some (Some val)"
  shows "length key \<le> MAX_KEY_SIZE \<and> length val \<le> MAX_VALUE_SIZE"
  using assms
proof (induction batches rule: rev_induct)
  case (snoc staged batches)
  show ?case
  proof (cases "staged_abs staged key")
    case None
    with snoc show ?thesis by (simp add: map_add_def)
  next
    case (Some r)
    with snoc.prems(2) have "r = Some val" by (simp add: map_add_def)
    with Some obtain entry where e: "keymap_get staged key = Some entry" "entry_value entry = Some val" by (auto simp: staged_abs_def)
    then have "(key, entry) \<in> set staged" by (auto simp: keymap_get_def dest: map_of_SomeD)
    then have "length (batch_operation_bytes (key, entry)) \<le> length (concat (map batch_operation_bytes staged))"
      by (induction staged) auto
    moreover have "batch_ok staged" using snoc.prems(1) by simp
    ultimately show ?thesis using \<open>(key, entry) \<in> set staged\<close> e(2)
      by (cases entry) (auto simp: batch_ok_def batch_keys_ok_def batch_fits_def batch_payload_def length_batch_operation_bytes)
  qed
qed simp

lemma live_entries_opened:
  assumes opened: "opened E sb items batches (db_base db, db_overlay db)" and ok: "\<forall>staged \<in> set batches. batch_ok staged"
  obtains live where "live_entries E db = Inr live" and "distinct (map fst live)" and "map_of live = image_map items batches"
    and "entries_ok live"
proof -
  let ?v = "active_verifier (db_base db)"
  obtain st live where st: "raw_entries_new (db_read_view db) ?v (active_len (db_base db)) = Inr st"
    "iterating (db_read_view db) ?v st live" "distinct (map fst live)" "map_of live = image_map items batches"
    "overlay_ok E (log_bytes E batches) (view_overlay (db_read_view db))" "entries_ok items"
    "set live \<subseteq> set items \<union> {(key, val) | key val. replay Map.empty batches key = Some (Some val)}"
    by (rule raw_entries_new_iterating [OF opened, of "verification (db_options db)", folded db_read_view_def])
  obtain st' where "raw_collect E (db_read_view db) ?v st = Inr (live, st')"
    using raw_collect_iterating [OF st(2,5)] by blast
  with st(1) have "live_entries E db = Inr live" by (simp add: live_entries_def iter_raw_def)
  moreover have "entries_ok live" using st(6,7) replay_entry_ok [OF ok] by (fastforce simp: entries_ok_def)
  ultimately show thesis using st(3,4) that by blast
qed

lemma marked_reading [simp]:
  "reading E x d (mark_semantically_verified v) = reading E x d v" "all_match E x (mark_semantically_verified v) = all_match E x v"
proof -
  have "unset_blocks (mark_semantically_verified v) = unset_blocks v" "block_count (mark_semantically_verified v) = block_count v"
    "block_bit (mark_semantically_verified v) = block_bit v" "block_matches E x (mark_semantically_verified v) = block_matches E x v"
    by (auto simp: mark_semantically_verified_def unset_blocks_def block_bit_def block_matches_def block_count_def fun_eq_iff)
  moreover have "data_size (mark_semantically_verified v) = data_size v" "verified (mark_semantically_verified v) = verified v"
    "remaining (mark_semantically_verified v) = remaining v" "fully_verified (mark_semantically_verified v) = fully_verified v"
    by (simp_all add: mark_semantically_verified_def)
  ultimately show "reading E x d (mark_semantically_verified v) = reading E x d v" "all_match E x (mark_semantically_verified v) = all_match E x v"
    by (simp_all add: reading_def all_match_def verifier_ok_def verifier_sound_def blocks_agree_def)
qed

lemma db_verify_opened:
  assumes "opened E sb items batches (db_base db, db_overlay db)" and "db_state db \<noteq> Unavailable"
  shows "\<exists>db'. db_verify E db = (Inr (), db') \<and> reverified db db' \<and> opened E sb items batches (db_base db', db_overlay db')"
proof -
  let ?base = "db_base db"
  let ?v = "active_verifier ?base" and ?x = "deref (active_mapping ?base)" and ?d = "base_data E (active_offset ?base) (active_slots ?base) items"
  from assms(1) have ready: "base_ready E ?base sb items" by (simp add: opened_def)
  then have base: "base_fits E (active_offset ?base) (active_slots ?base) items" "distinct (map fst items)"
    "?x = segment_bytes E (active_offset ?base) (active_slots ?base) items" "active_len ?base = length items"
    "active_checksum ?base = crc32c E (segment_metadata E ?d)" "reading E ?x ?d ?v" "all_match E ?x ?v"
    by (auto simp: base_ready_def Let_def)
  note lt = base_fits_limits(1) [OF base(1)]
  have layout: "segment_layout_of E ?x = Inr \<lparr>layout_data = ?d, layout_checksums = segment_table E ?d\<rparr>"
    and checksum: "segment_metadata_checksum E ?x = Inr (active_checksum ?base)"
    using segment_layout_of_written [OF lt] segment_metadata_checksum_written [OF lt] base(3,5) by (simp_all add: segment_bytes_def)
  from check_if_result [OF base(6), of True 0 "length ?d"] base(7) obtain v' where
    v': "verify_range E ?x 0 (length ?d) ?v = (Inr (), v')" "reading E ?x ?d v'" "same_segment ?v v'"
    by (auto simp: check_if_def)
  let ?v2 = "if semantically_verified v' then v' else mark_semantically_verified v'"
  have "db_verify E db = (Inr (), db\<lparr>db_base := ?base\<lparr>active_verifier := ?v2\<rparr>\<rparr>)"
    using assms(2) layout checksum v'(1) validate_base_written [OF base(1,2)] base(4)
    by (simp add: db_verify_def guarded_def ensure_available_def on_db_base_def active_verify_def)
  moreover have "base_ready E (?base\<lparr>active_verifier := v'\<rparr>) sb items" by (rule base_ready_verifier [OF ready v'(2,3)])
  then have "base_ready E (?base\<lparr>active_verifier := ?v2\<rparr>) sb items"
    unfolding base_ready_def Let_def by (elim conjE) simp
  ultimately show ?thesis using assms(1) by (auto simp: reverified_def opened_def)
qed

subsection \<open>The buffer of a base\<close>

definition buffer_image :: "offset_buffer \<Rightarrow> bytes" where
  "buffer_image b = replicate (buf_origin b) 0 @ buf_bytes b"

definition buffer_at :: "offset_buffer \<Rightarrow> nat" where
  "buffer_at b = buf_origin b + buf_position b"

lemma range_of_padded: "n \<le> a \<Longrightarrow> range_of a b (replicate n x @ bs) = range_of (a - n) (b - n) bs"
  by (simp add: range_of_def)

lemma write_at_padded: "write_at (n + p) bs (replicate n 0 @ xs) = replicate n 0 @ write_at p bs xs"
  by (simp add: write_at_def)

text \<open>The buffer is a store from its origin on.\<close>

interpretation buffer: linear_store buffer_ops buffer_image buffer_at "\<lambda>b. buf_origin b = start"
    "\<lambda>b n. start \<le> n \<and> n < usize_limit" "\<lambda>b p n. start \<le> p" start for start
proof unfold_locales
  fix s :: offset_buffer and n :: nat and bs :: bytes
  assume origin: "buf_origin s = start"
  show "\<exists>s'. seek_start buffer_ops n s = (Inr n, s') \<and> buffer_image s' = buffer_image s \<and> buffer_at s' = n
      \<and> buf_origin s' = start \<and> (\<lambda>n. start \<le> n \<and> n < usize_limit) = (\<lambda>n. start \<le> n \<and> n < usize_limit)
      \<and> (\<lambda>p n. start \<le> p) = (\<lambda>p n. start \<le> p)" if "start \<le> n \<and> n < usize_limit"
    using that origin by (auto simp: buffer_ops_def buffer_seek_start_def checked_sub_def absolute_def checked_add_def
        buffer_image_def buffer_at_def Let_def)
  show "\<exists>s'. read_exact buffer_ops n s = (Inr (range_of (buffer_at s) (buffer_at s + n) (buffer_image s)), s')
      \<and> buffer_image s' = buffer_image s \<and> buffer_at s' = buffer_at s + n
      \<and> buf_origin s' = start \<and> (\<lambda>n. start \<le> n \<and> n < usize_limit) = (\<lambda>n. start \<le> n \<and> n < usize_limit)
      \<and> (\<lambda>p n. start \<le> p) = (\<lambda>p n. start \<le> p)" if "buffer_at s + n \<le> length (buffer_image s)"
    using that origin by (auto simp: buffer_ops_def buffer_read_exact_def buffer_image_def buffer_at_def range_of_padded Let_def)
  show "\<exists>e s'. read_exact buffer_ops n s = (Inl e, s') \<and> io_kind e = UnexpectedEof \<and> buffer_image s' = buffer_image s
      \<and> buf_origin s' = start \<and> (\<lambda>n. start \<le> n \<and> n < usize_limit) = (\<lambda>n. start \<le> n \<and> n < usize_limit)
      \<and> (\<lambda>p n. start \<le> p) = (\<lambda>p n. start \<le> p)" if "length (buffer_image s) < buffer_at s + n" "0 < n"
    using that origin by (auto simp: buffer_ops_def buffer_read_exact_def buffer_image_def buffer_at_def Let_def unexpected_eof_def)
  show "\<exists>s'. write_all buffer_ops bs s = (Inr (), s') \<and> buffer_image s' = write_at (buffer_at s) bs (buffer_image s)
      \<and> buffer_at s' = buffer_at s + length bs \<and> buf_origin s' = start" if "bs \<noteq> []"
    using that origin by (auto simp: buffer_ops_def buffer_write_all_def buffer_image_def buffer_at_def write_at_padded)
qed (simp_all add: buffer_ops_def buffer_write_all_def)

lemma build_memory_base_eq:
  assumes fits: "base_fits E start slots items"
  shows "build_memory_base E start n (length items) items = Inr (segment_bytes E start slots items)"
proof -
  let ?b = "\<lparr>buf_origin = start, buf_bytes = [], buf_position = 0\<rparr>"
  from buffer.write_base_image [OF _ _ fits, of ?b start] obtain b' where run:
    "write_base_with_metadata_at E buffer_ops start (length items) items ?b = (Inr \<lparr>written_size = segment_length slots items,
        written_slots = slots, written_len = length items, written_checksum = crc32c E (segment_metadata E (base_data E start slots items))\<rparr>, b')"
    "buffer_image b' = write_at start (segment_bytes E start slots items) (buffer_image ?b)" "buf_origin b' = start" by auto
  then have "buf_bytes b' = segment_bytes E start slots items" by (simp add: buffer_image_def write_at_def)
  moreover have "offset_buffer_new E start n = Inr ?b" using fits by (simp add: offset_buffer_new_def base_fits_def)
  ultimately show ?thesis
    using run(1) base_fits_facts(4) [OF fits] by (simp add: build_memory_base_def write_base_at_def)
qed

lemma detached_base_ok:
  assumes reserve: "\<forall>n. try_reserve E n"
  shows "\<exists>base. detached_base E g = Inr base"
proof -
  note fits = base_fits_empty [OF reserve]
  let ?seg = "segment_bytes E 8192 0 []" and ?sum = "crc32c E (segment_metadata E (base_data E 8192 0 []))"
  let ?sb = "superblock_new g 8192 52 0 0 (8192 + 52) ?sum"
  have len: "length ?seg = 52" using base_fits_facts(4) [OF fits] by (simp add: segment_length_empty)
  have checksum: "segment_metadata_checksum E ?seg = Inr ?sum"
    using segment_metadata_checksum_written [OF base_fits_limits(1) [OF fits]] by (simp add: segment_bytes_def)
  have "written_superblock E 8192 0 [] ?sb" by (simp add: written_superblock_def superblock_new_def segment_length_empty unat_of_nat)
  from active_install_written [OF fits this, of "Memory ?seg 0 (length ?seg)"] have "\<exists>base. active_install E (Memory ?seg 0 52) ?sb = Inr base"
    using len by (simp add: range_of_def)
  then show ?thesis using build_memory_base_eq [OF fits, of 52] checksum len
    by (simp add: detached_base_def EMPTY_SEGMENT_SIZE_def range_of_def)
qed

subsection \<open>Images on the way\<close>

lemma drop_base_at:
  assumes "base_at E img sb items" and "drop 8192 img' = drop 8192 img" and "8192 \<le> length img" and "8192 \<le> length img'"
  shows "base_at E img' sb items"
proof (rule base_at_cong [OF assms(1)])
  have len: "length img' = length img" using arg_cong [OF assms(2), of length] assms(3,4) by simp
  have off: "8192 \<le> unat (base_offset sb)" "unat (log_start sb) \<le> length img" using assms(1) by (auto simp: base_at_def)
  have "drop n img' = drop n img" if "8192 \<le> n" for n
    using arg_cong [OF assms(2), of "drop (n - 8192)"] that by simp
  with off(1) show "range_of (unat (base_offset sb)) (unat (log_start sb)) img' = range_of (unat (base_offset sb)) (unat (log_start sb)) img"
    by (simp add: range_of_def drop_take)
  show "unat (log_start sb) \<le> length img'" using off(2) len by simp
qed

text \<open>A base that lies in the file comes into force with the page of its superblock.\<close>

lemma image_publish:
  assumes "published E img' sb" and "base_at E img sb items" and "drop 8192 img' = drop 8192 img" and "8192 \<le> length img"
    and "stops E (drop (unat (log_start sb)) img)" and "length img < 2 ^ 63"
  shows "disk_image E img' sb items [] (drop (unat (log_start sb)) img)"
proof -
  have len: "8192 \<le> length img'" using assms(1) by (simp add: published_def)
  then have "length img' = length img" using arg_cong [OF assms(3), of length] assms(4) by simp
  moreover have "8192 \<le> unat (log_start sb)" using assms(2) by (auto simp: base_at_def)
  then have "drop (unat (log_start sb)) img' = drop (unat (log_start sb)) img"
    using arg_cong [OF assms(3), of "drop (unat (log_start sb) - 8192)"] by simp
  ultimately show ?thesis using assms drop_base_at [OF assms(2,3,4) len] by (simp add: disk_image_def)
qed

text \<open>Writes between the pages and the base in force do not matter.\<close>

lemma image_within:
  assumes disk: "disk_image E img sb items batches rest" and "within a b img img'" and "8192 \<le> a" and "b \<le> unat (base_offset sb)"
  shows "disk_image E img' sb items batches rest"
proof -
  note facts = image_facts [OF disk]
  have len: "length img' = length img" using assms(2,4) facts(3,4) by (auto simp: within_def)
  have take: "take 8192 img' = take 8192 img" using within_take [OF assms(2,3)] facts(2-4) by simp
  have "base_at E img sb items" and log: "drop (unat (log_start sb)) img = log_bytes E batches @ rest"
    using disk by (simp_all add: disk_image_def)
  then have "base_at E img' sb items"
    using within_range_of [OF assms(2) _ facts(4), of "unat (base_offset sb)"] assms(4) facts(4) len
    by (auto intro: base_at_cong [of E img])
  moreover have "range_of (unat (log_start sb)) (length img) img' = range_of (unat (log_start sb)) (length img) img"
    using within_range_of [OF assms(2), of "length img" "unat (log_start sb)"] assms(4) facts(3) by simp
  then have "drop (unat (log_start sb)) img' = log_bytes E batches @ rest" using len log facts(5) by (simp add: range_of_def)
  moreover have "published E img' sb" using disk by (auto simp: disk_image_def intro: published_cong [OF _ take])
  ultimately show ?thesis using disk len by (simp add: disk_image_def)
qed

lemma base_at_written:
  assumes fits: "base_fits E off slots live" and dist: "distinct (map fst live)" and off: "8192 \<le> off"
    and range: "range_of off (off + segment_length slots live) img = segment_bytes E off slots live"
    and len: "off + segment_length slots live \<le> length img"
  shows "base_at E img (superblock_new g off (segment_length slots live) slots (length live) (off + segment_length slots live)
    (crc32c E (segment_metadata E (base_data E off slots live)))) live" (is "base_at E img ?sb live")
proof -
  from fits have lt: "off + segment_length slots live < 2 ^ 64" by (simp add: base_fits_def usize_limit_def)
  have "slots \<le> segment_length slots live" by (simp add: segment_length_def data_length_def)
  moreover have "length live \<le> segment_length slots live"
    using length_entries_le [of live] by (simp add: segment_length_def data_length_def)
  ultimately have "unat (of_nat n :: u64) = n" if "n \<in> {off, segment_length slots live, slots, length live, off + segment_length slots live}" for n
    using that lt by (auto simp: unat_of_nat)
  then have fields: "unat (base_offset ?sb) = off" "unat (base_size ?sb) = segment_length slots live" "unat (base_slots ?sb) = slots"
    "unat (base_len ?sb) = length live" "unat (log_start ?sb) = off + segment_length slots live"
    "base_checksum ?sb = crc32c E (segment_metadata E (base_data E off slots live))"
    by (simp_all add: superblock_new_def del: of_nat_add)
  with assms show ?thesis unfolding base_at_def by (intro exI [of _ slots]) (simp add: written_superblock_def)
qed

subsection \<open>Steps of a handle during compaction\<close>

text \<open>Publishing: the page is written as a whole or up to its checksum, or it is as before.\<close>

definition page_put :: "externs \<Rightarrow> u64 \<Rightarrow> superblock \<Rightarrow> bytes \<Rightarrow> bytes \<Rightarrow> bool" where
  "page_put E g sb img img' \<longleftrightarrow> (\<exists>n \<ge> 72. img' = write_at (page_offset g) (take n (encode_page E sb)) img)"

lemma page_put_facts:
  assumes "page_put E g sb img img'" and "8192 \<le> length img"
  shows "length img' = length img" and "drop 8192 img' = drop 8192 img"
proof -
  from assms(1) obtain n where img': "img' = write_at (page_offset g) (take n (encode_page E sb)) img" by (auto simp: page_put_def)
  have "page_offset g + length (take n (encode_page E sb)) \<le> 8192" using page_offset_cases [of g] by auto
  with img' assms(2) show "length img' = length img" "drop 8192 img' = drop 8192 img" by (auto simp: drop_write_at)
qed

lemma or_poison_step:
  fixes m :: "(storage, failure, 'a) io"
  assumes step: "post m (db_storage db) (\<lambda>r s'. (\<exists>x. r = Inr x \<and> P x s') \<or> (\<exists>e. r = Inl (Err e) \<and> R e s'))"
    and good: "\<And>x s'. P x s' \<Longrightarrow> post (f x) (db\<lparr>db_storage := s'\<rparr>) Q"
    and bad: "\<And>e s'. R e s' \<Longrightarrow> Q (Inl (Err e)) (db\<lparr>db_storage := s', db_state := WritePoisoned\<rparr>)"
  shows "post (io_then (or_poison (on_db_storage m)) f) db Q"
proof (cases "m (db_storage db)")
  case (Pair r s')
  with step good bad show ?thesis
    by (cases r) (auto simp: post_def io_then_def or_poison_def on_db_storage_def)
qed

lemma put_page_step:
  assumes at: "at_file s0 img (db_storage db)" and dev: "device_faults s0" and len: "8192 \<le> length img"
    and good: "\<And>s' img'. at_file s0 img' s' \<Longrightarrow> page_put E g sb img img' \<Longrightarrow> post (f ()) (db\<lparr>db_storage := s'\<rparr>) Q"
    and bad: "\<And>e s' img'. at_file s0 img' s' \<Longrightarrow> img' = img \<or> page_put E g sb img img' \<Longrightarrow> \<not> file_storage_quiet s0
      \<Longrightarrow> Q (Inl (Err e)) (db\<lparr>db_storage := s', db_state := WritePoisoned\<rparr>)"
  shows "post (io_then (or_poison (on_db_storage (io_then (question (seek_start (storage_ops E) (page_offset g)))
    (\<lambda>_. question (write_all (storage_ops E) (encode_page E sb)))))) f) db Q"
proof (rule or_poison_step [where P = "\<lambda>x s'. \<exists>img'. at_file s0 img' s' \<and> page_put E g sb img img'"
    and R = "\<lambda>e s'. (\<exists>img'. at_file s0 img' s' \<and> (img' = img \<or> page_put E g sb img img')) \<and> \<not> file_storage_quiet s0"])
  let ?s = "db_storage db"
  have s: "file_step s0 ?s" "storage_image ?s = img" using at by (simp_all add: at_file_def)
  have "\<not> storage_is_memory ?s" "device_faults ?s" "8192 \<le> length (storage_image ?s)"
    using s len device_faults_step [OF s(1) dev] by simp_all
  from write_page_post [OF this page_offset_cases [of g], of E sb] show "post (io_then (question (seek_start (storage_ops E) (page_offset g)))
    (\<lambda>_. question (write_all (storage_ops E) (encode_page E sb)))) ?s
    (\<lambda>r s'. (\<exists>x. r = Inr x \<and> (\<exists>img'. at_file s0 img' s' \<and> page_put E g sb img img'))
      \<or> (\<exists>e. r = Inl (Err e) \<and> (\<exists>img'. at_file s0 img' s' \<and> (img' = img \<or> page_put E g sb img img')) \<and> \<not> file_storage_quiet s0))"
  proof (rule post_weaken)
    fix r s'
    assume r: "file_step ?s s' \<and> (r = Inr () \<or> faulty ?s r) \<and> (faulty ?s r \<and> storage_image s' = storage_image ?s
         \<or> (\<exists>n\<ge>72. storage_image s' = write_at (page_offset g) (take n (encode_page E sb)) (storage_image ?s)))"
    then have at': "at_file s0 (storage_image s') s'" using s(1) file_step_trans by (auto simp: at_file_def)
    have put: "(faulty ?s r \<and> storage_image s' = img) \<or> page_put E g sb img (storage_image s')" using r s(2) by (auto simp: page_put_def)
    show "(\<exists>x. r = Inr x \<and> (\<exists>img'. at_file s0 img' s' \<and> page_put E g sb img img'))
      \<or> (\<exists>e. r = Inl (Err e) \<and> (\<exists>img'. at_file s0 img' s' \<and> (img' = img \<or> page_put E g sb img img')) \<and> \<not> file_storage_quiet s0)"
    proof (cases r)
      case (Inr x)
      with put at' show ?thesis by auto
    next
      case (Inl e)
      with r have "faulty s0 r" using faulty_step [OF s(1)] by auto
      with put at' Inl show ?thesis by (auto simp: faulty_def)
    qed
  qed
qed (use good bad in auto)

lemma poison_sync_step:
  assumes at: "at_file s0 img (db_storage db)"
    and good: "\<And>s'. at_file s0 img s' \<Longrightarrow> post (f ()) (db\<lparr>db_storage := s'\<rparr>) Q"
    and bad: "\<And>e s'. at_file s0 img s' \<Longrightarrow> \<not> file_storage_quiet s0 \<Longrightarrow> Q (Inl (Err e)) (db\<lparr>db_storage := s', db_state := WritePoisoned\<rparr>)"
  shows "post (io_then (or_poison (on_db_storage sync_all)) f) db Q"
proof (rule or_poison_step [where P = "\<lambda>x s'. at_file s0 img s'" and R = "\<lambda>e s'. at_file s0 img s' \<and> \<not> file_storage_quiet s0"])
  let ?s = "db_storage db"
  have s: "file_step s0 ?s" "storage_image ?s = img" using at by (simp_all add: at_file_def)
  then have "\<not> storage_is_memory ?s" by simp
  from storage_sync_post [OF this] show "post sync_all ?s (\<lambda>r s'. (\<exists>x. r = Inr x \<and> at_file s0 img s')
      \<or> (\<exists>e. r = Inl (Err e) \<and> at_file s0 img s' \<and> \<not> file_storage_quiet s0))"
    unfolding sync_all_eq
    by (rule post_weaken) (use s file_step_trans faulty_step [OF s(1)] in \<open>fastforce simp: at_file_def faulty_def\<close>)
qed (use good bad in auto)

lemma install_superblock_post:
  assumes at: "at_file s0 img (db_storage db)" and disk: "disk_image E img sb items [] rest"
  shows "post (install_superblock E sb) db (\<lambda>r db'. \<exists>s'. at_file s0 img s'
    \<and> (r = Inr () \<and> (\<exists>base. db' = db\<lparr>db_storage := s', db_base := base\<rparr> \<and> base_ready E base sb items)
       \<or> (\<exists>e. r = Inl (Err e)) \<and> \<not> file_storage_quiet s0 \<and> db' = db\<lparr>db_storage := s', db_state := WritePoisoned\<rparr>))"
proof -
  let ?o = "unat (base_offset sb)" and ?n = "unat (base_size sb)" and ?s = "db_storage db"
  have step: "file_step s0 ?s" and image: "storage_image ?s = img" using at by (simp_all add: at_file_def)
  from disk obtain slots where base: "base_fits E ?o slots items" "distinct (map fst items)" "written_superblock E ?o slots items sb"
    "range_of ?o (?o + ?n) img = segment_bytes E ?o slots items" "?o + ?n \<le> unat (log_start sb)" "unat (log_start sb) \<le> length img"
    and lt: "length img < 2 ^ 63" by (auto simp: disk_image_def base_at_def)
  have "length (segment_bytes E ?o slots items) = ?n" using base_fits_facts(4) [OF base(1)] base(3) by (simp add: written_superblock_def)
  moreover have "0 < ?n" using base(3) by (simp add: written_superblock_def segment_length_def)
  ultimately have len: "0 < ?n" "length (deref (Mapped (range_of ?o (?o + ?n) img))) < 2 ^ 63" using base(4-6) lt by simp_all
  obtain new where new: "active_install E (Mapped (range_of ?o (?o + ?n) img)) sb = Inr new" "base_ready E new sb items"
    using base_ready_install [OF base(1-3) _ len(2)] base(4) by auto
  obtain r1 s1 where load: "load_immutable E ?o ?n ?s = (r1, s1)" by fastforce
  from load_immutable_post [of ?s ?n ?o E] step image base(5,6) lt len(1) load have s1: "file_step ?s s1" "storage_image s1 = img"
    "r1 = Inr (Mapped (range_of ?o (?o + ?n) img)) \<or> faulty ?s r1" by (auto simp: post_def usize_limit_def)
  then have at1: "at_file s0 img s1" and file1: "\<not> storage_is_memory s1" using step file_step_trans by (auto simp: at_file_def)
  show ?thesis
  proof (cases r1)
    case (Inl e)
    with s1(3) have "faulty s0 r1" using faulty_step [OF step] by auto
    with Inl load at1 show ?thesis
      by (auto simp: post_def install_superblock_def on_db_storage_def finish_superblock_install_def faulty_def)
  next
    case (Inr mapping)
    obtain r2 s2 where seek: "question (seek_end (storage_ops E)) s1 = (r2, s2)" by fastforce
    from storage_seek_end_post [OF file1, of E] at1 have s2: "at_file s0 img s2" "(\<exists>x. r2 = Inr x) \<or> faulty s0 r2"
      using file_step_trans faulty_step [of s0 s1 r2] by (auto simp: post_def seek at_file_def)
    from Inr s1(3) have "mapping = Mapped (range_of ?o (?o + ?n) img)" by simp
    with Inr load new seek have run: "install_superblock E sb db = (case r2 of
        Inl (Err e) \<Rightarrow> (Inl (Err e), db\<lparr>db_storage := s2, db_state := WritePoisoned\<rparr>) | Inl e \<Rightarrow> (Inl e, db\<lparr>db_storage := s2\<rparr>)
      | Inr _ \<Rightarrow> (Inr (), db\<lparr>db_storage := s2, db_base := new\<rparr>))"
      by (auto simp: install_superblock_def on_db_storage_def finish_superblock_install_def split: sum.split failure.split)
    from s2 new(2) show ?thesis unfolding post_def run by (intro exI [of _ s2]) (auto simp: faulty_def)
  qed
qed

subsection \<open>What compaction leaves\<close>

definition is_compact :: "database \<Rightarrow> bool" where
  "is_compact db \<longleftrightarrow> active_offset (db_base db) = DATA_START \<and> overlay_is_empty (overlay_index (db_overlay db))
     \<and> length (storage_image (db_storage db)) = active_log_start (db_base db)"

text \<open>\<open>handle_at\<close>: the handle reads the map \<open>m\<close>, and its file has the image \<open>img\<close> and keeps the limit.\<close>

definition handle_at :: "externs \<Rightarrow> database \<Rightarrow> (bytes \<rightharpoonup> bytes) \<Rightarrow> bytes \<Rightarrow> database \<Rightarrow> bool" where
  "handle_at E db0 m img db \<longleftrightarrow> db_options db = db_options db0 \<and> at_file (db_storage db0) img (db_storage db)
     \<and> length img \<le> max (length (storage_image (db_storage db0))) (max_database_bytes (db_options db0))
     \<and> (\<exists>sb items batches. opened E sb items batches (db_base db, db_overlay db) \<and> image_map items batches = m)"

definition compacting :: "externs \<Rightarrow> database \<Rightarrow> (bytes \<rightharpoonup> bytes) \<Rightarrow> unit result \<Rightarrow> database \<Rightarrow> bool" where
  "compacting E db0 m r db \<longleftrightarrow> file_step (db_storage db0) (db_storage db) \<and> holds E (storage_image (db_storage db)) m
     \<and> db_options db = db_options db0
     \<and> length (storage_image (db_storage db)) \<le> max (length (storage_image (db_storage db0))) (max_database_bytes (db_options db0))
     \<and> (r = Inr () \<and> db_on_file E db m \<and> is_compact db
        \<or> (\<exists>e. r = Inl (Err e)) \<and> \<not> file_storage_quiet (db_storage db0)
          \<and> (db_on_file E db m \<or> db_state db = WritePoisoned \<and> db_reads E db m \<or> db_state db = Unavailable))"

lemma compacting_poisoned:
  assumes "handle_at E db0 m img (db\<lparr>db_storage := s'\<rparr>)" and "holds E img m" and "\<not> file_storage_quiet (db_storage db0)"
  shows "compacting E db0 m (Inl (Err e)) (db\<lparr>db_storage := s', db_state := WritePoisoned\<rparr>)"
  using assms by (auto simp: compacting_def handle_at_def at_file_def db_reads_def)

lemma compacting_failed:
  assumes "handle_at E db0 m img db" and "db_on_file E db m" and "\<not> file_storage_quiet (db_storage db0)"
  shows "compacting E db0 m (Inl (Err e)) db"
  using assms db_on_file_holds [OF assms(2)] by (auto simp: compacting_def handle_at_def at_file_def)

lemma handle_at_moved:
  assumes "handle_at E db0 m img db" and "at_file (db_storage db0) img' s'"
    and "length img' \<le> max (length img) (max_database_bytes (db_options db0))"
  shows "handle_at E db0 m img' (db\<lparr>db_storage := s'\<rparr>)"
  using assms by (auto simp: handle_at_def)

lemma overlay_ready_clear: "overlay_ready E L overlay batches \<Longrightarrow> overlay_ready E [] (overlay_clear overlay) []"
proof -
  assume "overlay_ready E L overlay batches"
  then obtain bs table tail where "overlay_index overlay = MappedOverlay bs table tail" by (auto simp: overlay_ready_def)
  then show ?thesis using overlay_clear_ok(1) [of E "[]" overlay] by (simp add: overlay_ready_def overlay_clear_def)
qed

lemma overlay_clear_empty: "overlay_is_empty (overlay_index (overlay_clear overlay))"
  by (cases "overlay_index overlay") (simp_all add: overlay_clear_def overlay_is_empty_def)

lemma holdsI: "disk_image E img sb items batches rest \<Longrightarrow> image_map items batches = m \<Longrightarrow> holds E img m"
  unfolding holds_def by blast

subsection \<open>Cutting the file\<close>

lemma db_step:
  fixes m :: "(storage, failure, 'a) io"
  assumes at: "file_step s0 (db_storage db)"
    and step: "\<not> storage_is_memory (db_storage db) \<Longrightarrow> post m (db_storage db) (\<lambda>r s'. file_step (db_storage db) s'
      \<and> ((\<exists>x. r = Inr x \<and> P x s') \<or> faulty (db_storage db) r \<and> R s'))"
    and good: "\<And>x s'. file_step s0 s' \<Longrightarrow> P x s' \<Longrightarrow> post (f x) (db\<lparr>db_storage := s'\<rparr>) Q"
    and bad: "\<And>e s'. file_step s0 s' \<Longrightarrow> R s' \<Longrightarrow> \<not> file_storage_quiet s0 \<Longrightarrow> Q (Inl (Err e)) (db\<lparr>db_storage := s'\<rparr>)"
  shows "post (io_then (on_db_storage m) f) db Q"
proof (rule post_db_then [OF step])
  show "\<not> storage_is_memory (db_storage db)" using at by simp
  fix x s'
  assume "file_step (db_storage db) s' \<and> ((\<exists>y. Inr x = Inr y \<and> P y s') \<or> faulty (db_storage db) (Inr x) \<and> R s')"
  with good [of s' x] at file_step_trans show "post (f x) (db\<lparr>db_storage := s'\<rparr>) Q" by auto
next
  fix e s'
  assume "file_step (db_storage db) s' \<and> ((\<exists>y. (Inl e :: 'a result) = Inr y \<and> P y s') \<or> faulty (db_storage db) (Inl e :: 'a result) \<and> R s')"
  with bad [of s'] faulty_step [OF at, of "Inl e :: 'a result"] file_step_trans [OF at] show "Q (Inl e) (db\<lparr>db_storage := s'\<rparr>)"
    by (auto simp: faulty_def)
qed

lemma db_sync_step:
  assumes at: "at_file s0 img (db_storage db)" and good: "\<And>s'. at_file s0 img s' \<Longrightarrow> post (f ()) (db\<lparr>db_storage := s'\<rparr>) Q"
    and bad: "\<And>e s'. at_file s0 img s' \<Longrightarrow> \<not> file_storage_quiet s0 \<Longrightarrow> Q (Inl (Err e)) (db\<lparr>db_storage := s'\<rparr>)"
  shows "post (io_then (on_db_storage sync_data) f) db Q"
proof (rule db_step [where P = "\<lambda>x s'. storage_image s' = img" and R = "\<lambda>s'. storage_image s' = img"])
  show "file_step s0 (db_storage db)" using at by (simp add: at_file_def)
  assume "\<not> storage_is_memory (db_storage db)"
  from storage_sync_post [OF this] show "post sync_data (db_storage db) (\<lambda>r s'. file_step (db_storage db) s'
      \<and> ((\<exists>x. r = Inr x \<and> storage_image s' = img) \<or> faulty (db_storage db) r \<and> storage_image s' = img))"
    by (rule post_weaken) (use at in \<open>auto simp: at_file_def\<close>)
qed (use good bad in \<open>auto simp: at_file_def\<close>)

lemma shrink_file_post:
  assumes at: "at_file (db_storage db0) img (db_storage db)" and options: "db_options db = db_options db0"
    and len: "length img \<le> max (length (storage_image (db_storage db0))) (max_database_bytes (db_options db0))"
    and disk: "disk_image E img sb live [] rest" and off: "unat (base_offset sb) = DATA_START"
    and overlay: "overlay_ready E [] (db_overlay db) []" "overlay_is_empty (overlay_index (db_overlay db))"
    and n: "n = unat (log_start sb)" and m: "map_of live = m"
  shows "post (shrink_file E n detached sb) db (compacting E db0 m)"
proof -
  let ?s0 = "db_storage db0" and ?db = "db\<lparr>db_state := Unavailable, db_base := detached\<rparr>"
  have map: "image_map live [] = m" using m by (simp add: image_map_def replay_def)
  have disk2: "disk_image E (take n img) sb live [] []" using image_truncate [OF disk] n by simp
  have lost: "compacting E db0 m (Inl (Err e)) db'" if "db_state db' = Unavailable" "db_options db' = db_options db"
      "at_file ?s0 img (db_storage db') \<or> at_file ?s0 (take n img) (db_storage db')" "\<not> file_storage_quiet ?s0" for e db'
    using that options len holdsI [OF disk map] holdsI [OF disk2 map] by (auto simp: compacting_def at_file_def)
  let ?install = "\<lambda>db. case install_superblock E sb db of
       (Inl (Err e), db) \<Rightarrow> (Inl (Err e), db\<lparr>db_state := Unavailable\<rparr>)
     | (Inl e, db) \<Rightarrow> (Inl e, db)
     | (Inr _, db) \<Rightarrow> (Inr (), db\<lparr>db_state := Healthy\<rparr>)"
  have install: "post ?install (?db\<lparr>db_storage := s'\<rparr>) (compacting E db0 m)" if s': "at_file ?s0 (take n img) s'" for s'
  proof -
    obtain r db2 where run: "install_superblock E sb (?db\<lparr>db_storage := s'\<rparr>) = (r, db2)" by fastforce
    have "at_file ?s0 (take n img) (db_storage (?db\<lparr>db_storage := s'\<rparr>))" using s' by simp
    from postD [OF install_superblock_post [OF this disk2] run] obtain s2 where at2: "at_file ?s0 (take n img) s2"
      and r: "r = Inr () \<and> (\<exists>base. db2 = ?db\<lparr>db_storage := s2, db_base := base\<rparr> \<and> base_ready E base sb live)
       \<or> (\<exists>e. r = Inl (Err e)) \<and> \<not> file_storage_quiet ?s0 \<and> db2 = ?db\<lparr>db_storage := s2, db_state := WritePoisoned\<rparr>" by auto
    from r show ?thesis
    proof (elim disjE conjE exE)
      fix base
      assume new: "r = Inr ()" "db2 = ?db\<lparr>db_storage := s2, db_base := base\<rparr>" "base_ready E base sb live"
      let ?new = "db2\<lparr>db_state := Healthy\<rparr>"
      have "opened E sb live [] (base, db_overlay db)" using new(3) overlay(1) by (simp add: opened_def)
      moreover have "active_offset base = 8192" "active_log_start base = n" "n \<le> length img"
        using new(3) off n image_facts(4) [OF disk] by (auto simp: base_ready_def Let_def)
      ultimately have "db_on_file E ?new m \<and> is_compact ?new"
        using at2 disk2 new(2) map overlay(2) by (auto simp: db_on_file_def file_db_def is_compact_def at_file_def)
      with new(1,2) run at2 options len db_on_file_holds [of E ?new m] show ?thesis by (auto simp: post_def compacting_def at_file_def)
    next
      fix e
      assume "r = Inl (Err e)" "\<not> file_storage_quiet ?s0" "db2 = ?db\<lparr>db_storage := s2, db_state := WritePoisoned\<rparr>"
      with run lost [of "db2\<lparr>db_state := Unavailable\<rparr>" e] at2 show ?thesis by (auto simp: post_def)
    qed
  qed
  have n_le: "n \<le> length img" using image_facts(4) [OF disk] n by simp
  have step0: "file_step ?s0 (db_storage ?db)" using at by (simp add: at_file_def)
  have "post (io_then (on_db_storage (storage_set_len E n)) (\<lambda>_. io_then (on_db_storage sync_all) (\<lambda>_. ?install))) ?db (compacting E db0 m)"
  proof (rule db_step [OF step0, where P = "\<lambda>x s'. storage_image s' = take n img" and R = "\<lambda>s'. storage_image s' = img"])
    assume "\<not> storage_is_memory (db_storage ?db)"
    from storage_set_len_post [OF this, of E n] show "post (storage_set_len E n) (db_storage ?db) (\<lambda>r s'. file_step (db_storage ?db) s'
      \<and> ((\<exists>x. r = Inr x \<and> storage_image s' = take n img) \<or> faulty (db_storage ?db) r \<and> storage_image s' = img))"
      by (rule post_weaken) (use at resized_take [OF n_le] in \<open>auto simp: at_file_def\<close>)
  next
    fix x s'
    assume "file_step ?s0 s'" "storage_image s' = take n img"
    then have "at_file ?s0 (take n img) (db_storage (?db\<lparr>db_storage := s'\<rparr>))" by (simp add: at_file_def)
    then show "post (io_then (on_db_storage sync_all) (\<lambda>_. ?install)) (?db\<lparr>db_storage := s'\<rparr>) (compacting E db0 m)"
      unfolding sync_all_eq by (rule db_sync_step) (use install lost in auto)
  qed (use lost in \<open>auto simp: at_file_def\<close>)
  then show ?thesis by (simp add: shrink_file_def post_def)
qed

subsection \<open>Publishing the relocated base\<close>

lemma image_length: "disk_image E img sb items batches rest \<Longrightarrow> 8192 \<le> length img"
  using image_facts [of E img sb items batches rest] by simp

lemma page_put_advance:
  assumes disk: "disk_image E img old items batches rest" and base: "base_at E img sb live"
    and g: "generation sb = generation old + 1" "generation old < generation sb"
    and stop: "stops E (drop (unat (log_start sb)) img)" and put: "page_put E (generation sb) sb img img'"
  shows "disk_image E img' sb live [] (drop (unat (log_start sb)) img)"
proof (rule image_publish [OF _ base _ image_length [OF disk] stop])
  from put obtain n where "72 \<le> n" "img' = write_at (page_offset (generation sb)) (take n (encode_page E sb)) img"
    by (auto simp: page_put_def)
  with published_advance [OF _ g, of E img n] disk show "published E img' sb" by (simp add: disk_image_def)
  show "drop 8192 img' = drop 8192 img" by (rule page_put_facts(2) [OF put image_length [OF disk]])
  show "length img < 2 ^ 63" using disk by (simp add: disk_image_def)
qed

lemma page_put_redundant:
  assumes disk: "disk_image E img sb live [] rest" and put: "page_put E (generation sb + 1) sb img img'"
  shows "disk_image E img' sb live [] rest"
proof -
  have rest: "drop (unat (log_start sb)) img = rest" using disk by (simp add: disk_image_def)
  have "disk_image E img' sb live [] (drop (unat (log_start sb)) img)"
  proof (rule image_publish [OF _ _ _ image_length [OF disk]])
    from put obtain n where "72 \<le> n" "img' = write_at (page_offset (generation sb + 1)) (take n (encode_page E sb)) img"
      by (auto simp: page_put_def)
    with published_redundant [of E img sb n] disk show "published E img' sb" by (simp add: disk_image_def)
    show "drop 8192 img' = drop 8192 img" by (rule page_put_facts(2) [OF put image_length [OF disk]])
  qed (use disk rest in \<open>simp_all add: disk_image_def\<close>)
  then show ?thesis by (simp add: rest)
qed

lemma publish_relocated_post:
  assumes handle: "handle_at E db0 m img db" and dev: "device_faults (db_storage db0)"
    and disk: "disk_image E img old items batches rest" and old_map: "image_map items batches = m" and base: "base_at E img sb live"
    and g: "generation sb = generation old + 1" "generation old < generation sb"
    and stop: "stops E (drop (unat (log_start sb)) img)" and off: "unat (base_offset sb) = DATA_START"
    and overlay: "overlay_ready E [] (db_overlay db) []" "overlay_is_empty (overlay_index (db_overlay db))"
    and n: "n = unat (log_start sb)" and m: "map_of live = m"
  shows "post (io_then (publish_superblock E sb) (\<lambda>_. io_then (or_poison (on_db_storage (write_redundant E (storage_ops E) sb))) (\<lambda>_.
     io_then (or_poison (on_db_storage sync_all)) (\<lambda>_. shrink_file E n detached sb)))) db (compacting E db0 m)"
proof -
  let ?s0 = "db_storage db0" and ?rest = "drop (unat (log_start sb)) img"
  have map: "image_map live [] = m" using m by (simp add: image_map_def replay_def)
  have at: "at_file ?s0 img (db_storage db)" using handle by (simp add: handle_at_def)
  note len = image_length [OF disk]
  have first: "disk_image E img1 sb live [] ?rest \<and> length img1 = length img" if "page_put E (generation sb) sb img img1" for img1
    using page_put_advance [OF disk base g stop that] page_put_facts(1) [OF that len] by simp
  have second: "disk_image E img2 sb live [] ?rest \<and> length img2 = length img"
    if "disk_image E img1 sb live [] ?rest \<and> length img1 = length img" "page_put E (generation sb + 1) sb img1 img2" for img1 img2
    using that page_put_redundant page_put_facts(1) [of E "generation sb + 1" sb img1 img2] len by auto
  have poisoned: "compacting E db0 m (Inl (Err e)) (db\<lparr>db_storage := s', db_state := WritePoisoned\<rparr>)"
    if "at_file ?s0 img' s'" "img' = img \<or> disk_image E img' sb live [] ?rest \<and> length img' = length img" "\<not> file_storage_quiet ?s0" for e s' img'
    using that holdsI [OF disk old_map] holdsI [of E img' sb live "[]" ?rest m] map
    by (intro compacting_poisoned [OF handle_at_moved [OF handle that(1)]]) auto
  have shrink: "post (shrink_file E n detached sb) (db\<lparr>db_storage := s'\<rparr>) (compacting E db0 m)"
    if "at_file ?s0 img' s'" "disk_image E img' sb live [] ?rest \<and> length img' = length img" for s' img'
    using that handle overlay n m off by (intro shrink_file_post [where img = img' and rest = ?rest]) (simp_all add: handle_at_def)
  have redundant: "post (io_then (or_poison (on_db_storage (write_redundant E (storage_ops E) sb))) (\<lambda>_.
      io_then (or_poison (on_db_storage sync_all)) (\<lambda>_. shrink_file E n detached sb))) (db\<lparr>db_storage := s'\<rparr>) (compacting E db0 m)"
    if s': "at_file ?s0 img1 s'" and img1: "disk_image E img1 sb live [] ?rest \<and> length img1 = length img" for s' img1
    unfolding write_redundant_def
  proof (rule put_page_step [OF _ dev])
    show "at_file ?s0 img1 (db_storage (db\<lparr>db_storage := s'\<rparr>))" using s' by simp
    show "8192 \<le> length img1" using img1 len by simp
    fix s2 img2
    assume s2: "at_file ?s0 img2 s2" "page_put E (generation sb + 1) sb img1 img2"
    then have "at_file ?s0 img2 (db_storage (db\<lparr>db_storage := s2\<rparr>))" by simp
    then have "post (io_then (or_poison (on_db_storage sync_all)) (\<lambda>_. shrink_file E n detached sb)) (db\<lparr>db_storage := s2\<rparr>) (compacting E db0 m)"
      by (rule poison_sync_step) (use shrink poisoned second [OF img1 s2(2)] in auto)
    then show "post (io_then (or_poison (on_db_storage sync_all)) (\<lambda>_. shrink_file E n detached sb))
        (db\<lparr>db_storage := s', db_storage := s2\<rparr>) (compacting E db0 m)" by simp
  qed (use poisoned img1 second [OF img1] in auto)
  show ?thesis
    unfolding publish_superblock_def superblock_write_def io_then_assoc [of "or_poison _" "\<lambda>_. or_poison _"]
  proof (rule put_page_step [OF at dev len])
    fix s1 img1
    assume s1: "at_file ?s0 img1 s1" "page_put E (generation sb) sb img img1"
    then have "at_file ?s0 img1 (db_storage (db\<lparr>db_storage := s1\<rparr>))" by simp
    then show "post (io_then (or_poison (on_db_storage sync_all)) (\<lambda>_. io_then (or_poison (on_db_storage (write_redundant E (storage_ops E) sb)))
        (\<lambda>_. io_then (or_poison (on_db_storage sync_all)) (\<lambda>_. shrink_file E n detached sb)))) (db\<lparr>db_storage := s1\<rparr>) (compacting E db0 m)"
      by (rule poison_sync_step) (use redundant poisoned first [OF s1(2)] in auto)
  qed (use poisoned first in auto)
qed

subsection \<open>Writing a base of the live entries\<close>

lemma same_map_length:
  assumes "distinct (map fst xs)" and "distinct (map fst ys)" and "map_of xs = map_of ys"
  shows "length xs = length ys" and "length (base_records xs) = length (base_records ys)"
proof -
  have set: "set xs = set ys" using map_of_inject_set [OF assms(1,2)] assms(3) by simp
  have dist: "distinct xs" "distinct ys" using assms(1,2) by (simp_all add: distinct_map)
  show "length xs = length ys" using set dist by (metis distinct_card)
  have "length (base_records items) = (\<Sum>e \<in> set items. length (entry_bytes e))" if "distinct items" for items
    using sum_list_distinct_conv_sum_set [OF that, of "\<lambda>e. length (entry_bytes e)"]
    by (simp add: base_records_def length_concat comp_def)
  then show "length (base_records xs) = length (base_records ys)" using set dist by simp
qed

text \<open>What writing the live entries of a handle at \<open>start\<close> does; \<open>live\<close> has the entries in any order.\<close>

definition base_put :: "externs \<Rightarrow> nat \<Rightarrow> nat \<Rightarrow> entry list \<Rightarrow> bytes \<Rightarrow> written_base \<Rightarrow> bytes \<Rightarrow> entry list \<Rightarrow> bool" where
  "base_put E start slots live img w img' live2 \<longleftrightarrow> base_fits E start slots live2 \<and> distinct (map fst live2) \<and> map_of live2 = map_of live
     \<and> length live2 = length live \<and> segment_length slots live2 = segment_length slots live
     \<and> img' = write_at start (segment_bytes E start slots live2) img
     \<and> w = \<lparr>written_size = segment_length slots live, written_slots = slots, written_len = length live,
          written_checksum = crc32c E (segment_metadata E (base_data E start slots live2))\<rparr>"

lemma write_live_base_post:
  assumes at: "at_file s0 img (db_storage db)" and opened: "opened E sb items batches (db_base db, db_overlay db)"
    and ok: "\<forall>staged \<in> set batches. batch_ok staged" and map: "image_map items batches = map_of live"
    and live: "distinct (map fst live)" "base_slot_count (length live) = Inr slots" and reserve: "\<forall>n. try_reserve E n"
    and lt: "start + segment_length slots live < usize_limit"
  shows "post (write_live_base E start (length live)) db (\<lambda>r db'. \<exists>s' img'. db' = db\<lparr>db_storage := s'\<rparr> \<and> at_file s0 img' s'
    \<and> within start (start + segment_length slots live) img img'
    \<and> ((\<exists>w live2. r = Inr w \<and> base_put E start slots live img w img' live2) \<or> (\<exists>e. r = Inl (Err e)) \<and> \<not> file_storage_quiet s0))"
proof -
  obtain live2 where entries: "live_entries E db = Inr live2" and l2: "distinct (map fst live2)" "map_of live2 = map_of live" "entries_ok live2"
    using live_entries_opened [OF opened ok] map by metis
  have same: "length live2 = length live" "length (base_records live2) = length (base_records live)"
    using same_map_length [OF l2(1) live(1) l2(2)] by simp_all
  then have size: "segment_length slots live2 = segment_length slots live" by (simp add: segment_length_def data_length_def)
  have fits: "base_fits E start slots live2" using l2(3) live(2) reserve lt same(1) size by (simp add: base_fits_def)
  have s: "file_step s0 (db_storage db)" "storage_image (db_storage db) = img" using at by (simp_all add: at_file_def)
  obtain r s' where run: "write_base_with_metadata_at E (storage_ops E) start (length live2) live2 (db_storage db) = (r, s')" by fastforce
  have "\<not> storage_is_memory (db_storage db)" using s(1) by simp
  from postD [OF write_base_post [OF this fits] run] s size have
    s': "file_step (db_storage db) s'" "within start (start + segment_length slots live) img (storage_image s')"
      "(\<exists>w. r = Inr w \<and> base_put E start slots live img w (storage_image s') live2) \<or> faulty (db_storage db) r"
    using fits l2 same(1) by (auto simp: base_put_def)
  moreover have "write_live_base E start (length live) db = (r, db\<lparr>db_storage := s'\<rparr>)"
    using entries run same(1) by (simp add: write_live_base_def on_db_storage_def)
  ultimately show ?thesis
    using s(1) file_step_trans faulty_step [OF s(1), of r]
    by (intro postI) (auto simp: at_file_def faulty_def intro!: exI [of _ s'])
qed

lemma db_put_step:
  assumes at: "at_file s0 img (db_storage db)" and "a \<le> p" and "p + length bs \<le> b" and "bs \<noteq> []"
    and good: "\<And>s'. at_file s0 (write_at p bs img) s' \<Longrightarrow> post (f ()) (db\<lparr>db_storage := s'\<rparr>) Q"
    and bad: "\<And>e s' img'. at_file s0 img' s' \<Longrightarrow> within a b img img' \<Longrightarrow> \<not> file_storage_quiet s0 \<Longrightarrow> Q (Inl (Err e)) (db\<lparr>db_storage := s'\<rparr>)"
  shows "post (io_then (on_db_storage (question (seek_start (storage_ops E) p))) (\<lambda>_.
    io_then (on_db_storage (question (write_all (storage_ops E) bs))) f)) db Q"
proof (rule db_step [where P = "\<lambda>x s'. storage_image s' = img \<and> storage_position s' = p" and R = "\<lambda>s'. storage_image s' = img"])
  have image: "storage_image (db_storage db) = img" using at by (simp add: at_file_def)
  show "file_step s0 (db_storage db)" using at by (simp add: at_file_def)
  assume "\<not> storage_is_memory (db_storage db)"
  from storage_seek_post [OF this, of E p] show "post (question (seek_start (storage_ops E) p)) (db_storage db)
      (\<lambda>r s'. file_step (db_storage db) s' \<and> ((\<exists>x. r = Inr x \<and> storage_image s' = img \<and> storage_position s' = p)
        \<or> faulty (db_storage db) r \<and> storage_image s' = img))"
    by (rule post_weaken) (use image in auto)
next
  fix x s1
  assume s1: "file_step s0 s1" "storage_image s1 = img \<and> storage_position s1 = p"
  then have "file_step s0 (db_storage (db\<lparr>db_storage := s1\<rparr>))" by simp
  then have "post (io_then (on_db_storage (question (write_all (storage_ops E) bs))) f) (db\<lparr>db_storage := s1\<rparr>) Q"
  proof (rule db_step [where P = "\<lambda>x s'. storage_image s' = write_at p bs img" and R = "\<lambda>s'. within a b img (storage_image s')"])
    have "\<not> storage_is_memory s1" "a \<le> storage_position s1" "storage_position s1 + length bs \<le> b" using s1 assms(2,3) by auto
    from storage_write_within [OF this, of E] show "post (question (write_all (storage_ops E) bs)) (db_storage (db\<lparr>db_storage := s1\<rparr>))
        (\<lambda>r s'. file_step (db_storage (db\<lparr>db_storage := s1\<rparr>)) s' \<and> ((\<exists>x. r = Inr x \<and> storage_image s' = write_at p bs img)
          \<or> faulty (db_storage (db\<lparr>db_storage := s1\<rparr>)) r \<and> within a b img (storage_image s')))"
      by (simp, elim post_weaken) (use s1(2) assms(4) in auto)
  qed (use good bad in \<open>auto simp: at_file_def\<close>)
  then show "post (io_then (on_db_storage (question (write_all (storage_ops E) bs))) f) (db\<lparr>db_storage := s1\<rparr>) Q" .
qed (use bad in \<open>auto simp: at_file_def\<close>)

subsection \<open>Relocation\<close>

lemma base_ready_generation: "base_ready E base sb items \<Longrightarrow> active_generation base = unat (generation sb)"
  by (simp add: base_ready_def Let_def)

lemma generation_less: "unat g + 1 < 2 ^ 64 \<Longrightarrow> (g :: u64) < g + 1"
  by (simp add: word_less_nat_alt unat_word_ariths)

lemma relocated_image:
  fixes g :: u64
  assumes disk: "disk_image E img old items batches rest" and fits: "base_fits E 8192 slots live" and dist: "distinct (map fst live)"
    and n: "n = 8192 + segment_length slots live" "n + 17 \<le> unat (base_offset old)" and crate: "crc32c_crate E"
  defines "img' \<equiv> write_at n (write_compact_marker E) (write_at 8192 (segment_bytes E 8192 slots live) img)"
    and "sb \<equiv> superblock_new g 8192 (segment_length slots live) slots (length live) n (crc32c E (segment_metadata E (base_data E 8192 slots live)))"
  shows "within 8192 (n + 17) img img'" and "base_at E img' sb live" and "stops E (drop (unat (log_start sb)) img')"
    and "unat (log_start sb) = n" and "unat (base_offset sb) = 8192"
proof -
  let ?seg = "segment_bytes E 8192 slots live" and ?mid = "write_at 8192 (segment_bytes E 8192 slots live) img"
  have len: "length ?seg = segment_length slots live" by (rule base_fits_facts(4) [OF fits])
  have long: "n + 17 \<le> length img" using n(2) image_facts(3,4) [OF disk] by simp
  show "within 8192 (n + 17) img img'"
    unfolding img'_def by (rule within_trans [OF within_write_at within_write_at]) (use n(1) len in auto)
  have "range_of 8192 n img' = range_of 8192 n ?mid"
    unfolding img'_def using within_range_of [OF within_write_at [of n n "write_compact_marker E" "n + 17" ?mid], of n 8192] long len n(1) by simp
  also have "\<dots> = ?seg" using range_of_write_at_same [of 8192 ?seg img] len n(1) by simp
  finally have range: "range_of 8192 (8192 + segment_length slots live) img' = ?seg" using n(1) by simp
  have long': "8192 + segment_length slots live \<le> length img'" using long n(1) len by (simp add: img'_def)
  show base: "base_at E img' sb live" using base_at_written [OF fits dist _ range long', of g] n(1) by (simp add: sb_def)
  have lt: "n < 2 ^ 64" using disk long by (simp add: disk_image_def)
  then show start: "unat (log_start sb) = n" and "unat (base_offset sb) = 8192" by (simp_all add: sb_def superblock_new_def unat_of_nat)
  have "drop n img' = write_compact_marker E @ drop (n + 17) ?mid"
    unfolding img'_def using long len by (simp add: write_at_def [of n "write_compact_marker E"])
  then show "stops E (drop (unat (log_start sb)) img')" using stops_marker [OF crate] start by simp
qed

lemma relocate_base_post:
  assumes crate: "crc32c_crate E" and dev: "device_faults (db_storage db0)" and handle: "handle_at E db0 m img db"
    and healthy: "db_state db = Healthy" and disk: "disk_image E img old live [] []" and opened: "opened E old live [] (db_base db, db_overlay db)"
    and overlay: "overlay_is_empty (overlay_index (db_overlay db))" and m: "map_of live = m"
    and n: "n = 8192 + segment_length slots live" "n + 17 \<le> unat (base_offset old)"
    and slots: "base_slot_count (length live) = Inr slots" and reserve: "\<forall>n. try_reserve E n" and g: "unat (generation old) + 1 < 2 ^ 64"
  shows "post (relocate_base E n (generation old + 1) (length live) (segment_length slots live)) db (compacting E db0 m)"
proof -
  let ?s0 = "db_storage db0"
  have map: "image_map live [] = m" using m by (simp add: image_map_def replay_def)
  have at: "at_file ?s0 img (db_storage db)" using handle by (simp add: handle_at_def)
  have dist: "distinct (map fst live)" using disk by (auto simp: disk_image_def base_at_def)
  have long: "n + 17 \<le> length img" "length img < 2 ^ 63" using n(2) image_facts(3,4) [OF disk] disk by (simp_all add: disk_image_def)
  have failed: "compacting E db0 m (Inl (Err e)) (db\<lparr>db_storage := s'\<rparr>)"
    if "at_file ?s0 img' s'" "within 8192 (n + 17) img img'" "\<not> file_storage_quiet ?s0" for e s' img'
  proof (rule compacting_failed [OF handle_at_moved [OF handle that(1)] _ that(3)])
    have "disk_image E img' old live [] []" by (rule image_within [OF disk that(2)]) (use n(2) in simp_all)
    with that(1) opened healthy map show "db_on_file E (db\<lparr>db_storage := s'\<rparr>) m"
      by (auto simp: db_on_file_def file_db_def at_file_def)
    show "length img' \<le> max (length img) (max_database_bytes (db_options db0))" using that(2) long by (auto simp: within_def)
  qed
  have wider: "within 8192 (n + 17) img img'" if "within 8192 (8192 + segment_length slots live) img img'" for img'
    using that n(1) by (auto simp: within_def)
  obtain detached where detached: "detached_base E (generation old + 1) = Inr detached" using detached_base_ok [OF reserve] by blast
  let ?finish = "\<lambda>written. let sb = superblock_new (generation old + 1) DATA_START (written_size written) (written_slots written)
                (written_len written) n (written_checksum written) in
     io_then (publish_superblock E sb) (\<lambda>_. io_then (or_poison (on_db_storage (write_redundant E (storage_ops E) sb))) (\<lambda>_.
     io_then (or_poison (on_db_storage sync_all)) (\<lambda>_. shrink_file E n detached sb)))"
  show ?thesis
    unfolding relocate_base_def detached io_lift_then write_destination_def io_then_assoc
  proof (rule post_then [OF write_live_base_post [OF at opened _ map [folded m] dist slots reserve]])
    fix w db1
    assume "\<exists>s' img'. db1 = db\<lparr>db_storage := s'\<rparr> \<and> at_file ?s0 img' s' \<and> within DATA_START (DATA_START + segment_length slots live) img img'
      \<and> ((\<exists>w' live2. Inr w = Inr w' \<and> base_put E DATA_START slots live img w' img' live2)
        \<or> (\<exists>e. (Inr w :: written_base result) = Inl (Err e)) \<and> \<not> file_storage_quiet ?s0)"
    then obtain s1 img1 live2 where db1: "db1 = db\<lparr>db_storage := s1\<rparr>"
      and s1: "at_file ?s0 img1 s1" "within DATA_START (DATA_START + segment_length slots live) img img1"
      and put: "base_put E DATA_START slots live img w img1 live2" by auto
    then have l2: "base_fits E DATA_START slots live2" "distinct (map fst live2)" "map_of live2 = m" "length live2 = length live"
        "segment_length slots live2 = segment_length slots live" and img1: "img1 = write_at DATA_START (segment_bytes E DATA_START slots live2) img"
      using m by (simp_all add: base_put_def)
    let ?w = "\<lparr>written_size = segment_length slots live, written_slots = slots, written_len = length live,
          written_checksum = crc32c E (segment_metadata E (base_data E DATA_START slots live2))\<rparr>"
    have w: "w = ?w" using put by (simp add: base_put_def)
    let ?db1 = "db\<lparr>db_storage := s1\<rparr>" and ?img2 = "write_at n (write_compact_marker E) img1"
    have fits2: "base_fits E 8192 slots live2" and n2: "n = 8192 + segment_length slots live2" using l2(1,5) n(1) by simp_all
    note changed = relocated_image(1) [OF disk fits2 l2(2) n2 n(2) crate, folded DATA_START_def, folded img1]
    note new = relocated_image(2-5) [where g = "generation old + 1", OF disk fits2 l2(2) n2 n(2) crate, folded DATA_START_def, folded img1]
    have at1: "at_file ?s0 img1 (db_storage ?db1)" using s1 by simp
    have finish: "post (?finish ?w) (db\<lparr>db_storage := s2\<rparr>) (compacting E db0 m)" if s2: "at_file ?s0 ?img2 s2" for s2
      unfolding Let_def written_base.simps
    proof (rule publish_relocated_post [OF _ dev])
      have len: "length ?img2 = length img" using changed long by (auto simp: within_def)
      show "handle_at E db0 m ?img2 (db\<lparr>db_storage := s2\<rparr>)" by (rule handle_at_moved [OF handle s2]) (simp only: len max.cobounded1)
      show "disk_image E ?img2 old live [] []" by (rule image_within [OF disk changed]) (use n(2) in simp_all)
    qed (use new l2 map m g generation_less opened overlay in \<open>simp_all add: opened_def superblock_new_def [of "generation old + 1"]\<close>)
    have "post (io_then (on_db_storage (question (seek_start (storage_ops E) n))) (\<lambda>_.
        io_then (on_db_storage (question (write_all (storage_ops E) (write_compact_marker E)))) (\<lambda>_.
        io_then (on_db_storage sync_data) (\<lambda>_. ?finish ?w)))) ?db1 (compacting E db0 m)"
    proof (rule db_put_step [OF at1, where a = 8192 and b = "n + 17"])
      fix s2
      assume s2: "at_file ?s0 ?img2 s2"
      then have "at_file ?s0 ?img2 (db_storage (?db1\<lparr>db_storage := s2\<rparr>))" by simp
      then show "post (io_then (on_db_storage sync_data) (\<lambda>_. ?finish ?w)) (?db1\<lparr>db_storage := s2\<rparr>) (compacting E db0 m)"
        by (rule db_sync_step) (use finish failed changed in auto)
    next
      show "write_compact_marker E \<noteq> []" using length_write_compact_marker [of E] by fastforce
    qed (use n(1) failed within_trans [OF wider] s1(2) in auto)
    then show "post (io_then (if written_size w \<noteq> segment_length slots live
        then io_lift (Inl (Err (other ''base size changed while relocating compaction output'')))
        else io_then (on_db_storage (question (seek_start (storage_ops E) n))) (\<lambda>_. io_then (append_marker E) (\<lambda>_.
          io_then (on_db_storage sync_data) (\<lambda>_. io_return w)))) ?finish) db1 (compacting E db0 m)"
      by (simp add: append_marker_def io_then_assoc io_return_then w db1)
  qed (use n(1) long failed wider in \<open>auto simp: usize_limit_def\<close>)
qed

subsection \<open>The staging base\<close>

text \<open>\<open>hidden E img0 b img\<close>: behind \<open>img0\<close> the file has bytes at which a scan of the log stops, up to \<open>b\<close>.\<close>

definition hidden :: "externs \<Rightarrow> bytes \<Rightarrow> nat \<Rightarrow> bytes \<Rightarrow> bool" where
  "hidden E img0 b img \<longleftrightarrow> (\<exists>rest. img = img0 @ rest \<and> stops E rest) \<and> length img \<le> b"

lemma hidden_image:
  assumes "disk_image E img0 sb items batches []" and "hidden E img0 b img" and "b < 2 ^ 63"
  shows "\<exists>rest. disk_image E img sb items batches rest"
proof -
  from assms(2) obtain rest where "img = img0 @ rest" "stops E rest" "length img \<le> b" by (auto simp: hidden_def)
  with image_append [OF assms(1), of rest] assms(3) show ?thesis by auto
qed

lemma hidden_within:
  assumes crate: "crc32c_crate E" and "within a b (img0 @ write_compact_marker E) img'" and "length (img0 @ write_compact_marker E) \<le> a" and "a \<le> b"
  shows "hidden E img0 b img'"
proof -
  let ?img = "img0 @ write_compact_marker E"
  have "take (length ?img) img' = ?img" using within_take [OF assms(2,3)] by simp
  then have "img' = ?img @ drop (length ?img) img'" using append_take_drop_id [of "length ?img" img'] by metis
  moreover have "length img' \<le> b" using assms(2-4) by (auto simp: within_def)
  ultimately show ?thesis using stops_marker [OF crate, of "drop (length ?img) img'"] by (auto simp: hidden_def)
qed

lemma rollback_step:
  fixes m :: "(database, failure, 'a) io"
  assumes step: "post m db (\<lambda>r db'. \<exists>s' img'. db' = db\<lparr>db_storage := s'\<rparr> \<and> at_file s0 img' s' \<and> hidden E img0 b img'
      \<and> ((\<exists>x. r = Inr x \<and> P x img' s') \<or> (\<exists>e. r = Inl (Err e)) \<and> \<not> file_storage_quiet s0))"
    and good: "\<And>x s' img'. at_file s0 img' s' \<Longrightarrow> P x img' s' \<Longrightarrow> post (f x) (db\<lparr>db_storage := s'\<rparr>) Q"
    and bad: "\<And>e s' img'. at_file s0 img' s' \<Longrightarrow> hidden E img0 b img' \<Longrightarrow> \<not> file_storage_quiet s0
      \<Longrightarrow> Q (Inl (Err e)) (db\<lparr>db_storage := s', db_state := WritePoisoned\<rparr>)"
  shows "post (io_then (or_rollback E (length img0) m) f) db Q"
proof (cases "m db")
  case (Pair r db')
  from postD [OF step Pair] obtain s' img' where db': "db' = db\<lparr>db_storage := s'\<rparr>" and s': "at_file s0 img' s'" "hidden E img0 b img'"
    and r: "(\<exists>x. r = Inr x \<and> P x img' s') \<or> (\<exists>e. r = Inl (Err e)) \<and> \<not> file_storage_quiet s0" by blast
  show ?thesis
  proof (cases r)
    case (Inr x)
    with r good [OF s'(1), of x] Pair db' show ?thesis by (simp add: post_def io_then_def or_rollback_def)
  next
    case (Inl e)
    with r obtain err where e: "e = Err err" "\<not> file_storage_quiet s0" by auto
    obtain rest where img': "img' = img0 @ rest" using s'(2) by (auto simp: hidden_def)
    then have "hidden E img0 b (take (length img0) img')" using s'(2) by (auto simp: hidden_def)
    moreover obtain r2 db2 where roll: "rollback_or_poison E (length img0) (Err err) db' = (r2 :: 'a result, db2)" by fastforce
    have "length img0 \<le> length img'" using img' by simp
    from postD [OF rollback_post [OF s'(1) this] roll [unfolded db']] obtain s2 where "r2 = Inl (Err err)"
      "db2 = db\<lparr>db_storage := s2, db_state := WritePoisoned\<rparr>" "at_file s0 (take (length img0) img') s2 \<or> at_file s0 img' s2" by blast
    ultimately have "r2 = Inl (Err err) \<and> Q (Inl (Err err)) db2" using bad e(2) s'(2) by blast
    with Pair Inl e(1) roll show ?thesis by (simp add: post_def io_then_def or_rollback_def)
  qed
qed

lemma append_marker_post:
  assumes crate: "crc32c_crate E" and at: "at_file s0 img0 (db_storage db)" and pos: "storage_position (db_storage db) = length img0"
    and b: "length img0 + 17 \<le> b"
  shows "post (append_marker E) db (\<lambda>r db'. \<exists>s' img'. db' = db\<lparr>db_storage := s'\<rparr> \<and> at_file s0 img' s' \<and> hidden E img0 b img'
      \<and> ((\<exists>x. r = Inr x \<and> img' = img0 @ write_compact_marker E) \<or> (\<exists>e. r = Inl (Err e)) \<and> \<not> file_storage_quiet s0))"
proof -
  let ?marker = "write_compact_marker E" and ?s = "db_storage db"
  have s: "file_step s0 ?s" "storage_image ?s = img0" using at by (simp_all add: at_file_def)
  have marker: "?marker \<noteq> []" "length ?marker = 17" using length_write_compact_marker [of E] by fastforce+
  have part: "hidden E img0 b (img0 @ take k ?marker)" for k
  proof -
    have "stops E (take k ?marker)"
      using stops_marker_torn [of k E] stops_marker [OF crate, of "[]"] marker(2) by (cases "k < 17") simp_all
    then show ?thesis using b marker(2) by (auto simp: hidden_def)
  qed
  obtain r s' where run: "question (write_all (storage_ops E) ?marker) ?s = (r, s')" by fastforce
  have "\<not> storage_is_memory ?s" using s(1) by simp
  note result = postD [OF storage_write_post [OF this marker(1)] run]
  have put: "write_at (storage_position ?s) bs (storage_image ?s) = img0 @ bs" for bs using pos s(2) by (simp add: write_at_end)
  have at': "at_file s0 (storage_image s') s'" using result s(1) file_step_trans by (auto simp: at_file_def)
  from result put have "(r = Inr () \<and> storage_image s' = img0 @ ?marker) \<or> faulty ?s r \<and> (\<exists>k. storage_image s' = img0 @ take k ?marker)"
    using s(2) by (auto split: if_splits intro: exI [of _ 0])
  then have "hidden E img0 b (storage_image s') \<and> ((\<exists>x. r = Inr x \<and> storage_image s' = img0 @ ?marker)
      \<or> (\<exists>e. r = Inl (Err e)) \<and> \<not> file_storage_quiet s0)"
    using part part [of 17] marker(2) faulty_step [OF s(1), of r] by (auto simp: faulty_def)
  with at' run show ?thesis by (intro postI [of _ _ r "db\<lparr>db_storage := s'\<rparr>"]) (auto simp: append_marker_def on_db_storage_def)
qed

lemma on_db_storage_same:
  assumes "at_file s0 img (db_storage db)" and "hidden E img0 b img"
    and "\<not> storage_is_memory (db_storage db) \<Longrightarrow> post m (db_storage db) (\<lambda>r s'. file_step (db_storage db) s'
      \<and> storage_image s' = storage_image (db_storage db) \<and> ((\<exists>x. r = Inr x) \<or> faulty (db_storage db) r))"
  shows "post (on_db_storage m) db (\<lambda>r db'. \<exists>s' img'. db' = db\<lparr>db_storage := s'\<rparr> \<and> at_file s0 img' s' \<and> hidden E img0 b img'
      \<and> ((\<exists>x. r = Inr x \<and> img' = img) \<or> (\<exists>e. r = Inl (Err e)) \<and> \<not> file_storage_quiet s0))"
proof (cases "m (db_storage db)")
  case (Pair r s')
  have s: "file_step s0 (db_storage db)" "storage_image (db_storage db) = img" using assms(1) by (simp_all add: at_file_def)
  then have "\<not> storage_is_memory (db_storage db)" by simp
  from postD [OF assms(3) [OF this] Pair] s have "at_file s0 img s'" "(\<exists>x. r = Inr x) \<or> faulty s0 r"
    using file_step_trans faulty_step [OF s(1), of r] by (auto simp: at_file_def)
  with Pair assms(2) show ?thesis by (auto simp: post_def on_db_storage_def faulty_def)
qed

lemma rollback_then: "io_then (rollback_or_poison E n e) f = rollback_or_poison E n e"
  by (simp add: fun_eq_iff io_then_def rollback_or_poison_def Let_def)

lemma write_staging_post:
  assumes crate: "crc32c_crate E" and at: "at_file s0 img0 (db_storage db)" and pos: "storage_position (db_storage db) = length img0"
    and opened: "opened E sb items batches (db_base db, db_overlay db)"
    and ok: "\<forall>staged \<in> set batches. batch_ok staged" and map: "image_map items batches = map_of live"
    and live: "distinct (map fst live)" "base_slot_count (length live) = Inr slots" and reserve: "\<forall>n. try_reserve E n"
    and src: "length img0 + 17 \<le> src" and b: "b = src + segment_length slots live" "b < 2 ^ 63"
    and good: "\<And>s' w img' live2. at_file s0 img' s' \<Longrightarrow> base_put E src slots live (img0 @ write_compact_marker E) w img' live2 \<Longrightarrow>
      hidden E img0 b img' \<Longrightarrow> post (f w) (db\<lparr>db_storage := s'\<rparr>) Q"
    and bad: "\<And>e s' img'. at_file s0 img' s' \<Longrightarrow> hidden E img0 b img' \<Longrightarrow> \<not> file_storage_quiet s0
      \<Longrightarrow> Q (Inl (Err e)) (db\<lparr>db_storage := s', db_state := WritePoisoned\<rparr>)"
  shows "post (io_then (write_staging E (length img0) src (length live) (segment_length slots live)) f) db Q"
proof -
  let ?img1 = "img0 @ write_compact_marker E" and ?size = "segment_length slots live"
  have hidden1: "hidden E img0 b ?img1" using hidden_within [OF crate within_refl, of img0 src b] src b(1) by simp
  have hidden2: "hidden E img0 b img'" if "within src (src + ?size) ?img1 img'" for img'
    using that src unfolding b(1) by (intro hidden_within [OF crate that]) (simp_all only: le_add1 length_append length_write_compact_marker)
  have sync: "post (io_then (or_rollback E (length img0) (on_db_storage sync_data)) (\<lambda>_. f w)) (db\<lparr>db_storage := s'\<rparr>) Q"
    if s': "at_file s0 img' s'" and put: "base_put E src slots live ?img1 w img' live2" and hid: "hidden E img0 b img'" for s' w img' live2
  proof (rule rollback_step [OF on_db_storage_same [OF _ hid]])
    show "at_file s0 img' (db_storage (db\<lparr>db_storage := s'\<rparr>))" using s' by simp
  next
    assume "\<not> storage_is_memory (db_storage (db\<lparr>db_storage := s'\<rparr>))"
    from storage_sync_post [OF this] show "post sync_data (db_storage (db\<lparr>db_storage := s'\<rparr>)) (\<lambda>r s2.
        file_step (db_storage (db\<lparr>db_storage := s'\<rparr>)) s2 \<and> storage_image s2 = storage_image (db_storage (db\<lparr>db_storage := s'\<rparr>))
        \<and> ((\<exists>x. r = Inr x) \<or> faulty (db_storage (db\<lparr>db_storage := s'\<rparr>)) r))" by (rule post_weaken) auto
  qed (use good put hid bad in auto)
  let ?after = "\<lambda>written. if written_size written \<noteq> ?size
     then rollback_or_poison E (length img0) (Err (other ''base size changed while compacting''))
     else io_then (or_rollback E (length img0) (on_db_storage sync_data)) (\<lambda>_. f written)"
  have base: "post (io_then (or_rollback E (length img0) (write_live_base E src (length live))) ?after) (db\<lparr>db_storage := s'\<rparr>) Q"
    if s': "at_file s0 ?img1 s'" for s'
  proof (rule rollback_step [where P = "\<lambda>w img' s'. hidden E img0 b img' \<and> (\<exists>live2. base_put E src slots live ?img1 w img' live2)"])
    have at': "at_file s0 ?img1 (db_storage (db\<lparr>db_storage := s'\<rparr>))" using s' by simp
    have "opened E sb items batches (db_base (db\<lparr>db_storage := s'\<rparr>), db_overlay (db\<lparr>db_storage := s'\<rparr>))" using opened by simp
    from write_live_base_post [OF at' this ok map live reserve, of src] b
    show "post (write_live_base E src (length live)) (db\<lparr>db_storage := s'\<rparr>) (\<lambda>r db'. \<exists>s2 img'.
        db' = db\<lparr>db_storage := s', db_storage := s2\<rparr> \<and> at_file s0 img' s2 \<and> hidden E img0 b img'
        \<and> ((\<exists>w. r = Inr w \<and> hidden E img0 b img' \<and> (\<exists>live2. base_put E src slots live ?img1 w img' live2))
          \<or> (\<exists>e. r = Inl (Err e)) \<and> \<not> file_storage_quiet s0))"
      using hidden2 by (fastforce simp: usize_limit_def elim!: post_weaken)
  next
    fix w s2 img'
    assume s2: "at_file s0 img' s2" and "hidden E img0 b img' \<and> (\<exists>live2. base_put E src slots live ?img1 w img' live2)"
    then obtain live2 where hid: "hidden E img0 b img'" and put: "base_put E src slots live ?img1 w img' live2" by blast
    have "written_size w = ?size" using put by (simp add: base_put_def)
    with sync [OF s2 put hid] show "post (?after w) (db\<lparr>db_storage := s', db_storage := s2\<rparr>) Q" by simp
  qed (use bad in auto)
  have seek: "post (io_then (or_rollback E (length img0) (on_db_storage (question (seek_start (storage_ops E) src)))) (\<lambda>_.
      io_then (or_rollback E (length img0) (write_live_base E src (length live))) ?after)) (db\<lparr>db_storage := s'\<rparr>) Q"
    if s': "at_file s0 ?img1 s'" for s'
  proof (rule rollback_step [OF on_db_storage_same [OF _ hidden1]])
    show "at_file s0 ?img1 (db_storage (db\<lparr>db_storage := s'\<rparr>))" using s' by simp
  next
    assume "\<not> storage_is_memory (db_storage (db\<lparr>db_storage := s'\<rparr>))"
    from storage_seek_post [OF this, of E src] show "post (question (seek_start (storage_ops E) src)) (db_storage (db\<lparr>db_storage := s'\<rparr>)) (\<lambda>r s2.
        file_step (db_storage (db\<lparr>db_storage := s'\<rparr>)) s2 \<and> storage_image s2 = storage_image (db_storage (db\<lparr>db_storage := s'\<rparr>))
        \<and> ((\<exists>x. r = Inr x) \<or> faulty (db_storage (db\<lparr>db_storage := s'\<rparr>)) r))" by (rule post_weaken) auto
  qed (use base bad in auto)
  have after: "(\<lambda>written. io_then (if written_size written \<noteq> ?size
       then rollback_or_poison E (length img0) (Err (other ''base size changed while compacting''))
       else io_then (or_rollback E (length img0) (on_db_storage sync_data)) (\<lambda>_. io_return written)) f) = ?after"
    by (simp add: fun_eq_iff rollback_then io_then_assoc io_return_then)
  show ?thesis
    unfolding write_staging_def io_then_assoc after
    by (rule rollback_step [OF append_marker_post [OF crate at pos, of b]]) (use seek bad src b(1) in auto)
qed

subsection \<open>The whole compaction\<close>

lemma publish_staged_post:
  assumes crate: "crc32c_crate E" and dev: "device_faults (db_storage db0)" and handle: "handle_at E db0 m img db"
    and healthy: "db_state db = Healthy" and disk: "disk_image E img old items batches rest" and old_map: "image_map items batches = m"
    and overlay: "overlay_ready E L (db_overlay db) batches'" and base: "base_at E img sb live" and m: "map_of live = m"
    and g: "generation sb = generation old + 1" "unat (generation old) + 2 < 2 ^ 64" and log: "unat (log_start sb) = length img"
    and n: "n = 8192 + segment_length slots live" "n + 17 \<le> unat (base_offset sb)"
    and slots: "base_slot_count (length live) = Inr slots" and reserve: "\<forall>n. try_reserve E n"
  shows "post (io_then (publish_superblock E sb) (\<lambda>_. io_then (install_superblock E sb) (\<lambda>_ db.
     relocate_base E n (generation sb + 1) (length live) (segment_length slots live)
       (db\<lparr>db_overlay := overlay_clear (db_overlay db)\<rparr>)))) db (compacting E db0 m)"
proof -
  let ?s0 = "db_storage db0"
  let ?relocate = "\<lambda>_ db. relocate_base E n (generation sb + 1) (length live) (segment_length slots live) (db\<lparr>db_overlay := overlay_clear (db_overlay db)\<rparr>)"
  have map: "image_map live [] = m" using m by (simp add: image_map_def replay_def)
  have at: "at_file ?s0 img (db_storage db)" using handle by (simp add: handle_at_def)
  have gs: "generation old < generation sb" "unat (generation sb) + 1 < 2 ^ 64" "generation sb = generation old + 1"
    using g generation_less [of "generation old"] by (simp_all add: unat_word_ariths)
  have put: "disk_image E img1 sb live [] [] \<and> length img1 = length img" if "page_put E (generation sb) sb img img1" for img1
    using page_put_advance [OF disk base g(1) gs(1) _ that] page_put_facts(1) [OF that image_length [OF disk]] log by simp
  have poisoned: "compacting E db0 m (Inl (Err e)) (db\<lparr>db_storage := s', db_state := WritePoisoned\<rparr>)"
    if "at_file ?s0 img' s'" "img' = img \<or> disk_image E img' sb live [] [] \<and> length img' = length img" "\<not> file_storage_quiet ?s0" for e s' img'
    using that holdsI [OF disk old_map] holdsI [of E img' sb live "[]" "[]" m] map
    by (intro compacting_poisoned [OF handle_at_moved [OF handle that(1)]]) auto
  have install: "post (io_then (install_superblock E sb) ?relocate) (db\<lparr>db_storage := s'\<rparr>) (compacting E db0 m)"
    if s': "at_file ?s0 img1 s'" and img1: "disk_image E img1 sb live [] [] \<and> length img1 = length img" for s' img1
  proof (rule post_then [OF install_superblock_post [OF _ conjunct1 [OF img1]]])
    show "at_file ?s0 img1 (db_storage (db\<lparr>db_storage := s'\<rparr>))" using s' by simp
  next
    fix x db2
    assume "\<exists>s2. at_file ?s0 img1 s2 \<and> (Inr x = Inr () \<and> (\<exists>base. db2 = db\<lparr>db_storage := s', db_storage := s2, db_base := base\<rparr> \<and> base_ready E base sb live)
       \<or> (\<exists>e. (Inr x :: unit result) = Inl (Err e)) \<and> \<not> file_storage_quiet ?s0 \<and> db2 = db\<lparr>db_storage := s', db_storage := s2, db_state := WritePoisoned\<rparr>)"
    then obtain s2 new where s2: "at_file ?s0 img1 s2" and db2: "db2 = db\<lparr>db_storage := s2, db_base := new\<rparr>" and new: "base_ready E new sb live"
      by auto
    let ?db3 = "db2\<lparr>db_overlay := overlay_clear (db_overlay db2)\<rparr>"
    have opened: "opened E sb live [] (db_base ?db3, db_overlay ?db3)"
      using new overlay_ready_clear [OF overlay] by (simp add: opened_def db2)
    moreover have "handle_at E db0 m img1 ?db3"
      using handle s2 img1 opened map unfolding handle_at_def by (auto simp: db2)
    ultimately have "post (relocate_base E n (generation sb + 1) (length live) (segment_length slots live)) ?db3 (compacting E db0 m)"
      using img1 healthy m n slots reserve gs(2) dev
      by (intro relocate_base_post [OF crate]) (auto simp: db2 overlay_clear_empty)
    then show "post (?relocate x) db2 (compacting E db0 m)" by (simp add: post_def)
  next
    fix e db2
    assume "\<exists>s2. at_file ?s0 img1 s2 \<and> (Inl e = Inr () \<and> (\<exists>base. db2 = db\<lparr>db_storage := s', db_storage := s2, db_base := base\<rparr> \<and> base_ready E base sb live)
       \<or> (\<exists>e'. (Inl e :: unit result) = Inl (Err e')) \<and> \<not> file_storage_quiet ?s0 \<and> db2 = db\<lparr>db_storage := s', db_storage := s2, db_state := WritePoisoned\<rparr>)"
    with poisoned [of img1] img1 show "compacting E db0 m (Inl e) db2" by auto
  qed
  show ?thesis
    unfolding publish_superblock_def superblock_write_def io_then_assoc [of "or_poison _" "\<lambda>_. or_poison _"]
  proof (rule put_page_step [OF at dev image_length [OF disk]])
    fix s1 img1
    assume s1: "at_file ?s0 img1 s1" "page_put E (generation sb) sb img img1"
    then have "at_file ?s0 img1 (db_storage (db\<lparr>db_storage := s1\<rparr>))" by simp
    then show "post (io_then (or_poison (on_db_storage sync_all)) (\<lambda>_. io_then (install_superblock E sb) ?relocate))
        (db\<lparr>db_storage := s1\<rparr>) (compacting E db0 m)"
      by (rule poison_sync_step) (use install poisoned put [OF s1(2)] in auto)
  qed (use poisoned put in auto)
qed

lemma staged_base:
  fixes g :: u64
  assumes put: "base_put E src slots live (img0 @ write_compact_marker E) w img live2" and src: "length img0 + 17 \<le> src" "8192 \<le> src"
    and lt: "src + segment_length slots live < 2 ^ 63"
  defines "sb \<equiv> superblock_new g src (written_size w) (written_slots w) (written_len w) (src + segment_length slots live) (written_checksum w)"
  shows "base_at E img sb live2" and "unat (log_start sb) = length img" and "unat (base_offset sb) = src" and "generation sb = g"
    and "length img = src + segment_length slots live"
proof -
  from put have p: "base_fits E src slots live2" "distinct (map fst live2)" "length live2 = length live"
    "segment_length slots live2 = segment_length slots live" "img = write_at src (segment_bytes E src slots live2) (img0 @ write_compact_marker E)"
    and w: "w = \<lparr>written_size = segment_length slots live, written_slots = slots, written_len = length live,
          written_checksum = crc32c E (segment_metadata E (base_data E src slots live2))\<rparr>" by (simp_all add: base_put_def)
  have seg: "length (segment_bytes E src slots live2) = segment_length slots live" using base_fits_facts(4) [OF p(1)] p(4) by simp
  then show len: "length img = src + segment_length slots live" using src(1) by (simp add: p(5))
  have "range_of src (src + segment_length slots live2) img = segment_bytes E src slots live2"
    using range_of_write_at_same [of src "segment_bytes E src slots live2"] seg p(4) by (simp add: p(5))
  from base_at_written [OF p(1,2) src(2) this, of g] show "base_at E img sb live2" using len p(3,4) by (simp add: sb_def w)
  show "unat (log_start sb) = length img" "unat (base_offset sb) = src" "generation sb = g"
    using lt len by (simp_all add: sb_def superblock_new_def unat_of_nat del: of_nat_add)
qed

text \<open>The end of the staging base, the most the file grows to, for a base of \<open>n\<close> bytes.\<close>

definition compact_end :: "database \<Rightarrow> nat \<Rightarrow> nat" where
  "compact_end db n = max (length (storage_image (db_storage db)) + 17) (8192 + n + 17) + n"

lemma compact_staging_post:
  assumes crate: "crc32c_crate E" and dev: "device_faults (db_storage db)" and healthy: "db_state db = Healthy"
    and fdb: "file_db E db sb items batches" and map: "image_map items batches = map_of live"
    and live: "distinct (map fst live)" "base_slot_count (length live) = Inr slots" and reserve: "\<forall>n. try_reserve E n"
    and g: "unat (generation sb) + 2 < 2 ^ 64" and limit: "max_database_bytes (db_options db) < 2 ^ 63"
    and n: "n = segment_length slots live" and img: "img = storage_image (db_storage db)" and src: "src = max (length img + 17) (8192 + n + 17)"
    and s1: "at_file (db_storage db) img s1" "storage_position s1 = length img" and fits: "src + n \<le> max_database_bytes (db_options db)"
  shows "post (compact_staged E (length img) (8192 + n) src (src + n) (length live) n) (db\<lparr>db_storage := s1\<rparr>) (compacting E db (map_of live))"
proof -
  let ?s0 = "db_storage db"
  from fdb have disk: "disk_image E img sb items batches []" and opened: "opened E sb items batches (db_base db, db_overlay db)"
    by (simp_all add: file_db_def img)
  have ok: "\<forall>staged \<in> set batches. batch_ok staged" using disk by (simp add: disk_image_def)
  have generation: "of_nat (active_generation (db_base db)) = generation sb"
    using opened base_ready_generation [of E "db_base db" sb items] by (simp add: opened_def)
  have lt: "src + segment_length slots live < 2 ^ 63" using fits limit by (simp add: n)
  have handle: "handle_at E db (map_of live) img' (db\<lparr>db_storage := s'\<rparr>)" if "at_file ?s0 img' s'" "hidden E img (src + n) img'" for s' img'
    using that opened map fits by (auto simp: handle_at_def hidden_def)
  show ?thesis
    unfolding compact_staged_def n
  proof (rule write_staging_post [OF crate _ _ _ ok map live reserve _ refl])
    fix s2 w img2 live2
    assume s2: "at_file ?s0 img2 s2" and put: "base_put E src slots live (img @ write_compact_marker E) w img2 live2"
      and hid: "hidden E img (src + segment_length slots live) img2"
    let ?sb = "superblock_new (generation sb + 1) src (written_size w) (written_slots w) (written_len w) (src + n) (written_checksum w)"
    have ge: "length img + 17 \<le> src" "8192 \<le> src" "8192 + n + 17 \<le> src" using src by auto
    note new = staged_base(1-4) [where g = "generation sb + 1", OF put ge(1,2) lt, folded n]
    obtain rest where disk2: "disk_image E img2 sb items batches rest" using hidden_image [OF disk hid lt] by blast
    have l2: "map_of live2 = map_of live" "length live2 = length live" "segment_length slots live2 = segment_length slots live"
      using put by (simp_all add: base_put_def)
    have "post (io_then (publish_superblock E ?sb) (\<lambda>_. io_then (install_superblock E ?sb) (\<lambda>_ db.
        relocate_base E (8192 + n) (generation ?sb + 1) (length live2) (segment_length slots live2) (db\<lparr>db_overlay := overlay_clear (db_overlay db)\<rparr>))))
        (db\<lparr>db_storage := s2\<rparr>) (compacting E db (map_of live))"
    proof (rule publish_staged_post [OF crate dev handle [OF s2 hid [folded n]] _ disk2 map _ new(1) l2(1)])
      show "overlay_ready E (log_bytes E batches) (db_overlay (db\<lparr>db_storage := s2\<rparr>)) batches" using opened by (simp add: opened_def)
    qed (use new l2 g healthy live(2) reserve ge n in simp_all)
    then show "post (\<lambda>db. let g = of_nat (active_generation (db_base db)) + 1;
         sb = superblock_new g src (written_size w) (written_slots w) (written_len w) (src + segment_length slots live) (written_checksum w) in
       io_then (publish_superblock E sb) (\<lambda>_. io_then (install_superblock E sb) (\<lambda>_ db.
       relocate_base E (8192 + segment_length slots live) (g + 1) (length live) (segment_length slots live)
         (db\<lparr>db_overlay := overlay_clear (db_overlay db)\<rparr>))) db) (db\<lparr>db_storage := s1, db_storage := s2\<rparr>) (compacting E db (map_of live))"
      using new(4) by (simp add: Let_def generation post_def l2 n)
  next
    fix e s2 img2
    assume s2: "at_file ?s0 img2 s2" "hidden E img (src + segment_length slots live) img2" "\<not> file_storage_quiet ?s0"
    obtain rest where "disk_image E img2 sb items batches rest" using hidden_image [OF disk s2(2) lt] by blast
    from compacting_poisoned [OF handle [OF s2(1,2) [folded n]] holdsI [OF this map] s2(3)]
    show "compacting E db (map_of live) (Inl (Err e)) (db\<lparr>db_storage := s1, db_storage := s2, db_state := WritePoisoned\<rparr>)" by simp
  qed (use s1 opened src lt in auto)
qed

lemma compact_file_post:
  assumes crate: "crc32c_crate E" and dev: "device_faults (db_storage db)" and healthy: "db_state db = Healthy"
    and fdb: "file_db E db sb items batches" and map: "image_map items batches = map_of live"
    and live: "distinct (map fst live)" "base_slot_count (length live) = Inr slots" and reserve: "\<forall>n. try_reserve E n"
    and g: "unat (generation sb) + 2 < 2 ^ 64" and limit: "max_database_bytes (db_options db) < 2 ^ 63"
    and n: "n = segment_length slots live"
  shows "post (compact_file E (length live) n) db (\<lambda>r db'. compacting E db (map_of live) r db'
    \<or> (\<exists>e. r = Inl (Err e)) \<and> unchanged db db' \<and> (\<not> file_storage_quiet (db_storage db) \<or> max_database_bytes (db_options db) < compact_end db n))"
    (is "post _ _ ?Q")
proof -
  let ?s0 = "db_storage db" and ?img = "storage_image (db_storage db)" and ?limit = "max_database_bytes (db_options db)"
  let ?src = "max (length ?img + 17) (8192 + n + 17)"
  have is_file: "\<not> storage_is_memory ?s0" using fdb by (simp add: file_db_def)
  have refused: "?Q (Inl (Err e)) (db\<lparr>db_storage := s'\<rparr>)"
    if "file_step ?s0 s'" "storage_image s' = ?img" "\<not> file_storage_quiet ?s0 \<or> ?limit < compact_end db n" for e s'
    using that by (auto simp: unchanged_def at_file_def)
  let ?staged = "compact_staged E (length ?img) (8192 + n) ?src (?src + n) (length live) n"
  have capacity: "post (io_then (ensure_capacity (?src + n - length ?img)) (\<lambda>_. ?staged)) (db\<lparr>db_storage := s1\<rparr>) ?Q"
    if s1: "file_step ?s0 s1" "storage_image s1 = ?img" "storage_position s1 = length ?img" and lt: "?src + n < usize_limit" for s1
    unfolding ensure_capacity_def io_then_assoc
  proof (rule db_step [where P = "\<lambda>x s'. x = length ?img \<and> storage_image s' = ?img \<and> storage_position s' = length ?img" and R = "\<lambda>s'. storage_image s' = ?img"])
    show "file_step ?s0 (db_storage (db\<lparr>db_storage := s1\<rparr>))" using s1 by simp
    assume "\<not> storage_is_memory (db_storage (db\<lparr>db_storage := s1\<rparr>))"
    from storage_len_post [OF this] s1 show "post storage_len (db_storage (db\<lparr>db_storage := s1\<rparr>)) (\<lambda>r s'. file_step (db_storage (db\<lparr>db_storage := s1\<rparr>)) s'
      \<and> ((\<exists>x. r = Inr x \<and> x = length ?img \<and> storage_image s' = ?img \<and> storage_position s' = length ?img)
        \<or> faulty (db_storage (db\<lparr>db_storage := s1\<rparr>)) r \<and> storage_image s' = ?img))"
      by (auto simp: post_def)
  next
    fix x s2
    assume s2: "file_step ?s0 s2" "x = length ?img \<and> storage_image s2 = ?img \<and> storage_position s2 = length ?img"
    have add: "checked_add x (?src + n - length ?img) = Some (?src + n)" using lt s2(2) by (auto simp: checked_add_def)
    show "post (io_then (\<lambda>db. let limit = max_database_bytes (db_options db) in
       case checked_add x (?src + n - length ?img) of
         None \<Rightarrow> (Inl (Err (database_full limit (usize_limit - 1))), db)
       | Some required \<Rightarrow> if required > limit then (Inl (Err (database_full limit required)), db) else (Inr (), db)) (\<lambda>_. ?staged))
       (db\<lparr>db_storage := s1, db_storage := s2\<rparr>) ?Q"
    proof (cases "?src + n > ?limit")
      case True
      with refused [of s2] s2 add show ?thesis by (simp add: post_def io_then_def Let_def compact_end_def)
    next
      case False
      then have "post ?staged (db\<lparr>db_storage := s2\<rparr>) (compacting E db (map_of live))"
        using s2 by (intro compact_staging_post [OF crate dev healthy fdb map live reserve g limit n refl refl]) (auto simp: at_file_def)
      with False add show ?thesis by (simp add: post_def io_then_def Let_def)
    qed
  qed (use refused in auto)
  have huge: "?limit < compact_end db n" if "\<not> ?src + n < usize_limit"
    using that limit by (simp add: compact_end_def usize_limit_def)
  show ?thesis
    unfolding compact_file_def
  proof (rule db_step [OF file_step_refl [OF is_file], where P = "\<lambda>x s'. x = length ?img \<and> storage_image s' = ?img \<and> storage_position s' = length ?img"
        and R = "\<lambda>s'. storage_image s' = ?img"])
    from storage_seek_end_post [OF is_file, of E] show "post (question (seek_end (storage_ops E))) ?s0 (\<lambda>r s'. file_step ?s0 s'
      \<and> ((\<exists>x. r = Inr x \<and> x = length ?img \<and> storage_image s' = ?img \<and> storage_position s' = length ?img) \<or> faulty ?s0 r \<and> storage_image s' = ?img))"
      by (rule post_weaken) auto
  next
    fix x s1
    assume s1: "file_step ?s0 s1" "x = length ?img \<and> storage_image s1 = ?img \<and> storage_position s1 = length ?img"
    have bad: "?Q (Inl (Err e)) (db\<lparr>db_storage := s1\<rparr>)" if "\<not> ?src + n < usize_limit" for e
      using refused [OF s1(1)] s1(2) huge [OF that] by blast
    show "post (io_then (io_lift (ok_or (Err (from_io InvalidInput ''compact size overflow'')) (checked_add DATA_START n))) (\<lambda>destination_end.
     io_then (io_lift (ok_or (Err (from_io InvalidInput ''compact marker overflow'')) (checked_add x LOG_HEADER_SIZE))) (\<lambda>marker_end.
     io_then (io_lift (ok_or (Err (from_io InvalidInput ''compact gap overflow'')) (checked_add destination_end LOG_HEADER_SIZE))) (\<lambda>gap_end.
     let source_offset = max marker_end gap_end in
     io_then (io_lift (ok_or (Err (from_io InvalidInput ''compact size overflow'')) (checked_add source_offset n))) (\<lambda>source_end.
     io_then (ensure_capacity (source_end - x)) (\<lambda>_.
     compact_staged E x destination_end source_offset source_end (length live) n)))))) (db\<lparr>db_storage := s1\<rparr>) ?Q"
    proof (cases "?src + n < usize_limit")
      case True
      then have "checked_add DATA_START n = Some (8192 + n)" "checked_add x LOG_HEADER_SIZE = Some (length ?img + 17)"
        "checked_add (8192 + n) LOG_HEADER_SIZE = Some (8192 + n + 17)" "checked_add ?src n = Some (?src + n)"
        using s1(2) by (auto simp: checked_add_def)
      then show ?thesis using capacity [OF s1(1) _ _ True] s1(2) by (simp add: io_lift_then Let_def)
    next
      case False
      then show ?thesis using bad [OF False] s1(2)
        by (intro post_then_lift) (auto simp: checked_add_def Let_def intro!: post_then_lift split: if_splits)
    qed
  qed (use refused in auto)
qed

end
