(* ===== verification/Lkv_Maintenance_Properties.thy ===== *)
theory Lkv_Maintenance_Properties
  imports Lkv_Maintenance_Correct
begin

section \<open>Properties of compaction and snapshots\<close>

text \<open>
  What a user of compaction can rely on: it never loses the map, whatever fails and wherever it stops; on a
  file without faults it succeeds when the limit leaves room for it, and then the file holds nothing but the
  base; and it does not run while a snapshot is alive.
\<close>

subsection \<open>The outcome of a compaction\<close>

lemma reverified_on_file:
  assumes "file_db E db sb items batches" and "reverified db db1" and "opened E sb items batches (db_base db1, db_overlay db1)"
  shows "file_db E db1 sb items batches"
  using assms reverified_fields [OF assms(2)] by (simp add: file_db_def)

lemma measure_same_map:
  fixes E :: externs
  assumes "measure_base_iter live = Inr (k, n)" and "distinct (map fst live)" and "distinct (map fst live2)" and "map_of live2 = map_of live"
    and "entries_ok live2" and "\<forall>n. try_reserve E n" and "n < usize_limit"
  shows "measure_base_iter live2 = Inr (length live2, n)"
proof -
  from assms(1) obtain slots where "base_slot_count (length live) = Inr slots" "n = segment_length slots live" by (rule measure_base_iter_inv)
  moreover note same_map_length [OF assms(3,2,4)]
  ultimately have "base_fits E 0 slots live2" "segment_length slots live2 = n"
    using assms(5-7) by (simp_all add: base_fits_def segment_length_def data_length_def)
  with measure_base_iter_eq show ?thesis by metis
qed

lemma measure_records_no_panic: "no_panic (measure_records items observed acc)"
  by (induction items observed acc rule: measure_records.induct) (auto intro!: no_panic_and_then)

lemma measure_base_iter_no_panic: "no_panic (measure_base_iter items)"
  unfolding measure_base_iter_def base_slot_count_def
  by (auto intro!: no_panic_and_then measure_records_no_panic)

text \<open>What is left of a compaction, whether it succeeds or fails.\<close>

definition compact_outcome :: "externs \<Rightarrow> database \<Rightarrow> (bytes \<rightharpoonup> bytes) \<Rightarrow> unit result \<Rightarrow> database \<Rightarrow> bool" where
  "compact_outcome E db m r db' \<longleftrightarrow> file_step (db_storage db) (db_storage db') \<and> holds E (storage_image (db_storage db')) m \<and> db_options db' = db_options db
     \<and> length (storage_image (db_storage db')) \<le> max (length (storage_image (db_storage db))) (max_database_bytes (db_options db))
     \<and> (r = Inr () \<and> db_on_file E db' m \<and> is_compact db'
        \<or> (\<exists>e. r = Inl (Err e)) \<and> (db_on_file E db' m \<or> db_state db' = WritePoisoned \<and> db_reads E db' m \<or> db_state db' = Unavailable))"

lemma compact_outcome_compacting:
  "compacting E db1 m r db' \<Longrightarrow> db_storage db1 = db_storage db \<Longrightarrow> db_options db1 = db_options db \<Longrightarrow> compact_outcome E db m r db'"
  unfolding compacting_def compact_outcome_def by auto

lemma compact_outcome_refused:
  assumes "unchanged db1 db'" and "db_on_file E db1 m" and "db_storage db1 = db_storage db" "db_options db1 = db_options db"
    and "r = Inr () \<and> is_compact db' \<or> (\<exists>e. r = Inl (Err e))"
  shows "compact_outcome E db m r db'"
  using assms unchanged_on_file [OF assms(1,2)] db_on_file_holds [of E db' m]
  by (auto simp: compact_outcome_def unchanged_def at_file_def)

lemma already_compact_post:
  assumes fdb: "file_db E db sb items batches"
  shows "post already_compact db (\<lambda>r db'. unchanged db db' \<and> ((\<exists>b. r = Inr b \<and> (b \<longrightarrow> is_compact db')) \<or> (\<exists>e. r = Inl (Err e)) \<and> \<not> file_storage_quiet (db_storage db)))"
proof -
  let ?img = "storage_image (db_storage db)"
  have is_file: "\<not> storage_is_memory (db_storage db)" using fdb by (simp add: file_db_def)
  show ?thesis
  proof (cases "active_offset (db_base db) = DATA_START \<and> overlay_is_empty (overlay_index (db_overlay db))")
    case False
    then have "already_compact db = (Inr False, db)" unfolding already_compact_def by (simp only: if_False)
    then show ?thesis by (rule postI) (use unchanged_refl [OF is_file] in blast)
  next
    case True
    then have run: "already_compact db = io_then (on_db_storage storage_len) (\<lambda>len db. (Inr (len = active_log_start (db_base db)), db)) db"
      unfolding already_compact_def by simp
    have "post (io_then (on_db_storage storage_len) (\<lambda>len db. (Inr (len = active_log_start (db_base db)), db))) db
      (\<lambda>r db'. unchanged db db' \<and> ((\<exists>b. r = Inr b \<and> (b \<longrightarrow> is_compact db')) \<or> (\<exists>e. r = Inl (Err e)) \<and> \<not> file_storage_quiet (db_storage db)))"
    proof (rule unchanged_look [OF unchanged_refl [OF is_file], where P = "\<lambda>x s'. x = length ?img"])
      from storage_len_post [OF is_file] show "post storage_len (db_storage db) (\<lambda>r s'. file_step (db_storage db) s' \<and> storage_image s' = ?img
        \<and> ((\<exists>x. r = Inr x \<and> x = length ?img) \<or> faulty (db_storage db) r))" by (rule post_weaken) auto
    next
      fix x db'
      assume "unchanged db db'" "x = length ?img"
      with True show "post (\<lambda>db. (Inr (x = active_log_start (db_base db)), db)) db' (\<lambda>r db'. unchanged db db'
          \<and> ((\<exists>b. r = Inr b \<and> (b \<longrightarrow> is_compact db')) \<or> (\<exists>e. r = Inl (Err e)) \<and> \<not> file_storage_quiet (db_storage db)))"
        by (auto simp: post_def is_compact_def unchanged_def at_file_def)
    qed simp
    then show ?thesis by (simp add: post_def run)
  qed
qed

lemma unchanged_trans: "unchanged db db1 \<Longrightarrow> unchanged db1 db2 \<Longrightarrow> unchanged db db2"
  using file_step_trans by (fastforce simp: unchanged_def at_file_def)

lemma unchanged_file_db: "unchanged db db' \<Longrightarrow> file_db E db sb items batches \<Longrightarrow> file_db E db' sb items batches"
  by (auto simp: unchanged_def file_db_def at_file_def)

text \<open>The reasons for which compaction does not start.\<close>

definition compact_refuses :: "database \<Rightarrow> (bytes \<rightharpoonup> bytes) \<Rightarrow> bool" where
  "compact_refuses db m \<longleftrightarrow> db_snapshots db \<noteq> 0 \<or> (\<forall>live k n. distinct (map fst live) \<and> map_of live = m \<and> measure_base_iter live = Inr (k, n)
     \<longrightarrow> max_database_bytes (db_options db) < compact_end db n)"

lemma compact_rest_post:
  assumes crate: "crc32c_crate E" and dev: "device_faults (db_storage db)" and healthy: "db_state db = Healthy"
    and fdb: "file_db E db sb items batches" and map: "image_map items batches = m"
    and g: "unat (generation sb) + 2 < 2 ^ 64" and limit: "max_database_bytes (db_options db) < 2 ^ 63"
  shows "post (\<lambda>db. case and_then (live_entries E db) measure_base_iter of
           Inl e \<Rightarrow> (Inl e, db)
         | Inr (live_len, expected_base_size) \<Rightarrow>
             if storage_is_memory (db_storage db) then compact_memory E live_len expected_base_size db
             else compact_file E live_len expected_base_size db) db
    (\<lambda>r db'. compact_outcome E db m r db' \<and> (r = Inr () \<or> \<not> file_storage_quiet (db_storage db) \<or> compact_refuses db m))"
    (is "post ?rest db ?Q")
proof -
  from fdb have opened: "opened E sb items batches (db_base db, db_overlay db)" and disk: "disk_image E (storage_image (db_storage db)) sb items batches []"
    and is_file: "\<not> storage_is_memory (db_storage db)" by (simp_all add: file_db_def)
  have ok: "\<forall>staged \<in> set batches. batch_ok staged" using disk by (simp add: disk_image_def)
  have reserve: "\<forall>n. try_reserve E n" using opened by (auto simp: opened_def base_ready_def Let_def base_fits_def)
  have on_file: "db_on_file E db m" using healthy fdb map by (auto simp: db_on_file_def)
  obtain live where live: "live_entries E db = Inr live" "distinct (map fst live)" "map_of live = m" "entries_ok live"
    using live_entries_opened [OF opened ok] map by metis
  have refuses: "compact_refuses db m"
    if none: "\<And>n. measure_base_iter live = Inr (length live, n) \<Longrightarrow> max_database_bytes (db_options db) < compact_end db n"
    unfolding compact_refuses_def
  proof (intro disjI2 allI impI, elim conjE)
    fix live2 k n
    assume l2: "distinct (map fst live2)" "map_of live2 = m" "measure_base_iter live2 = Inr (k, n)"
    show "max_database_bytes (db_options db) < compact_end db n"
    proof (cases "n < usize_limit")
      case True
      from measure_same_map [OF l2(3,1) live(2) _ live(4) reserve True] l2(2) live(3) none show ?thesis by simp
    next
      case False
      with limit show ?thesis by (simp add: compact_end_def usize_limit_def)
    qed
  qed
  have refused: "?Q (Inl (Err e)) db'" if "unchanged db db'" "compact_refuses db m \<or> \<not> file_storage_quiet (db_storage db)" for e db'
    using compact_outcome_refused [OF that(1) on_file] that(2) by auto
  show ?thesis
  proof (cases "measure_base_iter live")
    case (Inl f)
    obtain e where "f = Err e" using Inl measure_base_iter_no_panic [of live] by (cases f) (auto simp: no_panic_def)
    with refused [OF unchanged_refl [OF is_file]] refuses Inl live(1) show ?thesis by (simp add: post_def)
  next
    case (Inr p)
    obtain k n where p: "p = (k, n)" by fastforce
    from Inr obtain slots where slots: "k = length live" "base_slot_count (length live) = Inr slots" "n = segment_length slots live"
      unfolding p by (rule measure_base_iter_inv)
    have image: "image_map items batches = map_of live" using map live(3) by simp
    note file_post = compact_file_post [OF crate dev healthy fdb image live(2) slots(2) reserve g limit slots(3)]
    have "post (compact_file E (length live) n) db ?Q"
    proof (rule post_weaken [OF file_post])
      fix r db'
      assume "compacting E db (map_of live) r db' \<or> (\<exists>e. r = Inl (Err e)) \<and> unchanged db db'
        \<and> (\<not> file_storage_quiet (db_storage db) \<or> max_database_bytes (db_options db) < compact_end db n)"
      then show "?Q r db'"
      proof (elim disjE conjE exE)
        assume "compacting E db (map_of live) r db'"
        then show ?thesis using compact_outcome_compacting live(3) by (auto simp: compacting_def)
      next
        fix e
        assume "r = Inl (Err e)" "unchanged db db'" "max_database_bytes (db_options db) < compact_end db n"
        then show ?thesis using refused refuses Inr p slots(1) by simp
      qed (use refused in auto)
    qed
    then show ?thesis using live(1) Inr is_file slots(1) p by (simp add: post_def)
  qed
qed

lemma compact_outcome_trans:
  "compact_outcome E db1 m r db' \<Longrightarrow> file_step (db_storage db) (db_storage db1) \<Longrightarrow> storage_image (db_storage db1) = storage_image (db_storage db) \<Longrightarrow> db_options db1 = db_options db
    \<Longrightarrow> compact_outcome E db m r db'"
  using file_step_trans by (auto simp: compact_outcome_def)

lemma compact_refuses_same:
  "compact_refuses db1 m \<Longrightarrow> db_snapshots db1 = db_snapshots db \<Longrightarrow> storage_image (db_storage db1) = storage_image (db_storage db)
    \<Longrightarrow> db_options db1 = db_options db \<Longrightarrow> compact_refuses db m"
  by (simp add: compact_refuses_def compact_end_def)

lemma compact_post:
  assumes crate: "crc32c_crate E" and dev: "device_faults (db_storage db)" and on_file: "db_on_file E db m"
    and g: "active_generation (db_base db) + 2 < 2 ^ 64" and limit: "max_database_bytes (db_options db) < 2 ^ 63"
  shows "post (compact E) db (\<lambda>r db'. compact_outcome E db m r db' \<and> (r = Inr () \<or> \<not> file_storage_quiet (db_storage db) \<or> compact_refuses db m))"
    (is "post _ db ?Q")
proof -
  from on_file obtain sb items batches where healthy: "db_state db = Healthy" and fdb: "file_db E db sb items batches"
    and map: "image_map items batches = m" by (auto simp: db_on_file_def)
  from fdb have opened: "opened E sb items batches (db_base db, db_overlay db)" and is_file: "\<not> storage_is_memory (db_storage db)"
    by (simp_all add: file_db_def)
  have generation: "unat (generation sb) + 2 < 2 ^ 64"
    using g opened base_ready_generation [of E "db_base db" sb items] by (simp add: opened_def)
  show ?thesis
  proof (cases "db_snapshots db = 0")
    case False
    with healthy compact_outcome_refused [OF unchanged_refl [OF is_file] on_file refl refl] show ?thesis
      by (auto simp: post_def compact_def guarded_def ensure_writable_def compact_refuses_def)
  next
    case True
    obtain db1 where verify: "db_verify E db = (Inr (), db1)" "reverified db db1" "opened E sb items batches (db_base db1, db_overlay db1)"
      using db_verify_opened [OF opened] healthy by auto
    note fields = reverified_fields [OF verify(2)]
    have fdb1: "file_db E db1 sb items batches" by (rule reverified_on_file [OF fdb verify(2,3)])
    have on_file1: "db_on_file E db1 m" using fdb1 map fields healthy by (auto simp: db_on_file_def)
    have snaps: "db_snapshots db1 = 0" using verify(2) True by (auto simp: reverified_def)
    let ?rest = "\<lambda>db. case and_then (live_entries E db) measure_base_iter of
           Inl e \<Rightarrow> (Inl e, db)
         | Inr (live_len, expected_base_size) \<Rightarrow>
             if storage_is_memory (db_storage db) then compact_memory E live_len expected_base_size db
             else compact_file E live_len expected_base_size db"
    have "post (io_then already_compact (\<lambda>nothing_to_do. if nothing_to_do then io_return () else ?rest)) db1 ?Q"
    proof (rule post_then [OF already_compact_post [OF fdb1]])
      fix b db2
      assume "unchanged db1 db2 \<and> ((\<exists>b'. Inr b = Inr b' \<and> (b' \<longrightarrow> is_compact db2)) \<or> (\<exists>e. (Inr b :: bool result) = Inl (Err e)) \<and> \<not> file_storage_quiet (db_storage db1))"
      then have db2: "unchanged db1 db2" "b \<longrightarrow> is_compact db2" by auto
      then have same: "db_options db2 = db_options db" "storage_image (db_storage db2) = storage_image (db_storage db)" "db_state db2 = Healthy"
        "file_step (db_storage db) (db_storage db2)" "db_snapshots db2 = db_snapshots db" using fields healthy snaps True by (auto simp: unchanged_def at_file_def)
      show "post (if b then io_return () else ?rest) db2 ?Q"
      proof (cases b)
        case True
        with db2 compact_outcome_refused [OF db2(1) on_file1] fields show ?thesis by (simp add: post_def)
      next
        case False
        have limit2: "max_database_bytes (db_options db2) < 2 ^ 63" using limit same(1) by simp
        from compact_rest_post [OF crate device_faults_step [OF same(4) dev] same(3) unchanged_file_db [OF db2(1) fdb1] map generation limit2]
        have "post ?rest db2 ?Q"
          by (rule post_weaken) (use same compact_outcome_trans compact_refuses_same file_step_quiet [OF same(4)] in blast)
        with False show ?thesis by simp
      qed
    next
      fix e db2
      assume "unchanged db1 db2 \<and> ((\<exists>b'. (Inl e :: bool result) = Inr b' \<and> (b' \<longrightarrow> is_compact db2)) \<or> (\<exists>e'. (Inl e :: bool result) = Inl (Err e')) \<and> \<not> file_storage_quiet (db_storage db1))"
      with compact_outcome_refused [of db1 db2 E m db "Inl e"] on_file1 fields show "?Q (Inl e) db2" by auto
    qed
    moreover have "compact E db = io_then already_compact (\<lambda>nothing_to_do. if nothing_to_do then io_return () else ?rest) db1"
      using healthy True verify(1) by (simp add: compact_def guarded_def ensure_writable_def io_then_def)
    ultimately show ?thesis by (simp add: post_def)
  qed
qed

subsection \<open>A handle to compact\<close>

lemma commit_keeps:
  assumes crate: "crc32c_crate E" and db: "db_on_file E db m" and limit: "max_database_bytes (db_options db) < 2 ^ 63"
    and staged: "staged_ok staged" "batch_keys_ok staged" "checksums_ok E staged (if cached \<noteq> [] then Some cached else None)"
    and run: "commit_staged E staged cached db = (r, db')"
  shows "file_step (db_storage db) (db_storage db') \<and> db_base db' = db_base db \<and> db_snapshots db' = db_snapshots db
    \<and> db_options db' = db_options db \<and> (\<exists>suffix. storage_image (db_storage db') = storage_image (db_storage db) @ suffix)"
proof (cases "staged = []")
  case True
  with db run show ?thesis
    by (auto simp: db_on_file_def file_db_def commit_staged_def commit_staged_with_def guarded_def ensure_writable_def file_step_refl)
next
  case False
  from db obtain sb items batches where healthy: "db_state db = Healthy" and fdb: "file_db E db sb items batches" by (auto simp: db_on_file_def)
  from postD [OF commit_staged_post [OF crate fdb healthy limit False staged] run] show ?thesis
    by (auto simp: committed_def unchanged_def poisoned_by_def at_file_def)
qed

text \<open>The handle on a file with one batch in its log.\<close>

lemma sample_db:
  obtains db f where "db_on_file reference_externs db [[1] \<mapsto> [2, 3]]" and "db_storage db = FileStorage f" and "plan f = []"
    and "db_options db = default_options" and "db_snapshots db = 0" and "active_generation (db_base db) = 1"
    and "length (contents f) \<le> 9000"
proof -
  let ?E = reference_externs
  note crate = reference.crc32c_crate_axioms and fits = base_fits_empty [OF reference_reserve]
  have disk: "disk_image ?E (empty_image ?E) (empty_superblock ?E) [] [] []" by (rule empty_disk_image [OF reference_reserve])
  let ?sb = "empty_superblock ?E" and ?seg = "segment_bytes reference_externs 8192 0 []"
  have "written_superblock ?E 8192 0 [] ?sb"
    by (simp add: written_superblock_def empty_superblock_fields segment_length_empty) (simp add: empty_superblock_def superblock_new_def)
  moreover have "length (deref (Mapped ?seg)) < 2 ^ 63" using base_fits_facts(4) [OF fits] by (simp add: segment_length_empty)
  ultimately obtain base where base: "base_ready ?E base ?sb []"
    using base_ready_open [of ?E ?sb 0 "[]" "Mapped ?seg"] fits by (auto simp: empty_superblock_fields)
  define db where "db = \<lparr>db_storage = FileStorage (empty_file ?E), db_base = base,
    db_overlay = overlay_state_with_memory (overlay_mapped None) 0, db_options = default_options, db_snapshots = 0, db_state = Healthy\<rparr>"
  have fdb: "file_db ?E db ?sb [] []"
    using disk base overlay_ready_empty by (simp add: file_db_def opened_def db_def empty_file_def)
  moreover have "image_map [] [] = Map.empty" "db_state db = Healthy" by (simp_all add: image_map_def replay_def db_def)
  ultimately have on_file: "db_on_file ?E db Map.empty" unfolding db_on_file_def by blast
  have len: "length (storage_image (db_storage db)) = 8244" using length_empty_image [OF reference_reserve] by (simp add: db_def empty_file_def)
  have limit: "max_database_bytes (db_options db) < 2 ^ 63" by (simp add: db_def default_options_def)
  have sums: "checksums_ok ?E sample_batch (if [] \<noteq> ([] :: u32 keymap) then Some [] else None)" by (simp add: sample_batch_facts)
  have quiet: "file_storage_quiet (db_storage db)" by (simp add: db_def empty_file_def file_quiet_def)
  have batch: "sample_batch \<noteq> []" "db_state db = Healthy" by (simp_all add: sample_batch_def db_def)
  obtain r db' where run: "commit_staged ?E sample_batch [] db = (r, db')" by fastforce
  from postD [OF commit_staged_post [OF crate fdb batch(2) limit batch(1) sample_batch_facts(1,2) sums] run] quiet len
  have r: "r = Inr ()" and "committed ?E db (batch_record ?E sample_batch) ([] @ [sample_batch]) db'"
    by (auto simp: commit_refused_def sample_batch_facts db_def default_options_def reference_reserve)
  then obtain f where f: "db_storage db' = FileStorage f" "plan f = []" "length (contents f) \<le> 9000"
    and db': "db_options db' = default_options" "db_snapshots db' = 0" "active_generation (db_base db') = 1"
    using len base_ready_generation [OF base] by (auto simp: committed_def at_file_def file_step_def db_def empty_file_def sample_batch_facts empty_superblock_fields)
  moreover have "db_on_file ?E db' [[1] \<mapsto> [2, 3]]"
    using commit_outcome [OF crate on_file limit sample_batch_facts(1,2) sums run] r by (auto simp: sample_batch_map)
  ultimately show thesis by (intro that)
qed

lemma on_file_plan: "db_on_file E db m \<Longrightarrow> db_storage db = FileStorage f \<Longrightarrow> db_on_file E (db\<lparr>db_storage := FileStorage (f\<lparr>plan := p\<rparr>)\<rparr>) m"
  by (auto simp: db_on_file_def file_db_def)

text \<open>A plan under which the seventh call fails with a part of its bytes written, and the ninth without any.\<close>

definition sample_plan :: "fault option list" where
  "sample_plan = replicate 6 None @ [Some (Fault 600 (IoError Other ''device'')), None, Some (Fault 0 (IoError Other ''device''))]"

subsection \<open>Properties of compaction\<close>



text \<open>
  C13. What compaction leaves of the handle. On success the handle is healthy, stands for the same map, and the
  file is the two pages and the base and nothing else. On failure, which is always an error value, the handle
  still stands for the map, or it refuses writes and reads the map, or it refuses everything. In each case
  the file keeps its limit.
\<close>

theorem compact_handle:
  assumes "crc32c_crate E" and "device_faults (db_storage db)" and "db_on_file E db m"
    and "active_generation (db_base db) + 2 < 2 ^ 64" and "max_database_bytes (db_options db) < 2 ^ 63"
    and "length (storage_image (db_storage db)) \<le> max_database_bytes (db_options db)" and "compact E db = (r, db')"
  shows "length (storage_image (db_storage db')) \<le> max_database_bytes (db_options db)
    \<and> (r = Inr () \<longrightarrow> db_on_file E db' m \<and> is_compact db')
    \<and> (\<forall>e. r = Inl e \<longrightarrow> (\<exists>err. e = Err err) \<and> (db_on_file E db' m
        \<or> db_state db' = WritePoisoned \<and> (\<forall>key. fst (db_get E key db') = Inr (m key)) \<and> compact E db' = (Inl (Err Poisoned), db')
        \<or> (\<forall>key. db_get E key db' = (Inl (Err Poisoned), db')) \<and> compact E db' = (Inl (Err Poisoned), db')))"
proof -
  have reads: "fst (db_get E key db') = Inr (m key)" if "db_reads E db' m" for key
    using db_get_reads [OF that, of key] by auto
  have writes: "compact E db' = (Inl (Err Poisoned), db')" if "db_state db' \<noteq> Healthy"
    using that by (simp add: compact_def guarded_def ensure_writable_def)
  have gone: "db_get E key db' = (Inl (Err Poisoned), db')" if "db_state db' = Unavailable" for key
    using that by (simp add: db_get_def guarded_def ensure_available_def)
  from postD [OF compact_post [OF assms(1-5)] assms(7)] have "compact_outcome E db m r db'" by simp
  with assms(6) reads writes gone show ?thesis by (auto simp: compact_outcome_def)
qed

theorem compact_handle_witness:
  "\<exists>db f r db'. db_on_file reference_externs db [[1] \<mapsto> [2, 3]] \<and> db_storage db = FileStorage f \<and> plan f = sample_plan
    \<and> compact reference_externs db = (r, db') \<and> length (storage_image (db_storage db')) \<le> 1099511627776"
proof -
  let ?E = reference_externs
  obtain db0 f0 where db0: "db_on_file ?E db0 [[1] \<mapsto> [2, 3]]" "db_storage db0 = FileStorage f0" "db_options db0 = default_options"
    "active_generation (db_base db0) = 1" "length (contents f0) \<le> 9000" by (rule sample_db)
  let ?f = "f0\<lparr>plan := sample_plan\<rparr>" and ?db = "db0\<lparr>db_storage := FileStorage (f0\<lparr>plan := sample_plan\<rparr>)\<rparr>"
  have db: "db_on_file ?E ?db [[1] \<mapsto> [2, 3]]" by (rule on_file_plan [OF db0(1,2)])
  have dev: "device_faults (db_storage ?db)" by (simp add: device_faults_def sample_plan_def)
  have g: "active_generation (db_base ?db) + 2 < 2 ^ 64" "max_database_bytes (db_options ?db) < 2 ^ 63"
    "length (storage_image (db_storage ?db)) \<le> max_database_bytes (db_options ?db)"
    using db0(3-5) by (simp_all add: default_options_def)
  obtain r db' where run: "compact ?E ?db = (r, db')" by fastforce
  from compact_handle [OF reference.crc32c_crate_axioms dev db g run] have "length (storage_image (db_storage db')) \<le> 1099511627776"
    using db0(3) by (simp add: default_options_def)
  with db run show ?thesis by (intro exI [of _ ?db] exI [of _ ?f] exI [of _ r] exI [of _ db']) simp
qed

text \<open>
  C14. Compaction succeeds when it can. On a file without faults, with no snapshot alive, and with room below
  the limit for the staging base behind the file or behind the relocated base, compaction returns success; the
  handle stands for the same map and the file is the two pages and the base.
\<close>

theorem compact_succeeds:
  assumes "crc32c_crate E" and "file_storage_quiet (db_storage db)" and "db_on_file E db m" and "db_snapshots db = 0"
    and "active_generation (db_base db) + 2 < 2 ^ 64" and "max_database_bytes (db_options db) < 2 ^ 63"
    and "distinct (map fst live)" and "map_of live = m" and "measure_base_iter live = Inr (k, n)"
    and "compact_end db n \<le> max_database_bytes (db_options db)"
  shows "\<exists>db'. compact E db = (Inr (), db') \<and> db_on_file E db' m \<and> is_compact db'"
proof -
  have dev: "device_faults (db_storage db)"
    using assms(2) by (cases "db_storage db") (auto simp: device_faults_def file_quiet_def)
  obtain r db' where run: "compact E db = (r, db')" by fastforce
  have "\<not> compact_refuses db m" using assms(4,7-10) by (auto simp: compact_refuses_def)
  with postD [OF compact_post [OF assms(1) dev assms(3,5,6)] run] assms(2) have "r = Inr ()" "compact_outcome E db m r db'" by auto
  with run show ?thesis by (auto simp: compact_outcome_def)
qed

theorem compact_succeeds_witness:
  "\<exists>db db'. db_on_file reference_externs db [[1] \<mapsto> [2, 3]] \<and> compact reference_externs db = (Inr (), db')
    \<and> db_on_file reference_externs db' [[1] \<mapsto> [2, 3]] \<and> is_compact db'"
proof -
  let ?E = reference_externs and ?live = "[([1], [2, 3])] :: entry list"
  obtain db f where db: "db_on_file ?E db [[1] \<mapsto> [2, 3]]" "db_storage db = FileStorage f" "plan f = []" "db_options db = default_options"
    "db_snapshots db = 0" "active_generation (db_base db) = 1" "length (contents f) \<le> 9000" by (rule sample_db)
  have m: "measure_base_iter ?live = Inr (1, 87)"
    using measure_base_iter_eq [OF base_fits_sample]
    by (simp add: segment_length_def data_length_def length_entry_bytes div_ceil_def)
  have "file_storage_quiet (db_storage db)" using db(2,3) by (simp add: file_quiet_def)
  from compact_succeeds [OF reference.crc32c_crate_axioms this db(1,5) _ _ _ _ m] db
  have "\<exists>db'. compact ?E db = (Inr (), db') \<and> db_on_file ?E db' [[1] \<mapsto> [2, 3]] \<and> is_compact db'"
    by (simp add: default_options_def compact_end_def)
  with db(1) show ?thesis by blast
qed

subsection \<open>Snapshots\<close>

lemma commits_keep:
  assumes crate: "crc32c_crate E" and "db_on_file E db m" and "max_database_bytes (db_options db) < 2 ^ 63"
    and "sequence_ok E batches" and "commits E batches db = (acked, db')"
  shows "db_base db' = db_base db \<and> db_snapshots db' = db_snapshots db \<and> (\<exists>suffix. storage_image (db_storage db') = storage_image (db_storage db) @ suffix)"
  using assms(2-)
proof (induction batches arbitrary: db m acked)
  case (Cons batch rest)
  obtain staged cached where batch: "batch = (staged, cached)" by fastforce
  obtain r db1 where run: "commit_staged E staged cached db = (r, db1)" by fastforce
  obtain acked1 where rest: "commits E rest db1 = (acked1, db')" using Cons.prems(4) run by (auto simp: batch split: prod.splits)
  have ok: "staged_ok staged" "batch_keys_ok staged" "checksums_ok E staged (if cached \<noteq> [] then Some cached else None)" "sequence_ok E rest"
    using Cons.prems(3) by (simp_all add: sequence_ok_def batch)
  note kept = commit_keeps [OF crate Cons.prems(1,2) ok(1-3) run]
  from commit_outcome [OF crate Cons.prems(1,2) ok(1-3) run] have "(\<exists>m'. db_on_file E db1 m') \<or> db_state db1 = WritePoisoned" by blast
  then show ?case
  proof (elim disjE exE)
    fix m'
    assume "db_on_file E db1 m'"
    with Cons.IH [OF this _ ok(4) rest] kept Cons.prems(2) show ?thesis by auto
  next
    assume "db_state db1 = WritePoisoned"
    then have "db' = db1" using rest commits_poisoned by auto
    with kept show ?thesis by auto
  qed
qed simp

lemma snap_reads_after: "snap_reads E snap m \<Longrightarrow> snap_reads E (foldl (\<lambda>s k. snd (snap_get E k s)) snap keys) m"
proof (induction keys arbitrary: snap)
  case (Cons k keys)
  with snap_get_reads [OF Cons.prems, of k] show ?case by auto
qed simp

text \<open>
  C12. Snapshots are isolated. Take a snapshot of a handle on a file that stands for a map, and go on with any
  sequence of commits on the handle, of which any may fail in any way. The snapshot reads the map of the moment
  it was taken, after any reads through it, and its length is the number of keys of that map. The bytes it maps
  are untouched: the file still begins with everything it held then. As long as the snapshot is alive,
  compaction, which would move them, is refused and changes nothing.
\<close>

theorem snapshot_isolated:
  assumes "crc32c_crate E" and "db_on_file E db m" and "max_database_bytes (db_options db) < 2 ^ 63" and "card (dom m) < 2 ^ 64"
    and "db_snapshot db = (Inr snap, db1)" and "sequence_ok E batches" and "commits E batches db1 = (acked, db2)"
  shows "(\<forall>keys key. fst (snap_get E key (foldl (\<lambda>s k. snd (snap_get E k s)) snap keys)) = Inr (m key))
    \<and> fst (snap_len E snap) = Inr (card (dom m))
    \<and> take (length (storage_image (db_storage db))) (storage_image (db_storage db2)) = storage_image (db_storage db)
    \<and> snap_base snap = active_mapping (db_base db2) \<and> (\<exists>e. compact E db2 = (Inl (Err e), db2))"
proof -
  have snap: "snap_reads E snap m" and db1: "db1 = db\<lparr>db_snapshots := Suc (db_snapshots db)\<rparr>"
    using db_snapshot_reads [OF db_on_file_reads [OF assms(2)] assms(5)] by simp_all
  have "db_on_file E db1 m" "max_database_bytes (db_options db1) < 2 ^ 63"
    using assms(2,3) by (simp_all add: db1 db_on_file_def file_db_def)
  note kept = commits_keep [OF assms(1) this assms(6,7)]
  have "snap_base snap = active_mapping (db_base db)"
    using assms(5) by (auto simp: db_snapshot_def guarded_def split: sum.splits)
  moreover have "\<exists>e. compact E db2 = (Inl (Err e), db2)"
    using kept db1 by (auto simp: compact_def guarded_def ensure_writable_def)
  moreover have "fst (snap_len E snap) = Inr (card (dom m))"
    using snap_len_reads [OF snap] assms(4) by (auto simp: usize_limit_def)
  moreover have "fst (snap_get E key (foldl (\<lambda>s k. snd (snap_get E k s)) snap keys)) = Inr (m key)" for keys key
    using snap_get_reads [OF snap_reads_after [OF snap, of keys], of key] by auto
  ultimately show ?thesis using kept db1 by auto
qed

theorem snapshot_isolated_witness:
  "\<exists>db snap db1 acked db2. db_on_file reference_externs db [[1] \<mapsto> [2, 3]] \<and> db_snapshot db = (Inr snap, db1)
    \<and> commits reference_externs [([([1], Put (Owned [9]))], [])] db1 = (acked, db2)
    \<and> fst (snap_get reference_externs [1] snap) = Inr (Some [2, 3]) \<and> fst (snap_len reference_externs snap) = Inr 1"
proof -
  let ?E = reference_externs and ?batches = "[([([1], Put (Owned [9]))], [])] :: (overlay_entry keymap \<times> u32 keymap) list"
  obtain db f where db: "db_on_file ?E db [[1] \<mapsto> [2, 3]]" "db_storage db = FileStorage f" "db_options db = default_options" by (rule sample_db)
  then have "db_state db = Healthy" by (simp add: db_on_file_def)
  then obtain snap db1 where snap: "db_snapshot db = (Inr snap, db1)" by (auto simp: db_snapshot_def guarded_def ensure_available_def)
  have limit: "max_database_bytes (db_options db) < 2 ^ 63" using db(3) by (simp add: default_options_def)
  have ok: "sequence_ok ?E ?batches"
    by (simp add: sequence_ok_def staged_ok_def batch_keys_ok_def keymap_ok_def checksums_ok_def)
  obtain acked db2 where run: "commits ?E ?batches db1 = (acked, db2)" by fastforce
  have "card (dom [[1] \<mapsto> [2, 3]] :: bytes set) < 2 ^ 64" by simp
  note isolated = snapshot_isolated [OF reference.crc32c_crate_axioms db(1) limit this snap ok run]
  from isolated have "fst (snap_get ?E [1] snap) = Inr (Some [2, 3])" by (auto dest!: spec [of _ "[]"] spec [of _ "[1]"])
  moreover from isolated have "fst (snap_len ?E snap) = Inr 1" by simp
  moreover note db(1) snap run
  ultimately show ?thesis by blast
qed

end
