(* ===== verification/Lkv_Session.thy ===== *)
theory Lkv_Session
  imports Lkv_Maintenance_Properties
begin

section \<open>Sessions on a database file\<close>

text \<open>
  A database file over its life: it is opened, read, written through transactions, compacted, looked at
  through snapshots, and closed or left behind by a crash, again and again, and any call on the file may
  fail. \<open>session_step\<close> is the program, \<open>spec_step\<close> what a user may rely on, and each step of the first is a step of
  the second. A crash inside a call is that call with every later call on the file failing, followed by
  \<open>Closed\<close>.
\<close>

subsection \<open>The specification\<close>

text \<open>
  The states a user can tell apart: a file at rest; a handle in service; a handle that a failed write has
  made refuse further ones, with the map it reads and the map in the file; and a handle that refuses everything.
\<close>

datatype spec_state =
    Stored "bytes \<rightharpoonup> bytes"
  | Serving "bytes \<rightharpoonup> bytes"
  | Failed "bytes \<rightharpoonup> bytes" "bytes \<rightharpoonup> bytes"
  | Down "bytes \<rightharpoonup> bytes"

datatype event =
    Opened bool
  | Wrote "(bytes \<times> bytes option) list" bool
  | Aborted
  | Refused
  | Got bytes "bytes option result"
  | Compacted bool
  | Snapped bool
  | Dropped
  | Closed

inductive spec_step :: "spec_state \<Rightarrow> event \<Rightarrow> spec_state \<Rightarrow> bool" where
  opened: "spec_step (Stored m) (Opened True) (Serving m)"
| not_opened: "spec_step (Stored m) (Opened False) (Stored m)"
| wrote: "spec_step (Serving m) (Wrote ops True) (Serving (apply_ops m ops))"
| not_written: "spec_step (Serving m) (Wrote ops False) (Serving m)"
| lost: "m' = m \<or> m' = apply_ops m ops \<Longrightarrow> spec_step (Serving m) (Wrote ops False) (Failed m m')"
| aborted: "spec_step (Serving m) Aborted (Serving m)"
| refused_serving: "spec_step (Serving m) Refused (Serving m)"
| refused_failed: "spec_step (Failed m m') Refused (Failed m m')"
| refused_down: "spec_step (Down m) Refused (Down m)"
| got: "spec_step (Serving m) (Got key (Inr (m key))) (Serving m)"
| got_failed: "spec_step (Failed m m') (Got key (Inr (m key))) (Failed m m')"
| got_nothing: "spec_step (Down m) (Got key (Inl (Err Poisoned))) (Down m)"
| compacted: "spec_step (Serving m) (Compacted True) (Serving m)"
| not_compacted: "a \<in> {Serving m, Failed m m, Down m} \<Longrightarrow> spec_step (Serving m) (Compacted False) a"
| not_compacted_failed: "spec_step (Failed m m') (Compacted False) (Failed m m')"
| not_compacted_down: "spec_step (Down m) (Compacted False) (Down m)"
| snapped: "spec_step (Serving m) (Snapped True) (Serving m)"
| snapped_failed: "spec_step (Failed m m') (Snapped True) (Failed m m')"
| not_snapped: "spec_step (Down m) (Snapped False) (Down m)"
| dropped: "a \<in> {Serving m, Failed m m', Down m} \<Longrightarrow> spec_step a Dropped a"
| closed: "spec_step (Serving m) Closed (Stored m)"
| closed_failed: "spec_step (Failed m m') Closed (Stored m')"
| closed_down: "spec_step (Down m) Closed (Stored m)"

inductive spec_run :: "spec_state \<Rightarrow> event list \<Rightarrow> spec_state \<Rightarrow> bool" where
  start: "spec_run a [] a"
| then_step: "spec_run a es a1 \<Longrightarrow> spec_step a1 e a2 \<Longrightarrow> spec_run a (es @ [e]) a2"

subsection \<open>The program\<close>

datatype world = File bytes | Handle database

text \<open>
  The plan of faults is chosen anew whenever the file is opened. The generation of a base grows by two with
  each compaction and is kept from wrapping around.
\<close>

inductive session_step :: "externs \<Rightarrow> database_options \<Rightarrow> world \<Rightarrow> event \<Rightarrow> world \<Rightarrow> bool" for E options where
  opened: "device_faults (FileStorage f) \<Longrightarrow> open_with_options E options (Inr f) None = (Inr db, s)
    \<Longrightarrow> session_step E options (File (contents f)) (Opened True) (Handle db)"
| not_opened: "device_faults (FileStorage f) \<Longrightarrow> open_with_options E options (Inr f) None = (Inl e, Some s)
    \<Longrightarrow> session_step E options (File (contents f)) (Opened False) (File (storage_image s))"
| wrote: "begin_write db = Inr t0 \<Longrightarrow> txn_run E t0 ops t \<Longrightarrow> txn_commit E t = (r, db')
    \<Longrightarrow> session_step E options (Handle db) (Wrote ops (r = Inr ())) (Handle db')"
| aborted: "begin_write db = Inr t0 \<Longrightarrow> txn_run E t0 ops t \<Longrightarrow> session_step E options (Handle db) Aborted (Handle (txn_abort t))"
| refused: "begin_write db = Inl e \<Longrightarrow> session_step E options (Handle db) Refused (Handle db)"
| got: "db_get E key db = (r, db') \<Longrightarrow> session_step E options (Handle db) (Got key r) (Handle db')"
| compacted: "active_generation (db_base db) + 2 < 2 ^ 64 \<Longrightarrow> compact E db = (r, db')
    \<Longrightarrow> session_step E options (Handle db) (Compacted (r = Inr ())) (Handle db')"
| snapped: "db_snapshot db = (Inr snap, db') \<Longrightarrow> session_step E options (Handle db) (Snapped True) (Handle db')"
| not_snapped: "db_snapshot db = (Inl e, db') \<Longrightarrow> session_step E options (Handle db) (Snapped False) (Handle db')"
| dropped: "session_step E options (Handle db) Dropped (Handle (drop_snapshot db))"
| closed: "session_step E options (Handle db) Closed (File (storage_image (db_storage db)))"

inductive session_run :: "externs \<Rightarrow> database_options \<Rightarrow> world \<Rightarrow> event list \<Rightarrow> world \<Rightarrow> bool" for E options where
  start: "session_run E options w [] w"
| then_step: "session_run E options w es w1 \<Longrightarrow> session_step E options w1 e w2 \<Longrightarrow> session_run E options w (es @ [e]) w2"

inductive_cases session_step_File: "session_step E options (File img) e w'"
inductive_cases session_step_Handle: "session_step E options (Handle db) e w'"

subsection \<open>The simulation\<close>

text \<open>What every handle of a session keeps.\<close>

definition session_ok :: "database_options \<Rightarrow> database \<Rightarrow> bool" where
  "session_ok options db \<longleftrightarrow> db_options db = options \<and> device_faults (db_storage db)
     \<and> length (storage_image (db_storage db)) \<le> max_database_bytes options"

fun represents :: "externs \<Rightarrow> database_options \<Rightarrow> world \<Rightarrow> spec_state \<Rightarrow> bool" where
  "represents E options (File img) (Stored m) \<longleftrightarrow> holds E img m \<and> length img \<le> max_database_bytes options"
| "represents E options (Handle db) (Serving m) \<longleftrightarrow> session_ok options db \<and> db_on_file E db m"
| "represents E options (Handle db) (Failed m m') \<longleftrightarrow> session_ok options db \<and> db_state db = WritePoisoned \<and> db_reads E db m
     \<and> holds E (storage_image (db_storage db)) m'"
| "represents E options (Handle db) (Down m) \<longleftrightarrow> session_ok options db \<and> db_state db = Unavailable \<and> holds E (storage_image (db_storage db)) m"
| "represents E options w a \<longleftrightarrow> False"

definition limits_ok :: "externs \<Rightarrow> database_options \<Rightarrow> bool" where
  "limits_ok E options \<longleftrightarrow> crc32c_crate E \<and> (\<forall>n. try_reserve E n) \<and> MIN_DATABASE_BYTES \<le> max_database_bytes options
     \<and> max_database_bytes options < 2 ^ 63"

lemma session_ok_same: "session_ok options db \<Longrightarrow> db_options db' = db_options db \<Longrightarrow> file_step (db_storage db) (db_storage db')
    \<Longrightarrow> length (storage_image (db_storage db')) \<le> max_database_bytes (db_options db) \<Longrightarrow> session_ok options db'"
  using device_faults_step by (auto simp: session_ok_def)

lemma session_ok_storage: "session_ok options db \<Longrightarrow> db_options db' = db_options db \<Longrightarrow> db_storage db' = db_storage db \<Longrightarrow> session_ok options db'"
  by (simp add: session_ok_def)

lemma simulate_open:
  assumes "limits_ok E options" and "represents E options (File (contents f)) a" and "device_faults (FileStorage f)"
    and "open_with_options E options (Inr f) None = (r, s)"
  shows "(\<forall>db. r = Inr db \<longrightarrow> (\<exists>a'. spec_step a (Opened True) a' \<and> represents E options (Handle db) a'))
    \<and> (\<forall>e s'. r = Inl e \<and> s = Some s' \<longrightarrow> (\<exists>a'. spec_step a (Opened False) a' \<and> represents E options (File (storage_image s')) a'))"
proof -
  from assms(2) obtain m where a: "a = Stored m" and m: "holds E (contents f) m" "length (contents f) \<le> max_database_bytes options"
    by (cases a) auto
  from assms(1) have limits: "\<forall>n. try_reserve E n" "MIN_DATABASE_BYTES \<le> max_database_bytes options" by (simp_all add: limits_ok_def)
  from open_with_options_post [OF m(1) assms(3) limits m(2)] assms(4) obtain s' where
    s': "s = Some s'" "file_step (FileStorage f) s'" "holds E (storage_image s') m" "length (storage_image s') \<le> length (contents f)"
      "(\<exists>db. r = Inr db \<and> db_storage db = s' \<and> db_options db = options \<and> db_on_file E db m) \<or> faulty (FileStorage f) r" by auto
  have "device_faults s'" by (rule device_faults_step [OF s'(2) assms(3)])
  with s' m(2) have "represents E options (Handle db) (Serving m)" if "r = Inr db" for db
    using that by (auto simp: session_ok_def)
  moreover have "represents E options (File (storage_image s')) (Stored m)" using s'(3,4) m(2) by simp
  ultimately show ?thesis using s'(1) by (auto simp: a intro: spec_step.opened spec_step.not_opened)
qed

lemma simulate_write:
  assumes ok: "limits_ok E options" and rep: "represents E options (Handle db) a"
    and begun: "begin_write db = Inr t0" and run: "txn_run E t0 ops t" and commit: "txn_commit E t = (r, db')"
  shows "\<exists>a'. spec_step a (Wrote ops (r = Inr ())) a' \<and> represents E options (Handle db') a'"
proof -
  have crate: "crc32c_crate E" using ok by (simp add: limits_ok_def)
  have healthy: "db_state db = Healthy"
    using begun by (cases "db_state db = Healthy") (simp_all add: begin_write_def ensure_writable_def)
  with rep obtain m where a: "a = Serving m" and db: "session_ok options db" "db_on_file E db m" by (cases a) auto
  have inv: "txn_inv E db m ops t" by (rule txn_run_inv [OF crate run begin_write_inv(1) [OF db(2) begun]])
  let ?db = "txn_db t" and ?m = "apply_ops m ops"
  from inv have db1: "db_on_file E ?db m" "session_ok options ?db" and map: "live_map m (staged_abs (txn_staged t)) = ?m"
    using session_ok_storage [OF db(1)] reverified_fields by (auto simp: txn_inv_def)
  have limit: "max_database_bytes (db_options ?db) < 2 ^ 63" using ok db1(2) by (simp add: session_ok_def limits_ok_def)
  from inv have staged: "staged_ok (txn_staged t)" "batch_keys_ok (txn_staged t)"
    "checksums_ok E (txn_staged t) (if txn_checksums t \<noteq> [] then Some (txn_checksums t) else None)"
    using checksums_ok_cached by (simp_all add: txn_inv_def txn_ok_def)
  note commit' = commit [unfolded txn_commit_def]
  note kept = commit_keeps [OF crate db1(1) limit staged commit']
  have session: "session_ok options db'" if "length (storage_image (db_storage db')) \<le> max_database_bytes (db_options ?db)"
    using session_ok_same [OF db1(2)] kept that by blast
  from commit_outcome [OF crate db1(1) limit staged commit', unfolded map] show ?thesis
  proof (elim disjE exE conjE)
    assume "r = Inr ()" "db_on_file E db' ?m" and len: "length (storage_image (db_storage db')) \<le> max_database_bytes (db_options ?db)"
    then show ?thesis using session [OF len] by (intro exI [of _ "Serving ?m"]) (simp add: a spec_step.wrote)
  next
    assume "r = Inr ()" "db_on_file E db' ?m" "db' = ?db"
    then show ?thesis using db1(2) by (intro exI [of _ "Serving ?m"]) (simp add: a spec_step.wrote)
  next
    fix e
    assume "r = Inl (Err e)" "db_on_file E db' m" "unchanged ?db db'"
    then show ?thesis using session db1(2)
      by (intro exI [of _ "Serving m"]) (auto simp: a unchanged_def at_file_def session_ok_def intro: spec_step.not_written)
  next
    fix e
    assume "r = Inl (Err e)" "db_reads E db' m" "db_state db' = WritePoisoned"
      and len: "length (storage_image (db_storage db')) \<le> max_database_bytes (db_options ?db)" and "holds E (storage_image (db_storage db')) m"
    then show ?thesis using session [OF len] by (intro exI [of _ "Failed m m"]) (simp add: a spec_step.lost)
  next
    fix e
    assume "r = Inl (Err e)" "db_reads E db' m" "db_state db' = WritePoisoned"
      and len: "length (storage_image (db_storage db')) \<le> max_database_bytes (db_options ?db)" and "holds E (storage_image (db_storage db')) ?m"
    then show ?thesis using session [OF len] by (intro exI [of _ "Failed m ?m"]) (simp add: a spec_step.lost)
  qed
qed

lemma simulate_abort:
  assumes ok: "limits_ok E options" and rep: "represents E options (Handle db) a"
    and begun: "begin_write db = Inr t0" and run: "txn_run E t0 ops t"
  shows "\<exists>a'. spec_step a Aborted a' \<and> represents E options (Handle (txn_abort t)) a'"
proof -
  have crate: "crc32c_crate E" using ok by (simp add: limits_ok_def)
  have healthy: "db_state db = Healthy"
    using begun by (cases "db_state db = Healthy") (simp_all add: begin_write_def ensure_writable_def)
  with rep obtain m where a: "a = Serving m" and db: "session_ok options db" "db_on_file E db m" by (cases a) auto
  have "txn_inv E db m ops t" by (rule txn_run_inv [OF crate run begin_write_inv(1) [OF db(2) begun]])
  then have "db_on_file E (txn_db t) m" "session_ok options (txn_db t)"
    using session_ok_storage [OF db(1)] reverified_fields by (auto simp: txn_inv_def)
  then show ?thesis by (intro exI [of _ "Serving m"]) (simp add: a txn_abort_def spec_step.aborted)
qed

lemma simulate_get:
  assumes rep: "represents E options (Handle db) a" and run: "db_get E key db = (r, db')"
  shows "\<exists>a'. spec_step a (Got key r) a' \<and> represents E options (Handle db') a'"
proof (cases a)
  case (Serving m)
  from rep run db_get_reads [OF db_on_file_reads, of E db m key] have "r = Inr (m key)" "reverified db db'" "db_on_file E db' m"
    by (auto simp: Serving)
  with rep session_ok_storage [of options db db'] reverified_fields show ?thesis
    by (intro exI [of _ "Serving m"]) (auto simp: Serving intro: spec_step.got)
next
  case (Failed m m')
  from rep run db_get_reads [of E db m key] have "r = Inr (m key)" "reverified db db'" "db_reads E db' m" by (auto simp: Failed)
  with rep session_ok_storage [of options db db'] reverified_fields show ?thesis
    by (intro exI [of _ "Failed m m'"]) (auto simp: Failed intro: spec_step.got_failed)
next
  case (Down m)
  with rep run have "r = Inl (Err Poisoned)" "db' = db" by (auto simp: db_get_def guarded_def ensure_available_def)
  with rep show ?thesis by (intro exI [of _ "Down m"]) (simp add: Down spec_step.got_nothing)
qed (use rep in simp)

lemma simulate_compact:
  assumes ok: "limits_ok E options" and rep: "represents E options (Handle db) a"
    and g: "active_generation (db_base db) + 2 < 2 ^ 64" and run: "compact E db = (r, db')"
  shows "\<exists>a'. spec_step a (Compacted (r = Inr ())) a' \<and> represents E options (Handle db') a'"
proof (cases "db_state db = Healthy")
  case False
  with run have "r = Inl (Err Poisoned)" "db' = db" by (auto simp: compact_def guarded_def ensure_writable_def)
  with False rep show ?thesis
    by (intro exI [of _ a]) (cases a; auto simp: db_on_file_def intro: spec_step.intros)
next
  case True
  with rep obtain m where a: "a = Serving m" and db: "session_ok options db" "db_on_file E db m" by (cases a) auto
  have crate: "crc32c_crate E" and limit: "max_database_bytes (db_options db) < 2 ^ 63"
    using ok db(1) by (auto simp: limits_ok_def session_ok_def)
  have dev: "device_faults (db_storage db)" using db(1) by (simp add: session_ok_def)
  from postD [OF compact_post [OF crate dev db(2) g limit] run] have out: "compact_outcome E db m r db'" by simp
  then have "length (storage_image (db_storage db')) \<le> max_database_bytes (db_options db)"
    using db(1) by (auto simp: compact_outcome_def session_ok_def)
  with session_ok_same [OF db(1)] out have session: "session_ok options db'" by (simp add: compact_outcome_def)
  have held: "holds E (storage_image (db_storage db')) m" using out by (simp add: compact_outcome_def)
  from out have "r = Inr () \<and> db_on_file E db' m \<or> r \<noteq> Inr () \<and> (db_on_file E db' m \<or> db_state db' = WritePoisoned \<and> db_reads E db' m
      \<or> db_state db' = Unavailable)" unfolding compact_outcome_def by blast
  then show ?thesis
  proof (elim disjE conjE)
    assume "r = Inr ()" "db_on_file E db' m"
    with session show ?thesis by (intro exI [of _ "Serving m"]) (simp add: a spec_step.compacted)
  next
    assume "r \<noteq> Inr ()" "db_on_file E db' m"
    with session show ?thesis by (intro exI [of _ "Serving m"]) (simp add: a spec_step.not_compacted)
  next
    assume "r \<noteq> Inr ()" "db_state db' = WritePoisoned" "db_reads E db' m"
    with session held show ?thesis by (intro exI [of _ "Failed m m"]) (simp add: a spec_step.not_compacted)
  next
    assume "r \<noteq> Inr ()" "db_state db' = Unavailable"
    with session held show ?thesis by (intro exI [of _ "Down m"]) (simp add: a spec_step.not_compacted)
  qed
qed

lemma simulate_snapshots:
  assumes rep: "represents E options (Handle db) a"
  shows "db_snapshot db = (Inr snap, db') \<Longrightarrow> \<exists>a'. spec_step a (Snapped True) a' \<and> represents E options (Handle db') a'"
    and "db_snapshot db = (Inl e, db') \<Longrightarrow> \<exists>a'. spec_step a (Snapped False) a' \<and> represents E options (Handle db') a'"
    and "\<exists>a'. spec_step a Dropped a' \<and> represents E options (Handle (drop_snapshot db)) a'"
proof -
  have same: "represents E options (Handle (db\<lparr>db_snapshots := n\<rparr>)) a" for n
    using rep by (cases a) (auto simp: session_ok_def db_on_file_def file_db_def db_reads_def)
  show "\<exists>a'. spec_step a (Snapped True) a' \<and> represents E options (Handle db') a'" if "db_snapshot db = (Inr snap, db')"
    using that rep same by (intro exI [of _ a]) (cases a; auto simp: db_snapshot_def guarded_def ensure_available_def split: if_splits intro: spec_step.intros)
  show "\<exists>a'. spec_step a (Snapped False) a' \<and> represents E options (Handle db') a'" if "db_snapshot db = (Inl e, db')"
    using that rep by (intro exI [of _ a])
      (cases a; auto simp: db_snapshot_def guarded_def ensure_available_def db_on_file_def split: if_splits intro: spec_step.intros)
  show "\<exists>a'. spec_step a Dropped a' \<and> represents E options (Handle (drop_snapshot db)) a'"
    unfolding drop_snapshot_def using rep same by (intro exI [of _ a]) (cases a; auto intro: spec_step.intros)
qed

lemma simulate_step:
  assumes "limits_ok E options" and "represents E options w a" and "session_step E options w e w'"
  shows "\<exists>a'. spec_step a e a' \<and> represents E options w' a'"
  using assms(3,2)
proof cases
  case (opened f db s)
  with simulate_open [OF assms(1) _ opened(4,5)] assms(2) show ?thesis by auto
next
  case (not_opened f err s)
  with simulate_open [OF assms(1) _ not_opened(4,5)] assms(2) show ?thesis by auto
next
  case (wrote db t0 ops t r db')
  with simulate_write [OF assms(1)] assms(2) show ?thesis by auto
next
  case (aborted db t0 ops t)
  with simulate_abort [OF assms(1)] assms(2) show ?thesis by auto
next
  case (refused db err)
  with assms(2) show ?thesis by (intro exI [of _ a]) (cases a; auto intro: spec_step.intros)
next
  case (got key db r db')
  with simulate_get assms(2) show ?thesis by auto
next
  case (compacted db r db')
  with simulate_compact [OF assms(1)] assms(2) show ?thesis by auto
next
  case (closed db)
  show ?thesis
  proof (cases a)
    case (Serving m)
    with assms(2) closed db_on_file_holds show ?thesis by (intro exI [of _ "Stored m"]) (simp add: session_ok_def spec_step.closed)
  next
    case (Failed m m')
    with assms(2) closed show ?thesis by (intro exI [of _ "Stored m'"]) (simp add: session_ok_def spec_step.closed_failed)
  next
    case (Down m)
    with assms(2) closed show ?thesis by (intro exI [of _ "Stored m"]) (simp add: session_ok_def spec_step.closed_down)
  qed (use assms(2) closed in simp)
next
  case (snapped db snap db')
  with simulate_snapshots(1) assms(2) show ?thesis by auto
next
  case (not_snapped db err db')
  with simulate_snapshots(2) assms(2) show ?thesis by auto
next
  case (dropped db)
  with simulate_snapshots(3) assms(2) show ?thesis by auto
qed

lemma simulate_run:
  assumes "limits_ok E options" and "represents E options w a" and "session_run E options w es w'"
  shows "\<exists>a'. spec_run a es a' \<and> represents E options w' a'"
  using assms(3,2)
proof (induction rule: session_run.induct)
  case (then_step w es w1 e w2)
  then obtain a1 where "spec_run a es a1" "represents E options w1 a1" by blast
  with simulate_step [OF assms(1) _ then_step.hyps(2)] show ?case by (blast intro: spec_run.then_step)
qed (blast intro: spec_run.start)

end
