(* ===== verification/Lkv_Create.thy ===== *)
theory Lkv_Create
  imports Lkv_Database_Properties
begin

section \<open>Creating a database file\<close>

text \<open>
  \<open>Database::create_with_options\<close> and the functions of \<open>src/lkv/src/database/mod.rs\<close> below it. A new
  database is written to a temporary file next to its path, and published there by a hard link.

  The standard library's calls on paths are modelled on a record of the file system: names that are bound
  to files, and directories. Every call takes one event off a list: the call goes through, or it fails
  (with or without having taken effect), or another process binds a name first. Paths are those of Unix.
\<close>

subsection \<open>Paths\<close>

text \<open>The pieces of a path between the separators; the inverse of \<open>join\<close>.\<close>

fun pieces :: "string \<Rightarrow> string list" where
  "pieces [] = [[]]"
| "pieces (c # cs) = (if c = CHR ''/'' then [] # pieces cs else (case pieces cs of p # ps \<Rightarrow> (c # p) # ps | [] \<Rightarrow> [[c]]))"

fun join :: "string list \<Rightarrow> string" where
  "join [] = []"
| "join [p] = p"
| "join (p # ps) = p @ ''/'' @ join ps"

text \<open>
  The pieces up to the last one that is a component: empty pieces and \<^verbatim>\<open>.\<close> are none, except for a \<^verbatim>\<open>.\<close> at
  the start.
\<close>

definition component_pieces :: "string list \<Rightarrow> string list" where
  "component_pieces ps =
     (let rest = rev (dropWhile (\<lambda>p. p = [] \<or> p = ''.'') (rev (tl ps)))
      in if rest = [] \<and> hd ps = [] then [] else hd ps # rest)"

text \<open>\<^verbatim>\<open>Path::parent\<close>: the path without its last component; the parent of a bare name is the empty path.\<close>

definition parent :: "string \<Rightarrow> string option" where
  "parent path =
     (let ps = component_pieces (pieces path) in
      if ps = [] then None
      else
        (let rest = butlast ps in
         if rest = [] then Some []
         else let up = component_pieces rest in Some (if up = [] then ''/'' else join up)))"

subsection \<open>The file system\<close>

datatype sys_event =
    Through
  | Fails bool io_error
  | Appears string bytes

record filesystem =
  names :: "string \<Rightarrow> nat option"
  inodes :: "nat \<Rightarrow> disk_file"
  free_inode :: nat
  directories :: "string set"
  next_creation_file :: u64
  device_plan :: "fault option list"
  upcoming :: "sys_event list"

definition bind_new :: "string \<Rightarrow> disk_file \<Rightarrow> filesystem \<Rightarrow> filesystem" where
  "bind_new path f fs = fs\<lparr>names := (names fs)(path \<mapsto> free_inode fs), inodes := (inodes fs)(free_inode fs := f),
     free_inode := Suc (free_inode fs)\<rparr>"

definition taken :: "string \<Rightarrow> filesystem \<Rightarrow> bool" where
  "taken path fs \<longleftrightarrow> names fs path \<noteq> None \<or> path \<in> directories fs"

definition sys_call :: "(filesystem, io_error, 'a) io \<Rightarrow> (filesystem, io_error, 'a) io" where
  "sys_call m fs =
     (case upcoming fs of
        [] \<Rightarrow> m fs
      | ev # rest \<Rightarrow>
          let fs = fs\<lparr>upcoming := rest\<rparr> in
          (case ev of
             Through \<Rightarrow> m fs
           | Fails applied e \<Rightarrow> (Inl e, if applied then snd (m fs) else fs)
           | Appears path bs \<Rightarrow>
               m (if taken path fs then fs else bind_new path \<lparr>contents = bs, file_position = 0, plan = []\<rparr> fs)))"

abbreviation not_found :: "io_error" where
  "not_found \<equiv> IoError NotFound ''No such file or directory''"

abbreviation exists :: "io_error" where
  "exists \<equiv> IoError AlreadyExists ''File exists''"

text \<open>\<^verbatim>\<open>fs::create_dir_all\<close>, which does nothing for the empty path; the directories above are not looked at.\<close>

definition create_dir_all :: "string \<Rightarrow> (filesystem, io_error, unit) io" where
  "create_dir_all path =
     (if path = [] then io_return ()
      else sys_call (\<lambda>fs. if names fs path \<noteq> None then (Inl exists, fs)
             else (Inr (), fs\<lparr>directories := insert path (directories fs)\<rparr>)))"

text \<open>\<^verbatim>\<open>fs::symlink_metadata\<close>.\<close>

definition symlink_metadata :: "string \<Rightarrow> (filesystem, io_error, unit) io" where
  "symlink_metadata path = sys_call (\<lambda>fs. (if taken path fs then Inr () else Inl not_found, fs))"

text \<open>The directory a name is in exists; the empty path stands for the current one.\<close>

definition in_directory :: "string \<Rightarrow> filesystem \<Rightarrow> bool" where
  "in_directory path fs = (case parent path of None \<Rightarrow> False | Some p \<Rightarrow> p = [] \<or> p \<in> directories fs)"

text \<open>\<^verbatim>\<open>OpenOptions::create_new\<close>: the new file, or an error if the name is bound.\<close>

definition create_new :: "string \<Rightarrow> (filesystem, io_error, nat) io" where
  "create_new path = sys_call (\<lambda>fs.
     if \<not> in_directory path fs then (Inl not_found, fs)
     else if taken path fs then (Inl exists, fs)
     else (Inr (free_inode fs), bind_new path \<lparr>contents = [], file_position = 0, plan = device_plan fs\<rparr> fs))"

text \<open>\<^verbatim>\<open>fs::hard_link\<close>: a second name for a file, never in place of a name that is bound.\<close>

definition hard_link :: "string \<Rightarrow> string \<Rightarrow> (filesystem, io_error, unit) io" where
  "hard_link from path = sys_call (\<lambda>fs.
     case names fs from of
       None \<Rightarrow> (Inl not_found, fs)
     | Some i \<Rightarrow>
         if \<not> in_directory path fs then (Inl not_found, fs)
         else if taken path fs then (Inl exists, fs)
         else (Inr (), fs\<lparr>names := (names fs)(path \<mapsto> i)\<rparr>))"

text \<open>\<^verbatim>\<open>fs::remove_file\<close>.\<close>

definition remove_file :: "string \<Rightarrow> (filesystem, io_error, unit) io" where
  "remove_file path = sys_call (\<lambda>fs.
     if names fs path = None then (Inl not_found, fs) else (Inr (), fs\<lparr>names := (names fs)(path := None)\<rparr>))"

text \<open>\<^verbatim>\<open>File::open\<close> of a directory; the empty path names none. Then its \<^verbatim>\<open>sync_all\<close>.\<close>

definition open_directory :: "string \<Rightarrow> (filesystem, io_error, unit) io" where
  "open_directory path = sys_call (\<lambda>fs. (if path \<noteq> [] \<and> path \<in> directories fs then Inr () else Inl not_found, fs))"

definition dir_sync_all :: "(filesystem, io_error, unit) io" where
  "dir_sync_all = sys_call (\<lambda>fs. (Inr (), fs))"

definition try_lock_exclusive :: "nat \<Rightarrow> (filesystem, io_error, unit) io" where
  "try_lock_exclusive i = sys_call (\<lambda>fs. (Inr (), fs))"

text \<open>A method on the file behind a handle.\<close>

definition on_inode :: "nat \<Rightarrow> (disk_file, 'f, 'a) io \<Rightarrow> (filesystem, 'f, 'a) io" where
  "on_inode i m fs = (case m (inodes fs i) of (r, f) \<Rightarrow> (r, fs\<lparr>inodes := (inodes fs)(i := f)\<rparr>))"

subsection \<open>Creating\<close>

definition sync_directory :: "string \<Rightarrow> (filesystem, failure, unit) io" where
  "sync_directory path = io_then (question (open_directory path)) (\<lambda>_. question dir_sync_all)"

definition creation_path :: "nat \<Rightarrow> string \<Rightarrow> filesystem \<Rightarrow> string \<times> filesystem" where
  "creation_path process_id path fs =
     (path @ ''.creating-'' @ show_nat process_id @ ''-'' @ show_nat (unat (next_creation_file fs)),
      fs\<lparr>next_creation_file := next_creation_file fs + 1\<rparr>)"

definition lock_created :: "nat \<Rightarrow> (filesystem, failure, unit) io" where
  "lock_created i fs =
     (case try_lock_exclusive i fs of
        (Inl e, fs) \<Rightarrow> (lock_database_file (Some e), fs)
      | (Inr _, fs) \<Rightarrow> (lock_database_file None, fs))"

definition publish_created :: "string \<Rightarrow> string \<Rightarrow> string \<Rightarrow> nat \<Rightarrow> (filesystem, failure, nat) io" where
  "publish_created path dir temporary i fs =
     (case hard_link temporary path fs of
        (Inr _, fs) \<Rightarrow>
          io_then (sync_directory dir) (\<lambda>_.
          io_then (question (remove_file temporary)) (\<lambda>_.
          io_then (sync_directory dir) (\<lambda>_. io_return i))) fs
      | (Inl e, fs) \<Rightarrow>
          if io_kind e = AlreadyExists
          then io_then (question (remove_file temporary)) (\<lambda>_.
               io_then (sync_directory dir) (\<lambda>_. io_lift (Inl (Err (error_from e))))) fs
          else (Inl (Err (error_from e)), snd (remove_file temporary fs)))"

definition fill_created :: "externs \<Rightarrow> string \<Rightarrow> string \<Rightarrow> string \<Rightarrow> nat \<Rightarrow> (filesystem, failure, nat) io" where
  "fill_created E path dir temporary i fs =
     (case io_then (lock_created i) (\<lambda>_. on_inode i (initialize_file E)) fs of
        (Inl e, fs) \<Rightarrow> (Inl e, snd (remove_file temporary fs))
      | (Inr _, fs) \<Rightarrow> publish_created path dir temporary i fs)"

primrec create_attempts :: "nat \<Rightarrow> externs \<Rightarrow> nat \<Rightarrow> string \<Rightarrow> string \<Rightarrow> (filesystem, failure, nat) io" where
  "create_attempts 0 E process_id path dir =
     io_lift (Inl (Err (from_io AlreadyExists ''could not allocate a unique database creation file'')))"
| "create_attempts (Suc n) E process_id path dir = (\<lambda>fs.
     case creation_path process_id path fs of
       (temporary, fs) \<Rightarrow>
         (case create_new temporary fs of
            (Inl e, fs) \<Rightarrow>
              if io_kind e = AlreadyExists then create_attempts n E process_id path dir fs
              else (Inl (Err (error_from e)), fs)
          | (Inr i, fs) \<Rightarrow> fill_created E path dir temporary i fs))"

definition create_database_file :: "externs \<Rightarrow> nat \<Rightarrow> string \<Rightarrow> (filesystem, failure, nat) io" where
  "create_database_file E process_id path =
     create_attempts 16 E process_id path (case parent path of Some p \<Rightarrow> p | None \<Rightarrow> ''.'')"

definition ensure_absent :: "string \<Rightarrow> (filesystem, failure, unit) io" where
  "ensure_absent path fs =
     (case symlink_metadata path fs of
        (Inr _, fs) \<Rightarrow> (Inl (Err (from_io AlreadyExists ''database already exists'')), fs)
      | (Inl e, fs) \<Rightarrow> (if io_kind e = NotFound then Inr () else Inl (Err (error_from e)), fs))"

text \<open>\<^verbatim>\<open>from_storage\<close> on the storage of a file.\<close>

definition file_from_storage :: "externs \<Rightarrow> database_options \<Rightarrow> (disk_file, failure, database) io" where
  "file_from_storage E options f = map_prod id file_of (from_storage E options (FileStorage f))"

definition create_with_options :: "externs \<Rightarrow> nat \<Rightarrow> string \<Rightarrow> database_options \<Rightarrow> (filesystem, failure, database) io" where
  "create_with_options E process_id path options =
     io_then (io_lift (validate_options options)) (\<lambda>_.
     io_then (case parent path of Some p \<Rightarrow> question (create_dir_all p) | None \<Rightarrow> io_return ()) (\<lambda>_.
     io_then (ensure_absent path) (\<lambda>_.
     io_then (create_database_file E process_id path) (\<lambda>i.
     on_inode i (file_from_storage E options)))))"

definition create :: "externs \<Rightarrow> nat \<Rightarrow> string \<Rightarrow> (filesystem, failure, database) io" where
  "create E process_id path = create_with_options E process_id path default_options"

end
