(* ===== verification/Lkv_Create_Correct.thy ===== *)
theory Lkv_Create_Correct
  imports Lkv_Create
begin

section \<open>What creating a database leaves behind\<close>

text \<open>
  Creating a database never touches a name that is bound, never shows a half-written file at its path, and ends with
  an open handle on an empty database or an error. An invariant of the file system is shown stable under
  what other processes do, and then kept by each call.
\<close>

subsection \<open>Other processes\<close>

inductive env :: "filesystem \<Rightarrow> filesystem \<Rightarrow> bool" where
  idle: "set rest \<subseteq> set (upcoming fs) \<Longrightarrow> env fs (fs\<lparr>upcoming := rest\<rparr>)"
| appear: "set rest \<subseteq> set (upcoming fs) \<Longrightarrow> Appears path bs \<in> set (upcoming fs) \<Longrightarrow> \<not> taken path fs
    \<Longrightarrow> env fs (bind_new path \<lparr>contents = bs, file_position = 0, plan = []\<rparr> (fs\<lparr>upcoming := rest\<rparr>))"

lemma sys_call_env:
  obtains fs1 where "env fs fs1" and "sys_call m fs = m fs1 \<or> (\<exists>e. sys_call m fs = (Inl e, fs1) \<or> sys_call m fs = (Inl e, snd (m fs1)))"
proof (cases "upcoming fs")
  case Nil
  have "env fs (fs\<lparr>upcoming := []\<rparr>)" by (rule env.idle) simp
  moreover have "fs\<lparr>upcoming := []\<rparr> = fs" using Nil by simp
  ultimately show thesis using Nil by (intro that [of fs]) (simp_all add: sys_call_def)
next
  case (Cons ev rest)
  have idle: "env fs (fs\<lparr>upcoming := rest\<rparr>)" by (rule env.idle) (auto simp: Cons)
  show thesis
  proof (cases ev)
    case (Appears path bs)
    let ?f = "\<lparr>contents = bs, file_position = 0, plan = []\<rparr> :: disk_file"
    have "env fs (bind_new path ?f (fs\<lparr>upcoming := rest\<rparr>))" if "\<not> taken path fs"
      using that by (intro env.appear) (auto simp: Cons Appears)
    then show thesis using idle Cons Appears
      by (intro that [of "if taken path fs then fs\<lparr>upcoming := rest\<rparr> else bind_new path ?f (fs\<lparr>upcoming := rest\<rparr>)"])
        (auto simp: sys_call_def taken_def)
  next
    case (Fails applied e)
    with idle Cons show thesis by (intro that [of "fs\<lparr>upcoming := rest\<rparr>"]) (auto simp: sys_call_def Let_def)
  qed (use idle Cons in \<open>auto simp: sys_call_def intro: that\<close>)
qed

definition stable :: "(filesystem \<Rightarrow> bool) \<Rightarrow> bool" where
  "stable P \<longleftrightarrow> (\<forall>fs fs1. P fs \<and> env fs fs1 \<longrightarrow> P fs1)"

text \<open>A call from a stable state: its own outcome, a failure before it and a failure after it.\<close>

lemma sys_call_post:
  assumes "stable P" and "P fs" and "\<And>fs1. P fs1 \<Longrightarrow> post m fs1 Q"
    and "\<And>e fs1. P fs1 \<Longrightarrow> Q (Inl e) fs1" and "\<And>e fs1. P fs1 \<Longrightarrow> Q (Inl e) (snd (m fs1))"
  shows "post (sys_call m) fs Q"
proof -
  obtain fs1 where fs1: "env fs fs1" and run: "sys_call m fs = m fs1 \<or> (\<exists>e. sys_call m fs = (Inl e, fs1) \<or> sys_call m fs = (Inl e, snd (m fs1)))"
    by (rule sys_call_env)
  have "P fs1" using assms(1,2) fs1 by (auto simp: stable_def)
  with run assms(3-5) show ?thesis by (auto simp: post_def)
qed

lemma sys_call_keeps:
  assumes "stable P" and "P fs" and "\<And>fs1. snd (m fs1) = fs1"
  shows "post (sys_call m) fs (\<lambda>r. P)"
  by (rule sys_call_post [OF assms(1,2)]) (simp_all add: post_def assms(3))

subsection \<open>The invariant\<close>

text \<open>
  Names that were bound stay bound to the same files, and what is bound to the path was there, was put
  there by another process, or is an empty database.
\<close>

definition safe :: "externs \<Rightarrow> string \<Rightarrow> filesystem \<Rightarrow> filesystem \<Rightarrow> bool" where
  "safe E path fs0 fs \<longleftrightarrow>
     (\<forall>p i. names fs0 p = Some i \<longrightarrow> i < free_inode fs0)
     \<and> (\<forall>p i. names fs p = Some i \<longrightarrow> i < free_inode fs) \<and> free_inode fs0 \<le> free_inode fs
     \<and> set (upcoming fs) \<subseteq> set (upcoming fs0) \<and> device_plan fs = device_plan fs0
     \<and> (\<forall>p i. names fs0 p = Some i \<longrightarrow> names fs p = Some i \<and> inodes fs i = inodes fs0 i)
     \<and> (\<forall>i. names fs path = Some i \<longrightarrow> names fs0 path = Some i \<or> Appears path (contents (inodes fs i)) \<in> set (upcoming fs0)
          \<or> holds E (contents (inodes fs i)) Map.empty)"

text \<open>The temporary file, before and after its publication.\<close>

definition temporary_ok :: "externs \<Rightarrow> string \<Rightarrow> filesystem \<Rightarrow> string \<Rightarrow> nat \<Rightarrow> filesystem \<Rightarrow> bool" where
  "temporary_ok E path fs0 temporary i fs \<longleftrightarrow> safe E path fs0 fs \<and> temporary \<noteq> path \<and> free_inode fs0 \<le> i \<and> i < free_inode fs
     \<and> names fs0 temporary = None \<and> names fs temporary = Some i \<and> names fs path \<noteq> Some i"

definition filled :: "externs \<Rightarrow> string \<Rightarrow> filesystem \<Rightarrow> nat \<Rightarrow> filesystem \<Rightarrow> bool" where
  "filled E path fs0 i fs \<longleftrightarrow> contents (inodes fs i) = empty_image E \<and> set (plan (inodes fs i)) \<subseteq> set (device_plan fs0)"

definition published :: "externs \<Rightarrow> string \<Rightarrow> filesystem \<Rightarrow> nat \<Rightarrow> filesystem \<Rightarrow> bool" where
  "published E path fs0 i fs \<longleftrightarrow> safe E path fs0 fs \<and> free_inode fs0 \<le> i \<and> names fs0 path = None
     \<and> names fs path = Some i \<and> filled E path fs0 i fs"

lemma bind_new_simps [simp]:
  "names (bind_new p f fs) = (names fs)(p \<mapsto> free_inode fs)" "inodes (bind_new p f fs) = (inodes fs)(free_inode fs := f)"
  "free_inode (bind_new p f fs) = Suc (free_inode fs)" "upcoming (bind_new p f fs) = upcoming fs"
  "device_plan (bind_new p f fs) = device_plan fs" "directories (bind_new p f fs) = directories fs"
  by (simp_all add: bind_new_def)

lemma safe_refl: "\<forall>p i. names fs p = Some i \<longrightarrow> i < free_inode fs \<Longrightarrow> safe E path fs fs"
  by (simp add: safe_def)

text \<open>A name that is not bound is given to a new file.\<close>

lemma safe_bind:
  assumes "safe E path fs0 fs" and "names fs p = None" and "p = path \<Longrightarrow> Appears path (contents f) \<in> set (upcoming fs0)"
  shows "safe E path fs0 (bind_new p f fs)"
proof -
  have old: "names fs0 q = Some i \<Longrightarrow> names fs q = Some i \<and> inodes fs i = inodes fs0 i \<and> i < free_inode fs \<and> q \<noteq> p" for q i
    using assms(1,2) by (fastforce simp: safe_def)
  have new: "names fs q = Some i \<Longrightarrow> i < free_inode fs" for q i using assms(1) by (auto simp: safe_def)
  show ?thesis unfolding safe_def
  proof (intro conjI allI impI)
    show "names (bind_new p f fs) q = Some i \<Longrightarrow> i < free_inode (bind_new p f fs)" for q i
      using new [of q i] by (auto simp: less_Suc_eq split: if_splits)
    show "names (bind_new p f fs) q = Some i" if "names fs0 q = Some i" for q i using old [OF that] by simp
    show "inodes (bind_new p f fs) i = inodes fs0 i" if "names fs0 q = Some i" for q i using old [OF that] by auto
  next
    fix i
    assume bound: "names (bind_new p f fs) path = Some i"
    show "names fs0 path = Some i \<or> Appears path (contents (inodes (bind_new p f fs) i)) \<in> set (upcoming fs0)
        \<or> holds E (contents (inodes (bind_new p f fs) i)) Map.empty"
    proof (cases "p = path")
      case True
      with bound assms(3) show ?thesis by auto
    next
      case False
      with bound have "names fs path = Some i" by simp
      moreover from new [OF this] have "inodes (bind_new p f fs) i = inodes fs i" by simp
      ultimately show ?thesis using assms(1) by (auto simp: safe_def)
    qed
  qed (use assms(1) in \<open>auto simp: safe_def\<close>)
qed

lemma safe_upcoming: "safe E path fs0 fs \<Longrightarrow> set rest \<subseteq> set (upcoming fs) \<Longrightarrow> safe E path fs0 (fs\<lparr>upcoming := rest\<rparr>)"
  by (auto simp: safe_def)

lemma safe_env:
  assumes safe: "safe E path fs0 fs" and "env fs fs1"
  shows "safe E path fs0 fs1"
  using assms(2)
proof cases
  case (idle rest)
  with safe_upcoming [OF safe] show ?thesis by simp
next
  case (appear rest p bs)
  from appear safe have "p = path \<Longrightarrow> Appears path bs \<in> set (upcoming fs0)" by (auto simp: safe_def)
  with appear safe_upcoming [OF safe appear(2)] show ?thesis by (auto simp: taken_def intro: safe_bind)
qed

lemma safe_stable: "stable (safe E path fs0)"
  by (auto simp: stable_def intro: safe_env)

lemma env_bound: "env fs fs1 \<Longrightarrow> names fs p = Some i \<Longrightarrow> names fs1 p = Some i"
  by (cases rule: env.cases) (auto simp: taken_def)

lemma env_inode: "env fs fs1 \<Longrightarrow> i < free_inode fs \<Longrightarrow> inodes fs1 i = inodes fs i \<and> i < free_inode fs1 \<and> (names fs1 p = Some i \<longrightarrow> names fs p = Some i)"
  by (cases rule: env.cases) (auto split: if_splits)

lemma filled_env: "filled E path fs0 i fs \<Longrightarrow> env fs fs1 \<Longrightarrow> i < free_inode fs \<Longrightarrow> filled E path fs0 i fs1"
  using env_inode by (simp add: filled_def)

lemma temporary_env:
  assumes ok: "temporary_ok E path fs0 temporary i fs" and env: "env fs fs1"
  shows "temporary_ok E path fs0 temporary i fs1"
proof -
  have "safe E path fs0 fs1" using safe_env [OF _ env] ok by (simp add: temporary_ok_def)
  with ok env_bound [OF env] env_inode [OF env] show ?thesis by (auto simp: temporary_ok_def)
qed

lemma temporary_stable: "stable (temporary_ok E path fs0 temporary i)"
  using temporary_env by (auto simp: stable_def)

lemma temporary_filled_stable: "stable (\<lambda>fs. temporary_ok E path fs0 temporary i fs \<and> filled E path fs0 i fs)"
  by (auto simp: stable_def intro: temporary_env filled_env) (simp add: temporary_ok_def filled_env)

lemma published_stable: "stable (published E path fs0 i)"
  unfolding stable_def
proof (intro allI impI, elim conjE)
  fix fs fs1
  assume ok: "published E path fs0 i fs" and env: "env fs fs1"
  then have "safe E path fs0 fs1" using safe_env [OF _ env] by (simp add: published_def)
  moreover have "i < free_inode fs" using ok by (auto simp: published_def safe_def)
  ultimately show "published E path fs0 i fs1" using ok env_bound [OF env] filled_env [OF _ env] by (auto simp: published_def)
qed

subsection \<open>The calls\<close>

definition removable :: "externs \<Rightarrow> string \<Rightarrow> filesystem \<Rightarrow> string \<Rightarrow> filesystem \<Rightarrow> bool" where
  "removable E path fs0 temporary fs \<longleftrightarrow> safe E path fs0 fs \<and> temporary \<noteq> path \<and> names fs0 temporary = None"

lemma removable_stable: "stable (removable E path fs0 temporary)"
  by (auto simp: stable_def removable_def intro: safe_env)

lemma removable_safe: "removable E path fs0 temporary fs \<Longrightarrow> safe E path fs0 fs"
  by (simp add: removable_def)

lemma temporary_removable: "temporary_ok E path fs0 temporary i fs \<Longrightarrow> removable E path fs0 temporary fs"
  by (simp add: temporary_ok_def removable_def)

lemma safe_unbind: "removable E path fs0 temporary fs \<Longrightarrow> safe E path fs0 (fs\<lparr>names := (names fs)(temporary := None)\<rparr>)"
  by (auto simp: removable_def safe_def)

lemma safe_inode:
  assumes "safe E path fs0 fs" and "free_inode fs0 \<le> i" and "names fs path = Some i \<Longrightarrow> holds E (contents f) Map.empty"
  shows "safe E path fs0 (fs\<lparr>inodes := (inodes fs)(i := f)\<rparr>)"
  using assms by (fastforce simp: safe_def)

lemma safe_free: "safe E path fs0 fs \<Longrightarrow> names fs p = None \<Longrightarrow> names fs0 p = None"
  by (cases "names fs0 p") (auto simp: safe_def)

lemma create_new_post:
  assumes "safe E path fs0 fs" and "temporary \<noteq> path"
  shows "post (create_new temporary) fs (\<lambda>r fs'. safe E path fs0 fs' \<and> (\<forall>i. r = Inr i \<longrightarrow> temporary_ok E path fs0 temporary i fs'
    \<and> inodes fs' i = \<lparr>contents = [], file_position = 0, plan = device_plan fs0\<rparr>))"
proof -
  have bound: "safe E path fs0 (bind_new temporary f fs1)" "names fs0 temporary = None" "free_inode fs0 \<le> free_inode fs1"
      "names fs1 path \<noteq> Some (free_inode fs1)" "device_plan fs1 = device_plan fs0"
    if "safe E path fs0 fs1" "\<not> taken temporary fs1" for fs1 f
    using that safe_bind [OF that(1), of temporary f] safe_free [OF that(1)] assms(2) by (simp_all add: taken_def) (auto simp: safe_def)
  show ?thesis unfolding create_new_def
    by (rule sys_call_post [OF safe_stable assms(1)]) (use assms(2) in \<open>auto simp: post_def temporary_ok_def bound\<close>)
qed

lemma hard_link_post:
  assumes "temporary_ok E path fs0 temporary i fs" and "filled E path fs0 i fs" and "\<forall>n. try_reserve E n"
  shows "post (hard_link temporary path) fs (\<lambda>r fs'. removable E path fs0 temporary fs' \<and> (r = Inr () \<longrightarrow> published E path fs0 i fs'))"
proof -
  have linked: "published E path fs0 i (fs1\<lparr>names := (names fs1)(path \<mapsto> i)\<rparr>)" (is "published _ _ _ _ ?fs")
    if "temporary_ok E path fs0 temporary i fs1" "filled E path fs0 i fs1" "\<not> taken path fs1" for fs1
  proof -
    have "holds E (contents (inodes fs1 i)) Map.empty"
      using that(2) empty_file_facts(1) [OF assms(3)] by (simp add: filled_def empty_file_def)
    then have "safe E path fs0 ?fs" using that(1,3) by (auto simp: safe_def temporary_ok_def taken_def)
    moreover have "names fs0 path = None" using that(1,3) safe_free by (auto simp: temporary_ok_def taken_def)
    ultimately show ?thesis using that by (simp add: published_def temporary_ok_def filled_def)
  qed
  then have removable: "removable E path fs0 temporary (fs1\<lparr>names := (names fs1)(path \<mapsto> i)\<rparr>)"
    if "temporary_ok E path fs0 temporary i fs1" "filled E path fs0 i fs1" "\<not> taken path fs1" for fs1
    using that by (simp add: published_def removable_def temporary_ok_def)
  have found: "names fs1 temporary = Some i" if "temporary_ok E path fs0 temporary i fs1" for fs1 using that by (simp add: temporary_ok_def)
  show ?thesis unfolding hard_link_def
    by (rule sys_call_post [OF temporary_filled_stable [of E path fs0 temporary i]])
      (use assms in \<open>auto simp: post_def found linked removable temporary_removable\<close>)
qed

lemma remove_file_post:
  assumes "removable E path fs0 temporary fs"
  shows "post (remove_file temporary) fs (\<lambda>r. safe E path fs0)"
  unfolding remove_file_def by (rule sys_call_post [OF removable_stable assms]) (auto simp: post_def safe_unbind removable_safe)

lemma remove_published_post:
  assumes "published E path fs0 i fs" and "temporary \<noteq> path" and "names fs0 temporary = None"
  shows "post (remove_file temporary) fs (\<lambda>r. published E path fs0 i)"
proof -
  have "published E path fs0 i (fs1\<lparr>names := (names fs1)(temporary := None)\<rparr>)" if "published E path fs0 i fs1" for fs1
    using that safe_unbind [of E path fs0 temporary fs1] assms(2,3) by (simp add: published_def removable_def filled_def)
  then show ?thesis unfolding remove_file_def by (intro sys_call_post [OF published_stable assms(1)]) (auto simp: post_def)
qed

lemma sync_directory_keeps:
  assumes "stable P" and "P fs"
  shows "post (sync_directory dir) fs (\<lambda>r. P)"
  unfolding sync_directory_def
proof (rule post_then)
  show "post (question (open_directory dir)) fs (\<lambda>r. P)"
    unfolding open_directory_def by (intro post_question sys_call_keeps assms) simp
  show "post (question dir_sync_all) s (\<lambda>r. P)" if "P s" for s
    unfolding dir_sync_all_def by (intro post_question sys_call_keeps assms that) simp
qed

subsection \<open>Creating\<close>

abbreviation created :: "externs \<Rightarrow> string \<Rightarrow> filesystem \<Rightarrow> nat result \<Rightarrow> filesystem \<Rightarrow> bool" where
  "created E path fs0 r fs \<equiv> safe E path fs0 fs \<and> (\<forall>i. r = Inr i \<longrightarrow> published E path fs0 i fs) \<and> no_panic r"

lemma published_safe: "published E path fs0 i fs \<Longrightarrow> safe E path fs0 fs"
  by (simp add: published_def)

lemma question_post_keeps: "post m fs (\<lambda>r. P) \<Longrightarrow> post (question m) fs (\<lambda>r fs. P fs \<and> no_panic r)"
  by (auto simp: post_def question_def split: prod.splits sum.splits)

lemma sync_directory_no_panic: "no_panic (fst (sync_directory dir fs))"
  unfolding sync_directory_def by (intro io_then_ends question_ends)

lemma keeps_then:
  assumes "post m s (\<lambda>r s'. P s' \<and> no_panic r)" and "\<And>x s'. P s' \<Longrightarrow> post (f x) s' (created E path fs0)"
    and "\<And>s'. P s' \<Longrightarrow> safe E path fs0 s'"
  shows "post (io_then m f) s (created E path fs0)"
  by (rule post_then [OF assms(1)]) (use assms(2,3) in \<open>simp_all add: no_panic_Inl\<close>)

lemma publish_created_post:
  assumes tmp: "temporary_ok E path fs0 temporary i fs" and filled: "filled E path fs0 i fs" and "\<forall>n. try_reserve E n"
  shows "post (publish_created path dir temporary i) fs (created E path fs0)"
proof -
  obtain r fs1 where link: "hard_link temporary path fs = (r, fs1)" by fastforce
  from postD [OF hard_link_post [OF assms] link] have fs1: "removable E path fs0 temporary fs1" "r = Inr () \<Longrightarrow> published E path fs0 i fs1"
    by simp_all
  have tmp': "temporary \<noteq> path" "names fs0 temporary = None" using fs1(1) by (simp_all add: removable_def)
  have sync: "post (sync_directory dir) fs2 (\<lambda>r fs. P fs \<and> no_panic r)" if "stable P" "P fs2" for P fs2
    using sync_directory_keeps [OF that, of dir] sync_directory_no_panic [of dir fs2] by (simp add: post_def)
  note remove = question_post_keeps [OF remove_published_post [OF _ tmp']] and remove_safe = question_post_keeps [OF remove_file_post]
  have linked: "post (io_then (sync_directory dir) (\<lambda>_. io_then (question (remove_file temporary)) (\<lambda>_.
      io_then (sync_directory dir) (\<lambda>_. io_return i)))) fs1 (created E path fs0)" if "published E path fs0 i fs1"
  proof (intro keeps_then [where P = "published E path fs0 i"] published_safe)
    show "post (sync_directory dir) fs1 (\<lambda>r fs. published E path fs0 i fs \<and> no_panic r)" by (rule sync [OF published_stable that])
    show "post (question (remove_file temporary)) s (\<lambda>r fs. published E path fs0 i fs \<and> no_panic r)" if "published E path fs0 i s" for s
      by (rule remove [OF that])
    show "post (sync_directory dir) s (\<lambda>r fs. published E path fs0 i fs \<and> no_panic r)" if "published E path fs0 i s" for s
      by (rule sync [OF published_stable that])
    show "post (io_return i) s (created E path fs0)" if "published E path fs0 i s" for s
      using that published_safe [OF that] by (simp add: post_def)
  qed
  have failed: "post (io_then (question (remove_file temporary)) (\<lambda>_.
      io_then (sync_directory dir) (\<lambda>_. io_lift (Inl (Err (error_from e)))))) fs1 (created E path fs0)" for e
  proof (intro keeps_then [where P = "safe E path fs0"])
    show "post (question (remove_file temporary)) fs1 (\<lambda>r fs. safe E path fs0 fs \<and> no_panic r)" by (rule remove_safe [OF fs1(1)])
    show "post (sync_directory dir) s (\<lambda>r fs. safe E path fs0 fs \<and> no_panic r)" if "safe E path fs0 s" for s
      by (rule sync [OF safe_stable that])
  qed (simp_all add: post_def)
  have "safe E path fs0 (snd (remove_file temporary fs1))" using remove_file_post [OF fs1(1)] by (simp add: post_def)
  then show ?thesis using linked failed fs1(2) by (cases r) (simp_all add: post_def publish_created_def link)
qed

lemma fill_created_post:
  assumes tmp: "temporary_ok E path fs0 temporary i fs" and reserve: "\<forall>n. try_reserve E n"
    and new: "inodes fs i = \<lparr>contents = [], file_position = 0, plan = device_plan fs0\<rparr>"
  shows "post (fill_created E path dir temporary i) fs (created E path fs0)"
proof -
  let ?P = "\<lambda>fs. temporary_ok E path fs0 temporary i fs \<and> inodes fs i = \<lparr>contents = [], file_position = 0, plan = device_plan fs0\<rparr>"
  have kept: "?P fs2" if "?P fs1" "env fs1 fs2" for fs1 fs2
    using that temporary_env [of E path fs0 temporary i fs1 fs2] env_inode [of fs1 fs2 i] by (simp add: temporary_ok_def)
  have "stable ?P" unfolding stable_def by (intro allI impI, elim conjE) (rule kept, simp_all)
  then have keep: "post (try_lock_exclusive i) fs (\<lambda>r. ?P)"
    unfolding try_lock_exclusive_def by (rule sys_call_keeps) (simp_all add: tmp new)
  have lock: "post (lock_created i) fs (\<lambda>r fs. ?P fs \<and> no_panic r)"
  proof -
    obtain r fs1 where run: "try_lock_exclusive i fs = (r, fs1)" by fastforce
    from postD [OF keep run] show ?thesis by (cases r) (simp_all add: post_def lock_created_def run lock_database_file_def)
  qed
  have init: "post (on_inode i (initialize_file E)) fs1 (\<lambda>r fs. temporary_ok E path fs0 temporary i fs \<and> (r = Inr () \<longrightarrow> filled E path fs0 i fs) \<and> no_panic r)"
    if "?P fs1" for fs1
  proof -
    obtain r f where run: "initialize_file E (inodes fs1 i) = (r, f)" by fastforce
    have "contents (inodes fs1 i) = []" using that by simp
    from initialize_file_post [OF reserve this run] have f: "set (plan f) \<subseteq> set (device_plan fs0)" "r = Inr () \<Longrightarrow> contents f = empty_image E" "no_panic r"
      using that by auto
    have "temporary_ok E path fs0 temporary i (fs1\<lparr>inodes := (inodes fs1)(i := f)\<rparr>)"
      using that safe_inode [of E path fs0 fs1 i f] by (simp add: temporary_ok_def)
    with f show ?thesis by (simp add: post_def on_inode_def run filled_def)
  qed
  have "post (io_then (lock_created i) (\<lambda>_. on_inode i (initialize_file E))) fs
      (\<lambda>r fs. temporary_ok E path fs0 temporary i fs \<and> (r = Inr () \<longrightarrow> filled E path fs0 i fs) \<and> no_panic r)" (is "post ?m _ _")
    by (rule post_then [OF lock]) (auto simp: no_panic_Inl intro: init)
  moreover obtain r fs1 where run: "?m fs = (r, fs1)" by fastforce
  ultimately have fs1: "temporary_ok E path fs0 temporary i fs1" "r = Inr () \<Longrightarrow> filled E path fs0 i fs1" "no_panic r" by (simp_all add: post_def)
  have "safe E path fs0 (snd (remove_file temporary fs1))" using remove_file_post [OF temporary_removable [OF fs1(1)]] by (simp add: post_def)
  then show ?thesis using publish_created_post [OF fs1(1) fs1(2) reserve, of dir] fs1(3)
    by (cases r) (auto simp: post_def fill_created_def run no_panic_Inl)
qed

lemma create_attempts_post:
  assumes "safe E path fs0 fs" and "\<forall>n. try_reserve E n"
  shows "post (create_attempts n E process_id path dir) fs (created E path fs0)"
  using assms(1)
proof (induction n arbitrary: fs)
  case 0
  then show ?case by (simp add: post_def io_lift_def)
next
  case (Suc n)
  obtain temporary fs1 where tmp: "creation_path process_id path fs = (temporary, fs1)" by fastforce
  then have "temporary \<noteq> path" "safe E path fs0 fs1" using Suc.prems by (auto simp: creation_path_def safe_def)
  moreover obtain r fs2 where run: "create_new temporary fs1 = (r, fs2)" by fastforce
  ultimately have fs2: "safe E path fs0 fs2" "\<And>i. r = Inr i \<Longrightarrow> temporary_ok E path fs0 temporary i fs2
      \<and> inodes fs2 i = \<lparr>contents = [], file_position = 0, plan = device_plan fs0\<rparr>"
    using postD [OF create_new_post run] by simp_all
  show ?case
  proof (cases r)
    case (Inl e)
    with Suc.IH [OF fs2(1)] fs2(1) show ?thesis by (simp add: post_def tmp run)
  next
    case (Inr i)
    with fs2(2) fill_created_post [OF _ assms(2), of path fs0 temporary i fs2 dir] show ?thesis by (simp add: post_def tmp run)
  qed
qed

lemma ensure_absent_post:
  assumes "safe E path fs0 fs"
  shows "post (ensure_absent path) fs (\<lambda>r fs'. safe E path fs0 fs' \<and> no_panic r)"
proof -
  obtain r fs1 where run: "symlink_metadata path fs = (r, fs1)" by fastforce
  have "post (symlink_metadata path) fs (\<lambda>r. safe E path fs0)"
    unfolding symlink_metadata_def by (rule sys_call_keeps [OF safe_stable assms]) simp
  with run show ?thesis by (cases r) (simp_all add: post_def ensure_absent_def run)
qed

lemma create_dir_all_post:
  assumes "safe E path fs0 fs"
  shows "post (create_dir_all p) fs (\<lambda>r. safe E path fs0)"
proof -
  have "safe E path fs0 (fs1\<lparr>directories := d\<rparr>)" if "safe E path fs0 fs1" for fs1 d using that by (simp add: safe_def)
  then show ?thesis unfolding create_dir_all_def using assms
    by (auto simp: post_def [of "io_return ()"] intro!: sys_call_post [OF safe_stable assms]) (auto simp: post_def)
qed

text \<open>The handle on the file that was published.\<close>

definition opened_at :: "externs \<Rightarrow> string \<Rightarrow> database_options \<Rightarrow> filesystem \<Rightarrow> database result \<Rightarrow> filesystem \<Rightarrow> bool" where
  "opened_at E path options fs0 r fs \<longleftrightarrow> safe E path fs0 fs \<and> no_panic r
     \<and> (\<forall>db. r = Inr db \<longrightarrow> names fs0 path = None \<and> (\<exists>i. names fs path = Some i \<and> db_storage db = FileStorage (inodes fs i))
          \<and> db_options db = options \<and> db_on_file E db Map.empty)"

abbreviation device_ok :: "filesystem \<Rightarrow> bool" where
  "device_ok fs \<equiv> device_faults (FileStorage \<lparr>contents = [], file_position = 0, plan = device_plan fs\<rparr>)"

lemma open_created_post:
  assumes pub: "published E path fs0 i fs" and dev: "device_ok fs0" and reserve: "\<forall>n. try_reserve E n"
    and limit: "MIN_DATABASE_BYTES \<le> max_database_bytes options"
  shows "post (on_inode i (file_from_storage E options)) fs (opened_at E path options fs0)"
proof -
  let ?s = "FileStorage (inodes fs i)"
  have f: "contents (inodes fs i) = empty_image E" "set (plan (inodes fs i)) \<subseteq> set (device_plan fs0)" and i: "free_inode fs0 \<le> i"
    "names fs path = Some i" "names fs0 path = None" and safe: "safe E path fs0 fs" using pub by (simp_all add: published_def filled_def)
  have at: "at_file ?s (empty_image E) ?s" using f(1) by (simp add: at_file_def file_step_refl)
  have dev': "device_faults ?s" using dev f(2) by (auto simp: device_faults_def)
  have len: "length (empty_image E) \<le> max_database_bytes options"
    using limit length_empty_image [OF reserve] by (simp add: MIN_DATABASE_BYTES_def DATA_START_def EMPTY_SEGMENT_SIZE_def)
  obtain r s' where run: "from_storage E options ?s = (r, s')" by fastforce
  have empty: "image_map [] [] = Map.empty" by (simp add: image_map_def)
  from postD [OF from_storage_post [OF at dev' empty_disk_image [OF reserve] reserve len] run, unfolded empty] obtain f' where
    s': "s' = FileStorage f'" and held: "holds E (contents f') Map.empty"
      and r: "(\<exists>db. r = Inr db \<and> db_storage db = s' \<and> db_options db = options \<and> db_on_file E db Map.empty) \<or> faulty ?s r"
    by (auto simp: file_step_def)
  let ?fs = "fs\<lparr>inodes := (inodes fs)(i := f')\<rparr>"
  have "safe E path fs0 ?fs" by (rule safe_inode [OF safe i(1) held])
  with r i s' have "opened_at E path options fs0 r ?fs" by (auto simp: opened_at_def faulty_def)
  then show ?thesis by (simp add: post_def on_inode_def file_from_storage_def run s')
qed

lemma create_with_options_post:
  assumes fs: "\<forall>p i. names fs p = Some i \<longrightarrow> i < free_inode fs" and dev: "device_ok fs" and reserve: "\<forall>n. try_reserve E n"
  shows "post (create_with_options E process_id path options) fs (opened_at E path options fs)"
proof -
  have bad: "opened_at E path options fs (Inl e) s" if "safe E path fs s" "no_panic (Inl e :: unit result)" for e s
    using that by (simp add: opened_at_def no_panic_Inl)
  have safe: "safe E path fs fs" by (rule safe_refl [OF fs])
  have dirs: "post (case parent path of Some p \<Rightarrow> question (create_dir_all p) | None \<Rightarrow> io_return ()) fs (\<lambda>r s. safe E path fs s \<and> no_panic r)"
    using question_post_keeps [OF create_dir_all_post [OF safe]] safe by (cases "parent path") (simp_all add: post_def)
  have made: "post (io_then (create_database_file E process_id path) (\<lambda>i. on_inode i (file_from_storage E options))) s
      (opened_at E path options fs)" if "safe E path fs s" and limit: "MIN_DATABASE_BYTES \<le> max_database_bytes options" for s
    unfolding create_database_file_def
    by (rule post_then [OF create_attempts_post [OF that(1) reserve]])
      (auto simp: opened_at_def no_panic_Inl intro: open_created_post [OF _ dev reserve limit])
  show ?thesis unfolding create_with_options_def
  proof (rule post_then_lift)
    fix u
    assume "validate_options options = Inr u"
    then have limit: "MIN_DATABASE_BYTES \<le> max_database_bytes options" by (simp add: validate_options_def split: if_splits)
    show "post (io_then (case parent path of Some p \<Rightarrow> question (create_dir_all p) | None \<Rightarrow> io_return ()) (\<lambda>_.
        io_then (ensure_absent path) (\<lambda>_. io_then (create_database_file E process_id path) (\<lambda>i. on_inode i (file_from_storage E options)))))
        fs (opened_at E path options fs)"
    proof (rule post_then [OF dirs])
      fix x :: unit and s
      assume "safe E path fs s \<and> no_panic (Inr x :: unit result)"
      then have "safe E path fs s" by simp
      then show "post (io_then (ensure_absent path) (\<lambda>_. io_then (create_database_file E process_id path) (\<lambda>i. on_inode i (file_from_storage E options)))) s
          (opened_at E path options fs)"
        by (intro post_then [OF ensure_absent_post]) (auto intro: bad made limit)
    qed (auto intro: bad)
  qed (auto simp: validate_options_def split: if_splits intro: bad safe)
qed

subsection \<open>Creating without failures\<close>

text \<open>A path whose last piece is a name of its own, not empty and not \<^verbatim>\<open>.\<close>\<close>

definition names_file :: "string \<Rightarrow> bool" where
  "names_file path \<longleftrightarrow> last (pieces path) \<noteq> [] \<and> last (pieces path) \<noteq> ''.''"

lemma pieces_not_Nil [simp]: "pieces path \<noteq> []"
  by (induction path) (auto split: list.splits)

lemma pieces_append: "CHR ''/'' \<notin> set suffix \<Longrightarrow> pieces (path @ suffix) = butlast (pieces path) @ [last (pieces path) @ suffix]"
proof (induction path)
  case Nil
  then show ?case by (induction suffix) auto
next
  case (Cons c path)
  obtain p ps where "pieces path = p # ps" by (cases "pieces path") auto
  with Cons show ?case by (cases ps) auto
qed

lemma pieces_bare: "CHR ''/'' \<notin> set path \<Longrightarrow> pieces path = [path]"
  using pieces_append [of path "[]"] by simp

lemma component_pieces_id: "ps \<noteq> [] \<Longrightarrow> last ps \<noteq> [] \<Longrightarrow> last ps \<noteq> ''.'' \<Longrightarrow> component_pieces ps = ps"
  by (cases ps; cases "tl ps" rule: rev_cases) (auto simp: component_pieces_def)

lemma parent_names_file:
  assumes "names_file path"
  shows "parent path = Some (let rest = butlast (pieces path) in
    if rest = [] then [] else let up = component_pieces rest in if up = [] then ''/'' else join up)"
  using assms component_pieces_id [of "pieces path"] by (simp add: parent_def names_file_def Let_def)

lemma parent_append:
  assumes "names_file path" and "CHR ''/'' \<notin> set suffix" and "1 < length suffix"
  shows "parent (path @ suffix) = parent path"
proof -
  have "last (pieces path) @ suffix \<noteq> ''.''" using assms(1,3) by (cases "last (pieces path)") (auto simp: names_file_def)
  then have "names_file (path @ suffix)" using assms by (simp add: names_file_def pieces_append)
  with assms show ?thesis by (simp add: parent_names_file pieces_append)
qed

lemma parent_bare: "CHR ''/'' \<notin> set path \<Longrightarrow> path \<noteq> [] \<Longrightarrow> path \<noteq> ''.'' \<Longrightarrow> names_file path \<and> parent path = Some []"
  using parent_names_file [of path] by (simp add: names_file_def pieces_bare)

lemma publish_quiet:
  assumes "upcoming fs = []" and "names fs temporary = Some i" and "in_directory path fs" and "\<not> taken path fs" and "temporary \<noteq> path"
  shows "publish_created path dir temporary i fs =
    (if dir \<noteq> [] \<and> dir \<in> directories fs then (Inr i, fs\<lparr>names := (names fs)(path \<mapsto> i, temporary := None)\<rparr>)
     else (Inl (Err (error_from not_found)), fs\<lparr>names := (names fs)(path \<mapsto> i)\<rparr>))"
  using assms
  by (simp add: publish_created_def hard_link_def sys_call_def remove_file_def sync_directory_def open_directory_def dir_sync_all_def
      io_then_def question_def)

lemma show_nat_digits: "c \<in> set (show_nat n) \<Longrightarrow> of_char c \<in> {48 .. 57 :: nat}"
proof (induction n rule: show_nat.induct)
  case (1 n)
  then show ?case by (subst (asm) show_nat.simps) (auto split: if_splits)
qed

lemma show_nat_no_slash: "CHR ''/'' \<notin> set (show_nat n)"
  using show_nat_digits [of "CHR ''/''" n] by auto

lemma creation_path_facts:
  assumes "creation_path process_id path fs = (temporary, fs1)"
  shows "temporary \<noteq> path" and "fs1 = fs\<lparr>next_creation_file := next_creation_file fs + 1\<rparr>"
    and "names_file path \<Longrightarrow> parent temporary = parent path"
proof -
  let ?suffix = "''.creating-'' @ show_nat process_id @ ''-'' @ show_nat (unat (next_creation_file fs))"
  have t: "temporary = path @ ?suffix" using assms by (simp add: creation_path_def)
  then show "temporary \<noteq> path" by simp
  show "fs1 = fs\<lparr>next_creation_file := next_creation_file fs + 1\<rparr>" using assms by (simp add: creation_path_def)
  show "parent temporary = parent path" if "names_file path"
    unfolding t by (rule parent_append [OF that]) (simp_all add: show_nat_no_slash)
qed

text \<open>A file system on which a path can be created and nothing fails; it may be without the path's directory.\<close>

definition ready :: "nat \<Rightarrow> string \<Rightarrow> filesystem \<Rightarrow> bool" where
  "ready process_id path fs \<longleftrightarrow> names_file path \<and> upcoming fs = [] \<and> set (device_plan fs) \<subseteq> {None}
     \<and> \<not> taken path fs \<and> \<not> taken (fst (creation_path process_id path fs)) fs
     \<and> (\<forall>p i. names fs p = Some i \<longrightarrow> i < free_inode fs) \<and> names fs (the (parent path)) = None
     \<and> the (parent path) \<notin> {path, fst (creation_path process_id path fs)}"

lemma fill_quiet:
  assumes "upcoming fs = []" and "names fs temporary = Some i" and "in_directory path fs" and "\<not> taken path fs" and "temporary \<noteq> path"
    and "initialize_file E (inodes fs i) = (Inr (), f)"
  shows "fill_created E path dir temporary i fs =
    (let fs = fs\<lparr>inodes := (inodes fs)(i := f)\<rparr> in
     if dir \<noteq> [] \<and> dir \<in> directories fs then (Inr i, fs\<lparr>names := (names fs)(path \<mapsto> i, temporary := None)\<rparr>)
     else (Inl (Err (error_from not_found)), fs\<lparr>names := (names fs)(path \<mapsto> i)\<rparr>))"
proof -
  let ?fs = "fs\<lparr>inodes := (inodes fs)(i := f)\<rparr>"
  have "publish_created path dir temporary i ?fs =
    (if dir \<noteq> [] \<and> dir \<in> directories ?fs then (Inr i, ?fs\<lparr>names := (names ?fs)(path \<mapsto> i, temporary := None)\<rparr>)
     else (Inl (Err (error_from not_found)), ?fs\<lparr>names := (names ?fs)(path \<mapsto> i)\<rparr>))"
    using assms(1-5) by (intro publish_quiet) (simp_all add: in_directory_def taken_def split: option.splits)
  with assms(1,6) show ?thesis
    by (simp add: fill_created_def lock_created_def try_lock_exclusive_def sys_call_def lock_database_file_def on_inode_def io_then_def)
qed

lemma create_file_quiet:
  assumes ready: "ready process_id path fs" and reserve: "\<forall>n. try_reserve E n" and dir: "parent path = Some d" "d = [] \<or> d \<in> directories fs"
    and tmp: "temporary = fst (creation_path process_id path fs)"
  obtains fs' where "create_database_file E process_id path fs = (if d \<noteq> [] then Inr (free_inode fs) else Inl (Err (error_from not_found)), fs')"
    and "names fs' = (if d \<noteq> [] then (names fs)(path \<mapsto> free_inode fs) else (names fs)(temporary \<mapsto> free_inode fs, path \<mapsto> free_inode fs))"
    and "contents (inodes fs' (free_inode fs)) = empty_image E" and "file_quiet (inodes fs' (free_inode fs))"
proof -
  let ?i = "free_inode fs" and ?new = "\<lparr>contents = [], file_position = 0, plan = device_plan fs\<rparr> :: disk_file"
  obtain fs1 where path: "creation_path process_id path fs = (temporary, fs1)" using tmp by (metis prod.collapse)
  note facts = creation_path_facts [OF path]
  have free: "\<not> taken temporary fs1" "\<not> taken path fs1" "upcoming fs1 = []" "names_file path"
    using ready by (simp_all add: ready_def path facts(2) taken_def)
  have parent: "parent temporary = Some d" using facts(3) [OF free(4)] dir(1) by simp
  obtain r f where init: "initialize_file E ?new = (r, f)" by fastforce
  have quiet: "file_quiet ?new" using ready by (simp add: ready_def file_quiet_def)
  with initialize_file_post [OF reserve _ init] have f: "r = Inr ()" "contents f = empty_image E" "set (plan f) \<subseteq> set (device_plan fs)" by auto
  let ?fs2 = "bind_new temporary ?new fs1"
  have fields: "free_inode fs1 = ?i" "names fs1 = names fs" "directories fs1 = directories fs" "device_plan fs1 = device_plan fs" by (simp_all add: facts(2))
  have new: "create_new temporary fs1 = (Inr ?i, ?fs2)"
    using free parent dir(2) by (simp add: create_new_def sys_call_def in_directory_def fields)
  have in2: "initialize_file E (inodes ?fs2 ?i) = (Inr (), f)" using init f(1) by (simp add: fields)
  let ?fs3 = "?fs2\<lparr>inodes := (inodes ?fs2)(?i := f)\<rparr>"
  have "fill_created E path d temporary ?i ?fs2 = (if d \<noteq> [] then (Inr ?i, ?fs3\<lparr>names := (names ?fs2)(path \<mapsto> ?i, temporary := None)\<rparr>)
     else (Inl (Err (error_from not_found)), ?fs3\<lparr>names := (names ?fs2)(path \<mapsto> ?i)\<rparr>))" (is "_ = ?result")
    using fill_quiet [OF _ _ _ _ facts(1) in2, of d] free dir facts(1)
    by (auto simp: in_directory_def taken_def fields Let_def)
  moreover have "create_database_file E process_id path fs = fill_created E path d temporary ?i ?fs2"
    by (simp add: create_database_file_def dir(1) numeral_eq_Suc path new)
  moreover have "names fs temporary = None" using free(1) by (simp add: taken_def fields)
  then have "(names fs)(temporary := None) = names fs" by (rule fun_upd_idem)
  moreover have "set (plan f) \<subseteq> {None}" using f(3) quiet by (auto simp: file_quiet_def)
  ultimately show thesis
    using f(2) facts(1) that [of "snd ?result"] by (cases "d = []") (auto simp: fields file_quiet_def fun_upd_twist)
qed

lemma open_created_quiet:
  assumes "contents (inodes fs i) = empty_image E" and "file_quiet (inodes fs i)" and reserve: "\<forall>n. try_reserve E n"
    and limit: "MIN_DATABASE_BYTES \<le> max_database_bytes options"
  obtains db f where "on_inode i (file_from_storage E options) fs = (Inr db, fs\<lparr>inodes := (inodes fs)(i := f)\<rparr>)"
    and "db_storage db = FileStorage f" and "db_on_file E db Map.empty"
proof -
  let ?s = "FileStorage (inodes fs i)"
  have at: "at_file ?s (empty_image E) ?s" using assms(1) by (simp add: at_file_def file_step_refl)
  have dev: "device_faults ?s" using assms(2) by (auto simp: device_faults_def file_quiet_def)
  have len: "length (empty_image E) \<le> max_database_bytes options"
    using limit length_empty_image [OF reserve] by (simp add: MIN_DATABASE_BYTES_def DATA_START_def EMPTY_SEGMENT_SIZE_def)
  obtain r s' where run: "from_storage E options ?s = (r, s')" by fastforce
  have empty: "image_map [] [] = Map.empty" by (simp add: image_map_def)
  from postD [OF from_storage_post [OF at dev empty_disk_image [OF reserve] reserve len] run, unfolded empty] assms(2) obtain db f where
    "r = Inr db" "s' = FileStorage f" "db_storage db = s'" "db_on_file E db Map.empty" by (auto simp: file_step_def faulty_def)
  with run show thesis by (intro that [of db f]) (simp_all add: on_inode_def file_from_storage_def)
qed

text \<open>Up to the creation of the file.\<close>

lemma create_start_quiet:
  assumes "ready process_id path fs" and "MIN_DATABASE_BYTES \<le> max_database_bytes options" and "parent path = Some d"
  defines "fs1 \<equiv> if d = [] then fs else fs\<lparr>directories := insert d (directories fs)\<rparr>"
  shows "create_with_options E process_id path options fs =
      io_then (create_database_file E process_id path) (\<lambda>i. on_inode i (file_from_storage E options)) fs1"
    and "ready process_id path fs1" and "d = [] \<or> d \<in> directories fs1" and "names fs1 = names fs" and "free_inode fs1 = free_inode fs"
    and "fst (creation_path process_id path fs1) = fst (creation_path process_id path fs)"
  using assms
  by (auto simp: create_with_options_def validate_options_def create_dir_all_def ensure_absent_def symlink_metadata_def sys_call_def
      ready_def taken_def creation_path_def io_then_def question_def)

subsection \<open>Properties\<close>

text \<open>
  C10. Creating a database is atomic and never overwrites. Whatever calls on the file system fail, with or without
  effect, and whatever names other processes take in between: every name that was bound is still bound to the same
  file with the same contents; what is found at the path afterwards was there before, was put there by
  another process, or is a complete empty database, never a half-written one; and a handle is returned only for an
  empty database that this call has put there.
\<close>

theorem create_safe:
  assumes "\<forall>p i. names fs p = Some i \<longrightarrow> i < free_inode fs" and "device_ok fs" and "\<forall>n. try_reserve E n"
    and "create_with_options E process_id path options fs = (r, fs')"
  shows "(\<forall>p i. names fs p = Some i \<longrightarrow> names fs' p = Some i \<and> inodes fs' i = inodes fs i)
    \<and> (\<forall>i. names fs' path = Some i \<longrightarrow> names fs path = Some i \<or> Appears path (contents (inodes fs' i)) \<in> set (upcoming fs)
         \<or> holds E (contents (inodes fs' i)) Map.empty)
    \<and> (\<forall>db. r = Inr db \<longrightarrow> names fs path = None \<and> (\<exists>i. names fs' path = Some i \<and> db_storage db = FileStorage (inodes fs' i))
         \<and> db_on_file E db Map.empty)
    \<and> no_panic r"
  using postD [OF create_with_options_post [OF assms(1-3)] assms(4)] by (auto simp: opened_at_def safe_def)

text \<open>A file system with one file, on which another process takes a name and a call fails.\<close>

definition sample_fs :: "sys_event list \<Rightarrow> filesystem" where
  "sample_fs evs = \<lparr>names = [''d/a'' \<mapsto> 0], inodes = (\<lambda>_. \<lparr>contents = [7], file_position = 0, plan = []\<rparr>), free_inode = 1,
     directories = {}, next_creation_file = 0, device_plan = [], upcoming = evs\<rparr>"

theorem create_safe_witness:
  "\<exists>r fs'. create_with_options reference_externs 4 ''d/x'' default_options
      (sample_fs [Through, Through, Through, Appears ''d/x'' [1], Fails True (IoError Other ''device'')]) = (r, fs')
    \<and> names fs' ''d/a'' = Some 0 \<and> contents (inodes fs' 0) = [7]"
proof -
  let ?fs = "sample_fs [Through, Through, Through, Appears ''d/x'' [1], Fails True (IoError Other ''device'')]"
  obtain r fs' where run: "create_with_options reference_externs 4 ''d/x'' default_options ?fs = (r, fs')" by fastforce
  have "\<forall>p i. names ?fs p = Some i \<longrightarrow> i < free_inode ?fs" "device_ok ?fs"
    by (auto simp: sample_fs_def device_faults_def split: if_splits)
  note safe = create_safe [OF this reference_reserve run]
  have "names ?fs ''d/a'' = Some 0" "contents (inodes ?fs 0) = [7]" by (simp_all add: sample_fs_def)
  with safe [THEN conjunct1, rule_format, of "''d/a''" 0] run show ?thesis by auto
qed

text \<open>
  C17. When nothing fails, creating a database succeeds: if neither the path nor the name of the temporary file is
  taken and the path has a directory part, the handle is on an empty database at the path, every other name
  is as before, and the temporary file is gone.
\<close>

theorem create_succeeds:
  assumes "ready process_id path fs" and "parent path = Some d" and "d \<noteq> []" and "\<forall>n. try_reserve E n"
    and "MIN_DATABASE_BYTES \<le> max_database_bytes options"
  shows "\<exists>db fs'. create_with_options E process_id path options fs = (Inr db, fs') \<and> names fs' = (names fs)(path \<mapsto> free_inode fs)
    \<and> db_storage db = FileStorage (inodes fs' (free_inode fs)) \<and> db_on_file E db Map.empty"
proof -
  note start = create_start_quiet [OF assms(1,5,2)]
  let ?fs1 = "if d = [] then fs else fs\<lparr>directories := insert d (directories fs)\<rparr>"
  obtain fs' where "create_database_file E process_id path ?fs1 =
      (if d \<noteq> [] then Inr (free_inode ?fs1) else Inl (Err (error_from not_found)), fs')"
    "names fs' = (if d \<noteq> [] then (names ?fs1)(path \<mapsto> free_inode ?fs1)
       else (names ?fs1)(fst (creation_path process_id path ?fs1) \<mapsto> free_inode ?fs1, path \<mapsto> free_inode ?fs1))"
    "contents (inodes fs' (free_inode ?fs1)) = empty_image E" "file_quiet (inodes fs' (free_inode ?fs1))"
    by (rule create_file_quiet [OF start(2) assms(4,2) start(3) refl])
  then have fs': "create_database_file E process_id path ?fs1 = (Inr (free_inode fs), fs')" "names fs' = (names fs)(path \<mapsto> free_inode fs)"
    "contents (inodes fs' (free_inode fs)) = empty_image E" "file_quiet (inodes fs' (free_inode fs))"
    using assms(3) by simp_all
  obtain db f where db: "on_inode (free_inode fs) (file_from_storage E options) fs' = (Inr db, fs'\<lparr>inodes := (inodes fs')(free_inode fs := f)\<rparr>)"
    "db_storage db = FileStorage f" "db_on_file E db Map.empty" by (rule open_created_quiet [OF fs'(3,4) assms(4,5)])
  show ?thesis
    by (intro exI [of _ db] exI [of _ "fs'\<lparr>inodes := (inodes fs')(free_inode fs := f)\<rparr>"])
      (simp add: start(1) fs'(1,2) io_then_def db)
qed

theorem create_succeeds_witness:
  "\<exists>db fs'. create_with_options reference_externs 4 ''d/x'' default_options (sample_fs []) = (Inr db, fs')
    \<and> names fs' ''d/x'' = Some 1 \<and> db_on_file reference_externs db Map.empty"
proof -
  have "ready 4 ''d/x'' (sample_fs [])" "parent ''d/x'' = Some ''d''"
    by (auto simp: ready_def sample_fs_def names_file_def parent_def component_pieces_def taken_def creation_path_def split: if_splits)
  from create_succeeds [OF this _ reference_reserve empty_file_facts(3) [OF reference_reserve]] show ?thesis
    by (auto simp: sample_fs_def)
qed

text \<open>
  C18. A bare file name cannot be created. The parent of a path without a separator is the empty path, which the
  code takes for a directory: opening it to sync it fails after the database has been published. So
  creating a database under such a name reports that there is no such file even when nothing fails, and leaves
  the complete database and the temporary name behind.
\<close>

theorem create_bare_name_fails:
  assumes "CHR ''/'' \<notin> set path" and "ready process_id path fs" and "\<forall>n. try_reserve E n"
    and "MIN_DATABASE_BYTES \<le> max_database_bytes options"
  shows "\<exists>fs'. create_with_options E process_id path options fs = (Inl (Err (error_from not_found)), fs')
    \<and> names fs' = (names fs)(fst (creation_path process_id path fs) \<mapsto> free_inode fs, path \<mapsto> free_inode fs)
    \<and> holds E (contents (inodes fs' (free_inode fs))) Map.empty"
proof -
  have d: "parent path = Some []" using assms(2) parent_bare [OF assms(1)] pieces_bare [OF assms(1)] by (auto simp: ready_def names_file_def)
  note start = create_start_quiet [OF assms(2,4) d]
  have held: "holds E (empty_image E) Map.empty" using empty_file_facts(1) [OF assms(3)] by (simp add: empty_file_def)
  let ?t = "fst (creation_path process_id path fs)" and ?i = "free_inode fs"
  have here: "[] = ([] :: string) \<or> [] \<in> directories fs" by simp
  obtain fs' where fs': "create_database_file E process_id path fs = (if [] \<noteq> ([] :: string) then Inr ?i else Inl (Err (error_from not_found)), fs')"
    "names fs' = (if [] \<noteq> ([] :: string) then (names fs)(path \<mapsto> ?i) else (names fs)(?t \<mapsto> ?i, path \<mapsto> ?i))"
    "contents (inodes fs' ?i) = empty_image E" by (rule create_file_quiet [OF assms(2,3) d here refl])
  have "create_with_options E process_id path options fs = (Inl (Err (error_from not_found)), fs')"
    using start(1) [of E] fs'(1) by (simp add: io_then_def)
  with fs'(2,3) held show ?thesis by (intro exI [of _ fs']) simp
qed

theorem create_bare_name_fails_witness:
  "\<exists>fs'. create_with_options reference_externs 4 ''x'' default_options (sample_fs []) = (Inl (Err (error_from not_found)), fs')
    \<and> names fs' ''x'' = Some 1 \<and> names fs' ''x.creating-4-0'' = Some 1"
proof -
  have "show_nat 4 = ''4''" "show_nat 0 = ''0''" by code_simp+
  then have tmp: "fst (creation_path 4 ''x'' (sample_fs [])) = ''x.creating-4-0''" by (simp add: creation_path_def sample_fs_def)
  have "ready 4 ''x'' (sample_fs [])"
    unfolding ready_def tmp by (auto simp: sample_fs_def names_file_def parent_def component_pieces_def taken_def split: if_splits)
  from create_bare_name_fails [OF _ this reference_reserve empty_file_facts(3) [OF reference_reserve], unfolded tmp] show ?thesis
    by (auto simp: sample_fs_def)
qed

end
