(* ===== verification/Lkv_Verifier_Shared.thy ===== *)
theory Lkv_Verifier_Shared
  imports Lkv_Verifier
begin

section \<open>A verifier shared between threads (database/state.rs)\<close>

text \<open>
  Snapshots may be read from several threads, and all of them check blocks through one \<^verbatim>\<open>SegmentVerifier\<close>.
  Here \<^verbatim>\<open>verify_range\<close> is cut at its atomic accesses (the loads, \<^verbatim>\<open>fetch_or\<close>, \<^verbatim>\<open>fetch_sub\<close> and the store), and any
  number of threads interleave. The accesses are taken to happen in one order that all threads agree on. The mapped
  bytes and the checksums do not change, so the comparison of a block belongs to the load before it.
\<close>

subsection \<open>The steps of a reader\<close>

text \<open>Where a reader stands; each state but \<open>Idle\<close> carries the range, and those in the loop the block and the last one.\<close>

datatype reader =
    Idle
  | LoadFull nat nat
  | LoadBit nat nat nat nat
  | FetchOr nat nat nat nat
  | FetchSub nat nat nat nat
  | StoreFull nat nat nat nat
  | Returned nat nat "unit result"

unbundle bit_operations_syntax

definition next_block :: "nat \<Rightarrow> nat \<Rightarrow> nat \<Rightarrow> nat \<Rightarrow> reader" where
  "next_block s e block final = (if block < final then LoadBit s e (Suc block) final else Returned s e (Inr ()))"

definition block_mask :: "nat \<Rightarrow> u64" where
  "block_mask block = push_bit (block mod 64) 1"

definition load_bit :: "externs \<Rightarrow> bytes \<Rightarrow> segment_verifier \<Rightarrow> nat \<Rightarrow> nat \<Rightarrow> nat \<Rightarrow> nat \<Rightarrow> reader" where
  "load_bit E mapping v s e block final =
     (let word = block div 64 in
      if \<not> word < length (verified v) then Returned s e (Inl Panic)
      else if verified v ! word AND block_mask block \<noteq> 0 then next_block s e block final
      else
      let block_start = block * CHECKSUM_BLOCK_SIZE;
          block_end = min (block_start + CHECKSUM_BLOCK_SIZE) (data_size v) in
      case index_range mapping block_start block_end of
        Inl err \<Rightarrow> Returned s e (Inl err)
      | Inr bytes \<Rightarrow>
          if \<not> block < length (checksums v) then Returned s e (Inl Panic)
          else if crc32c E bytes \<noteq> checksums v ! block
          then Returned s e (Inl (Err (corrupted_block (verifier_offset v) block)))
          else FetchOr s e block final)"

fun atomic_step :: "externs \<Rightarrow> bytes \<Rightarrow> segment_verifier \<Rightarrow> reader \<Rightarrow> segment_verifier \<times> reader" where
  "atomic_step E mapping v (LoadFull s e) =
     (v, if fully_verified v then Returned s e (Inr ())
         else if s > e then Returned s e (Inl (Err (invalid_base ''read range lies outside segment'')))
         else if e > data_size v then Returned s e (Inl (Err (invalid_base ''read range lies outside segment data'')))
         else if s = e then Returned s e (Inr ())
         else LoadBit s e (s div CHECKSUM_BLOCK_SIZE) ((e - 1) div CHECKSUM_BLOCK_SIZE))"
| "atomic_step E mapping v (LoadBit s e block final) = (v, load_bit E mapping v s e block final)"
| "atomic_step E mapping v (FetchOr s e block final) =
     (let previous = verified v ! (block div 64) in
      (v\<lparr>verified := (verified v)[block div 64 := previous OR block_mask block]\<rparr>,
       if previous AND block_mask block = 0 then FetchSub s e block final else next_block s e block final))"
| "atomic_step E mapping v (FetchSub s e block final) =
     (v\<lparr>remaining := (remaining v + usize_limit - 1) mod usize_limit\<rparr>,
      if remaining v = 1 then StoreFull s e block final else next_block s e block final)"
| "atomic_step E mapping v (StoreFull s e block final) = (v\<lparr>fully_verified := True\<rparr>, next_block s e block final)"
| "atomic_step E mapping v r = (v, r)"

text \<open>The threads: one that is not in a call may begin one, any other takes its next step.\<close>

inductive shared_step :: "externs \<Rightarrow> bytes \<Rightarrow> segment_verifier \<times> reader list \<Rightarrow> segment_verifier \<times> reader list \<Rightarrow> bool"
  for E mapping where
  call: "i < length rs \<Longrightarrow> rs ! i = Idle \<or> rs ! i = Returned s0 e0 r0 \<Longrightarrow> shared_step E mapping (v, rs) (v, rs[i := LoadFull s e])"
| atomic: "i < length rs \<Longrightarrow> atomic_step E mapping v (rs ! i) = (v', r) \<Longrightarrow> shared_step E mapping (v, rs) (v', rs[i := r])"

inductive shared_run :: "externs \<Rightarrow> bytes \<Rightarrow> segment_verifier \<times> reader list \<Rightarrow> segment_verifier \<times> reader list \<Rightarrow> bool"
  for E mapping where
  start: "shared_run E mapping c c"
| then_step: "shared_run E mapping c c1 \<Longrightarrow> shared_step E mapping c1 c2 \<Longrightarrow> shared_run E mapping c c2"

subsection \<open>The result of a range\<close>

definition range_result :: "externs \<Rightarrow> bytes \<Rightarrow> segment_verifier \<Rightarrow> nat \<Rightarrow> nat \<Rightarrow> unit result" where
  "range_result E mapping v s e =
     (if s = e then Inr ()
      else case find (\<lambda>b. \<not> block_matches E mapping v b) [s div 65536 ..< Suc ((e - 1) div 65536)] of
        None \<Rightarrow> Inr ()
      | Some b \<Rightarrow> Inl (Err (corrupted_block (verifier_offset v) b)))"

lemma verify_block_list_find:
  assumes "verifier_ok mapping v" and "verifier_sound E mapping v" and "\<forall>b \<in> set blocks. b < block_count v"
  shows "fst (verify_block_list E mapping blocks v) =
    (case find (\<lambda>b. \<not> block_matches E mapping v b) blocks of
       None \<Rightarrow> Inr () | Some b \<Rightarrow> Inl (Err (corrupted_block (verifier_offset v) b)))"
  using assms
proof (induction blocks arbitrary: v)
  case (Cons b blocks)
  from Cons.prems obtain v1 where v1: "verify_block E mapping b v =
      (if block_matches E mapping v b then Inr () else Inl (Err (corrupted_block (verifier_offset v) b)), v1)"
    "verifier_ok mapping v1" "verifier_sound E mapping v1" "same_segment v v1"
    using verify_block_result [of mapping v E b] by auto
  have same: "block_matches E mapping v1 = block_matches E mapping v" "verifier_offset v1 = verifier_offset v" "block_count v1 = block_count v"
    using same_segment_matches [OF v1(4)] same_segment_count [OF v1(4)] v1(4) by (simp_all add: same_segment_def)
  show ?case
  proof (cases "block_matches E mapping v b")
    case True
    with v1(1) have "fst (verify_block_list E mapping (b # blocks) v) = fst (verify_block_list E mapping blocks v1)"
      by (simp add: io_then_def)
    with True Cons.IH [OF v1(2,3)] Cons.prems(3) same show ?thesis by (simp split: option.splits)
  qed (use v1(1) in simp)
qed simp

lemma verify_range_find:
  assumes ok: "verifier_ok mapping v" and sound: "verifier_sound E mapping v" and "s \<le> e" and "e \<le> data_size v"
  shows "fst (verify_range E mapping s e v) = range_result E mapping v s e"
proof (cases "s = e \<or> fully_verified v")
  case True
  have "find (\<lambda>b. \<not> block_matches E mapping v b) [s div 65536 ..< Suc ((e - 1) div 65536)] = None" if "s \<noteq> e"
    using True that sound touched_block_count [OF ok _ assms(4)] touched_blocks [of s e] assms(3)
    by (auto simp: find_None_iff verifier_sound_def simp del: upt_Suc)
  with True assms(3,4) show ?thesis by (auto simp: verify_range_def range_result_def)
next
  case False
  then have "\<forall>b \<in> set [s div 65536 ..< Suc ((e - 1) div 65536)]. b < block_count v"
    using touched_block_count [OF ok _ assms(4)] touched_blocks [of s e] assms(3) by (auto simp del: upt_Suc)
  from verify_block_list_find [OF ok sound this] False assms(3,4) show ?thesis by (simp add: verify_range_def range_result_def del: upt_Suc)
qed

subsection \<open>The invariant\<close>

text \<open>A reader in the loop: the blocks before its own match.\<close>

definition in_loop :: "externs \<Rightarrow> bytes \<Rightarrow> segment_verifier \<Rightarrow> nat \<Rightarrow> nat \<Rightarrow> nat \<Rightarrow> nat \<Rightarrow> bool" where
  "in_loop E mapping v0 s e block final \<longleftrightarrow> s < e \<and> e \<le> data_size v0 \<and> final = (e - 1) div 65536
     \<and> s div 65536 \<le> block \<and> block \<le> final \<and> (\<forall>c. s div 65536 \<le> c \<and> c < block \<longrightarrow> block_matches E mapping v0 c)"

fun reader_ok :: "externs \<Rightarrow> bytes \<Rightarrow> segment_verifier \<Rightarrow> segment_verifier \<Rightarrow> reader \<Rightarrow> bool" where
  "reader_ok E mapping v0 v (LoadBit s e block final) \<longleftrightarrow> in_loop E mapping v0 s e block final"
| "reader_ok E mapping v0 v (FetchOr s e block final) \<longleftrightarrow> in_loop E mapping v0 s e block final \<and> block_matches E mapping v0 block"
| "reader_ok E mapping v0 v (FetchSub s e block final) \<longleftrightarrow> in_loop E mapping v0 s e block final \<and> block_matches E mapping v0 block"
| "reader_ok E mapping v0 v (StoreFull s e block final) \<longleftrightarrow> in_loop E mapping v0 s e block final \<and> block_matches E mapping v0 block
     \<and> unset_blocks v = {}"
| "reader_ok E mapping v0 v (Returned s e r) \<longleftrightarrow> no_panic r \<and> (s \<le> e \<and> e \<le> data_size v0 \<longrightarrow> r = range_result E mapping v0 s e)"
| "reader_ok E mapping v0 v r \<longleftrightarrow> True"

text \<open>The readers that have set a bit and not yet counted it.\<close>

fun uncounted :: "reader \<Rightarrow> nat" where
  "uncounted (FetchSub s e block final) = 1"
| "uncounted r = 0"

fun storing :: "reader \<Rightarrow> bool" where
  "storing (StoreFull s e block final) = True"
| "storing r = False"

definition pending :: "reader list \<Rightarrow> nat" where
  "pending rs = sum_list (map uncounted rs)"

text \<open>What no step changes, and what the bits, the counter and the flag say.\<close>

definition static_ok :: "bytes \<Rightarrow> segment_verifier \<Rightarrow> segment_verifier \<Rightarrow> bool" where
  "static_ok mapping v0 v \<longleftrightarrow> verifier_ok mapping v0 \<and> verifier_offset v = verifier_offset v0 \<and> data_size v = data_size v0
     \<and> checksums v = checksums v0 \<and> length (verified v) = length (verified v0)"

definition shared_ok :: "externs \<Rightarrow> bytes \<Rightarrow> segment_verifier \<Rightarrow> segment_verifier \<Rightarrow> reader list \<Rightarrow> bool" where
  "shared_ok E mapping v0 v rs \<longleftrightarrow> static_ok mapping v0 v
     \<and> remaining v = card (unset_blocks v) + pending rs \<and> remaining v \<le> block_count v0
     \<and> (\<forall>b < block_count v0. block_bit v b \<longrightarrow> block_matches E mapping v0 b)
     \<and> (fully_verified v \<longrightarrow> unset_blocks v = {})
     \<and> (unset_blocks v = {} \<and> 0 < block_count v0 \<longrightarrow> fully_verified v \<or> 0 < pending rs \<or> (\<exists>r \<in> set rs. storing r))
     \<and> (\<forall>r \<in> set rs. reader_ok E mapping v0 v r)"

lemma static_facts:
  assumes "static_ok mapping v0 v"
  shows "block_count v = block_count v0" and "block_matches E mapping v = block_matches E mapping v0"
    and "b < block_count v0 \<Longrightarrow> b div 64 < length (verified v)"
  using assms block_word_less [of mapping v0 b]
  by (auto simp: static_ok_def block_count_def block_matches_def fun_eq_iff)

lemma in_loop_block:
  assumes "verifier_ok mapping v0" and "in_loop E mapping v0 s e block final"
  shows "block < block_count v0" and "block * 65536 < data_size v0"
proof -
  have "block \<in> set [s div 65536 ..< Suc ((e - 1) div 65536)]" "s < e" "e \<le> data_size v0"
    using assms(2) by (auto simp: in_loop_def simp del: upt_Suc)
  then have t: "touches block s e" using touched_blocks by blast
  show "block < block_count v0" by (rule touched_block_count [OF assms(1) t]) fact
  show "block * 65536 < data_size v0" using t \<open>e \<le> data_size v0\<close> by (simp add: touches_def)
qed

lemma next_block_ok:
  assumes "in_loop E mapping v0 s e block final" and "block_matches E mapping v0 block"
  shows "reader_ok E mapping v0 v (next_block s e block final)"
proof (cases "block < final")
  case True
  with assms show ?thesis by (auto simp: next_block_def in_loop_def less_Suc_eq)
next
  case False
  with assms have "find (\<lambda>b. \<not> block_matches E mapping v0 b) [s div 65536 ..< Suc ((e - 1) div 65536)] = None"
    by (auto simp: find_None_iff in_loop_def less_Suc_eq simp del: upt_Suc)
  with False show ?thesis by (simp add: next_block_def range_result_def del: upt_Suc)
qed

lemma find_append_None: "find P xs = None \<Longrightarrow> find P (xs @ ys) = find P ys"
  by (induction xs) (auto split: if_splits)

lemma range_result_mismatch:
  assumes "in_loop E mapping v0 s e block final" and "\<not> block_matches E mapping v0 block"
  shows "range_result E mapping v0 s e = Inl (Err (corrupted_block (verifier_offset v0) block))"
proof -
  let ?n = "Suc ((e - 1) div 65536)"
  have split: "[s div 65536 ..< ?n] = [s div 65536 ..< block] @ block # [Suc block ..< ?n]"
    using assms(1) upt_add_eq_append [of "s div 65536" block "?n - block"] upt_conv_Cons [of block ?n] by (simp add: in_loop_def)
  have "find (\<lambda>b. \<not> block_matches E mapping v0 b) [s div 65536 ..< block] = None"
    using assms(1) by (auto simp: find_None_iff in_loop_def)
  then have "find (\<lambda>b. \<not> block_matches E mapping v0 b) [s div 65536 ..< ?n] = Some block"
    unfolding split using assms(2) by (simp add: find_append_None del: upt_Suc)
  then show ?thesis using assms(1) by (simp add: range_result_def in_loop_def del: upt_Suc)
qed

subsection \<open>Every step keeps the invariant\<close>

lemma pending_update: "i < length rs \<Longrightarrow> pending (rs[i := r]) + uncounted (rs ! i) = pending rs + uncounted r"
  by (induction rs arbitrary: i) (auto simp: pending_def nth_Cons split: nat.splits)

lemma storing_update: "i < length rs \<Longrightarrow> \<not> storing (rs ! i) \<Longrightarrow> \<exists>r \<in> set rs. storing r \<Longrightarrow> \<exists>r \<in> set (rs[i := x]). storing r"
  by (metis in_set_conv_nth length_list_update nth_list_update_neq)

lemma all_update: "\<forall>r \<in> set rs. P r \<Longrightarrow> P x \<Longrightarrow> \<forall>r \<in> set (rs[i := x]). P r"
  using set_update_subset_insert [of rs i x] by auto

lemma reader_at: "shared_ok E mapping v0 v rs \<Longrightarrow> i < length rs \<Longrightarrow> reader_ok E mapping v0 v (rs ! i)"
  by (simp add: shared_ok_def)

text \<open>A step that leaves the verifier alone.\<close>

lemma quiet_step_ok:
  assumes ok: "shared_ok E mapping v0 v rs" and i: "i < length rs" and "uncounted (rs ! i) = 0" and "\<not> storing (rs ! i)"
    and "uncounted r = 0" and "reader_ok E mapping v0 v r"
  shows "shared_ok E mapping v0 v (rs[i := r])"
proof -
  have "pending (rs[i := r]) = pending rs" using pending_update [OF i, of r] assms(3,5) by simp
  with ok assms(6) all_update [of rs "reader_ok E mapping v0 v" r i] storing_update [OF i assms(4), of r] show ?thesis
    unfolding shared_ok_def by auto
qed

lemma next_block_quiet: "uncounted (next_block s e block final) = 0"
  by (simp add: next_block_def)

lemma load_full_ok:
  assumes ok: "shared_ok E mapping v0 v rs" and "atomic_step E mapping v (LoadFull s e) = (v', r)"
  shows "v' = v \<and> uncounted r = 0 \<and> reader_ok E mapping v0 v r"
proof -
  have static: "verifier_ok mapping v0" "data_size v = data_size v0" using ok by (simp_all add: shared_ok_def static_ok_def)
  have full: "range_result E mapping v0 s e = Inr ()" if "fully_verified v" "s \<le> e" "e \<le> data_size v0"
  proof -
    have "block_matches E mapping v0 b" if "b < block_count v0" for b
      using ok that \<open>fully_verified v\<close> static_facts(1) [of mapping v0 v] by (auto simp: shared_ok_def unset_blocks_def)
    then have "find (\<lambda>b. \<not> block_matches E mapping v0 b) [s div 65536 ..< Suc ((e - 1) div 65536)] = None" if "s \<noteq> e"
      using that \<open>s \<le> e\<close> touched_block_count [OF static(1) _ \<open>e \<le> data_size v0\<close>] touched_blocks [of s e]
      by (auto simp: find_None_iff simp del: upt_Suc)
    then show ?thesis by (simp add: range_result_def del: upt_Suc)
  qed
  have "in_loop E mapping v0 s e (s div 65536) ((e - 1) div 65536)" if "s < e" "e \<le> data_size v0"
    using that by (auto simp: in_loop_def intro!: div_le_mono)
  with assms(2) full static(2) show ?thesis by (auto simp: range_result_def split: if_splits)
qed

lemma load_bit_ok:
  assumes ok: "shared_ok E mapping v0 v rs" and loop: "in_loop E mapping v0 s e block final"
  shows "uncounted (load_bit E mapping v s e block final) = 0 \<and> reader_ok E mapping v0 v (load_bit E mapping v s e block final)"
proof -
  have static: "verifier_ok mapping v0" "static_ok mapping v0 v" using ok by (simp_all add: shared_ok_def static_ok_def)
  note block = in_loop_block [OF static(1) loop] and facts = static_facts [OF static(2)]
  have fields: "data_size v = data_size v0" "verifier_offset v = verifier_offset v0" "length (checksums v) = block_count v0"
    using static(2) by (simp_all add: static_ok_def block_count_def)
  have bit: "verified v ! (block div 64) AND block_mask block \<noteq> 0 \<longleftrightarrow> block_bit v block"
    by (simp only: block_bit_def block_mask_def bit_iff_and_push_bit_not_eq_0)
  have "data_size v0 \<le> length mapping" using static(1) by (simp add: verifier_ok_def)
  then have range: "index_range mapping (block * 65536) (min (block * 65536 + 65536) (data_size v)) =
      Inr (range_of (block * 65536) (min (block * 65536 + 65536) (data_size v)) mapping)"
    using block(2) fields(1) by (intro index_range_in) auto
  have step: "load_bit E mapping v s e block final = (if block_bit v block then next_block s e block final
      else if block_matches E mapping v block then FetchOr s e block final
      else Returned s e (Inl (Err (corrupted_block (verifier_offset v0) block))))"
    using facts(3) [OF block(1)] bit range block(1) fields by (simp add: load_bit_def Let_def block_matches_def)
  have "block_matches E mapping v0 block" if "block_bit v block" using ok block(1) that by (simp add: shared_ok_def)
  then show ?thesis unfolding step
    using loop facts(2) [of E] next_block_ok [OF loop] next_block_quiet range_result_mismatch [OF loop] by auto
qed

lemma finite_unset: "finite (unset_blocks v)"
  by (simp add: unset_blocks_def)

lemma fetch_or_ok:
  assumes ok: "shared_ok E mapping v0 v rs" and i: "i < length rs" and here: "rs ! i = FetchOr s e block final"
    and step: "atomic_step E mapping v (rs ! i) = (v', r)"
  shows "shared_ok E mapping v0 v' (rs[i := r])"
proof -
  let ?w = "block div 64"
  have static: "verifier_ok mapping v0" "static_ok mapping v0 v" using ok by (simp_all add: shared_ok_def static_ok_def)
  have loop: "in_loop E mapping v0 s e block final" "block_matches E mapping v0 block" using reader_at [OF ok i] here by simp_all
  note block = in_loop_block [OF static(1) loop(1)] and facts = static_facts [OF static(2)]
  have bit: "verified v ! ?w AND block_mask block = 0 \<longleftrightarrow> \<not> block_bit v block"
    using bit_iff_and_push_bit_not_eq_0 [of "verified v ! ?w" "block mod 64"] by (auto simp: block_bit_def block_mask_def)
  have v': "v' = v\<lparr>verified := (verified v)[?w := verified v ! ?w OR block_mask block]\<rparr>"
    and r: "r = (if block_bit v block then next_block s e block final else FetchSub s e block final)"
    using step by (auto simp: here Let_def bit)
  have bits: "block_bit v' b \<longleftrightarrow> block_bit v b \<or> b = block" for b
    using block_bit_set_block [of block v b] facts(3) [OF block(1)]
    by (simp add: v' set_block_def Let_def block_bit_def block_mask_def split: if_splits)
  have count: "block_count v' = block_count v0" using facts(1) by (simp add: v' block_count_def)
  have unset: "unset_blocks v' = unset_blocks v - {block}" by (auto simp: unset_blocks_def bits count facts(1))
  have "block \<in> unset_blocks v \<longleftrightarrow> \<not> block_bit v block" using block(1) facts(1) by (simp add: unset_blocks_def)
  then have card: "card (unset_blocks v') + uncounted r = card (unset_blocks v)"
    using card_Suc_Diff1 [OF finite_unset, of block v] by (cases "block_bit v block") (simp_all add: unset r next_block_quiet)
  have pending: "pending (rs[i := r]) = pending rs + uncounted r" using pending_update [OF i, of r] here by simp
  have static': "static_ok mapping v0 v'" using static(2) by (simp add: static_ok_def v')
  have "\<forall>r \<in> set rs. reader_ok E mapping v0 v' r"
  proof
    fix x
    assume "x \<in> set rs"
    then have "reader_ok E mapping v0 v x" using ok by (simp add: shared_ok_def)
    then show "reader_ok E mapping v0 v' x" using unset by (cases x) auto
  qed
  moreover have "reader_ok E mapping v0 v' r" using loop next_block_ok [OF loop] by (simp add: r)
  ultimately have readers: "\<forall>r \<in> set (rs[i := r]). reader_ok E mapping v0 v' r" by (rule all_update)
  have all: "fully_verified v' \<or> 0 < pending (rs[i := r]) \<or> (\<exists>r \<in> set (rs[i := r]). storing r)" if "unset_blocks v' = {}" "0 < block_count v0"
  proof (cases "block_bit v block")
    case True
    then have "unset_blocks v = {}" using that(1) unset by (auto simp: unset_blocks_def)
    then have "fully_verified v \<or> 0 < pending rs \<or> (\<exists>r \<in> set rs. storing r)" using ok that(2) by (simp add: shared_ok_def)
    then show ?thesis using storing_update [OF i, of r] here by (auto simp: v' pending)
  next
    case False
    then have "uncounted r = 1" by (simp add: r)
    with pending show ?thesis by simp
  qed
  have "fully_verified v' = fully_verified v" by (simp add: v')
  then have "fully_verified v' \<Longrightarrow> unset_blocks v' = {}" using ok unset by (auto simp: shared_ok_def)
  moreover have "remaining v' = card (unset_blocks v') + pending (rs[i := r])" "remaining v' \<le> block_count v0"
    using ok card pending by (simp_all add: shared_ok_def v')
  ultimately show ?thesis unfolding shared_ok_def using static' ok bits loop(2) readers all by (auto simp: shared_ok_def)
qed

lemma fetch_sub_ok:
  assumes ok: "shared_ok E mapping v0 v rs" and i: "i < length rs" and here: "rs ! i = FetchSub s e block final"
    and step: "atomic_step E mapping v (rs ! i) = (v', r)"
  shows "shared_ok E mapping v0 v' (rs[i := r])"
proof -
  have static: "static_ok mapping v0 v" and rem: "remaining v = card (unset_blocks v) + pending rs" "remaining v \<le> block_count v0"
    and "block_count v0 < usize_limit" using ok by (simp_all add: shared_ok_def static_ok_def verifier_ok_def)
  have loop: "in_loop E mapping v0 s e block final" "block_matches E mapping v0 block" using reader_at [OF ok i] here by simp_all
  have pending: "pending (rs[i := r]) + 1 = pending rs"
    using pending_update [OF i, of r] here step by (auto simp: next_block_quiet split: if_splits)
  then have pos: "0 < remaining v" "remaining v < usize_limit" using rem \<open>block_count v0 < usize_limit\<close> by simp_all
  then have v': "v' = v\<lparr>remaining := remaining v - 1\<rparr>" and r: "r = (if remaining v = 1 then StoreFull s e block final else next_block s e block final)"
    using step by (auto simp: here mod_if)
  have same: "unset_blocks v' = unset_blocks v" "block_bit v' = block_bit v"
    by (auto simp: v' unset_blocks_def block_bit_def block_count_def fun_eq_iff)
  have none: "unset_blocks v = {}" if "remaining v = 1"
  proof -
    have "card (unset_blocks v) = 0" using that rem(1) pending by simp
    then show ?thesis using finite_unset by simp
  qed
  have "\<forall>r \<in> set rs. reader_ok E mapping v0 v' r"
  proof
    fix x
    assume "x \<in> set rs"
    then have "reader_ok E mapping v0 v x" using ok by (simp add: shared_ok_def)
    then show "reader_ok E mapping v0 v' x" by (cases x) (auto simp: same)
  qed
  moreover have "reader_ok E mapping v0 v' r" using loop next_block_ok [OF loop] none by (simp add: r same)
  ultimately have readers: "\<forall>r \<in> set (rs[i := r]). reader_ok E mapping v0 v' r" by (rule all_update)
  have "0 < pending (rs[i := r]) \<or> (\<exists>r \<in> set (rs[i := r]). storing r)" if "unset_blocks v = {}"
  proof (cases "remaining v = 1")
    case True
    then show ?thesis using i by (auto simp: r intro!: bexI [of _ r] set_update_memI)
  next
    case False
    then show ?thesis using that rem(1) pending by simp
  qed
  moreover have "static_ok mapping v0 v'" using static by (simp add: static_ok_def v')
  moreover have "remaining v' = card (unset_blocks v') + pending (rs[i := r])" "remaining v' \<le> block_count v0"
    unfolding same(1) using rem pending by (simp_all add: v')
  ultimately show ?thesis unfolding shared_ok_def using ok readers same by (auto simp: shared_ok_def v')
qed

lemma store_full_ok:
  assumes ok: "shared_ok E mapping v0 v rs" and i: "i < length rs" and here: "rs ! i = StoreFull s e block final"
  shows "shared_ok E mapping v0 (v\<lparr>fully_verified := True\<rparr>) (rs[i := next_block s e block final])"
proof -
  let ?v = "v\<lparr>fully_verified := True\<rparr>" and ?r = "next_block s e block final"
  have loop: "in_loop E mapping v0 s e block final" "block_matches E mapping v0 block" "unset_blocks v = {}"
    using reader_at [OF ok i] here by simp_all
  have same: "unset_blocks ?v = unset_blocks v" "block_bit ?v = block_bit v"
    by (auto simp: unset_blocks_def block_bit_def block_count_def fun_eq_iff)
  have "\<forall>r \<in> set rs. reader_ok E mapping v0 ?v r"
  proof
    fix x
    assume "x \<in> set rs"
    then have "reader_ok E mapping v0 v x" using ok by (simp add: shared_ok_def)
    then show "reader_ok E mapping v0 ?v x" by (cases x) (auto simp: same)
  qed
  then have "\<forall>r \<in> set (rs[i := ?r]). reader_ok E mapping v0 ?v r" using next_block_ok [OF loop(1,2)] by (rule all_update)
  moreover have "pending (rs[i := ?r]) = pending rs" using pending_update [OF i, of ?r] here by (simp add: next_block_quiet)
  ultimately show ?thesis using ok loop(3) same by (auto simp: shared_ok_def static_ok_def)
qed

lemma atomic_step_ok:
  assumes ok: "shared_ok E mapping v0 v rs" and i: "i < length rs" and step: "atomic_step E mapping v (rs ! i) = (v', r)"
  shows "shared_ok E mapping v0 v' (rs[i := r])"
proof (cases "rs ! i")
  case Idle
  with step have "v' = v" "rs[i := r] = rs" by (auto simp: list_update_same_conv [OF i])
  with ok show ?thesis by simp
next
  case (Returned s e r0)
  with step have "v' = v" "rs[i := r] = rs" by (auto simp: list_update_same_conv [OF i])
  with ok show ?thesis by simp
next
  case (LoadFull s e)
  with load_full_ok [OF ok] step have "v' = v" "uncounted r = 0" "reader_ok E mapping v0 v r" by metis+
  with quiet_step_ok [OF ok i] LoadFull show ?thesis by simp
next
  case (LoadBit s e block final)
  with reader_at [OF ok i] load_bit_ok [OF ok] step have "v' = v" "uncounted r = 0" "reader_ok E mapping v0 v r" by auto
  with quiet_step_ok [OF ok i] LoadBit show ?thesis by simp
next
  case (FetchOr s e block final)
  show ?thesis by (rule fetch_or_ok [OF ok i FetchOr step])
next
  case (FetchSub s e block final)
  show ?thesis by (rule fetch_sub_ok [OF ok i FetchSub step])
next
  case (StoreFull s e block final)
  with store_full_ok [OF ok i StoreFull] step show ?thesis by simp
qed

lemma shared_step_ok: "shared_step E mapping (v, rs) (v', rs') \<Longrightarrow> shared_ok E mapping v0 v rs \<Longrightarrow> shared_ok E mapping v0 v' rs' \<and> length rs' = length rs"
proof (cases rule: shared_step.cases, assumption, goal_cases)
  case (1 i s0 e0 r0 s e)
  then have "uncounted (rs ! i) = 0" "\<not> storing (rs ! i)" by auto
  with 1 show ?case by (auto intro: quiet_step_ok)
next
  case 2
  then show ?case by (auto intro: atomic_step_ok)
qed

lemma shared_run_ok:
  assumes "shared_run E mapping (v0, rs) c" and "shared_ok E mapping v0 v0 rs"
  shows "shared_ok E mapping v0 (fst c) (snd c) \<and> length (snd c) = length rs"
  using assms
proof (induction "(v0, rs)" c rule: shared_run.induct)
  case (then_step c1 c2)
  then show ?case using shared_step_ok [of E mapping "fst c1" "snd c1" "fst c2" "snd c2" v0] by simp
qed simp

lemma shared_start:
  assumes "segment_layout_of E mapping = Inr layout"
  shows "shared_ok E mapping (verifier_new offset layout False) (verifier_new offset layout False) (replicate n Idle)"
proof -
  let ?v = "verifier_new offset layout False"
  have ok: "verifier_ok mapping ?v" and sound: "verifier_sound E mapping ?v"
    using verifier_new_ok [OF assms] verifier_new_sound [OF assms] by blast+
  have "card (unset_blocks ?v) \<le> card {..<block_count ?v}" by (intro card_mono) (auto simp: unset_blocks_def)
  moreover have "pending (replicate n Idle) = 0" by (induction n) (simp_all add: pending_def)
  moreover have "\<not> fully_verified ?v" by (simp add: verifier_new_def Let_def)
  moreover from this ok have "unset_blocks ?v \<noteq> {}" if "0 < block_count ?v" using that finite_unset [of ?v] by (auto simp: verifier_ok_def)
  ultimately show ?thesis using ok sound by (auto simp: shared_ok_def static_ok_def verifier_ok_def verifier_sound_def)
qed

text \<open>When no reader is in a call, the shared verifier is one that a sequential history could have left.\<close>

lemma shared_quiescent:
  assumes ok: "shared_ok E mapping v0 v rs" and "\<forall>r \<in> set rs. r = Idle \<or> (\<exists>s e x. r = Returned s e x)"
  shows "verifier_ok mapping v \<and> verifier_sound E mapping v"
proof -
  have "\<forall>r \<in> set rs. uncounted r = 0" "\<forall>r \<in> set rs. \<not> storing r" using assms(2) by (metis uncounted.simps storing.simps)+
  then have quiet: "pending rs = 0" "\<not> (\<exists>r \<in> set rs. storing r)" by (simp_all add: pending_def)
  have static: "static_ok mapping v0 v" and rem: "remaining v = card (unset_blocks v)"
    and bits: "\<And>b. b < block_count v0 \<Longrightarrow> block_bit v b \<Longrightarrow> block_matches E mapping v0 b"
    and full: "fully_verified v \<Longrightarrow> unset_blocks v = {}" "unset_blocks v = {} \<Longrightarrow> 0 < block_count v0 \<Longrightarrow> fully_verified v"
    using ok quiet by (simp_all add: shared_ok_def)
  note facts = static_facts [OF static]
  have "remaining v = 0 \<longleftrightarrow> unset_blocks v = {}" using rem finite_unset [of v] by simp
  then have "0 < block_count v0 \<longrightarrow> fully_verified v = (remaining v = 0)" using full by blast
  then have "verifier_ok mapping v" using static facts(1) rem by (simp add: verifier_ok_def static_ok_def)
  moreover have "block_matches E mapping v0 b" if "b < block_count v0" "block_bit v b \<or> fully_verified v" for b
    using that bits full(1) facts(1) by (auto simp: unset_blocks_def)
  then have "verifier_sound E mapping v" unfolding verifier_sound_def facts(1) facts(2) [of E] by blast
  ultimately show ?thesis by blast
qed

subsection \<open>One reader alone\<close>

text \<open>Run by itself, a reader does what the sequential \<open>verify_range\<close> does.\<close>

definition alone :: "externs \<Rightarrow> bytes \<Rightarrow> nat \<Rightarrow> segment_verifier \<times> reader \<Rightarrow> segment_verifier \<times> reader" where
  "alone E mapping n = ((\<lambda>(v, r). atomic_step E mapping v r) ^^ n)"

lemma alone_add: "alone E mapping (m + n) c = alone E mapping n (alone E mapping m c)"
  by (simp add: alone_def funpow_add add.commute [of m n])

lemma alone_step: "alone E mapping (Suc n) (v, r) = alone E mapping n (atomic_step E mapping v r)"
  by (simp add: alone_def funpow_swap1)

lemma alone_0: "alone E mapping 0 c = c"
  by (simp add: alone_def)

lemma alone_block:
  assumes "verify_block E mapping block v = (r, v')"
  shows "\<exists>n. alone E mapping n (v, LoadBit s e block final) = (v', case r of Inl err \<Rightarrow> Returned s e (Inl err) | Inr _ \<Rightarrow> next_block s e block final)"
proof (cases "load_bit E mapping v s e block final = FetchOr s e block final")
  case False
  with assms have "v' = v \<and> load_bit E mapping v s e block final = (case r of Inl err \<Rightarrow> Returned s e (Inl err) | Inr _ \<Rightarrow> next_block s e block final)"
    by (auto simp: load_bit_def verify_block_def Let_def block_mask_def split: if_splits sum.splits)
  then show ?thesis by (intro exI [of _ 1]) (simp add: alone_def)
next
  case True
  have bit: "verified v ! (block div 64) AND block_mask block = 0"
    using True by (auto simp: load_bit_def Let_def next_block_def split: if_splits sum.splits)
  let ?v1 = "v\<lparr>verified := (verified v)[block div 64 := verified v ! (block div 64) OR block_mask block]\<rparr>"
  let ?v2 = "?v1\<lparr>remaining := (remaining v + usize_limit - 1) mod usize_limit\<rparr>"
  have r: "r = Inr ()" "v' = (if remaining v = 1 then ?v2\<lparr>fully_verified := True\<rparr> else ?v2)"
    using assms True by (auto simp: load_bit_def verify_block_def Let_def block_mask_def next_block_def split: if_splits sum.splits)
  have steps: "alone E mapping (Suc (Suc (Suc n))) (v, LoadBit s e block final) =
      alone E mapping n (?v2, if remaining v = 1 then StoreFull s e block final else next_block s e block final)" for n
    by (simp add: alone_step True bit Let_def)
  show ?thesis
  proof (cases "remaining v = 1")
    case one: True
    have "alone E mapping (Suc (Suc (Suc 1))) (v, LoadBit s e block final) = (v', next_block s e block final)"
      unfolding steps using one r(2) by (simp add: alone_def)
    then show ?thesis using r(1) by (intro exI [of _ "Suc (Suc (Suc 1))"]) simp
  next
    case False
    have "alone E mapping (Suc (Suc (Suc 0))) (v, LoadBit s e block final) = (v', next_block s e block final)"
      unfolding steps using False r(2) by (simp add: alone_0)
    then show ?thesis using r(1) by (intro exI [of _ "Suc (Suc (Suc 0))"]) simp
  qed
qed

lemma alone_blocks:
  assumes "block \<le> final" and "verify_block_list E mapping [block ..< Suc final] v = (r, v')"
  shows "\<exists>n. alone E mapping n (v, LoadBit s e block final) = (v', Returned s e r)"
  using assms
proof (induction "final - block" arbitrary: block v)
  case 0
  then have "block = final" by simp
  with 0(3) obtain x where x: "verify_block E mapping block v = (x, v')" and "r = x"
    by (cases "verify_block E mapping block v") (auto simp: io_then_def io_return_def split: sum.splits)
  with alone_block [OF x, of s e final] \<open>block = final\<close> show ?case by (cases x) (auto simp: next_block_def)
next
  case (Suc n)
  then have upt: "[block ..< Suc final] = block # [Suc block ..< Suc final]" and lt: "block < final" by (simp_all add: upt_conv_Cons del: upt_Suc)
  obtain x v1 where x: "verify_block E mapping block v = (x, v1)" by fastforce
  from alone_block [OF x, of s e final] obtain m where
    m: "alone E mapping m (v, LoadBit s e block final) = (v1, case x of Inl err \<Rightarrow> Returned s e (Inl err) | Inr _ \<Rightarrow> next_block s e block final)" by blast
  show ?case
  proof (cases x)
    case (Inl err)
    with Suc.prems(2) x m show ?thesis unfolding upt by (auto simp: io_then_def)
  next
    case (Inr u)
    with Suc.prems(2) x have "verify_block_list E mapping [Suc block ..< Suc final] v1 = (r, v')"
      unfolding upt by (simp add: io_then_def del: upt_Suc)
    with Suc.hyps lt obtain n' where "alone E mapping n' (v1, LoadBit s e (Suc block) final) = (v', Returned s e r)"
      by (metis Suc_leI diff_Suc_1 Suc_diff_Suc)
    with m Inr lt show ?thesis by (intro exI [of _ "m + n'"]) (simp add: alone_add next_block_def)
  qed
qed

lemma alone_range:
  assumes "verify_range E mapping s e v = (r, v')"
  shows "\<exists>n. alone E mapping n (v, LoadFull s e) = (v', Returned s e r)"
proof (cases "fully_verified v \<or> \<not> s < e \<or> data_size v < e")
  case True
  with assms show ?thesis by (intro exI [of _ 1]) (auto simp: verify_range_def alone_def split: if_splits)
next
  case False
  then have "verify_block_list E mapping [s div 65536 ..< Suc ((e - 1) div 65536)] v = (r, v')" "s div 65536 \<le> (e - 1) div 65536"
    using assms by (auto simp: verify_range_def simp del: upt_Suc intro!: div_le_mono)
  from alone_blocks [OF this(2,1)] obtain n where
    "alone E mapping n (v, LoadBit s e (s div 65536) ((e - 1) div 65536)) = (v', Returned s e r)" by blast
  with False show ?thesis by (intro exI [of _ "Suc n"]) (simp add: alone_step)
qed

lemma shared_alone:
  assumes "i < length rs" and "alone E mapping n (v, r) = (v', r')"
  shows "shared_run E mapping (v, rs[i := r]) (v', rs[i := r'])"
  using assms(2)
proof (induction n arbitrary: v' r')
  case 0
  then show ?case by (simp add: alone_0 shared_run.start)
next
  case (Suc n)
  obtain v1 r1 where one: "alone E mapping n (v, r) = (v1, r1)" by fastforce
  have "atomic_step E mapping v1 r1 = (v', r')" using Suc.prems one by (simp add: alone_def)
  with shared_step.atomic [of i "rs[i := r1]" E mapping v1 v' r'] assms(1)
  have "shared_step E mapping (v1, rs[i := r1]) (v', rs[i := r'])" by simp
  with Suc.IH [OF one] show ?case by (rule shared_run.then_step)
qed

lemma shared_run_trans: "shared_run E mapping b c \<Longrightarrow> shared_run E mapping a b \<Longrightarrow> shared_run E mapping a c"
  by (induction rule: shared_run.induct) (blast intro: shared_run.then_step)+

subsection \<open>Properties\<close>

text \<open>
  C29. The verifier may be shared between threads. Take a segment with a valid layout, a new verifier and any
  number of threads that check ranges through it, their atomic accesses interleaved in any way. A call that has
  returned for a range inside the data has the result the sequential check gives on the new verifier, whatever the other
  threads did meanwhile, and none panics. The counter never wraps around, the flag is set only when every block has
  its stored checksum, and once no call is under way the bits, the counter and the flag agree again.
\<close>

theorem shared_verifier_correct:
  fixes offset layout
  defines "v0 \<equiv> verifier_new offset layout False"
  assumes "segment_layout_of E mapping = Inr layout" and "shared_run E mapping (v0, replicate n Idle) (v, rs)"
  shows "(\<forall>i s e r. i < n \<and> rs ! i = Returned s e r \<longrightarrow> no_panic r
       \<and> (s \<le> e \<and> e \<le> length (layout_data layout) \<longrightarrow> r = fst (verify_range E mapping s e v0)))
    \<and> remaining v \<le> block_count v0
    \<and> (fully_verified v \<longrightarrow> (\<forall>b < block_count v0. block_matches E mapping v0 b))
    \<and> ((\<forall>r \<in> set rs. r = Idle \<or> (\<exists>s e x. r = Returned s e x)) \<longrightarrow> verifier_ok mapping v \<and> verifier_sound E mapping v)"
proof -
  from shared_run_ok [OF assms(3)] shared_start [OF assms(2)] have ok: "shared_ok E mapping v0 v rs" and len: "length rs = n"
    by (simp_all add: v0_def)
  have size: "data_size v0 = length (layout_data layout)" by (simp add: v0_def verifier_new_def Let_def)
  have "r = fst (verify_range E mapping s e v0)" if "r = range_result E mapping v0 s e" "s \<le> e" "e \<le> data_size v0" for s e r
    using that verify_range_find [of mapping v0 E s e] verifier_new_ok [OF assms(2)] verifier_new_sound [OF assms(2)] by (simp add: v0_def)
  then have "no_panic r \<and> (s \<le> e \<and> e \<le> length (layout_data layout) \<longrightarrow> r = fst (verify_range E mapping s e v0))"
    if "i < n" "rs ! i = Returned s e r" for i s e r
    using reader_at [OF ok, of i] that len size by simp
  moreover have "block_matches E mapping v0 b" if "fully_verified v" "b < block_count v0" for b
    using ok that static_facts(1) [of mapping v0 v] by (auto simp: shared_ok_def unset_blocks_def)
  ultimately show ?thesis using ok shared_quiescent [OF ok] by (auto simp: shared_ok_def)
qed

text \<open>One thread runs a call to its end while another is about to begin.\<close>

theorem shared_verifier_correct_witness:
  "\<exists>v r. shared_run reference_externs ([1, 2, 3] @ segment_metadata reference_externs [1, 2, 3])
      (verifier_new 8192 \<lparr>layout_data = [1, 2, 3], layout_checksums = segment_table reference_externs [1, 2, 3]\<rparr> False, replicate 2 Idle)
      (v, [Returned 0 3 r, LoadFull 1 2])
    \<and> no_panic r \<and> r = fst (verify_range reference_externs ([1, 2, 3] @ segment_metadata reference_externs [1, 2, 3]) 0 3
        (verifier_new 8192 \<lparr>layout_data = [1, 2, 3], layout_checksums = segment_table reference_externs [1, 2, 3]\<rparr> False))"
proof -
  let ?E = reference_externs and ?m = "[1, 2, 3] @ segment_metadata reference_externs [1, 2, 3]"
    and ?l = "\<lparr>layout_data = [1, 2, 3], layout_checksums = segment_table reference_externs [1, 2, 3]\<rparr>"
  let ?v0 = "verifier_new 8192 ?l False"
  obtain r v where "verify_range ?E ?m 0 3 ?v0 = (r, v)" by fastforce
  from alone_range [OF this] obtain n where "alone ?E ?m n (?v0, LoadFull 0 3) = (v, Returned 0 3 r)" by blast
  from shared_alone [OF _ this, of 0 "[Idle, LoadFull 1 2]"]
  have alone: "shared_run ?E ?m (?v0, [LoadFull 0 3, LoadFull 1 2]) (v, [Returned 0 3 r, LoadFull 1 2])" by simp
  have "shared_step ?E ?m (?v0, [Idle, Idle]) (?v0, [Idle, LoadFull 1 2])"
    using shared_step.call [of 1 "[Idle, Idle]" _ _ _ ?E ?m ?v0 1 2] by simp
  moreover have "shared_step ?E ?m (?v0, [Idle, LoadFull 1 2]) (?v0, [LoadFull 0 3, LoadFull 1 2])"
    using shared_step.call [of 0 "[Idle, LoadFull 1 2]" _ _ _ ?E ?m ?v0 0 3] by simp
  ultimately have "shared_run ?E ?m (?v0, [Idle, Idle]) (?v0, [LoadFull 0 3, LoadFull 1 2])"
    by (blast intro: shared_run.intros)
  from shared_run_trans [OF alone this]
  have run: "shared_run ?E ?m (?v0, replicate 2 Idle) (v, [Returned 0 3 r, LoadFull 1 2])" by (simp add: numeral_2_eq_2)
  from shared_verifier_correct [OF small_layout run, THEN conjunct1, rule_format, of 0 0 3 r]
  have "no_panic r" "r = fst (verify_range ?E ?m 0 3 ?v0)" by auto
  with run show ?thesis by blast
qed


end
