(* ===== verification/Lkv_Ffi.thy ===== *)
theory Lkv_Ffi
  imports Lkv_Maintenance Lkv_Create
begin

section \<open>The C interface (ffi.rs)\<close>

text \<open>
  The functions a C program calls. Pointers are numbers and 0 is \<^verbatim>\<open>NULL\<close>. The memory of the caller is one map for
  each type of object, so that objects of different types do not overlap. A handle is the address of a
  database, a snapshot or a write batch; an address that holds none is a violation of the caller's contract and gives
  \<open>Undefined\<close>. A panic is caught and becomes a status; if it happens under the write lock, the lock stays poisoned.

  The model of a panic carries no message, so the text of its payload is a field of the state. The state behind
  the context pointer of a callback is \<open>caller\<close>. A storage whose handle is dropped is kept in \<open>released\<close>.
\<close>

subsection \<open>Status codes\<close>

type_synonym lkv_status = int

definition LKV_OK :: lkv_status where [simp]: "LKV_OK = 0"
definition LKV_NOT_FOUND :: lkv_status where [simp]: "LKV_NOT_FOUND = 1"
definition LKV_BUFFER_TOO_SMALL :: lkv_status where [simp]: "LKV_BUFFER_TOO_SMALL = 2"
definition LKV_INVALID_ARGUMENT :: lkv_status where [simp]: "LKV_INVALID_ARGUMENT = 3"
definition LKV_IO_ERROR :: lkv_status where [simp]: "LKV_IO_ERROR = 4"
definition LKV_CORRUPTED :: lkv_status where [simp]: "LKV_CORRUPTED = 5"
definition LKV_UNSUPPORTED :: lkv_status where [simp]: "LKV_UNSUPPORTED = 6"
definition LKV_BUSY :: lkv_status where [simp]: "LKV_BUSY = 7"
definition LKV_DATABASE_FULL :: lkv_status where [simp]: "LKV_DATABASE_FULL = 8"
definition LKV_MAINTENANCE_REQUIRED :: lkv_status where [simp]: "LKV_MAINTENANCE_REQUIRED = 9"
definition LKV_POISONED :: lkv_status where [simp]: "LKV_POISONED = 10"
definition LKV_PANIC :: lkv_status where [simp]: "LKV_PANIC = 255"

definition LKV_VERIFICATION_ON_READ :: u32 where "LKV_VERIFICATION_ON_READ = 0"
definition LKV_VERIFICATION_FULL :: u32 where "LKV_VERIFICATION_FULL = 1"

subsection \<open>The state\<close>

record lkv_options =
  lkv_verification :: u32
  lkv_overlay_memory_limit :: nat
  lkv_max_database_bytes :: nat

record lkv_database =
  lkv_inner :: database
  lock_poisoned :: bool

record lkv_snapshot =
  snapshot_inner :: snapshot
  snapshot_owner :: nat

type_synonym lkv_write_batch = "(bytes \<times> bytes option) list"

record 'c api =
  last_error :: string
  panic_payload :: "string option"
  databases :: "nat \<Rightarrow> lkv_database option"
  snapshots :: "nat \<Rightarrow> lkv_snapshot option"
  batches :: "nat \<Rightarrow> lkv_write_batch option"
  fresh_handle :: nat
  released :: "storage list"
  file_system :: filesystem
  byte_cells :: "nat \<Rightarrow> u8"
  length_cells :: "nat \<Rightarrow> nat"
  handle_cells :: "nat \<Rightarrow> nat"
  borrow_cells :: "nat \<Rightarrow> bytes option"
  c_strings :: "nat \<Rightarrow> string"
  options_cells :: "nat \<Rightarrow> lkv_options"
  stats_cells :: "nat \<Rightarrow> database_stats"
  caller :: 'c

subsection \<open>Errors\<close>

record ffi_error =
  ffi_status :: lkv_status
  ffi_message :: "string option"

datatype ffi_failure = Ffi ffi_error | Unwind | NoReturn | Undefined

type_synonym ('c, 'a) ffi = "('c api, ffi_failure, 'a) io"

definition ffi_error_new :: "lkv_status \<Rightarrow> string \<Rightarrow> ffi_error" where
  "ffi_error_new status msg = \<lparr>ffi_status = status, ffi_message = Some msg\<rparr>"

definition ffi_error_control :: "lkv_status \<Rightarrow> ffi_error" where
  "ffi_error_control status = \<lparr>ffi_status = status, ffi_message = None\<rparr>"

fun error_status :: "error \<Rightarrow> lkv_status" where
  "error_status (Corrupted c) = LKV_CORRUPTED"
| "error_status (DatabaseAlreadyOpen e) = LKV_BUSY"
| "error_status (Unsupported e) = LKV_UNSUPPORTED"
| "error_status (InvalidArgument e) = LKV_INVALID_ARGUMENT"
| "error_status (DatabaseFull e) = LKV_DATABASE_FULL"
| "error_status (MaintenanceRequired l a) = LKV_MAINTENANCE_REQUIRED"
| "error_status Poisoned = LKV_POISONED"
| "error_status (Io e) = LKV_IO_ERROR"

definition ffi_error_from :: "error \<Rightarrow> ffi_error" where
  "ffi_error_from e = ffi_error_new (error_status e) (display e)"

text \<open>The \<^verbatim>\<open>?\<close> that turns an error of the library into one of the interface; a panic unwinds through it.\<close>

fun ffi_result :: "'a result \<Rightarrow> ffi_failure + 'a" where
  "ffi_result (Inr x) = Inr x"
| "ffi_result (Inl (Err e)) = Inl (Ffi (ffi_error_from e))"
| "ffi_result (Inl Panic) = Inl Unwind"
| "ffi_result (Inl Diverges) = Inl NoReturn"

definition nul :: char where
  "nul = CHR 0x00"

definition set_last_error :: "string \<Rightarrow> 'c api \<Rightarrow> 'c api" where
  "set_last_error msg s =
     s\<lparr>last_error := concat (map (\<lambda>b. if b = nul then [CHR 0x5C, CHR ''0''] else [b]) msg) @ [nul]\<rparr>"

definition clear_last_error :: "'c api \<Rightarrow> 'c api" where
  "clear_last_error s = s\<lparr>last_error := [nul]\<rparr>"

datatype outcome = Returns lkv_status | Hangs | Violated

definition ffi_call :: "('c, unit) ffi \<Rightarrow> 'c api \<Rightarrow> outcome \<times> 'c api" where
  "ffi_call m s =
     (case m (clear_last_error s) of
        (Inr _, s) \<Rightarrow> (Returns LKV_OK, s)
      | (Inl (Ffi e), s) \<Rightarrow> (Returns (ffi_status e), case ffi_message e of Some msg \<Rightarrow> set_last_error msg s | None \<Rightarrow> s)
      | (Inl Unwind, s) \<Rightarrow>
          (Returns LKV_PANIC, set_last_error (case panic_payload s of Some msg \<Rightarrow> msg
             | None \<Rightarrow> ''Rust panic crossed the lkv C API boundary'') s)
      | (Inl NoReturn, s) \<Rightarrow> (Hangs, s)
      | (Inl Undefined, s) \<Rightarrow> (Violated, s))"

subsection \<open>Arguments\<close>

definition ffi_fail :: "lkv_status \<Rightarrow> string \<Rightarrow> ffi_failure + 'a" where
  "ffi_fail status msg = Inl (Ffi (ffi_error_new status msg))"

definition required_ref :: "nat \<Rightarrow> string \<Rightarrow> ('c, unit) ffi" where
  "required_ref pointer name =
     io_lift (if pointer = 0 then ffi_fail LKV_INVALID_ARGUMENT (name @ '' must not be NULL'') else Inr ())"

definition required_mut :: "nat \<Rightarrow> string \<Rightarrow> ('c, unit) ffi" where
  "required_mut pointer name =
     io_lift (if pointer = 0 then ffi_fail LKV_INVALID_ARGUMENT (name @ '' must not be NULL'') else Inr ())"

definition bytes_at :: "nat \<Rightarrow> nat \<Rightarrow> 'c api \<Rightarrow> bytes" where
  "bytes_at pointer len s = map (byte_cells s) [pointer ..< pointer + len]"

definition input_bytes :: "nat \<Rightarrow> nat \<Rightarrow> string \<Rightarrow> ('c, bytes) ffi" where
  "input_bytes pointer len name s =
     (if len = 0 then Inr []
      else if pointer = 0 then ffi_fail LKV_INVALID_ARGUMENT (name @ '' must not be NULL when its length is non-zero'')
      else Inr (bytes_at pointer len s), s)"

text \<open>\<^verbatim>\<open>CStr::to_str\<close>: the bytes of a well-formed UTF-8 string.\<close>

definition continuation :: "nat \<Rightarrow> bool" where
  "continuation b \<longleftrightarrow> 0x80 \<le> b \<and> b \<le> 0xBF"

fun utf8 :: "nat list \<Rightarrow> bool" where
  "utf8 [] = True"
| "utf8 (a # rest) =
     (if a < 0x80 then utf8 rest
      else if 0xC2 \<le> a \<and> a \<le> 0xDF then (case rest of b # rest \<Rightarrow> continuation b \<and> utf8 rest | _ \<Rightarrow> False)
      else if 0xE0 \<le> a \<and> a \<le> 0xEF then
        (case rest of
           b # c # rest \<Rightarrow> continuation b \<and> (a = 0xE0 \<longrightarrow> 0xA0 \<le> b) \<and> (a = 0xED \<longrightarrow> b \<le> 0x9F) \<and> continuation c \<and> utf8 rest
         | _ \<Rightarrow> False)
      else if 0xF0 \<le> a \<and> a \<le> 0xF4 then
        (case rest of
           b # c # d # rest \<Rightarrow> continuation b \<and> (a = 0xF0 \<longrightarrow> 0x90 \<le> b) \<and> (a = 0xF4 \<longrightarrow> b \<le> 0x8F)
             \<and> continuation c \<and> continuation d \<and> utf8 rest
         | _ \<Rightarrow> False)
      else False)"

definition path_argument :: "nat \<Rightarrow> ('c, string) ffi" where
  "path_argument path =
     io_then (required_ref path ''path'') (\<lambda>_ s.
       (if utf8 (map of_char (c_strings s path)) then Inr (c_strings s path)
        else ffi_fail LKV_INVALID_ARGUMENT ''path must be valid UTF-8'', s))"

definition decode_options :: "lkv_options option \<Rightarrow> ffi_failure + database_options" where
  "decode_options options =
     (case options of
        None \<Rightarrow> Inr default_options
      | Some o1 \<Rightarrow>
          let finish = (\<lambda>mode. Inr (with_max_database_bytes (lkv_max_database_bytes o1)
                (with_overlay_memory_limit (lkv_overlay_memory_limit o1) (with_verification mode default_options)))) in
          if lkv_verification o1 = LKV_VERIFICATION_ON_READ then finish OnRead
          else if lkv_verification o1 = LKV_VERIFICATION_FULL then finish Full
          else ffi_fail LKV_INVALID_ARGUMENT (''unknown verification mode '' @ show_nat (unat (lkv_verification o1))))"

definition options_argument :: "nat \<Rightarrow> 'c api \<Rightarrow> lkv_options option" where
  "options_argument options s = (if options = 0 then None else Some (options_cells s options))"

subsection \<open>Handles\<close>

text \<open>A method under the read lock, and one under the write lock, which a panic poisons.\<close>

definition read_database :: "nat \<Rightarrow> ('c \<times> database, failure, 'a) io \<Rightarrow> ('c, 'a) ffi" where
  "read_database p m s =
     (case databases s p of
        None \<Rightarrow> (Inl Undefined, s)
      | Some d \<Rightarrow>
          if lock_poisoned d then (ffi_fail LKV_PANIC ''database lock was poisoned by a previous panic'', s)
          else (case m (caller s, lkv_inner d) of
            (r, (c, db)) \<Rightarrow> (ffi_result r, s\<lparr>caller := c, databases := (databases s)(p \<mapsto> d\<lparr>lkv_inner := db\<rparr>)\<rparr>)))"

definition write_database :: "nat \<Rightarrow> (database, failure, 'a) io \<Rightarrow> ('c, 'a) ffi" where
  "write_database p m s =
     (case databases s p of
        None \<Rightarrow> (Inl Undefined, s)
      | Some d \<Rightarrow>
          if lock_poisoned d then (ffi_fail LKV_PANIC ''database lock was poisoned by a previous panic'', s)
          else (case m (lkv_inner d) of
            (r, db) \<Rightarrow> (ffi_result r, s\<lparr>databases := (databases s)(p \<mapsto> \<lparr>lkv_inner = db, lock_poisoned = (ffi_result r = Inl Unwind)\<rparr>)\<rparr>)))"

definition plain :: "(database, failure, 'a) io \<Rightarrow> ('c \<times> database, failure, 'a) io" where
  "plain m cd = (case m (snd cd) of (r, db) \<Rightarrow> (r, (fst cd, db)))"

text \<open>\<^verbatim>\<open>Box::into_raw\<close> of a new database, its address stored through \<open>output\<close>.\<close>

definition new_database :: "nat \<Rightarrow> database \<Rightarrow> ('c, unit) ffi" where
  "new_database output db s =
     (Inr (), s\<lparr>databases := (databases s)(fresh_handle s \<mapsto> \<lparr>lkv_inner = db, lock_poisoned = False\<rparr>),
        handle_cells := (handle_cells s)(output := fresh_handle s), fresh_handle := Suc (fresh_handle s)\<rparr>)"

definition set_handle :: "nat \<Rightarrow> nat \<Rightarrow> ('c, unit) ffi" where
  "set_handle output h s = (Inr (), s\<lparr>handle_cells := (handle_cells s)(output := h)\<rparr>)"

definition set_length :: "nat \<Rightarrow> nat \<Rightarrow> ('c, unit) ffi" where
  "set_length p n s = (Inr (), s\<lparr>length_cells := (length_cells s)(p := n)\<rparr>)"

definition set_borrowed :: "nat \<Rightarrow> bytes option \<Rightarrow> ('c, unit) ffi" where
  "set_borrowed p v s = (Inr (), s\<lparr>borrow_cells := (borrow_cells s)(p := v)\<rparr>)"

definition store_bytes :: "nat \<Rightarrow> bytes \<Rightarrow> ('c, unit) ffi" where
  "store_bytes p bs s =
     (Inr (), s\<lparr>byte_cells := (\<lambda>a. if p \<le> a \<and> a < p + length bs then bs ! (a - p) else byte_cells s a)\<rparr>)"

subsection \<open>Values\<close>

definition borrow_value :: "bytes option \<Rightarrow> nat \<Rightarrow> nat \<Rightarrow> ('c, unit) ffi" where
  "borrow_value v output len =
     io_then (set_borrowed output None) (\<lambda>_.
     io_then (set_length len 0) (\<lambda>_.
     case v of
       None \<Rightarrow> io_lift (Inl (Ffi (ffi_error_control LKV_NOT_FOUND)))
     | Some bs \<Rightarrow>
         io_then (set_length len (length bs)) (\<lambda>_.
         if bs \<noteq> [] then set_borrowed output (Some bs) else io_return ())))"

definition ffi_copy_value :: "bytes option \<Rightarrow> nat \<Rightarrow> nat \<Rightarrow> nat \<Rightarrow> ('c, unit) ffi" where
  "ffi_copy_value v output capacity len =
     io_then (set_length len 0) (\<lambda>_.
     if output = 0 \<and> capacity \<noteq> 0
     then io_lift (ffi_fail LKV_INVALID_ARGUMENT ''value must not be NULL when value_capacity is non-zero'')
     else
       case v of
         None \<Rightarrow> io_lift (Inl (Ffi (ffi_error_control LKV_NOT_FOUND)))
       | Some bs \<Rightarrow>
           io_then (set_length len (length bs)) (\<lambda>_.
           if capacity < length bs then io_lift (Inl (Ffi (ffi_error_control LKV_BUFFER_TOO_SMALL)))
           else if bs = [] then io_return ()
           else store_bytes output bs))"

subsection \<open>Databases\<close>

definition lkv_version :: u32 where
  "lkv_version = 1"

definition lkv_last_error_message :: "'c api \<Rightarrow> string" where
  "lkv_last_error_message s = last_error s"

definition lkv_options_init :: "nat \<Rightarrow> 'c api \<Rightarrow> outcome \<times> 'c api" where
  "lkv_options_init output = ffi_call
     (io_then (required_mut output ''output'') (\<lambda>_ s.
       (Inr (), s\<lparr>options_cells := (options_cells s)(output :=
          \<lparr>lkv_verification = LKV_VERIFICATION_ON_READ, lkv_overlay_memory_limit = overlay_memory_limit default_options,
           lkv_max_database_bytes = max_database_bytes default_options\<rparr>)\<rparr>)))"

text \<open>What opening the file at a path gives, and its lock, are arguments, as for \<open>open_with_options\<close>.\<close>

definition lkv_database_open :: "externs \<Rightarrow> (string \<Rightarrow> io_error + disk_file) \<Rightarrow> (string \<Rightarrow> io_error option) \<Rightarrow> nat \<Rightarrow> nat \<Rightarrow> nat
    \<Rightarrow> 'c api \<Rightarrow> outcome \<times> 'c api" where
  "lkv_database_open E open_at lock_at path options output = ffi_call
     (io_then (required_mut output ''output'') (\<lambda>_.
      io_then (set_handle output 0) (\<lambda>_.
      io_then (path_argument path) (\<lambda>path_str s.
      io_then (io_lift (decode_options (options_argument options s))) (\<lambda>opts.
      case open_with_options E opts (open_at path_str) (lock_at path_str) of
        (Inr db, _) \<Rightarrow> new_database output db
      | (Inl e, left) \<Rightarrow> (\<lambda>s. (ffi_result (Inl e), s\<lparr>released := (case left of Some st \<Rightarrow> [st] | None \<Rightarrow> []) @ released s\<rparr>))) s))))"

definition lkv_database_create :: "externs \<Rightarrow> nat \<Rightarrow> nat \<Rightarrow> nat \<Rightarrow> nat \<Rightarrow> 'c api \<Rightarrow> outcome \<times> 'c api" where
  "lkv_database_create E process_id path options output = ffi_call
     (io_then (required_mut output ''output'') (\<lambda>_.
      io_then (set_handle output 0) (\<lambda>_.
      io_then (path_argument path) (\<lambda>path_str s.
      io_then (io_lift (decode_options (options_argument options s))) (\<lambda>opts s.
      case create_with_options E process_id path_str opts (file_system s) of
        (r, fs) \<Rightarrow> io_then (io_lift (ffi_result r)) (new_database output) (s\<lparr>file_system := fs\<rparr>)) s))))"

definition lkv_database_open_memory :: "externs \<Rightarrow> nat \<Rightarrow> nat \<Rightarrow> 'c api \<Rightarrow> outcome \<times> 'c api" where
  "lkv_database_open_memory E options output = ffi_call
     (io_then (required_mut output ''output'') (\<lambda>_.
      io_then (set_handle output 0) (\<lambda>_ s.
      io_then (io_lift (decode_options (options_argument options s))) (\<lambda>opts.
      io_then (io_lift (ffi_result (memory_with_options E opts))) (new_database output)) s)))"

definition lkv_database_close :: "nat \<Rightarrow> 'c api \<Rightarrow> outcome \<times> 'c api" where
  "lkv_database_close p = ffi_call (\<lambda>s.
     if p = 0 then (Inr (), s)
     else
       case databases s p of
         None \<Rightarrow> (Inl Undefined, s)
       | Some d \<Rightarrow> (Inr (), s\<lparr>databases := (databases s)(p := None), released := db_storage (lkv_inner d) # released s\<rparr>))"

definition lkv_database_get :: "externs \<Rightarrow> nat \<Rightarrow> nat \<Rightarrow> nat \<Rightarrow> nat \<Rightarrow> nat \<Rightarrow> nat \<Rightarrow> 'c api \<Rightarrow> outcome \<times> 'c api" where
  "lkv_database_get E p key key_len v capacity v_len = ffi_call
     (io_then (required_ref p ''database'') (\<lambda>_.
      io_then (input_bytes key key_len ''key'') (\<lambda>k.
      io_then (required_mut v_len ''value_len'') (\<lambda>_.
      io_then (read_database p (plain (db_get E k))) (\<lambda>found.
      ffi_copy_value found v capacity v_len)))))"

definition lkv_database_get_ref :: "externs \<Rightarrow> nat \<Rightarrow> nat \<Rightarrow> nat \<Rightarrow> nat \<Rightarrow> nat \<Rightarrow> 'c api \<Rightarrow> outcome \<times> 'c api" where
  "lkv_database_get_ref E p key key_len v v_len = ffi_call
     (io_then (required_ref p ''database'') (\<lambda>_.
      io_then (input_bytes key key_len ''key'') (\<lambda>k.
      io_then (required_mut v ''value'') (\<lambda>_.
      io_then (required_mut v_len ''value_len'') (\<lambda>_.
      io_then (read_database p (plain (db_get E k))) (\<lambda>found.
      borrow_value found v v_len))))))"

text \<open>A write transaction from its beginning to its commit; an error before that drops it.\<close>

definition transact :: "externs \<Rightarrow> (write_transaction, failure, unit) io \<Rightarrow> (database, failure, unit) io" where
  "transact E m db =
     (case begin_write db of
        Inl e \<Rightarrow> (Inl e, db)
      | Inr t \<Rightarrow>
          (case m t of
             (Inl e, t) \<Rightarrow> (Inl e, txn_abort t)
           | (Inr _, t) \<Rightarrow> txn_commit E t))"

definition lkv_database_put :: "externs \<Rightarrow> nat \<Rightarrow> nat \<Rightarrow> nat \<Rightarrow> nat \<Rightarrow> nat \<Rightarrow> 'c api \<Rightarrow> outcome \<times> 'c api" where
  "lkv_database_put E p key key_len v v_len = ffi_call
     (io_then (required_ref p ''database'') (\<lambda>_.
      io_then (input_bytes key key_len ''key'') (\<lambda>k.
      io_then (input_bytes v v_len ''value'') (\<lambda>bs.
      write_database p (transact E (txn_put E k bs))))))"

definition lkv_database_delete :: "externs \<Rightarrow> nat \<Rightarrow> nat \<Rightarrow> nat \<Rightarrow> 'c api \<Rightarrow> outcome \<times> 'c api" where
  "lkv_database_delete E p key key_len = ffi_call
     (io_then (required_ref p ''database'') (\<lambda>_.
      io_then (input_bytes key key_len ''key'') (\<lambda>k.
      write_database p (transact E (txn_delete k)))))"

definition lkv_database_len :: "externs \<Rightarrow> nat \<Rightarrow> nat \<Rightarrow> 'c api \<Rightarrow> outcome \<times> 'c api" where
  "lkv_database_len E p output = ffi_call
     (io_then (required_ref p ''database'') (\<lambda>_.
      io_then (required_mut output ''output'') (\<lambda>_.
      io_then (read_database p (plain (db_len E))) (set_length output))))"

definition lkv_database_get_stats :: "nat \<Rightarrow> nat \<Rightarrow> 'c api \<Rightarrow> outcome \<times> 'c api" where
  "lkv_database_get_stats p output = ffi_call
     (io_then (required_ref p ''database'') (\<lambda>_.
      io_then (required_mut output ''output'') (\<lambda>_.
      io_then (read_database p (plain db_stats)) (\<lambda>stats s.
        (Inr (), s\<lparr>stats_cells := (stats_cells s)(output := stats)\<rparr>)))))"

definition lkv_database_sync :: "nat \<Rightarrow> 'c api \<Rightarrow> outcome \<times> 'c api" where
  "lkv_database_sync p = ffi_call (io_then (required_ref p ''database'') (\<lambda>_. read_database p (plain db_sync)))"

definition lkv_database_verify :: "externs \<Rightarrow> nat \<Rightarrow> 'c api \<Rightarrow> outcome \<times> 'c api" where
  "lkv_database_verify E p = ffi_call (io_then (required_ref p ''database'') (\<lambda>_. read_database p (plain (db_verify E))))"

definition lkv_database_compact :: "externs \<Rightarrow> nat \<Rightarrow> 'c api \<Rightarrow> outcome \<times> 'c api" where
  "lkv_database_compact E p = ffi_call (io_then (required_ref p ''database'') (\<lambda>_. write_database p (compact E)))"

subsection \<open>Snapshots\<close>

definition lkv_snapshot_create :: "nat \<Rightarrow> nat \<Rightarrow> 'c api \<Rightarrow> outcome \<times> 'c api" where
  "lkv_snapshot_create p output = ffi_call
     (io_then (required_ref p ''database'') (\<lambda>_.
      io_then (required_mut output ''output'') (\<lambda>_.
      io_then (set_handle output 0) (\<lambda>_.
      io_then (read_database p (plain db_snapshot)) (\<lambda>snap s.
        (Inr (), s\<lparr>snapshots := (snapshots s)(fresh_handle s \<mapsto> \<lparr>snapshot_inner = snap, snapshot_owner = p\<rparr>),
           handle_cells := (handle_cells s)(output := fresh_handle s), fresh_handle := Suc (fresh_handle s)\<rparr>))))))"

definition lkv_snapshot_close :: "nat \<Rightarrow> 'c api \<Rightarrow> outcome \<times> 'c api" where
  "lkv_snapshot_close h = ffi_call (\<lambda>s.
     if h = 0 then (Inr (), s)
     else
       case snapshots s h of
         None \<Rightarrow> (Inl Undefined, s)
       | Some snap \<Rightarrow>
           (Inr (), s\<lparr>snapshots := (snapshots s)(h := None),
              databases := (case databases s (snapshot_owner snap) of
                 None \<Rightarrow> databases s
               | Some d \<Rightarrow> (databases s)(snapshot_owner snap \<mapsto> d\<lparr>lkv_inner := drop_snapshot (lkv_inner d)\<rparr>))\<rparr>))"

definition read_snapshot :: "nat \<Rightarrow> ('c \<times> snapshot, failure, 'a) io \<Rightarrow> ('c, 'a) ffi" where
  "read_snapshot h m s =
     (case snapshots s h of
        None \<Rightarrow> (Inl Undefined, s)
      | Some snap \<Rightarrow>
          (case m (caller s, snapshot_inner snap) of
             (r, (c, inner)) \<Rightarrow> (ffi_result r, s\<lparr>caller := c, snapshots := (snapshots s)(h \<mapsto> snap\<lparr>snapshot_inner := inner\<rparr>)\<rparr>)))"

definition plain_snap :: "(snapshot, failure, 'a) io \<Rightarrow> ('c \<times> snapshot, failure, 'a) io" where
  "plain_snap m cd = (case m (snd cd) of (r, snap) \<Rightarrow> (r, (fst cd, snap)))"

definition lkv_snapshot_get :: "externs \<Rightarrow> nat \<Rightarrow> nat \<Rightarrow> nat \<Rightarrow> nat \<Rightarrow> nat \<Rightarrow> nat \<Rightarrow> 'c api \<Rightarrow> outcome \<times> 'c api" where
  "lkv_snapshot_get E h key key_len v capacity v_len = ffi_call
     (io_then (required_ref h ''snapshot'') (\<lambda>_.
      io_then (input_bytes key key_len ''key'') (\<lambda>k.
      io_then (required_mut v_len ''value_len'') (\<lambda>_.
      io_then (read_snapshot h (plain_snap (snap_get E k))) (\<lambda>found.
      ffi_copy_value found v capacity v_len)))))"

definition lkv_snapshot_get_ref :: "externs \<Rightarrow> nat \<Rightarrow> nat \<Rightarrow> nat \<Rightarrow> nat \<Rightarrow> nat \<Rightarrow> 'c api \<Rightarrow> outcome \<times> 'c api" where
  "lkv_snapshot_get_ref E h key key_len v v_len = ffi_call
     (io_then (required_ref h ''snapshot'') (\<lambda>_.
      io_then (input_bytes key key_len ''key'') (\<lambda>k.
      io_then (required_mut v ''value'') (\<lambda>_.
      io_then (required_mut v_len ''value_len'') (\<lambda>_.
      io_then (read_snapshot h (plain_snap (snap_get E k))) (\<lambda>found.
      borrow_value found v v_len))))))"

subsection \<open>Visiting\<close>

text \<open>The callback takes the state behind its context, a key and a value, and answers 0 to stop.\<close>

type_synonym 'c visitor = "'c \<Rightarrow> bytes \<Rightarrow> bytes \<Rightarrow> int \<times> 'c"

function visit_entries :: "externs \<Rightarrow> 'c visitor \<Rightarrow> entries \<Rightarrow> ('c \<times> segment_verifier, failure, unit) io" where
  "visit_entries E visitor it cv =
     (case entries_next E it (snd cv) of
        (Inl e, v) \<Rightarrow> (Inl e, (fst cv, v))
      | (Inr (None, it'), v) \<Rightarrow> (Inr (), (fst cv, v))
      | (Inr (Some (Inl e), it'), v) \<Rightarrow> (Inl (Err e), (fst cv, v))
      | (Inr (Some (Inr (key, val)), it'), v) \<Rightarrow>
          (case visitor (fst cv) key val of
             (answer, c) \<Rightarrow> if answer = 0 then (Inr (), (c, v)) else visit_entries E visitor it' (c, v)))"
  by pat_completeness auto
termination
  by (relation "measure (\<lambda>(E, visitor, it, cv). raw_left (entries_inner it))") (auto dest: entries_next_left [OF sym])

declare visit_entries.simps [simp del]

definition visit_database :: "externs \<Rightarrow> 'c visitor \<Rightarrow> ('c \<times> database, failure, unit) io" where
  "visit_database E visitor cd =
     (case db_iter (snd cd) of
        (Inl e, db) \<Rightarrow> (Inl e, (fst cd, db))
      | (Inr it, db) \<Rightarrow>
          (case visit_entries E visitor it (fst cd, active_verifier (db_base db)) of
             (r, (c, v)) \<Rightarrow> (r, (c, db\<lparr>db_base := (db_base db)\<lparr>active_verifier := v\<rparr>\<rparr>))))"

definition visit_snapshot :: "externs \<Rightarrow> 'c visitor \<Rightarrow> ('c \<times> snapshot, failure, unit) io" where
  "visit_snapshot E visitor cd =
     (case snap_iter (snd cd) of
        Inl e \<Rightarrow> (Inl e, cd)
      | Inr it \<Rightarrow>
          (case visit_entries E visitor it (fst cd, snap_verifier (snd cd)) of
             (r, (c, v)) \<Rightarrow> (r, (c, (snd cd)\<lparr>snap_verifier := v\<rparr>))))"

definition visitor_argument :: "'c visitor option \<Rightarrow> ('c, 'c visitor) ffi" where
  "visitor_argument visitor =
     io_lift (case visitor of Some f \<Rightarrow> Inr f | None \<Rightarrow> ffi_fail LKV_INVALID_ARGUMENT ''visitor must not be NULL'')"

definition lkv_snapshot_visit :: "externs \<Rightarrow> nat \<Rightarrow> 'c visitor option \<Rightarrow> 'c api \<Rightarrow> outcome \<times> 'c api" where
  "lkv_snapshot_visit E h visitor = ffi_call
     (io_then (required_ref h ''snapshot'') (\<lambda>_.
      io_then (visitor_argument visitor) (\<lambda>f. read_snapshot h (visit_snapshot E f))))"

definition lkv_database_visit :: "externs \<Rightarrow> nat \<Rightarrow> 'c visitor option \<Rightarrow> 'c api \<Rightarrow> outcome \<times> 'c api" where
  "lkv_database_visit E p visitor = ffi_call
     (io_then (required_ref p ''database'') (\<lambda>_.
      io_then (visitor_argument visitor) (\<lambda>f. read_database p (visit_database E f))))"

subsection \<open>Write batches\<close>

text \<open>\<^verbatim>\<open>HashMap\<close>: one entry per key, visited in an order that is not specified and is an argument of the commit.\<close>

definition lkv_write_batch_create :: "nat \<Rightarrow> 'c api \<Rightarrow> outcome \<times> 'c api" where
  "lkv_write_batch_create output = ffi_call
     (io_then (required_mut output ''output'') (\<lambda>_ s.
       (Inr (), s\<lparr>batches := (batches s)(fresh_handle s \<mapsto> []), handle_cells := (handle_cells s)(output := fresh_handle s),
          fresh_handle := Suc (fresh_handle s)\<rparr>)))"

definition lkv_write_batch_close :: "nat \<Rightarrow> 'c api \<Rightarrow> outcome \<times> 'c api" where
  "lkv_write_batch_close b = ffi_call (\<lambda>s.
     if b = 0 then (Inr (), s)
     else if batches s b = None then (Inl Undefined, s)
     else (Inr (), s\<lparr>batches := (batches s)(b := None)\<rparr>))"

definition batch_at :: "nat \<Rightarrow> ('c, lkv_write_batch) ffi" where
  "batch_at b s = (case batches s b of None \<Rightarrow> Inl Undefined | Some es \<Rightarrow> Inr es, s)"

definition set_batch :: "nat \<Rightarrow> lkv_write_batch \<Rightarrow> ('c, unit) ffi" where
  "set_batch b es s = (Inr (), s\<lparr>batches := (batches s)(b \<mapsto> es)\<rparr>)"

definition lkv_write_batch_clear :: "nat \<Rightarrow> 'c api \<Rightarrow> outcome \<times> 'c api" where
  "lkv_write_batch_clear b = ffi_call
     (io_then (required_mut b ''batch'') (\<lambda>_. io_then (batch_at b) (\<lambda>_. set_batch b [])))"

definition lkv_write_batch_len :: "nat \<Rightarrow> nat \<Rightarrow> 'c api \<Rightarrow> outcome \<times> 'c api" where
  "lkv_write_batch_len b output = ffi_call
     (io_then (required_ref b ''batch'') (\<lambda>_.
      io_then (required_mut output ''output'') (\<lambda>_.
      io_then (batch_at b) (\<lambda>es. set_length output (length es)))))"

definition lkv_write_batch_put :: "nat \<Rightarrow> nat \<Rightarrow> nat \<Rightarrow> nat \<Rightarrow> nat \<Rightarrow> 'c api \<Rightarrow> outcome \<times> 'c api" where
  "lkv_write_batch_put b key key_len v v_len = ffi_call
     (io_then (required_mut b ''batch'') (\<lambda>_.
      io_then (input_bytes key key_len ''key'') (\<lambda>k.
      io_then (input_bytes v v_len ''value'') (\<lambda>bs.
      io_then (batch_at b) (\<lambda>es. set_batch b (AList.update k (Some bs) es))))))"

definition lkv_write_batch_delete :: "nat \<Rightarrow> nat \<Rightarrow> nat \<Rightarrow> 'c api \<Rightarrow> outcome \<times> 'c api" where
  "lkv_write_batch_delete b key key_len = ffi_call
     (io_then (required_mut b ''batch'') (\<lambda>_.
      io_then (input_bytes key key_len ''key'') (\<lambda>k.
      io_then (batch_at b) (\<lambda>es. set_batch b (AList.update k None es)))))"

fun stage_batch :: "externs \<Rightarrow> lkv_write_batch \<Rightarrow> (write_transaction, failure, unit) io" where
  "stage_batch E [] = io_return ()"
| "stage_batch E ((key, v) # es) =
     io_then (case v of Some bs \<Rightarrow> txn_put E key bs | None \<Rightarrow> txn_delete key) (\<lambda>_. stage_batch E es)"

definition lkv_database_commit_write_batch :: "externs \<Rightarrow> (lkv_write_batch \<Rightarrow> lkv_write_batch) \<Rightarrow> nat \<Rightarrow> nat
    \<Rightarrow> 'c api \<Rightarrow> outcome \<times> 'c api" where
  "lkv_database_commit_write_batch E order p b = ffi_call
     (io_then (required_ref p ''database'') (\<lambda>_.
      io_then (required_mut b ''batch'') (\<lambda>_.
      io_then (batch_at b) (\<lambda>es.
      io_then (write_database p (transact E (stage_batch E (order es)))) (\<lambda>_. set_batch b [])))))"

end
