(* ===== verification/Lkv_Ffi_Correct.thy ===== *)
theory Lkv_Ffi_Correct
  imports Lkv_Ffi Lkv_Maintenance_Properties Lkv_Create_Correct "HOL-Library.Multiset"
begin

section \<open>What the C interface promises\<close>

text \<open>
  The status and the message of every call, the copying read with its buffer, and the atomicity of a write batch.
\<close>

subsection \<open>All calls\<close>

datatype 'c api_call =
    OptionsInit nat
  | OpenFile nat nat nat
  | CreateFile nat nat nat
  | OpenMemory nat nat
  | CloseDatabase nat
  | DatabaseGet nat nat nat nat nat nat
  | DatabaseGetRef nat nat nat nat nat
  | DatabasePut nat nat nat nat nat
  | DatabaseDelete nat nat nat
  | DatabaseLen nat nat
  | DatabaseStats nat nat
  | DatabaseSync nat
  | DatabaseVerify nat
  | DatabaseCompact nat
  | SnapshotCreate nat nat
  | SnapshotClose nat
  | SnapshotGet nat nat nat nat nat nat
  | SnapshotGetRef nat nat nat nat nat
  | SnapshotVisit nat "'c visitor option"
  | DatabaseVisit nat "'c visitor option"
  | BatchCreate nat
  | BatchClose nat
  | BatchClear nat
  | BatchLen nat nat
  | BatchPut nat nat nat nat nat
  | BatchDelete nat nat nat
  | CommitBatch nat nat

text \<open>What lies outside the library: the crates, the files at paths, the locks, the process and the order of a hash map.\<close>

record surroundings =
  crates :: externs
  file_at :: "string \<Rightarrow> io_error + disk_file"
  lock_of :: "string \<Rightarrow> io_error option"
  process :: nat
  hash_order :: "lkv_write_batch \<Rightarrow> lkv_write_batch"

fun run_call :: "surroundings \<Rightarrow> 'c api_call \<Rightarrow> 'c api \<Rightarrow> outcome \<times> 'c api" where
  "run_call W (OptionsInit out) = lkv_options_init out"
| "run_call W (OpenFile path options out) = lkv_database_open (crates W) (file_at W) (lock_of W) path options out"
| "run_call W (CreateFile path options out) = lkv_database_create (crates W) (process W) path options out"
| "run_call W (OpenMemory options out) = lkv_database_open_memory (crates W) options out"
| "run_call W (CloseDatabase p) = lkv_database_close p"
| "run_call W (DatabaseGet p key n v capacity len) = lkv_database_get (crates W) p key n v capacity len"
| "run_call W (DatabaseGetRef p key n v len) = lkv_database_get_ref (crates W) p key n v len"
| "run_call W (DatabasePut p key n v len) = lkv_database_put (crates W) p key n v len"
| "run_call W (DatabaseDelete p key n) = lkv_database_delete (crates W) p key n"
| "run_call W (DatabaseLen p out) = lkv_database_len (crates W) p out"
| "run_call W (DatabaseStats p out) = lkv_database_get_stats p out"
| "run_call W (DatabaseSync p) = lkv_database_sync p"
| "run_call W (DatabaseVerify p) = lkv_database_verify (crates W) p"
| "run_call W (DatabaseCompact p) = lkv_database_compact (crates W) p"
| "run_call W (SnapshotCreate p out) = lkv_snapshot_create p out"
| "run_call W (SnapshotClose h) = lkv_snapshot_close h"
| "run_call W (SnapshotGet h key n v capacity len) = lkv_snapshot_get (crates W) h key n v capacity len"
| "run_call W (SnapshotGetRef h key n v len) = lkv_snapshot_get_ref (crates W) h key n v len"
| "run_call W (SnapshotVisit h visitor) = lkv_snapshot_visit (crates W) h visitor"
| "run_call W (DatabaseVisit p visitor) = lkv_database_visit (crates W) p visitor"
| "run_call W (BatchCreate out) = lkv_write_batch_create out"
| "run_call W (BatchClose b) = lkv_write_batch_close b"
| "run_call W (BatchClear b) = lkv_write_batch_clear b"
| "run_call W (BatchLen b out) = lkv_write_batch_len b out"
| "run_call W (BatchPut b key n v len) = lkv_write_batch_put b key n v len"
| "run_call W (BatchDelete b key n) = lkv_write_batch_delete b key n"
| "run_call W (CommitBatch p b) = lkv_database_commit_write_batch (crates W) (hash_order W) p b"

subsection \<open>Status and message\<close>

text \<open>A status of the header: one that only steers the caller has no message, every other error has one.\<close>

definition error_proper :: "ffi_error \<Rightarrow> bool" where
  "error_proper e \<longleftrightarrow> (if ffi_message e = None then ffi_status e \<in> {1, 2} else ffi_status e \<in> {3 .. 10} \<union> {255})"

definition proper :: "('c, 'a) ffi \<Rightarrow> bool" where
  "proper m \<longleftrightarrow> (\<forall>s. last_error (snd (m s)) = last_error s \<and> (\<forall>e. fst (m s) = Inl (Ffi e) \<longrightarrow> error_proper e))"

named_theorems proper

lemma properI: "(\<And>s. last_error (snd (m s)) = last_error s) \<Longrightarrow> (\<And>s e. fst (m s) = Inl (Ffi e) \<Longrightarrow> error_proper e) \<Longrightarrow> proper m"
  by (simp add: proper_def)

lemma proper_then [proper]:
  assumes "proper m" and "\<And>x. proper (f x)"
  shows "proper (io_then m f)"
proof -
  have "last_error (snd (io_then m f s)) = last_error s \<and> (\<forall>e. fst (io_then m f s) = Inl (Ffi e) \<longrightarrow> error_proper e)" for s
  proof -
    obtain r s' where run: "m s = (r, s')" by fastforce
    have "last_error s' = last_error s" "\<And>e. r = Inl (Ffi e) \<Longrightarrow> error_proper e"
      using assms(1) [unfolded proper_def, rule_format, of s] run by simp_all
    then show ?thesis using assms(2) [unfolded proper_def] run by (cases r) (simp_all add: io_then_def)
  qed
  then show ?thesis by (simp add: proper_def)
qed

lemma proper_state: "(\<And>t. proper (m t)) \<Longrightarrow> proper (\<lambda>s. m s s)"
  by (simp add: proper_def)

lemma error_from_proper [simp]: "error_proper (ffi_error_from e)"
  by (cases e) (auto simp: error_proper_def ffi_error_from_def ffi_error_new_def)

lemma ffi_result_proper [simp]: "ffi_result r = Inl (Ffi e) \<Longrightarrow> error_proper e"
  by (cases r rule: ffi_result.cases) auto

lemma ffi_fail_proper [simp]: "ffi_fail status msg = Inl (Ffi e) \<Longrightarrow> status \<in> {3 .. 10} \<union> {255} \<Longrightarrow> error_proper e"
  by (auto simp: ffi_fail_def ffi_error_new_def error_proper_def)

lemma proper_lift: "(\<And>e. r = Inl (Ffi e) \<Longrightarrow> error_proper e) \<Longrightarrow> proper (io_lift r)"
  by (simp add: proper_def io_lift_def)

lemma proper_set [proper]:
  "proper (set_handle out h)" "proper (set_length q n)" "proper (set_borrowed q v)" "proper (store_bytes q bs)"
  "proper (new_database out db)" "proper (set_batch b es)" "proper (io_return x)"
  by (simp_all add: proper_def set_handle_def set_length_def set_borrowed_def store_bytes_def new_database_def set_batch_def io_return_def)

lemma proper_required [proper]: "proper (required_ref q name)" "proper (required_mut q name)"
  unfolding required_ref_def required_mut_def by (auto intro!: proper_lift dest: ffi_fail_proper)

lemma proper_input [proper]: "proper (input_bytes q n name)"
  by (rule properI) (auto simp: input_bytes_def dest: ffi_fail_proper split: if_splits)

lemma proper_path [proper]: "proper (path_argument path)"
  unfolding path_argument_def
  by (intro proper_then proper_required properI) (auto dest: ffi_fail_proper split: if_splits)

lemma proper_options [proper]: "proper (io_lift (decode_options opts))"
  by (rule proper_lift) (auto simp: decode_options_def Let_def dest: ffi_fail_proper split: option.splits if_splits)

lemma proper_result [proper]: "proper (io_lift (ffi_result r))"
  by (rule proper_lift) simp

lemma control_proper [simp]: "error_proper (ffi_error_control 1)" "error_proper (ffi_error_control 2)"
  by (simp_all add: ffi_error_control_def error_proper_def)

lemma proper_visitor [proper]: "proper (visitor_argument visitor)"
  unfolding visitor_argument_def by (rule proper_lift) (auto dest: ffi_fail_proper split: option.splits)

lemma proper_locked [proper]: "proper (read_database p m)" "proper (write_database p m')" "proper (read_snapshot h m'')"
  by (rule properI; auto simp: read_database_def write_database_def read_snapshot_def dest: ffi_fail_proper
      split: option.splits if_splits prod.splits)+

lemma proper_batch [proper]: "proper (batch_at b)"
  by (rule properI) (auto simp: batch_at_def split: option.splits)

lemma proper_copy [proper]: "proper (ffi_copy_value v out capacity len)"
  unfolding ffi_copy_value_def by (cases v) (auto intro!: proper proper_lift dest: ffi_fail_proper)

lemma proper_borrow [proper]: "proper (borrow_value v out len)"
  unfolding borrow_value_def by (cases v) (auto intro!: proper proper_lift)

lemma last_error_set: "\<exists>msg'. last_error (set_last_error msg s) = msg' @ [nul] \<and> nul \<notin> set msg'"
  by (auto simp: set_last_error_def nul_def)

definition message_ok :: "outcome \<times> 'c api \<Rightarrow> bool" where
  "message_ok os \<longleftrightarrow> (\<exists>msg. lkv_last_error_message (snd os) = msg @ [nul] \<and> nul \<notin> set msg
     \<and> (\<forall>status. fst os = Returns status \<longrightarrow> status \<in> {0 .. 10} \<union> {255} \<and> (status \<in> {0, 1, 2} \<longrightarrow> msg = [])))"

lemma ffi_call_message:
  assumes "proper m"
  shows "message_ok (ffi_call m s)"
proof -
  obtain r s' where run: "m (clear_last_error s) = (r, s')" by fastforce
  note here = assms [unfolded proper_def, rule_format, of "clear_last_error s", unfolded run]
  then have kept: "last_error s' = [nul]" and err: "\<And>e. r = Inl (Ffi e) \<Longrightarrow> error_proper e"
    by (simp_all add: clear_last_error_def)
  show ?thesis
  proof (cases r)
    case (Inr u)
    with run kept show ?thesis by (simp add: message_ok_def ffi_call_def lkv_last_error_message_def)
  next
    case (Inl f)
    show ?thesis
    proof (cases f)
      case (Ffi e)
      with err Inl have "error_proper e" by simp
      with run kept Inl Ffi last_error_set show ?thesis
        by (cases "ffi_message e") (auto simp: message_ok_def ffi_call_def lkv_last_error_message_def error_proper_def)
    qed (use run kept Inl last_error_set in \<open>auto simp: message_ok_def ffi_call_def lkv_last_error_message_def\<close>)
  qed
qed

lemmas api_definitions = lkv_options_init_def lkv_database_close_def lkv_database_get_def lkv_database_get_ref_def
  lkv_database_put_def lkv_database_delete_def lkv_database_len_def lkv_database_get_stats_def lkv_database_sync_def
  lkv_database_verify_def lkv_database_compact_def lkv_snapshot_create_def lkv_snapshot_close_def lkv_snapshot_get_def
  lkv_snapshot_get_ref_def lkv_snapshot_visit_def lkv_database_visit_def lkv_write_batch_create_def lkv_write_batch_close_def
  lkv_write_batch_clear_def lkv_write_batch_len_def lkv_write_batch_put_def lkv_write_batch_delete_def
  lkv_database_commit_write_batch_def

lemma proper_assign [proper]:
  "proper (\<lambda>s. (Inr (), s\<lparr>options_cells := f s\<rparr>))" "proper (\<lambda>s. (Inr (), s\<lparr>stats_cells := g s\<rparr>))"
  "proper (\<lambda>s. (Inr (), s\<lparr>snapshots := n s, handle_cells := h s, fresh_handle := k s\<rparr>))"
  "proper (\<lambda>s. (Inr (), s\<lparr>batches := b s, handle_cells := h s, fresh_handle := k s\<rparr>))"
  by (simp_all add: proper_def)

lemma proper_close:
  "proper (\<lambda>s. if p = 0 then (Inr (), s) else case databases s p of None \<Rightarrow> (Inl Undefined, s)
     | Some d \<Rightarrow> (Inr (), s\<lparr>databases := (databases s)(p := None), released := db_storage (lkv_inner d) # released s\<rparr>))"
  "proper (\<lambda>s. if h = 0 then (Inr (), s) else case snapshots s h of None \<Rightarrow> (Inl Undefined, s)
     | Some snap \<Rightarrow> (Inr (), s\<lparr>snapshots := (snapshots s)(h := None), databases := f s snap\<rparr>))"
  "proper (\<lambda>s. if b = 0 then (Inr (), s) else if batches s b = None then (Inl Undefined, s) else (Inr (), s\<lparr>batches := (batches s)(b := None)\<rparr>))"
  by (auto simp: proper_def split: option.splits)

lemma proper_open:
  "proper (\<lambda>s. io_then (io_lift (decode_options (options_argument options s))) (\<lambda>opts.
      case open_with_options E opts opened1 locked1 of
        (Inr db, _) \<Rightarrow> new_database output db
      | (Inl e, left) \<Rightarrow> (\<lambda>s. (ffi_result (Inl e), s\<lparr>released := (case left of Some st \<Rightarrow> [st] | None \<Rightarrow> []) @ released s\<rparr>))) s)"
  by (rule proper_state, intro proper) (auto simp: proper_def new_database_def split: prod.splits sum.splits)

lemma proper_create:
  "proper (\<lambda>s. io_then (io_lift (decode_options (options_argument options s))) (\<lambda>opts s.
      case create_with_options E process_id path opts (file_system s) of
        (r, fs) \<Rightarrow> io_then (io_lift (ffi_result r)) (new_database output) (s\<lparr>file_system := fs\<rparr>)) s)"
  by (rule proper_state, intro proper)
    (auto simp: proper_def new_database_def io_then_def io_lift_def split: prod.splits sum.splits)

lemma proper_memory:
  "proper (\<lambda>s. io_then (io_lift (decode_options (options_argument options s))) (\<lambda>opts.
      io_then (io_lift (ffi_result (memory_with_options E opts))) (new_database output)) s)"
  by (rule proper_state) (intro proper)

lemma run_call_message: "message_ok (run_call W c s)"
proof (cases c)
  case (OpenFile path options out)
  show ?thesis unfolding OpenFile run_call.simps lkv_database_open_def by (intro ffi_call_message proper_open proper)
next
  case (CreateFile path options out)
  show ?thesis unfolding CreateFile run_call.simps lkv_database_create_def by (intro ffi_call_message proper_create proper)
next
  case (OpenMemory options out)
  show ?thesis unfolding OpenMemory run_call.simps lkv_database_open_memory_def by (intro ffi_call_message proper_memory proper)
qed (simp_all only: run_call.simps api_definitions, (intro ffi_call_message proper_close proper)+)

subsection \<open>Reading through the interface\<close>

text \<open>A handle in service: an address with a database whose lock is not poisoned.\<close>

definition serves :: "'c api \<Rightarrow> nat \<Rightarrow> database \<Rightarrow> bool" where
  "serves s p db \<longleftrightarrow> p \<noteq> 0 \<and> databases s p = Some \<lparr>lkv_inner = db, lock_poisoned = False\<rparr>"

definition bytes_argument :: "'c api \<Rightarrow> nat \<Rightarrow> nat \<Rightarrow> bytes \<Rightarrow> bool" where
  "bytes_argument s q n bs \<longleftrightarrow> bs = bytes_at q n s \<and> (n = 0 \<or> q \<noteq> 0)"

lemma input_bytes_ok: "bytes_argument s q n bs \<Longrightarrow> input_bytes q n name s = (Inr bs, s)"
  by (auto simp: bytes_argument_def input_bytes_def bytes_at_def)

lemma required_ok: "q \<noteq> 0 \<Longrightarrow> required_ref q name s = (Inr (), s)" "q \<noteq> 0 \<Longrightarrow> required_mut q name s = (Inr (), s)"
  by (simp_all add: required_ref_def required_mut_def io_lift_def)

lemma bytes_argument_clear: "bytes_argument (clear_last_error s) q n bs = bytes_argument s q n bs"
  by (simp add: bytes_argument_def bytes_at_def clear_last_error_def)

lemma bytes_at_stored: "bytes_at q (length bs) (snd (store_bytes q bs s)) = bs"
  by (rule nth_equalityI) (simp_all add: bytes_at_def store_bytes_def)

lemma read_database_ok:
  assumes "serves s p db" and "m db = (r, db')"
  shows "read_database p (plain m) s = (ffi_result r, s\<lparr>databases := (databases s)(p \<mapsto> \<lparr>lkv_inner = db', lock_poisoned = False\<rparr>)\<rparr>)"
  using assms by (simp add: serves_def read_database_def plain_def)

lemma get_run:
  assumes serves: "serves s p db" and reads: "db_reads E db m" and key: "bytes_argument s k n key" and "len \<noteq> 0"
  obtains db' where "db_reads E db' m"
    and "lkv_database_get E p k n v capacity len s =
      ffi_call (\<lambda>s1. ffi_copy_value (m key) v capacity len (s1\<lparr>databases := (databases s)(p \<mapsto> \<lparr>lkv_inner = db', lock_poisoned = False\<rparr>)\<rparr>)) s"
proof -
  obtain db' where db': "db_get E key db = (Inr (m key), db')" "db_reads E db' m" using db_get_reads [OF reads] by blast
  let ?s = "clear_last_error s"
  have "serves ?s p db" "databases ?s = databases s" using serves by (simp_all add: serves_def clear_last_error_def)
  with read_database_ok [of ?s p db "db_get E key" "Inr (m key)" db'] db'(1)
  have "read_database p (plain (db_get E key)) ?s =
      (Inr (m key), ?s\<lparr>databases := (databases s)(p \<mapsto> \<lparr>lkv_inner = db', lock_poisoned = False\<rparr>)\<rparr>)" by simp
  moreover have "p \<noteq> 0" using serves by (simp add: serves_def)
  moreover have "input_bytes k n ''key'' ?s = (Inr key, ?s)" by (rule input_bytes_ok) (simp add: bytes_argument_clear key)
  ultimately show thesis using assms(4) db'(2)
    by (intro that [of db']) (simp_all add: lkv_database_get_def ffi_call_def required_ok io_then_def)
qed

text \<open>What the copy leaves, field by field.\<close>

definition copied :: "bytes option \<Rightarrow> nat \<Rightarrow> nat \<Rightarrow> nat \<Rightarrow> 'c api \<Rightarrow> outcome \<Rightarrow> 'c api \<Rightarrow> bool" where
  "copied x v capacity len s out s' \<longleftrightarrow> databases s' = databases s
     \<and> (if v = 0 \<and> capacity \<noteq> 0 then out = Returns LKV_INVALID_ARGUMENT \<and> length_cells s' len = 0 \<and> byte_cells s' = byte_cells s
        else case x of
          None \<Rightarrow> out = Returns LKV_NOT_FOUND \<and> length_cells s' len = 0 \<and> byte_cells s' = byte_cells s
        | Some bs \<Rightarrow> length_cells s' len = length bs \<and>
            (if capacity < length bs then out = Returns LKV_BUFFER_TOO_SMALL \<and> byte_cells s' = byte_cells s
             else out = Returns LKV_OK \<and> byte_cells s' = (\<lambda>a. if v \<le> a \<and> a < v + length bs then bs ! (a - v) else byte_cells s a)))"

lemma set_last_error_fields: "databases (set_last_error msg s) = databases s" "length_cells (set_last_error msg s) = length_cells s"
  "byte_cells (set_last_error msg s) = byte_cells s"
  by (simp_all add: set_last_error_def)

lemma copied_call:
  assumes "m (clear_last_error s) = ffi_copy_value x v capacity len s1"
  shows "copied x v capacity len s1 (fst (ffi_call m s)) (snd (ffi_call m s))"
proof (cases "v = 0 \<and> capacity \<noteq> 0")
  case True
  with assms show ?thesis
    by (simp add: copied_def ffi_call_def ffi_copy_value_def io_then_def set_length_def io_lift_def ffi_fail_def ffi_error_new_def set_last_error_fields)
next
  case ok: False
  show ?thesis
  proof (cases x)
    case None
    with ok assms show ?thesis
      by (simp only: copied_def ffi_call_def ffi_copy_value_def io_then_def set_length_def io_lift_def ffi_error_control_def) simp
  next
    case (Some bs)
    have copy: "ffi_copy_value x v capacity len s1 = (if capacity < length bs
        then (Inl (Ffi (ffi_error_control LKV_BUFFER_TOO_SMALL)), s1\<lparr>length_cells := (length_cells s1)(len := length bs)\<rparr>)
        else (if bs = [] then io_return () else store_bytes v bs) (s1\<lparr>length_cells := (length_cells s1)(len := length bs)\<rparr>))"
      using ok by (auto simp: ffi_copy_value_def Some io_then_def set_length_def io_lift_def)
    note copy = copy [unfolded Some] and run = assms [unfolded Some]
    have ok': "(v = 0 \<and> 0 < capacity) = False" using ok by simp
    show ?thesis
    proof (cases "capacity < length bs")
      case True
      then show ?thesis by (simp add: copied_def ffi_call_def run copy Some ffi_error_control_def ok')
    next
      case False
      then obtain s2 where "m (clear_last_error s) = (Inr (), s2)" "databases s2 = databases s1" "length_cells s2 len = length bs"
        "byte_cells s2 = (\<lambda>a. if v \<le> a \<and> a < v + length bs then bs ! (a - v) else byte_cells s1 a)"
        unfolding run copy by (cases "bs = []") (auto simp: io_return_def store_bytes_def fun_eq_iff not_le [symmetric])
      with False show ?thesis by (simp add: copied_def ffi_call_def Some ok')
    qed
  qed
qed

text \<open>
  C33. The copying read keeps to its buffer. On a handle that reads a map, with a key and a place for the length,
  the call returns: if the key is absent, the status says so and the length is 0; if the value does not fit
  the capacity, the status says so, the length is the size the value needs and no byte is written; otherwise exactly the
  bytes of the value are written, and the length is theirs. No byte outside the buffer is ever written, and a missing
  buffer with a capacity is refused.
\<close>

theorem get_copies_within_capacity:
  assumes "serves s p db" and "db_reads E db m" and "bytes_argument s k n key" and "len \<noteq> 0"
    and "lkv_database_get E p k n v capacity len s = (out, s')"
  shows "(if v = 0 \<and> capacity \<noteq> 0 then out = Returns LKV_INVALID_ARGUMENT \<and> length_cells s' len = 0 \<and> byte_cells s' = byte_cells s
     else case m key of
       None \<Rightarrow> out = Returns LKV_NOT_FOUND \<and> length_cells s' len = 0 \<and> byte_cells s' = byte_cells s
     | Some bs \<Rightarrow> length_cells s' len = length bs \<and>
         (if capacity < length bs then out = Returns LKV_BUFFER_TOO_SMALL \<and> byte_cells s' = byte_cells s
          else out = Returns LKV_OK \<and> bytes_at v (length bs) s' = bs))
    \<and> (\<forall>a. a < v \<or> v + capacity \<le> a \<longrightarrow> byte_cells s' a = byte_cells s a)
    \<and> (\<exists>db'. serves s' p db' \<and> db_reads E db' m)"
proof -
  obtain db' where db': "db_reads E db' m" and run: "lkv_database_get E p k n v capacity len s =
      ffi_call (\<lambda>s1. ffi_copy_value (m key) v capacity len (s1\<lparr>databases := (databases s)(p \<mapsto> \<lparr>lkv_inner = db', lock_poisoned = False\<rparr>)\<rparr>)) s"
    by (rule get_run [OF assms(1-4)])
  let ?s1 = "(clear_last_error s)\<lparr>databases := (databases s)(p \<mapsto> \<lparr>lkv_inner = db', lock_poisoned = False\<rparr>)\<rparr>"
  have copied: "copied (m key) v capacity len ?s1 out s'"
    using copied_call [where m = "\<lambda>s1. ffi_copy_value (m key) v capacity len (s1\<lparr>databases := (databases s)(p \<mapsto> \<lparr>lkv_inner = db', lock_poisoned = False\<rparr>)\<rparr>)", OF refl, of s]
      unfolding run [symmetric] assms(5) by simp
  have cells: "byte_cells ?s1 = byte_cells s" by (simp add: clear_last_error_def)
  have "serves s' p db'" using copied assms(1) by (simp add: copied_def serves_def)
  moreover have "bytes_at v (length bs) s' = bs"
    if "byte_cells s' = (\<lambda>a. if v \<le> a \<and> a < v + length bs then bs ! (a - v) else byte_cells s a)" for bs
    using that by (intro nth_equalityI) (simp_all add: bytes_at_def)
  ultimately show ?thesis
    using copied db' unfolding copied_def cells by (cases "m key"; cases "v = 0 \<and> capacity \<noteq> 0") (auto split: if_splits)
qed

text \<open>A state with one handle and a buffer of two bytes at 100; the key is at 50 and the length goes to 8.\<close>

definition sample_api :: "database \<Rightarrow> unit api" where
  "sample_api db = \<lparr>last_error = [nul], panic_payload = None, databases = [1 \<mapsto> \<lparr>lkv_inner = db, lock_poisoned = False\<rparr>],
     snapshots = (\<lambda>_. None), batches = [2 \<mapsto> [([1], Some [9]), ([4], None)]], fresh_handle = 3, released = [], file_system = sample_fs [],
     byte_cells = (\<lambda>a. if a = 50 then 1 else 0), length_cells = (\<lambda>_. 7), handle_cells = (\<lambda>_. 0), borrow_cells = (\<lambda>_. None),
     c_strings = (\<lambda>_. []), options_cells = (\<lambda>_. \<lparr>lkv_verification = 0, lkv_overlay_memory_limit = 0, lkv_max_database_bytes = 0\<rparr>),
     stats_cells = (\<lambda>_. \<lparr>storage_bytes = 0, stats_base_bytes = 0, stats_base_entries = 0, overlay_entries = 0, overlay_log_bytes = 0,
       overlay_memory_bytes = 0, stale_bytes = 0, stats_generation = 0\<rparr>), caller = ()\<rparr>"

lemma sample_api_serves: "serves (sample_api db) 1 db" "bytes_argument (sample_api db) 50 1 [1]"
  by (simp_all add: serves_def sample_api_def bytes_argument_def bytes_at_def)

theorem get_copies_within_capacity_witness:
  "\<exists>db s'. db_on_file reference_externs db [[1] \<mapsto> [2, 3]]
    \<and> lkv_database_get reference_externs 1 50 1 100 2 8 (sample_api db) = (Returns 0, s') \<and> bytes_at 100 2 s' = [2, 3] \<and> length_cells s' 8 = 2"
proof -
  obtain db where db: "db_on_file reference_externs db [[1] \<mapsto> [2, 3]]" by (rule sample_handle) blast
  obtain out s' where run: "lkv_database_get reference_externs 1 50 1 100 2 8 (sample_api db) = (out, s')" by fastforce
  from get_copies_within_capacity [OF sample_api_serves(1) db_on_file_reads [OF db] sample_api_serves(2) _ run] db run
  show ?thesis by (auto simp: numeral_2_eq_2)
qed

subsection \<open>Write batches\<close>

text \<open>The map after a batch with one entry per key; the order of the entries does not matter.\<close>

definition batch_map :: "(bytes \<rightharpoonup> bytes) \<Rightarrow> lkv_write_batch \<Rightarrow> bytes \<rightharpoonup> bytes" where
  "batch_map m es key = (case map_of es key of Some v \<Rightarrow> v | None \<Rightarrow> m key)"

lemma apply_ops_batch: "distinct (map fst es) \<Longrightarrow> apply_ops m es = batch_map m es"
proof (induction es rule: rev_induct)
  case (snoc e es)
  obtain key v where e: "e = (key, v)" by fastforce
  from snoc have none: "map_of es key = None" by (simp add: e map_of_eq_None_iff)
  have "(batch_map m es)(key := v) = batch_map m (es @ [(key, v)])"
    using none by (auto simp: batch_map_def fun_eq_iff map_add_def split: option.splits)
  with snoc show ?case by (simp add: e)
qed (simp add: batch_map_def fun_eq_iff)

lemma batch_map_order:
  assumes "distinct (map fst es)" and "mset es' = mset es"
  shows "distinct (map fst es')" and "batch_map m es' = batch_map m es"
proof -
  have sets: "set es' = set es" using mset_eq_setD [OF assms(2)] .
  have "mset (map fst es') = mset (map fst es)" using assms(2) by simp
  then show distinct: "distinct (map fst es')" using assms(1) mset_eq_imp_distinct_iff by blast
  have "map_of es' = map_of es" by (rule map_of_eqI) (use sets distinct assms(1) in \<open>auto simp: map_of_eq_Some_iff\<close>)
  then show "batch_map m es' = batch_map m es" by (simp add: batch_map_def fun_eq_iff)
qed

text \<open>Staging a batch is a run of the transaction, of all its entries or of those before the one that was refused.\<close>

lemma txn_put_Err: "txn_put E key val t = (Inl e, t') \<Longrightarrow> \<exists>err. e = Err err"
  using check_lengths_Inl [of key val]
  by (fastforce simp: txn_put_def check_single_put_size_def copy_value_def and_then_def ok_or_def split: sum.splits if_splits option.splits prod.splits)

lemma txn_delete_Err: "txn_delete key t = (Inl e, t') \<Longrightarrow> \<exists>err. e = Err err"
  using check_lengths_Inl [of key "[]"] by (fastforce simp: txn_delete_def split: sum.splits)

lemma begin_write_Err: "begin_write db = Inl e \<Longrightarrow> \<exists>err. e = Err err"
  by (auto simp: begin_write_def ensure_writable_def Let_def and_then_def split: if_splits sum.splits)

lemma stage_batch_run:
  assumes "txn_run E t0 ops t" and "stage_batch E es t = (r, t')"
  shows "\<exists>ops'. txn_run E t0 (ops @ ops') t' \<and> (r = Inr () \<longrightarrow> ops' = es) \<and> (\<forall>e. r = Inl e \<longrightarrow> (\<exists>err. e = Err err))"
  using assms
proof (induction es arbitrary: ops t)
  case Nil
  then show ?case by (intro exI [of _ "[]"]) (auto simp: io_return_def)
next
  case (Cons e es)
  obtain key v where e: "e = (key, v)" by fastforce
  obtain x t1 where step: "(case v of Some bs \<Rightarrow> txn_put E key bs | None \<Rightarrow> txn_delete key) t = (x, t1)" by fastforce
  show ?case
  proof (cases x)
    case (Inl err)
    with Cons.prems(2) step have "r = Inl err" "t' = t1" by (simp_all add: e io_then_def)
    moreover have "txn_run E t0 ops t1" using Cons.prems(1) step Inl by (cases v) (auto intro: txn_run.intros)
    moreover have "\<exists>e. err = Err e" using step Inl by (cases v) (auto intro: txn_put_Err txn_delete_Err)
    ultimately show ?thesis by (intro exI [of _ "[]"]) simp
  next
    case (Inr u)
    with Cons.prems(2) step have rest: "stage_batch E es t1 = (r, t')" by (simp add: e io_then_def)
    have "txn_run E t0 (ops @ [(key, v)]) t1" using Cons.prems(1) step Inr by (cases v) (auto intro: txn_run.intros)
    from Cons.IH [OF this rest] obtain ops' where "txn_run E t0 ((ops @ [(key, v)]) @ ops') t'"
      "r = Inr () \<longrightarrow> ops' = es" "\<forall>e. r = Inl e \<longrightarrow> (\<exists>err. e = Err err)" by blast
    then show ?thesis by (intro exI [of _ "(key, v) # ops'"]) (simp add: e)
  qed
qed

lemma transact_batch:
  assumes crate: "crc32c_crate E" and db: "db_on_file E db m" and limit: "max_database_bytes (db_options db) < 2 ^ 63"
    and es: "distinct (map fst es)" and run: "transact E (stage_batch E es) db = (r, db')"
  shows "r = Inr () \<and> db_on_file E db' (batch_map m es)
    \<or> (\<exists>e. r = Inl (Err e)) \<and> db_reads E db' m
      \<and> (holds E (storage_image (db_storage db')) m \<or> holds E (storage_image (db_storage db')) (batch_map m es))"
proof (cases "begin_write db")
  case (Inl e)
  with run have "r = Inl e" "db' = db" by (simp_all add: transact_def)
  with begin_write_Err [OF Inl] db db_on_file_reads db_on_file_holds show ?thesis by blast
next
  case (Inr t)
  obtain x t' where stage: "stage_batch E es t = (x, t')" by fastforce
  from stage_batch_run [OF txn_run.begun this] obtain ops where ops: "txn_run E t ops t'" "x = Inr () \<longrightarrow> ops = es"
    and err: "\<forall>e. x = Inl e \<longrightarrow> (\<exists>err. e = Err err)" by auto
  have inv: "txn_inv E db m ops t'" by (rule txn_run_inv [OF crate ops(1) begin_write_inv(1) [OF db Inr]])
  show ?thesis
  proof (cases x)
    case (Inl e)
    with run Inr stage have "r = Inl e" "db' = txn_abort t'" by (simp_all add: transact_def)
    moreover from inv have "db_on_file E (txn_abort t') m" by (simp add: txn_inv_def txn_abort_def)
    ultimately show ?thesis using err Inl db_on_file_reads db_on_file_holds by blast
  next
    case ok: (Inr u)
    with run Inr stage have commit: "txn_commit E t' = (r, db')" by (simp add: transact_def)
    from ok ops(2) have "ops = es" by simp
    with txn_commit_outcome [OF crate inv limit commit] apply_ops_batch [OF es] show ?thesis by (cases r) auto
  qed
qed

lemma write_database_ok:
  assumes "serves s p db" and "m db = (r, db')" and "r = Inr () \<or> (\<exists>e. r = Inl (Err e))"
  shows "write_database p m s = (ffi_result r, s\<lparr>databases := (databases s)(p \<mapsto> \<lparr>lkv_inner = db', lock_poisoned = False\<rparr>)\<rparr>)"
  using assms by (auto simp: serves_def write_database_def)

lemma error_status_not_ok: "error_status e \<noteq> 0"
  by (cases e) simp_all

text \<open>
  C11. A write batch is atomic. Take a handle on a file that stands for a map, and a batch with one entry per key;
  whatever calls on the file fail, and in whatever order the hash map is visited, committing it returns a status. If the
  status is success, the handle and the file stand for the map with every entry applied, and the batch is empty. Any
  other status leaves the batch as it was, to be committed again, the handle still reads the old map, and the file holds
  the old map or the one with every entry applied, never a part of the batch. The lock is not poisoned.
\<close>

theorem commit_batch_atomic:
  assumes "crc32c_crate E" and "serves s p db" and "db_on_file E db m" and "max_database_bytes (db_options db) < 2 ^ 63"
    and "b \<noteq> 0" and "batches s b = Some es" and "distinct (map fst es)" and "mset (order es) = mset es"
    and "lkv_database_commit_write_batch E order p b s = (out, s')"
  shows "\<exists>db' status. serves s' p db' \<and> out = Returns status
    \<and> (if status = LKV_OK then db_on_file E db' (batch_map m es) \<and> batches s' b = Some []
       else db_reads E db' m \<and> batches s' b = Some es
         \<and> (holds E (storage_image (db_storage db')) m \<or> holds E (storage_image (db_storage db')) (batch_map m es)))"
proof -
  note ord = batch_map_order [OF assms(7,8)]
  obtain r db' where run: "transact E (stage_batch E (order es)) db = (r, db')" by fastforce
  note result = transact_batch [OF assms(1,3,4) ord(1) run, unfolded ord(2)]
  have p: "p \<noteq> 0" using assms(2) by (simp add: serves_def)
  let ?s = "clear_last_error s" and ?d = "(databases s)(p \<mapsto> \<lparr>lkv_inner = db', lock_poisoned = False\<rparr>)"
  have same: "serves ?s p db" "batches ?s = batches s" "databases ?s = databases s"
    using assms(2) by (simp_all add: serves_def clear_last_error_def)
  have "r = Inr () \<or> (\<exists>e. r = Inl (Err e))" using result by blast
  from write_database_ok [where m = "transact E (stage_batch E (order es))", OF same(1) run this]
  have "write_database p (transact E (stage_batch E (order es))) ?s = (ffi_result r, ?s\<lparr>databases := ?d\<rparr>)" by (simp add: same(3))
  then have call: "lkv_database_commit_write_batch E order p b s =
      ffi_call (\<lambda>s1. io_then (io_lift (ffi_result r)) (\<lambda>_. set_batch b []) (s1\<lparr>databases := ?d\<rparr>)) s"
    using p assms(5,6) same(2) by (simp add: lkv_database_commit_write_batch_def ffi_call_def required_ok batch_at_def io_then_def io_lift_def)
  show ?thesis
  proof (cases "r = Inr ()")
    case True
    with result have db': "db_on_file E db' (batch_map m es)" by simp
    from True have "out = Returns LKV_OK" "databases s' = ?d" "batches s' b = Some []"
      using call assms(9) by (auto simp: ffi_call_def io_then_def io_lift_def set_batch_def)
    with db' p show ?thesis by (intro exI [of _ db'] exI [of _ LKV_OK]) (simp add: serves_def)
  next
    case False
    with result obtain e where e: "r = Inl (Err e)" and db': "db_reads E db' m"
      "holds E (storage_image (db_storage db')) m \<or> holds E (storage_image (db_storage db')) (batch_map m es)" by blast
    from e have "out = Returns (error_status e)" "databases s' = ?d" "batches s' = batches s"
      using call assms(9) by (auto simp: ffi_call_def io_then_def io_lift_def ffi_error_from_def ffi_error_new_def set_last_error_def clear_last_error_def)
    with db' p assms(6) error_status_not_ok [of e] show ?thesis
      by (intro exI [of _ db'] exI [of _ "error_status e"]) (simp add: serves_def)
  qed
qed

theorem commit_batch_atomic_witness:
  "\<exists>db db' status s'. db_on_file reference_externs db [[1] \<mapsto> [2, 3]]
    \<and> lkv_database_commit_write_batch reference_externs rev 1 2 (sample_api db) = (Returns status, s') \<and> serves s' 1 db'"
proof -
  obtain db where db: "db_on_file reference_externs db [[1] \<mapsto> [2, 3]]" "max_database_bytes (db_options db) < 2 ^ 63" by (rule sample_handle) blast
  obtain out s' where run: "lkv_database_commit_write_batch reference_externs rev 1 2 (sample_api db) = (out, s')" by fastforce
  have es: "batches (sample_api db) 2 = Some [([1], Some [9]), ([4], None)]" by (simp add: sample_api_def)
  from commit_batch_atomic [OF reference.crc32c_crate_axioms sample_api_serves(1) db _ es _ _ run] db(1) run show ?thesis by auto
qed

subsection \<open>Status and message of every call\<close>

text \<open>
  C34. Every call leaves a proper status and message. Whatever a call of the interface is given, null pointers
  included, and whatever happened in it: if it returns, its status is one of the header's; the message of the last error is
  a C string, its only zero byte the last one; and it is empty after a success and after the two statuses that
  only steer the caller.
\<close>

theorem calls_report:
  assumes "run_call W c s = (out, s')"
  shows "\<exists>msg. lkv_last_error_message s' = msg @ [nul] \<and> nul \<notin> set msg
    \<and> (\<forall>status. out = Returns status \<longrightarrow> status \<in> {0 .. 10} \<union> {255}
        \<and> (status \<in> {LKV_OK, LKV_NOT_FOUND, LKV_BUFFER_TOO_SMALL} \<longrightarrow> msg = []))"
  using run_call_message [of W c s] assms by (simp add: message_ok_def)

theorem calls_report_witness:
  "\<exists>db s'. db_on_file reference_externs db [[1] \<mapsto> [2, 3]]
    \<and> run_call \<lparr>crates = reference_externs, file_at = (\<lambda>_. Inl not_found), lock_of = (\<lambda>_. None), process = 4, hash_order = rev\<rparr>
        (DatabaseLen 0 8) (sample_api db) = (Returns 3, s')
    \<and> lkv_last_error_message s' = ''database must not be NULL'' @ [nul]"
proof -
  let ?W = "\<lparr>crates = reference_externs, file_at = (\<lambda>_. Inl not_found), lock_of = (\<lambda>_. None), process = 4, hash_order = rev\<rparr>"
  obtain db where db: "db_on_file reference_externs db [[1] \<mapsto> [2, 3]]" by (rule sample_handle) blast
  obtain out s' where run: "run_call ?W (DatabaseLen 0 8) (sample_api db) = (out, s')" by fastforce
  from calls_report [OF run] obtain msg where msg: "lkv_last_error_message s' = msg @ [nul]" by blast
  from run have "out = Returns 3" "last_error s' = ''database must not be NULL'' @ [nul]"
    by (auto simp: lkv_database_len_def ffi_call_def io_then_def required_ref_def io_lift_def ffi_fail_def ffi_error_new_def
        set_last_error_def nul_def)
  with msg db run show ?thesis by (auto simp: lkv_last_error_message_def)
qed

end
