(* ===== verification/Lkv_Any_Bytes.thy ===== *)
theory Lkv_Any_Bytes
  imports Lkv_Transaction Lkv_Database_Correct
begin

section \<open>Any bytes at all (fuzz/fuzz_targets/open_bytes.rs)\<close>

text \<open>
  The fuzz target \<^verbatim>\<open>open_bytes\<close> opens arbitrary bytes as a database and reads what it can. Here the same is shown for all
  bytes at once: \<open>view_sound\<close> is what opening establishes, whatever the file holds, and every read keeps it and does not
  panic. A base that has been validated as a whole is walked without further checks; \<open>records_fit\<close> says that this walk
  stays inside the mapping.
\<close>

subsection \<open>Walking the records\<close>

fun records_fit :: "bytes \<Rightarrow> nat \<Rightarrow> nat \<Rightarrow> bool" where
  "records_fit x 0 offset = True"
| "records_fit x (Suc n) offset = (\<exists>key val stop. trusted_record_at x offset = Inr (key, val, stop) \<and> records_fit x n stop)"

lemma u32_at_take: "u32_at (take d x) i = Inr w \<Longrightarrow> u32_at x i = Inr w"
  by (auto simp: u32_at_def index_range_def result_simps range_of_def min_def take_drop split: if_splits option.splits)

lemma validate_records_fit:
  assumes "validate_records E (take d x) start n offset records keys = Inr r"
  shows "records_fit x n offset"
  using assms
proof (induction n arbitrary: offset records keys)
  case 0
  then show ?case by simp
next
  case (Suc n)
  from Suc.prems obtain k l records' keys' where
    fields: "u32_at (take d x) offset = Inr k" "u32_at (take d x) (offset + 4) = Inr l"
    and stop: "offset + 8 + unat k + unat l \<le> length x"
    and rest: "validate_records E (take d x) start n (offset + 8 + unat k + unat l) records' keys' = Inr r"
    by (auto simp: result_simps checked_add_def split: if_splits option.splits)
  have "\<exists>key val. trusted_record_at x offset = Inr (key, val, offset + 8 + unat k + unat l)"
    using u32_at_take [OF fields(1)] u32_at_take [OF fields(2)] stop
    by (simp add: trusted_record_at_def Let_def index_range_def get_range_def)
  with Suc.IH [OF rest] show ?case by auto
qed

lemma validate_base_fit:
  assumes "validate_base E (take d x) start slots len = Inr ()"
  shows "records_fit x len (24 + 12 * slots)"
  using assms validate_records_fit unfolding validate_base_def
  by (auto simp: result_simps records_start_Inr split: if_splits option.splits)

lemma record_at_no_panic: "no_panic (record_at x offset n)"
  by (auto simp: record_at_def u32_at_in result_simps filter_option_def checked_add_def intro!: no_panic_and_then split: if_splits option.splits)

lemma raw_base_loop_safe:
  assumes "overlay_ok E L (view_overlay view)" and "trusted \<Longrightarrow> records_fit (view_mapping (view_base view)) n offset"
  shows "no_panic (raw_base_loop E view v trusted n offset)"
    and "raw_base_loop E view v trusted n offset = Inr (r, offset', n') \<Longrightarrow> trusted \<Longrightarrow>
      records_fit (view_mapping (view_base view)) n' offset'"
proof -
  let ?x = "view_mapping (view_base view)"
  have "no_panic (raw_base_loop E view v trusted n offset) \<and> (\<forall>r offset' n'. raw_base_loop E view v trusted n offset = Inr (r, offset', n') \<longrightarrow>
      trusted \<longrightarrow> records_fit ?x n' offset')"
    using assms(2)
  proof (induction n arbitrary: offset)
    case 0
    then show ?case by simp
  next
    case (Suc n)
    let ?found = "if trusted then trusted_record_at ?x offset else record_at ?x offset (data_size v)"
    have np: "no_panic ?found" using Suc.prems record_at_no_panic by (auto simp: no_panic_def)
    show ?case
    proof (cases ?found)
      case (Inl e)
      with np Suc.prems show ?thesis by (cases e) (auto simp: Let_def no_panic_def)
    next
      case (Inr r)
      obtain key val stop where r: "r = (key, val, stop)" using prod_cases3 by blast
      have "trusted \<Longrightarrow> records_fit ?x n stop" using Suc.prems Inr r by auto
      with Suc.IH [of stop] Inr r show ?thesis
        by (auto simp: Let_def overlay_contains_key_eq [OF assms(1)])
    qed
  qed
  then show "no_panic (raw_base_loop E view v trusted n offset)"
    and "raw_base_loop E view v trusted n offset = Inr (r, offset', n') \<Longrightarrow> trusted \<Longrightarrow> records_fit ?x n' offset'"
    by blast+
qed

definition raw_safe :: "read_view \<Rightarrow> raw_entries \<Rightarrow> bool" where
  "raw_safe view st \<longleftrightarrow>
     (raw_base_trusted st \<longrightarrow> records_fit (view_mapping (view_base view)) (raw_base_remaining st) (raw_base_offset st))"

lemma raw_next_safe:
  assumes "overlay_ok E L (view_overlay view)" and "raw_safe view st"
  shows "no_panic (raw_next E view v st)"
    and "raw_next E view v st = Inr (item, st') \<Longrightarrow> raw_safe view st'"
proof -
  note loop = raw_base_loop_safe [OF assms(1), of "raw_base_trusted st" "raw_base_remaining st" "raw_base_offset st" v]
  have fit: "raw_base_trusted st \<Longrightarrow> records_fit (view_mapping (view_base view)) (raw_base_remaining st) (raw_base_offset st)"
    using assms(2) by (simp add: raw_safe_def)
  show "no_panic (raw_next E view v st)"
    using loop(1) [OF fit] by (auto simp: raw_next_def Let_def intro!: no_panic_and_then split: sum.split option.split prod.split)
  show "raw_safe view st'" if "raw_next E view v st = Inr (item, st')"
    using that assms(2) loop(2) [OF fit] unfolding raw_next_def Let_def
    by (auto simp: result_simps raw_safe_def split: if_splits sum.splits option.splits prod.splits)
qed

lemma raw_collect_safe:
  assumes "overlay_ok E L (view_overlay view)" and "raw_safe view st"
  shows "no_panic (raw_collect E view v st)"
  using assms
proof (induction E view v st rule: raw_collect.induct)
  case (1 E view v st)
  note safe = raw_next_safe [OF "1.prems", of v]
  show ?case
  proof (cases "raw_next E view v st")
    case (Inl e)
    with safe(1) show ?thesis by (subst raw_collect.simps) (simp add: no_panic_def)
  next
    case (Inr r)
    obtain item st' where r: "r = (item, st')" by fastforce
    show ?thesis
    proof (cases item)
      case None
      with Inr r show ?thesis by (subst raw_collect.simps) simp
    next
      case (Some p)
      obtain key val at where p: "p = (key, val, at)" using prod_cases3 by blast
      note next_step = Inr [unfolded r Some p]
      have "no_panic (raw_collect E view v st')"
        using "1.IH" [OF next_step refl refl refl refl "1.prems"(1) safe(2) [OF next_step]] by simp
      with next_step show ?thesis by (subst raw_collect.simps) (auto intro!: no_panic_and_then)
    qed
  qed
qed

subsection \<open>Reading a view\<close>

definition view_sound :: "externs \<Rightarrow> read_view \<Rightarrow> nat \<Rightarrow> segment_verifier \<Rightarrow> bool" where
  "view_sound E view n v \<longleftrightarrow>
     verifier_inv E (view_mapping (view_base view)) v
     \<and> (view_slots (view_base view) = 0 \<or> slots_ok (view_slots (view_base view)))
     \<and> 24 + 12 * view_slots (view_base view) \<le> length (view_mapping (view_base view))
     \<and> (\<exists>L. overlay_ok E L (view_overlay view))
     \<and> (semantically_verified v \<longrightarrow> records_fit (view_mapping (view_base view)) n (24 + 12 * view_slots (view_base view)))"

lemma view_sound_same:
  assumes "view_sound E view n v" and "safe_result E (view_mapping (view_base view)) v result"
  shows "no_panic (fst result)" and "view_sound E view n (snd result)"
  using assms by (auto simp: view_sound_def safe_result_def same_segment_def)

lemma view_get_sound:
  assumes "view_sound E view n v"
  shows "no_panic (fst (view_get E view key v))" and "view_sound E view n (snd (view_get E view key v))"
proof -
  from assms obtain L where L: "overlay_ok E L (view_overlay view)" by (auto simp: view_sound_def)
  have "get_hashed (view_overlay view) key (xxh3_64 E key) = Inr (overlay_abs (view_overlay view) key)"
    using overlay_get_eq [OF L] by (simp add: overlay_get_def)
  moreover have "safe_result E (view_mapping (view_base view)) v (lookup_segment E (view_mapping (view_base view)) (view_verification view)
      (view_offset (view_base view)) (view_slots (view_base view)) key (xxh3_64 E key) v)"
    using assms by (intro lookup_segment_safe) (auto simp: view_sound_def)
  ultimately have "safe_result E (view_mapping (view_base view)) v (view_get E view key v)"
    using assms by (auto simp: view_get_def Let_def io_then_def io_return_def safe_result_def view_sound_def split: option.split)
  from view_sound_same [OF assms this]
  show "no_panic (fst (view_get E view key v))" and "view_sound E view n (snd (view_get E view key v))" .
qed

definition iterator_sound :: "entries \<Rightarrow> bool" where
  "iterator_sound it \<longleftrightarrow> raw_safe (entries_view it) (entries_inner it)"

lemma entries_new_sound:
  assumes "view_sound E view n v"
  shows "\<exists>it. entries_new view v n = Inr it \<and> entries_view it = view \<and> iterator_sound it"
proof -
  from assms obtain L where "overlay_ok E L (view_overlay view)" by (auto simp: view_sound_def)
  from overlay_iter_eq [OF this] obtain items where "overlay_iter (view_overlay view) = Inr items" .
  with assms show ?thesis
    by (auto simp: entries_new_def raw_entries_new_def iterator_sound_def raw_safe_def view_sound_def mult.commute)
qed

lemma verify_pair_safe:
  assumes "view_sound E view n v"
  shows "safe_result E (view_mapping (view_base view)) v (verify_pair E view at v)"
proof -
  let ?x = "view_mapping (view_base view)"
  have ok: "verifier_ok ?x v" "verifier_sound E ?x v" using assms by (simp_all add: view_sound_def verifier_inv_def)
  have "safe_result E ?x v (verify_range E ?x start end v)" for start "end"
  proof -
    from verify_range_result [OF ok, of start "end"] obtain r v' where
      "verify_range E ?x start end v = (r, v')" "verifier_ok ?x v'" "verifier_sound E ?x v'" "same_segment v v'" "no_panic r" .
    then show ?thesis by (simp add: safe_result_def verifier_inv_def)
  qed
  with ok show ?thesis
    by (auto simp: verify_pair_def io_return_def safe_result_def verifier_inv_def split: option.split)
qed

lemma entries_next_sound:
  assumes "view_sound E (entries_view it) n v" and "iterator_sound it" and "entries_next E it v = (r, v')"
  shows "no_panic r" and "view_sound E (entries_view it) n v'"
    and "r = Inr (item, it') \<Longrightarrow> iterator_sound it' \<and> entries_view it' = entries_view it"
proof -
  from assms(1) obtain L where L: "overlay_ok E L (view_overlay (entries_view it))" by (auto simp: view_sound_def)
  note safe = raw_next_safe [OF L assms(2) [unfolded iterator_sound_def], of v]
  have "no_panic r \<and> view_sound E (entries_view it) n v'
    \<and> (r = Inr (item, it') \<longrightarrow> iterator_sound it' \<and> entries_view it' = entries_view it)"
  proof (cases "raw_next E (entries_view it) v (entries_inner it)")
    case (Inl e)
    with safe(1) assms(1,3) show ?thesis by (auto simp: entries_next_def no_panic_def)
  next
    case (Inr x)
    obtain found inner where x: "x = (found, inner)" by fastforce
    have inner: "raw_safe (entries_view it) inner" by (rule safe(2) [OF Inr [unfolded x]])
    show ?thesis
    proof (cases found)
      case None
      with Inr x inner assms(1,3) show ?thesis
        by (auto simp: entries_next_def take_error_def iterator_sound_def raw_safe_def)
    next
      case (Some p)
      obtain key val at where p: "p = (key, val, at)" using prod_cases3 by blast
      obtain c w where c: "verify_pair E (entries_view it) at v = (c, w)" by fastforce
      note checked = view_sound_same [OF assms(1) verify_pair_safe [OF assms(1), of at], unfolded c, simplified]
      with Inr x inner assms(3) c Some p show ?thesis
        by (cases c) (auto simp: entries_next_def iterator_sound_def no_panic_def split: failure.splits)
    qed
  qed
  then show "no_panic r" and "view_sound E (entries_view it) n v'"
    and "r = Inr (item, it') \<Longrightarrow> iterator_sound it' \<and> entries_view it' = entries_view it" by blast+
qed

subsection \<open>Opening any file\<close>

lemma at_file_unmapped:
  assumes at: "at_file s0 img s" and "\<not> (0 < n \<and> offset + n \<le> length img)" and "length img < usize_limit"
  shows "post (load_immutable E offset n) s (\<lambda>r s'. at_file s0 img s' \<and> (\<exists>e. r = Inl (Err e)))"
proof (cases s)
  case (FileStorage f)
  have img: "contents f = img" and step: "file_step s0 (FileStorage f)" using at FileStorage by (simp_all add: at_file_def)
  show ?thesis
  proof (cases "n = 0 \<or> usize_limit \<le> offset + n")
    case True
    then show ?thesis
      using at FileStorage by (auto simp: post_def load_immutable_def segment_map_def io_then_def io_lift_def checked_add_def)
  next
    case False
    show ?thesis
    proof (cases f rule: next_fault_cases)
      case (1 f')
      with False img assms(2) step FileStorage show ?thesis
        by (auto simp: post_def load_immutable_def segment_map_def io_then_def io_lift_def checked_add_def file_len_def file_call_def
            question_def at_file_def file_step_def)
    next
      case (2 e f')
      with False img step FileStorage show ?thesis
        by (auto simp: post_def load_immutable_def segment_map_def io_then_def io_lift_def checked_add_def file_len_def file_call_def
            question_def at_file_def file_step_def)
    qed
  qed
next
  case (MemoryStorage m)
  with at show ?thesis by (auto simp: at_file_def dest: file_step_is_file)
qed

lemma at_file_load_any:
  assumes at: "at_file s0 img s" and lt: "length img < usize_limit"
    and f: "\<And>s'. at_file s0 img s' \<Longrightarrow> 0 < n \<Longrightarrow> offset + n \<le> length img \<Longrightarrow> post (f (Mapped (range_of offset (offset + n) img))) s' Q"
    and bad: "\<And>e s'. at_file s0 img s' \<Longrightarrow> Q (Inl (Err e)) s'"
  shows "post (io_then (load_immutable E offset n) f) s Q"
proof (cases "0 < n \<and> offset + n \<le> length img")
  case True
  then show ?thesis
    by (intro at_file_load [OF at _ _ lt]) (use f bad in \<open>auto simp: broken_def\<close>)
next
  case False
  show ?thesis by (rule post_then [OF at_file_unmapped [OF at False lt]]) (use bad in auto)
qed

lemma read_exact_any:
  assumes "at_file s0 img s" and "read_exact (storage_ops E) n s = (r, s')"
  shows "at_file s0 img s'" and "r = Inr bs \<Longrightarrow> length bs = n"
proof -
  obtain f where f: "s = FileStorage f" using assms(1) by (cases s) (auto simp: at_file_def dest: file_step_is_file)
  have "at_file s0 img s' \<and> (r = Inr bs \<longrightarrow> length bs = n)"
  proof (cases f rule: next_fault_cases)
    case (1 f')
    with assms f show ?thesis
      by (auto simp: storage_ops_def file_read_exact_def file_call_def Let_def at_file_def file_step_def range_of_def split: if_splits)
  next
    case (2 e f')
    with assms f show ?thesis by (auto simp: storage_ops_def file_read_exact_def file_call_def at_file_def file_step_def)
  qed
  then show "at_file s0 img s'" and "r = Inr bs \<Longrightarrow> length bs = n" by simp_all
qed

lemma at_file_seek_any:
  assumes "at_file s0 img s"
  shows "post (question (seek_start (storage_ops E) n)) s (\<lambda>r s'. at_file s0 img s' \<and> no_panic r)"
proof -
  have "\<not> storage_is_memory s" using assms by (auto simp: at_file_def)
  from storage_seek_post [OF this, of E n] show ?thesis
    using assms by (auto simp: post_def at_file_def faulty_def no_panic_def intro: file_step_trans split: prod.splits)
qed

lemma read_pages_any:
  assumes "at_file s0 img s"
  shows "post (read_pages E (storage_ops E) n offsets found) s (\<lambda>r s'. at_file s0 img s' \<and> no_panic r)"
  using assms
proof (induction offsets arbitrary: found s)
  case Nil
  then show ?case by (simp add: post_def io_return_def)
next
  case (Cons offset offsets)
  show ?case
    unfolding read_pages.simps
  proof (rule post_then [OF at_file_seek_any [OF Cons.prems]], goal_cases)
    case (1 x s1)
    obtain r s2 where read: "read_exact (storage_ops E) SUPERBLOCK_SIZE s1 = (r, s2)" by fastforce
    have s2: "at_file s0 img s2" by (rule read_exact_any(1) [OF _ read]) (use 1 in simp)
    show ?case
    proof (cases r)
      case (Inl e)
      with Cons.IH [OF s2, of found] read s2 show ?thesis by (auto simp: post_def)
    next
      case (Inr page)
      have "length page = SUPERBLOCK_SIZE" by (rule read_exact_any(2) [OF _ read Inr]) (use 1 in simp)
      then have np: "no_panic (page_verdict E n page)" by (intro page_verdict_no_panic) simp
      show ?thesis
      proof (cases "page_verdict E n page")
        case bad: (Inl e)
        with np read Inr s2 show ?thesis by (simp add: post_def io_then_def io_lift_def no_panic_def)
      next
        case good: (Inr v)
        with Cons.IH [OF s2, of "update_latest v found"] read Inr show ?thesis by (simp add: post_def io_then_def io_lift_def)
      qed
    qed
  next
    case (2 e s1)
    then show ?case by (simp add: no_panic_def)
  qed
qed

lemma no_panic_Err: "no_panic (Inl e) \<Longrightarrow> \<exists>err. e = Err err"
  by (cases e) (simp_all add: no_panic_Inl)

lemma at_file_latest_any:
  assumes at: "at_file s0 img s" and f: "\<And>sb s'. at_file s0 img s' \<Longrightarrow> post (f sb) s' Q"
    and bad: "\<And>e s'. at_file s0 img s' \<Longrightarrow> Q (Inl (Err e)) s'"
  shows "post (io_then (read_latest_from E (storage_ops E) n) f) s Q"
  unfolding read_latest_from_def io_then_assoc
proof (rule post_then [OF read_pages_any [OF at]], goal_cases)
  case (1 found s')
  show ?case
  proof (cases "latest_result found")
    case (Inl e)
    with no_panic_latest_result [of found] obtain err where "e = Err err" using no_panic_Err by force
    with Inl 1 bad show ?thesis by (simp add: io_lift_fails post_lift)
  next
    case (Inr sb)
    with 1 f show ?thesis by (simp add: io_lift_then)
  qed
next
  case (2 e s')
  then show ?case using bad no_panic_Err [of e] by (auto simp: no_panic_def)
qed

definition base_sound :: "externs \<Rightarrow> active_base \<Rightarrow> bool" where
  "base_sound E base \<longleftrightarrow>
     base_inv E base \<and> (\<exists>layout. segment_layout_of E (deref (active_mapping base)) = Inr layout)
     \<and> (semantically_verified (active_verifier base) \<longrightarrow>
          records_fit (deref (active_mapping base)) (active_len base) (24 + 12 * active_slots base))"

lemma active_open_sound:
  assumes "active_open E mapping sb mode = Inr base"
  shows "base_sound E base" and "active_log_start base = unat (log_start sb)"
proof -
  from assms obtain layout slots len where
    layout: "segment_layout_of E (deref mapping) = Inr layout"
    and full: "mode = Full \<Longrightarrow> validate_base E (layout_data layout) (unat (base_offset sb)) slots len = Inr ()"
    and base: "base = active_new mapping (verifier_new (unat (base_offset sb)) layout (mode = Full)) sb slots len"
    unfolding active_open_def Let_def by (auto simp: result_simps split: if_splits)
  show "active_log_start base = unat (log_start sb)" by (simp add: base active_new_def)
  obtain d where "layout_data layout = take d (deref mapping)" using segment_layout_of_Inr(2) [OF layout] by blast
  with full have "records_fit (deref mapping) len (24 + 12 * slots)" if "mode = Full"
    using that validate_base_fit by auto
  with active_open_inv [OF assms] layout show "base_sound E base"
    by (auto simp: base_sound_def base active_new_def verifier_new_def Let_def)
qed

lemma active_open_no_panic:
  assumes "length (deref mapping) < usize_limit"
  shows "no_panic (active_open E mapping sb mode)"
proof -
  note layout = segment_layout_of_no_panic [OF assms, of E]
  have "no_panic (segment_metadata_checksum E (deref mapping))"
    unfolding segment_metadata_checksum_def using layout by (auto intro!: no_panic_and_then)
  with layout verify_segment_blocks_no_panic read_base_header_no_panic validate_base_no_panic show ?thesis
    unfolding active_open_def Let_def by (auto intro!: no_panic_and_then)
qed

text \<open>What a scan leaves: an index whose records lie in the accepted part of the log.\<close>

definition scan_sound :: "externs \<Rightarrow> bytes \<Rightarrow> nat \<Rightarrow> overlay_scan \<Rightarrow> bool" where
  "scan_sound E log start scan \<longleftrightarrow>
     (\<exists>b table. scan_index scan = MappedOverlay b table [] \<and> mapping_or_empty b = log \<and> overlay_ok E log (MappedOverlay b table [])
        \<and> records_in (take (valid_len scan - start) log) (MappedOverlay b table []))
     \<and> start \<le> valid_len scan \<and> valid_len scan \<le> start + length log"

lemma scan_overlay_no_panic: "length (deref b) < usize_limit \<Longrightarrow> no_panic (scan_overlay E b start)"
  unfolding scan_overlay_def using scan_loop_safe [OF _ recovered_empty, of b 0 E start] by (auto intro!: no_panic_and_then)

lemma scan_overlay_sound:
  assumes "length (deref b) < usize_limit" and "scan_overlay E b start = Inr scan"
  shows "scan_sound E (deref b) start scan"
proof -
  from assms(2) obtain stop where
    loop: "scan_loop E (deref b) start 0 (overlay_mapped (Some b)) 0 = Inr (stop, scan_index scan, scan_memory scan)"
    and len: "valid_len scan = start + stop"
    by (auto simp: scan_overlay_def result_simps)
  have "recovered E b (scan_index scan) (scan_memory scan)" "stop \<le> length (deref b)"
    using scan_loop_safe [OF assms(1) recovered_empty, of 0 E start] loop by auto
  moreover have "records_in (take stop (deref b)) (scan_index scan)"
    by (rule scan_loop_records [OF loop _ assms(1)]) (simp add: overlay_mapped_def)
  ultimately show ?thesis
    by (auto simp: scan_sound_def recovered_def len mapping_or_empty_def simp del: overlay_ok.simps records_in.simps)
qed

lemma scan_sound_empty: "scan_sound E [] start (overlay_scan_empty start)"
  by (simp add: scan_sound_def overlay_scan_empty_def overlay_mapped_def mapping_or_empty_def records_ok_def)

text \<open>The log is cut where the scan stopped, and its mapping replaced by that of the part before.\<close>

lemma scan_sound_replaced:
  assumes "scan_sound E log start scan"
  obtains scan' where "release_mapping scan = Inr scan'" and "valid_len scan' = valid_len scan"
    and "\<And>b'. mapping_or_empty b' = take (valid_len scan - start) log \<Longrightarrow>
      \<exists>scan''. replace_mapping b' scan' = Inr scan'' \<and> (\<exists>L. overlay_ok E L (scan_index scan''))"
proof -
  from assms obtain b table where b: "scan_index scan = MappedOverlay b table []" "mapping_or_empty b = log"
    and ok: "overlay_ok E log (MappedOverlay b table [])"
    and inside: "records_in (take (valid_len scan - start) log) (MappedOverlay b table [])" by (auto simp: scan_sound_def)
  have "overlay_ok E (take (valid_len scan - start) log) (MappedOverlay b' table [])"
    if "mapping_or_empty b' = take (valid_len scan - start) log" for b'
  proof (cases b)
    case None
    with b(2) have "log = []" by (simp add: mapping_or_empty_def)
    with ok None that show ?thesis by (simp add: mapping_or_empty_def)
  next
    case (Some c)
    with b(2) have "log = deref c" by (simp add: mapping_or_empty_def)
    with overlay_ok_shorter(1) [OF ok [unfolded Some], of _ "drop (valid_len scan - start) log"] inside Some that show ?thesis by simp
  qed
  then show thesis
    using b(1) by (intro that [of "scan\<lparr>scan_index := MappedOverlay None table []\<rparr>"])
      (auto simp: release_mapping_def replace_mapping_def simp del: overlay_ok.simps)
qed

definition open_sound :: "externs \<Rightarrow> (active_base \<times> overlay_state) result \<Rightarrow> bool" where
  "open_sound E r \<longleftrightarrow> no_panic r \<and> (\<forall>base overlay. r = Inr (base, overlay) \<longrightarrow>
     base_sound E base \<and> (\<exists>L. overlay_ok E L (overlay_index overlay)))"

lemma open_sound_Err [simp]: "open_sound E (Inl (Err e))"
  by (simp add: open_sound_def)

definition scanned :: "externs \<Rightarrow> (active_base \<times> overlay_scan) result \<Rightarrow> bool" where
  "scanned E r \<longleftrightarrow> no_panic r \<and> (\<forall>base scan. r = Inr (base, scan) \<longrightarrow>
     base_sound E base \<and> (\<exists>L. overlay_ok E L (scan_index scan)))"

lemma scanned_Err [simp]: "scanned E (Inl (Err e))"
  by (simp add: scanned_def)

text \<open>The base of a superblock, mapped and opened.\<close>

lemma at_file_open_any:
  assumes at: "at_file s0 img s" and lt: "length img < usize_limit"
    and f: "\<And>base s'. at_file s0 img s' \<Longrightarrow> base_sound E base \<Longrightarrow> active_log_start base = unat (log_start sb) \<Longrightarrow> post (f base) s' Q"
    and bad: "\<And>e s'. at_file s0 img s' \<Longrightarrow> Q (Inl (Err e)) s'"
  shows "post (io_then (load_immutable E (unat (base_offset sb)) (unat (base_size sb))) (\<lambda>mapping.
    io_then (io_lift (active_open E mapping sb mode)) f)) s Q"
proof (rule at_file_load_any [OF at lt], goal_cases)
  case (1 s')
  let ?m = "Mapped (range_of (unat (base_offset sb)) (unat (base_offset sb) + unat (base_size sb)) img)"
  have "length (deref ?m) < usize_limit" using 1 lt by simp
  note np = active_open_no_panic [OF this, of E sb mode]
  show ?case
  proof (cases "active_open E ?m sb mode")
    case (Inl e)
    with np obtain err where "e = Err err" using no_panic_Err by force
    with Inl 1 bad show ?thesis by (simp add: io_lift_fails post_lift)
  next
    case (Inr base)
    with 1 f active_open_sound [OF Inr] show ?thesis by (simp add: io_lift_then)
  qed
qed (rule bad)

lemma reload_truncated_any:
  assumes at: "at_file s0 img s" and lt: "length img < usize_limit"
    and scan: "scan_sound E (drop (unat (log_start sb)) img) (unat (log_start sb)) scan"
    and short: "valid_len scan < length img"
  shows "post (reload_truncated E options sb scan) s (\<lambda>r s'. \<not> storage_is_memory s' \<and> scanned E r)"
proof -
  let ?ls = "unat (log_start sb)" and ?Q = "\<lambda>r s'. \<not> storage_is_memory s' \<and> scanned E r"
  let ?img = "resized (valid_len scan) img"
  have img: "?img = take (valid_len scan) img" using short by (simp add: resized_take)
  have lt': "length ?img < usize_limit" using lt short img by simp
  have len: "length ?img = valid_len scan" using short img by simp
  have bad: "?Q (Inl (Err e)) s'" if "at_file s0 i s'" for e i s' using that by (auto simp: at_file_def)
  have fault: "?Q (Inl e) s'" if "at_file s0 i s'" "broken s0 e" for e i s' using that by (auto simp: at_file_def broken_def)
  obtain scan' where scan': "release_mapping scan = Inr scan'" "valid_len scan' = valid_len scan"
    and replace: "\<And>b'. mapping_or_empty b' = take (valid_len scan - ?ls) (drop ?ls img) \<Longrightarrow>
      \<exists>scan''. replace_mapping b' scan' = Inr scan'' \<and> (\<exists>L. overlay_ok E L (scan_index scan''))" by (rule scan_sound_replaced [OF scan]) blast
  have finish: "post (io_then (io_lift (replace_mapping b' scan')) (\<lambda>scan. io_return (base, scan))) s' ?Q"
    if "at_file s0 ?img s'" "base_sound E base" "mapping_or_empty b' = drop ?ls ?img" for b' base s'
    using that replace [of b'] by (auto simp: img drop_take io_lift_then post_def io_return_def scanned_def at_file_def)
  show ?thesis
    unfolding reload_truncated_def scan'(1) io_lift_then scan'(2)
  proof (rule at_file_set_len [OF at], goal_cases)
    case (1 s1)
    show ?case
    proof (rule at_file_sync [OF 1], goal_cases)
      case (1 s2)
      show ?case
      proof (rule at_file_open_any [OF 1 lt'], goal_cases)
        case (1 base s3)
        note s3 = 1
        show ?case
        proof (cases "?ls \<le> valid_len scan")
          case False
          with s3 bad show ?thesis by (simp add: checked_sub_def io_lift_fails post_lift)
        next
          case True
          then have sub: "ok_or (Err (invalid_base ''overlay range precedes active Base'')) (checked_sub (valid_len scan) (active_log_start base)) =
              Inr (valid_len scan - ?ls)" using s3(3) by (simp add: checked_sub_def)
          show ?thesis
          proof (cases "valid_len scan = ?ls")
            case True
            with finish [OF s3(1,2), of None] len show ?thesis
              by (simp add: sub s3(3) checked_sub_def io_lift_then io_return_then mapping_or_empty_def)
          next
            case False
            show ?thesis
              unfolding sub io_lift_then
              using False True unfolding s3(3)
              apply (simp add: io_then_assoc io_return_then)
              apply (rule at_file_load_any [OF s3(1) lt'])
              subgoal for s4 using finish [OF _ s3(2)] len by (simp add: mapping_or_empty_def range_of_def)
              subgoal using bad by blast
              done
          qed
        qed
      next
        case (2 e s3)
        then show ?case by (rule bad)
      qed
    next
      case (2 e s2)
      then show ?case by (rule fault)
    qed
  next
    case (2 e s1)
    then show ?case by (rule fault)
  qed
qed

lemma io_then_at: "m s = m' s \<Longrightarrow> io_then m f s = io_then m' f s"
  by (simp add: io_then_def)

lemma post_at: "m s = m' s' \<Longrightarrow> post m' s' Q \<Longrightarrow> post m s Q"
  by (simp add: post_def)

lemma scan_log_any:
  assumes at: "at_file s0 img s" and lt: "length img < usize_limit" and start: "active_log_start base \<le> length img"
    and f: "\<And>scan s'. at_file s0 img s' \<Longrightarrow> scan_sound E (drop (active_log_start base) img) (active_log_start base) scan \<Longrightarrow> post (f scan) s' Q"
    and bad: "\<And>e s'. at_file s0 img s' \<Longrightarrow> Q (Inl (Err e)) s'"
  shows "post (io_then (scan_log E base (length img - active_log_start base)) f) s Q"
proof -
  let ?ls = "active_log_start base"
  have mem: "\<not> storage_is_memory s" using at by (auto simp: at_file_def)
  show ?thesis
  proof (cases "length img = ?ls")
    case True
    then have "scan_log E base (length img - ?ls) s = (Inr (overlay_scan_empty ?ls), s)" by (simp add: scan_log_def)
    then have "io_then (scan_log E base (length img - ?ls)) f s = f (overlay_scan_empty ?ls) s" by (rule io_then_Inr)
    moreover have "post (f (overlay_scan_empty ?ls)) s Q" by (rule f [OF at]) (use True scan_sound_empty in simp)
    ultimately show ?thesis by (rule post_at)
  next
    case False
    let ?m = "Mapped (drop ?ls img)"
    have "scan_log E base (length img - ?ls) s =
        io_then (load_immutable E ?ls (length img - ?ls)) (\<lambda>mapping. io_lift (scan_overlay E mapping ?ls)) s"
      using False start mem by (simp add: scan_log_def)
    then have "io_then (scan_log E base (length img - ?ls)) f s =
        io_then (load_immutable E ?ls (length img - ?ls)) (\<lambda>mapping. io_then (io_lift (scan_overlay E mapping ?ls)) f) s"
      unfolding io_then_assoc [symmetric] by (rule io_then_at)
    moreover have "post (io_then (load_immutable E ?ls (length img - ?ls)) (\<lambda>mapping. io_then (io_lift (scan_overlay E mapping ?ls)) f)) s Q"
    proof (rule at_file_load_any [OF at lt], goal_cases)
      case (1 s')
      have m: "Mapped (range_of ?ls (?ls + (length img - ?ls)) img) = ?m" using start by (simp add: range_of_def)
      have len: "length (deref ?m) < usize_limit" using lt by simp
      show ?case
      proof (cases "scan_overlay E ?m ?ls")
        case (Inl e)
        with scan_overlay_no_panic [OF len, of E ?ls] obtain err where "e = Err err" using no_panic_Err by force
        with bad [OF 1(1)] show ?thesis unfolding m Inl io_lift_fails by (intro post_lift) simp
      next
        case (Inr scan)
        have "post (f scan) s' Q" by (rule f [OF 1(1)]) (use scan_overlay_sound [OF len Inr] in simp)
        then show ?thesis unfolding m Inr io_lift_then .
      qed
    qed (rule bad)
    ultimately show ?thesis by (rule post_at)
  qed
qed

lemma finish_open_any:
  assumes "\<not> storage_is_memory s" and "scanned E (Inr (base, scan))"
  shows "post (io_then (\<lambda>s. (if storage_is_memory s then overlay_state_new overlay_memory
      else Inr (case into_index scan of (index, memory) \<Rightarrow> overlay_state_with_memory index memory), s)) (\<lambda>overlay.
      io_then (question (seek_end (storage_ops E))) (\<lambda>_. io_return (base, overlay)))) s (\<lambda>r s'. open_sound E r)"
proof -
  let ?overlay = "overlay_state_with_memory (scan_index scan) (scan_memory scan)"
  have "overlay_index ?overlay = scan_index scan" by (simp add: overlay_state_with_memory_def)
  then have ready: "open_sound E (Inr (base, ?overlay))" using assms(2) by (simp add: open_sound_def scanned_def)
  have seek: "post (question (seek_end (storage_ops E))) s (\<lambda>r s'. \<forall>e. r = Inl e \<longrightarrow> (\<exists>err. e = Err err))"
    using storage_seek_end_post [OF assms(1), of E] by (rule post_weaken) (auto simp: faulty_def)
  have "post (io_then (question (seek_end (storage_ops E))) (\<lambda>_. io_return (base, ?overlay))) s (\<lambda>r s'. open_sound E r)"
    by (rule post_then [OF seek]) (use ready in \<open>auto intro: post_return\<close>)
  with assms(1) show ?thesis by (simp add: post_def io_then_def into_index_def)
qed

lemma load_storage_state_any:
  assumes at: "at_file s0 img s" and lt: "length img < usize_limit"
  shows "post (load_storage_state E options) s (\<lambda>r s'. open_sound E r)"
proof -
  let ?Q = "\<lambda>r s'. open_sound E r"
  have fault: "?Q (Inl e) s'" if "broken s0 e" for e s' using that by (auto simp: broken_def)
  show ?thesis
    unfolding load_storage_state_def
  proof (rule at_file_len [OF at], goal_cases)
    case (1 s1)
    show ?case
    proof (rule at_file_latest_any [OF 1], goal_cases)
      case (1 sb s2)
      show ?case
      proof (rule at_file_open_any [OF 1 lt], goal_cases)
        case (1 base s3)
        note s3 = 1
        show ?case
        proof (cases "active_log_start base \<le> length img")
          case False
          then show ?thesis by (simp add: checked_sub_def io_lift_fails post_lift)
        next
          case True
          then have sub: "ok_or (Err (invalid_base ''overlay range precedes active Base'')) (checked_sub (length img) (active_log_start base)) =
              Inr (length img - active_log_start base)" by (simp add: checked_sub_def)
          show ?thesis
            unfolding sub io_lift_then
          proof (rule scan_log_any [OF s3(1) lt True], goal_cases)
            case (1 scan s4)
            show ?case
            proof (cases "valid_len scan < length img")
              case True
              have "post (reload_truncated E options sb scan) s4 (\<lambda>r s'. \<not> storage_is_memory s' \<and> scanned E r)"
                by (rule reload_truncated_any [OF 1(1) lt _ True]) (use 1(2) s3(3) in simp)
              then have "post (io_then (reload_truncated E options sb scan) (\<lambda>(base, scan). io_then (\<lambda>s. (if storage_is_memory s
                  then overlay_state_new overlay_memory
                  else Inr (case into_index scan of (index, memory) \<Rightarrow> overlay_state_with_memory index memory), s)) (\<lambda>overlay.
                  io_then (question (seek_end (storage_ops E))) (\<lambda>_. io_return (base, overlay))))) s4 ?Q"
                by (rule post_then) (use finish_open_any in \<open>auto simp: scanned_def open_sound_def no_panic_def split: prod.split\<close>)
              with True show ?thesis by simp
            next
              case False
              have "\<not> storage_is_memory s4" using 1(1) by (auto simp: at_file_def)
              moreover have "scanned E (Inr (base, scan))" using s3(2) 1(2) by (auto simp: scanned_def scan_sound_def simp del: overlay_ok.simps records_in.simps)
              ultimately show ?thesis using finish_open_any False by (simp add: io_return_then)
            qed
          qed simp
        qed
      qed simp
    qed simp
  next
    case (2 e s1)
    then show ?case by (intro fault)
  qed
qed

subsection \<open>The handle\<close>

definition db_sound :: "externs \<Rightarrow> database \<Rightarrow> bool" where
  "db_sound E db \<longleftrightarrow> base_sound E (db_base db) \<and> (\<exists>L. overlay_ok E L (overlay_index (db_overlay db)))"

lemma db_sound_view:
  "db_sound E db \<longleftrightarrow> view_sound E (db_read_view db) (active_len (db_base db)) (active_verifier (db_base db))
    \<and> (\<exists>layout. segment_layout_of E (deref (active_mapping (db_base db))) = Inr layout)"
  by (auto simp: db_sound_def base_sound_def base_inv_def view_sound_def db_read_view_def base_read_view_def)

lemma open_with_options_any:
  assumes "max_database_bytes options < usize_limit"
  shows "no_panic (fst (open_with_options E options (Inr f) None))"
    and "fst (open_with_options E options (Inr f) None) = Inr db \<Longrightarrow> db_sound E db"
proof -
  let ?Q = "\<lambda>r s'. no_panic r \<and> (\<forall>db. r = Inr db \<longrightarrow> db_sound E db)" and ?s = "FileStorage f"
  have at: "at_file ?s (contents f) ?s" by (simp add: at_file_def file_step_refl)
  have bad: "?Q (Inl e) s'" if "broken ?s e" for e s' using that by (auto simp: broken_def)
  have load: "post (io_then (load_storage_state E options) (\<lambda>(base, overlay) s.
      (Inr \<lparr>db_storage = s, db_base = base, db_overlay = overlay, db_options = options, db_snapshots = 0, db_state = Healthy\<rparr>, s))) s' ?Q"
    if "at_file ?s (contents f) s'" "length (contents f) \<le> max_database_bytes options" for s'
    by (rule post_then [OF load_storage_state_any [OF that(1)]])
      (use that(2) assms in \<open>auto simp: post_def open_sound_def db_sound_def no_panic_def split: prod.split\<close>)
  have whole: "post (from_storage E options) s' ?Q"
    if "at_file ?s (contents f) s'" "length (contents f) \<le> max_database_bytes options" for s'
    unfolding from_storage_def
    by (rule at_file_len [OF that(1)]) (use load that(2) bad in \<open>auto simp: not_less\<close>)
  have "post (io_then storage_len (\<lambda>initial_len. if initial_len > max_database_bytes options
      then io_lift (Inl (Err (database_full (max_database_bytes options) initial_len))) else from_storage E options)) ?s ?Q"
    by (rule at_file_len [OF at]) (use whole bad in \<open>auto simp: not_less intro: post_lift\<close>)
  then have "?Q (fst (open_with_options E options (Inr f) None)) ()"
    by (auto simp: open_with_options_def open_database_file_def lock_database_file_def validate_options_def post_def no_panic_def
        split: prod.splits)
  then show "no_panic (fst (open_with_options E options (Inr f) None))"
    and "fst (open_with_options E options (Inr f) None) = Inr db \<Longrightarrow> db_sound E db" by blast+
qed

definition op_safe :: "('s \<Rightarrow> bool) \<Rightarrow> ('s, failure, 'a) io \<Rightarrow> bool" where
  "op_safe I m \<longleftrightarrow> (\<forall>s. I s \<longrightarrow> no_panic (fst (m s)) \<and> I (snd (m s)))"

lemma op_safe_run:
  assumes "op_safe I m" and "I s" and "m s = (r, s')"
  shows "no_panic r" and "I s'"
  using assms by (auto simp: op_safe_def dest!: spec [of _ s])

lemma op_safe_then:
  assumes "op_safe I m" and "\<And>x. op_safe I (f x)"
  shows "op_safe I (io_then m f)"
  unfolding op_safe_def
proof (intro allI impI)
  fix s
  assume "I s"
  obtain r s' where run: "m s = (r, s')" by fastforce
  note first = op_safe_run [OF assms(1) \<open>I s\<close> run]
  show "no_panic (fst (io_then m f s)) \<and> I (snd (io_then m f s))"
  proof (cases r)
    case (Inl e)
    with run first show ?thesis by (simp add: io_then_def no_panic_def)
  next
    case (Inr x)
    obtain r2 s2 where run2: "f x s' = (r2, s2)" by fastforce
    from op_safe_run [OF assms(2) first(2) run2] run Inr run2 show ?thesis by (simp add: io_then_def)
  qed
qed

lemma op_safe_pure: "no_panic r \<Longrightarrow> op_safe I (io_lift r)" "op_safe I (io_return x)"
  by (simp_all add: op_safe_def io_lift_def io_return_def)

lemma op_safe_guarded:
  assumes "op_safe I m" and "\<And>db. no_panic (guard db)"
  shows "op_safe I (guarded guard m)"
  using assms unfolding op_safe_def guarded_def by (auto simp: no_panic_def split: sum.split)

lemma ensure_available_no_panic: "no_panic (ensure_available db)"
  by (simp add: ensure_available_def)

lemma on_db_verifier_sound:
  assumes "db_sound E db" and "on_db_verifier m db = (r, db')"
    and "view_sound E (db_read_view db) (active_len (db_base db)) (snd (m (active_verifier (db_base db))))"
  shows "db_sound E db'" and "r = fst (m (active_verifier (db_base db)))"
proof -
  obtain c w where c: "m (active_verifier (db_base db)) = (c, w)" by fastforce
  with assms(2) have "db' = db\<lparr>db_base := (db_base db)\<lparr>active_verifier := w\<rparr>\<rparr>" "r = c"
    by (auto simp: on_db_verifier_def on_db_base_def)
  with assms(1,3) c show "db_sound E db'" and "r = fst (m (active_verifier (db_base db)))"
    by (simp_all add: db_sound_view db_read_view_def base_read_view_def)
qed

lemma db_get_sound: "op_safe (db_sound E) (db_get E key)"
  unfolding db_get_def
proof (rule op_safe_guarded)
  show "op_safe (db_sound E) (\<lambda>db. on_db_verifier (view_get E (db_read_view db) key) db)"
    unfolding op_safe_def
  proof (intro allI impI)
    fix db
    assume db: "db_sound E db"
    obtain r db' where run: "on_db_verifier (view_get E (db_read_view db) key) db = (r, db')" by fastforce
    note get = view_get_sound [OF db [unfolded db_sound_view, THEN conjunct1], of key]
    from on_db_verifier_sound [OF db run get(2)] get(1) run
    show "no_panic (fst (on_db_verifier (view_get E (db_read_view db) key) db)) \<and> db_sound E (snd (on_db_verifier (view_get E (db_read_view db) key) db))"
      by simp
  qed
qed (rule ensure_available_no_panic)

lemma db_contains_key_sound: "op_safe (db_sound E) (db_contains_key E key)"
  unfolding db_contains_key_def by (intro op_safe_then db_get_sound op_safe_pure)

lemma db_len_sound: "op_safe (db_sound E) (db_len E)"
  unfolding db_len_def
proof (rule op_safe_guarded)
  have "no_panic (fst (raw_len E db))" if "db_sound E db" for db
  proof -
    let ?v = "active_verifier (db_base db)" and ?view = "db_read_view db"
    have view: "view_sound E ?view (active_len (db_base db)) ?v" using that by (simp add: db_sound_view)
    then obtain L where L: "overlay_ok E L (view_overlay ?view)" by (auto simp: view_sound_def)
    from entries_new_sound [OF view] obtain st where "iter_raw db = Inr st" "raw_safe ?view st"
      by (auto simp: entries_new_def iter_raw_def iterator_sound_def result_simps)
    with raw_collect_safe [OF L, of st ?v] show ?thesis
      by (auto simp: raw_len_def intro!: no_panic_and_then split: prod.split option.split)
  qed
  then show "op_safe (db_sound E) (raw_len E)" by (simp add: op_safe_def raw_len_def)
qed (rule ensure_available_no_panic)

lemma verifier_inv_marked [simp]: "verifier_inv E x (mark_semantically_verified v) = verifier_inv E x v"
  by (simp add: verifier_inv_def mark_semantically_verified_def verifier_ok_def verifier_sound_def block_count_def block_bit_def
      block_matches_def unset_blocks_def)

lemma active_verify_sound:
  assumes "base_sound E base"
  shows "no_panic (fst (active_verify E base))" and "base_sound E (snd (active_verify E base))"
proof -
  let ?x = "deref (active_mapping base)" and ?v = "active_verifier base"
  from assms obtain layout where layout: "segment_layout_of E ?x = Inr layout" by (auto simp: base_sound_def)
  have checksum: "segment_metadata_checksum E ?x = Inr (crc32c E (drop (length (layout_data layout)) ?x))"
    by (simp add: segment_metadata_checksum_def layout)
  have ok: "verifier_ok ?x ?v" "verifier_sound E ?x ?v" using assms by (simp_all add: base_sound_def base_inv_def verifier_inv_def)
  from verify_range_result [OF ok, of 0 "length (layout_data layout)"] obtain r w where
    w: "verify_range E ?x 0 (length (layout_data layout)) ?v = (r, w)" "verifier_ok ?x w" "verifier_sound E ?x w" "same_segment ?v w" "no_panic r" .
  have sound: "base_sound E (base\<lparr>active_verifier := w\<rparr>)"
    using assms w by (auto simp: base_sound_def base_inv_def verifier_inv_def same_segment_def)
  obtain d where d: "layout_data layout = take d ?x" using segment_layout_of_Inr(2) [OF layout] by blast
  have marked: "base_sound E (base\<lparr>active_verifier := mark_semantically_verified w\<rparr>)"
    if "validate_base E (layout_data layout) (active_offset base) (active_slots base) (active_len base) = Inr ()"
    using sound validate_base_fit [OF that [unfolded d]]
    by (simp add: base_sound_def base_inv_def)
  note np = validate_base_no_panic [of E "layout_data layout" "active_offset base" "active_slots base" "active_len base"]
  show "no_panic (fst (active_verify E base))"
    using layout checksum w np by (auto simp: active_verify_def Let_def no_panic_def split: sum.split)
  show "base_sound E (snd (active_verify E base))"
    using layout checksum w(1) assms sound marked by (auto simp: active_verify_def Let_def split: sum.split)
qed

lemma db_verify_sound: "op_safe (db_sound E) (db_verify E)"
  unfolding db_verify_def
proof (rule op_safe_guarded)
  show "op_safe (db_sound E) (on_db_base (active_verify E))"
    using active_verify_sound by (auto simp: op_safe_def on_db_base_def db_sound_def case_prod_unfold)
qed (rule ensure_available_no_panic)

subsection \<open>The fuzz target\<close>

text \<open>\<^verbatim>\<open>let _ = black_box(r)\<close>: an error is dropped, a panic is not.\<close>

definition black_box :: "('s, failure, 'a) io \<Rightarrow> ('s, failure, unit) io" where
  "black_box m s =
     (case m s of
        (Inl (Err e), s) \<Rightarrow> (Inr (), s)
      | (Inl e, s) \<Rightarrow> (Inl e, s)
      | (Inr _, s) \<Rightarrow> (Inr (), s))"

fun take_entries :: "externs \<Rightarrow> nat \<Rightarrow> entries \<Rightarrow> (segment_verifier, failure, unit) io" where
  "take_entries E 0 it v = (Inr (), v)"
| "take_entries E (Suc n) it v =
     (case entries_next E it v of
        (Inl e, v) \<Rightarrow> (Inl e, v)
      | (Inr (None, it), v) \<Rightarrow> (Inr (), v)
      | (Inr (Some _, it), v) \<Rightarrow> take_entries E n it v)"

text \<open>A loop over the iterator that goes on after an error ends as well: an error is reported once.\<close>

definition entries_left :: "entries \<Rightarrow> nat" where
  "entries_left it = raw_left (entries_inner it) +
     (if raw_finished (entries_inner it) \<and> raw_pending_error (entries_inner it) = None then 0 else 1)"

lemma raw_base_loop_le: "raw_base_loop E view v trusted n offset = Inr (r, offset', n') \<Longrightarrow> n' \<le> n"
proof (induction n arbitrary: offset trusted)
  case 0
  then show ?case by simp
next
  case (Suc n)
  from Suc.prems show ?case
    by (auto simp: Let_def result_simps split: sum.splits failure.splits if_splits dest!: Suc.IH)
qed

lemma first_live_None: "first_live items = (None, rest) \<Longrightarrow> rest = []"
  by (induction items rule: first_live.induct) auto

lemma raw_next_Some:
  assumes "raw_next E view v st = Inr (Some item, st')"
  shows "\<not> raw_finished st" and "\<not> raw_finished st'"
  using assms unfolding raw_next_def Let_def
  by (auto simp: result_simps split: if_splits sum.splits option.splits prod.splits)

lemma raw_next_None:
  assumes "raw_next E view v st = Inr (None, st')"
  shows "raw_finished st'" and "raw_left st' \<le> raw_left st" and "raw_finished st \<Longrightarrow> st' = st"
  using assms unfolding raw_next_def Let_def raw_left_def
  by (auto simp: result_simps split: if_splits sum.splits option.splits prod.splits dest!: raw_base_loop_le raw_base_loop_end first_live_None)

lemma entries_next_less:
  assumes "entries_next E it v = (Inr (Some x, it'), v')"
  shows "entries_left it' < entries_left it"
proof (cases "raw_next E (entries_view it) v (entries_inner it)")
  case (Inl e)
  with assms show ?thesis by (simp add: entries_next_def)
next
  case (Inr r)
  obtain found inner where r: "r = (found, inner)" by fastforce
  note step = Inr [unfolded r]
  show ?thesis
  proof (cases found)
    case None
    note none = raw_next_None [OF step [unfolded None]]
    from assms step None have "it' = it\<lparr>entries_inner := inner\<lparr>raw_pending_error := None\<rparr>\<rparr>" "raw_pending_error inner \<noteq> None"
      by (auto simp: entries_next_def take_error_def)
    with none show ?thesis by (cases "raw_finished (entries_inner it)") (auto simp: entries_left_def raw_left_def)
  next
    case (Some item)
    note some = raw_next_Some [OF step [unfolded Some]] raw_next_left [OF step [unfolded Some]]
    obtain key val at where item: "item = (key, val, at)" using prod_cases3 by blast
    from assms step Some item have "it' = it\<lparr>entries_inner := inner\<rparr>"
      by (auto simp: entries_next_def split: prod.splits sum.splits failure.splits)
    with some show ?thesis by (simp add: entries_left_def)
  qed
qed

function each_entry :: "externs \<Rightarrow> entries \<Rightarrow> (segment_verifier, failure, unit) io" where
  "each_entry E it v =
     (case entries_next E it v of
        (Inl e, v) \<Rightarrow> (Inl e, v)
      | (Inr (None, it'), v) \<Rightarrow> (Inr (), v)
      | (Inr (Some _, it'), v) \<Rightarrow> each_entry E it' v)"
  by pat_completeness auto
termination
  by (relation "measure (\<lambda>(E, it, v). entries_left it)") (auto dest: entries_next_less [OF sym])

declare each_entry.simps [simp del]

definition exercise_iter :: "externs \<Rightarrow> (database, failure, unit) io" where
  "exercise_iter E db =
     (case db_iter db of
        (Inl (Err e), db) \<Rightarrow> (Inr (), db)
      | (Inl e, db) \<Rightarrow> (Inl e, db)
      | (Inr it, db) \<Rightarrow> on_db_verifier (take_entries E 1024 it) db)"

definition exercise_snapshot :: "externs \<Rightarrow> bytes \<Rightarrow> (database, failure, unit) io" where
  "exercise_snapshot E key db =
     (case db_snapshot db of
        (Inl (Err e), db) \<Rightarrow> (Inr (), db)
      | (Inl e, db) \<Rightarrow> (Inl e, db)
      | (Inr snap, db) \<Rightarrow>
          (case black_box (snap_get E key) snap of
             (Inl e, snap) \<Rightarrow> (Inl e, db)
           | (Inr _, snap) \<Rightarrow>
               (case snap_iter snap of
                  Inl (Err e) \<Rightarrow> (Inr (), drop_snapshot db)
                | Inl e \<Rightarrow> (Inl e, db)
                | Inr it \<Rightarrow> (fst (each_entry E it (snap_verifier snap)), drop_snapshot db))))"

definition exercise :: "externs \<Rightarrow> fault option list \<Rightarrow> bytes \<Rightarrow> verification_mode \<Rightarrow> unit result" where
  "exercise E faults bs mode =
     (case fst (open_with_options E (with_verification mode default_options)
         (Inr \<lparr>contents = bs, file_position = 0, plan = faults\<rparr>) None) of
        Inl (Err e) \<Rightarrow> Inr ()
      | Inl e \<Rightarrow> Inl e
      | Inr db \<Rightarrow>
          let key = take (min (length bs) 64) bs in
          fst (io_then (black_box (db_get E key)) (\<lambda>_.
               io_then (black_box (db_contains_key E key)) (\<lambda>_.
               io_then (black_box (db_len E)) (\<lambda>_.
               io_then (exercise_iter E) (\<lambda>_.
               io_then (exercise_snapshot E key) (\<lambda>_.
               black_box (db_verify E)))))) db))"

fun mutate :: "nat \<Rightarrow> bytes \<Rightarrow> bytes \<Rightarrow> bytes result" where
  "mutate index [] mutated = Inr mutated"
| "mutate index (byte # rest) mutated =
     (if mutated = [] then Inl Panic
      else
        let target = unat (of_nat index * 0x9e3779b9 + ucast byte :: u64) mod length mutated in
        mutate (Suc index) rest (mutated[target := mutated ! target XOR word_rotl (index mod 8) byte]))"

text \<open>The input itself, the seed with bytes changed, and the seed with the input behind it, each opened in both modes.\<close>

definition open_bytes_target :: "externs \<Rightarrow> fault option list \<Rightarrow> bytes \<Rightarrow> bytes \<Rightarrow> unit result" where
  "open_bytes_target E faults seed bs =
     and_then (mutate 0 bs seed) (\<lambda>mutated.
     fold_res (\<lambda>mode _.
       and_then (exercise E faults bs mode) (\<lambda>_.
       and_then (exercise E faults mutated mode) (\<lambda>_.
       exercise E faults (seed @ bs) mode))) [OnRead, Full] ())"

lemma black_box_safe:
  assumes "op_safe I m"
  shows "op_safe I (black_box m)"
  unfolding op_safe_def
proof (intro allI impI)
  fix s
  assume "I s"
  obtain r s' where run: "m s = (r, s')" by fastforce
  note first = op_safe_run [OF assms \<open>I s\<close> run]
  then show "no_panic (fst (black_box m s)) \<and> I (snd (black_box m s))"
    using run by (cases r) (auto simp: black_box_def dest!: no_panic_Err)
qed

lemma take_entries_sound:
  assumes "view_sound E (entries_view it) n v" and "iterator_sound it"
  shows "no_panic (fst (take_entries E k it v)) \<and> view_sound E (entries_view it) n (snd (take_entries E k it v))"
  using assms
proof (induction k arbitrary: it v)
  case 0
  then show ?case by simp
next
  case (Suc k)
  obtain r v' where step: "entries_next E it v = (r, v')" by fastforce
  note sound = entries_next_sound [OF Suc.prems step]
  show ?case
  proof (cases r)
    case (Inl e)
    with sound(1,2) step show ?thesis by (simp add: no_panic_def)
  next
    case (Inr x)
    obtain item it' where x: "x = (item, it')" by fastforce
    with sound(3) Inr have it': "iterator_sound it'" "entries_view it' = entries_view it" by auto
    with Suc.IH [of it' v'] sound(2) step Inr x show ?thesis by (cases item) simp_all
  qed
qed

lemma each_entry_sound:
  assumes "view_sound E (entries_view it) n v" and "iterator_sound it"
  shows "no_panic (fst (each_entry E it v))"
  using assms
proof (induction E it v rule: each_entry.induct)
  case (1 E it v)
  obtain r v' where step: "entries_next E it v = (r, v')" by fastforce
  note sound = entries_next_sound [OF "1.prems" step]
  show ?case
  proof (cases r)
    case (Inl e)
    with sound(1) step show ?thesis by (subst each_entry.simps) (simp add: no_panic_def)
  next
    case (Inr x)
    obtain item it' where x: "x = (item, it')" by fastforce
    with sound(3) Inr have it': "iterator_sound it'" "entries_view it' = entries_view it" by auto
    show ?thesis
    proof (cases item)
      case None
      with step Inr x show ?thesis by (subst each_entry.simps) simp
    next
      case (Some y)
      have "no_panic (fst (each_entry E it' v'))"
        by (rule "1.IH" [OF step [symmetric] Inr x [symmetric] Some]) (use it' sound(2) in simp_all)
      with step Inr x Some show ?thesis by (subst each_entry.simps) simp
    qed
  qed
qed

lemma exercise_iter_sound: "op_safe (db_sound E) (exercise_iter E)"
  unfolding op_safe_def
proof (intro allI impI)
  fix db
  assume db: "db_sound E db"
  note view = db [unfolded db_sound_view, THEN conjunct1]
  show "no_panic (fst (exercise_iter E db)) \<and> db_sound E (snd (exercise_iter E db))"
  proof (cases "ensure_available db")
    case (Inl e)
    with ensure_available_no_panic [of db] obtain err where "e = Err err" using no_panic_Err by force
    with Inl db show ?thesis by (simp add: exercise_iter_def db_iter_def guarded_def)
  next
    case (Inr u)
    from entries_new_sound [OF view] obtain it where it: "entries_new (db_read_view db) (active_verifier (db_base db)) (active_len (db_base db)) = Inr it"
      "entries_view it = db_read_view db" "iterator_sound it" by blast
    obtain r db' where run: "on_db_verifier (take_entries E 1024 it) db = (r, db')" by fastforce
    note taken = take_entries_sound [of E it _ "active_verifier (db_base db)" 1024, unfolded it(2), OF view it(3)]
    from on_db_verifier_sound [OF db run] taken Inr it(1) run show ?thesis
      by (simp add: exercise_iter_def db_iter_def guarded_def)
  qed
qed

lemma exercise_snapshot_sound: "op_safe (db_sound E) (exercise_snapshot E key)"
  unfolding op_safe_def
proof (intro allI impI)
  fix db
  assume db: "db_sound E db"
  note view = db [unfolded db_sound_view, THEN conjunct1]
  show "no_panic (fst (exercise_snapshot E key db)) \<and> db_sound E (snd (exercise_snapshot E key db))"
  proof (cases "ensure_available db")
    case (Inl e)
    with ensure_available_no_panic [of db] obtain err where "e = Err err" using no_panic_Err by force
    with Inl db show ?thesis by (simp add: exercise_snapshot_def db_snapshot_def guarded_def)
  next
    case (Inr u)
    let ?snap = "\<lparr>snap_base = active_mapping (db_base db), snap_verification = verification (db_options db),
        snap_verifier = active_verifier (db_base db), snap_overlay_index = overlay_index (db_overlay db),
        snap_base_offset = active_offset (db_base db), snap_base_slots = active_slots (db_base db), snap_base_len = active_len (db_base db)\<rparr>"
    have snap: "snap_read_view ?snap = db_read_view db" by (simp add: snap_read_view_def db_read_view_def base_read_view_def)
    obtain r w where get: "view_get E (db_read_view db) key (active_verifier (db_base db)) = (r, w)" by fastforce
    note got = view_get_sound [OF view, of key, unfolded get, simplified]
    have box: "black_box (snap_get E key) ?snap = (Inr (), ?snap\<lparr>snap_verifier := w\<rparr>)"
    proof (cases r)
      case (Inl e)
      with got(1) obtain err where "e = Err err" using no_panic_Err by blast
      with Inl get snap show ?thesis by (simp add: black_box_def snap_get_def on_snap_verifier_def)
    next
      case (Inr x)
      with get snap show ?thesis by (simp add: black_box_def snap_get_def on_snap_verifier_def)
    qed
    from entries_new_sound [OF got(2)] obtain it where it: "entries_new (db_read_view db) w (active_len (db_base db)) = Inr it"
      "entries_view it = db_read_view db" "iterator_sound it" by blast
    have iter: "snap_iter (?snap\<lparr>snap_verifier := w\<rparr>) = Inr it"
      using it(1) by (simp add: snap_iter_def snap_read_view_def db_read_view_def base_read_view_def)
    have each: "no_panic (fst (each_entry E it w))"
      by (rule each_entry_sound [of E it "active_len (db_base db)"]) (use it got(2) in simp_all)
    have taken: "db_snapshot db = (Inr ?snap, db\<lparr>db_snapshots := Suc (db_snapshots db)\<rparr>)"
      using Inr by (simp add: db_snapshot_def guarded_def)
    have "exercise_snapshot E key db = (fst (each_entry E it w), drop_snapshot (db\<lparr>db_snapshots := Suc (db_snapshots db)\<rparr>))"
      unfolding exercise_snapshot_def taken prod.case sum.case box iter by simp
    with each db show ?thesis by (simp add: drop_snapshot_def)
  qed
qed

lemma exercise_safe: "no_panic (exercise E faults bs mode)"
proof -
  let ?open = "fst (open_with_options E (with_verification mode default_options) (Inr \<lparr>contents = bs, file_position = 0, plan = faults\<rparr>) None)"
  have limit: "max_database_bytes (with_verification mode default_options) < usize_limit"
    by (simp add: with_verification_def default_options_def usize_limit_def)
  note opened = open_with_options_any [OF limit, of E "\<lparr>contents = bs, file_position = 0, plan = faults\<rparr>"]
  show ?thesis
  proof (cases ?open)
    case (Inl e)
    with opened(1) obtain err where "e = Err err" using no_panic_Err by force
    with Inl show ?thesis by (simp add: exercise_def)
  next
    case (Inr db)
    let ?key = "take (min (length bs) 64) bs"
    have "op_safe (db_sound E) (io_then (black_box (db_get E ?key)) (\<lambda>_. io_then (black_box (db_contains_key E ?key)) (\<lambda>_.
        io_then (black_box (db_len E)) (\<lambda>_. io_then (exercise_iter E) (\<lambda>_. io_then (exercise_snapshot E ?key) (\<lambda>_. black_box (db_verify E)))))))"
      by (intro op_safe_then black_box_safe db_get_sound db_contains_key_sound db_len_sound exercise_iter_sound exercise_snapshot_sound
          db_verify_sound)
    with opened(2) [OF Inr] Inr show ?thesis by (simp add: exercise_def op_safe_def Let_def)
  qed
qed

lemma mutate_length: "mutated \<noteq> [] \<Longrightarrow> \<exists>m. mutate index bs mutated = Inr m"
  by (induction index bs mutated rule: mutate.induct) (simp_all add: Let_def)

text \<open>
  C19. Opening and reading arbitrary bytes never panics. Whatever the bytes of a file are, and whatever calls on it
  fail, opening it in either verification mode returns a handle or an error value, and on every handle that is
  returned the lookups, the length, the loops over its entries and over those of a snapshot, and the complete
  verification each return or report an error; none panics, reads outside its mapping or runs forever. This is what the fuzz target
  tries on its input, on a valid database with bytes changed, and on one with bytes behind it.
\<close>

theorem open_bytes_never_panics:
  assumes "seed \<noteq> []"
  shows "no_panic (open_bytes_target E faults seed bs)"
proof -
  from mutate_length [OF assms] obtain m where "mutate 0 bs seed = Inr m" by blast
  then show ?thesis
    unfolding open_bytes_target_def by (auto intro!: no_panic_and_then exercise_safe)
qed

theorem open_bytes_never_panics_witness:
  "no_panic (open_bytes_target reference_externs [None, Some (Fault 0 (IoError Other ''read''))] [7, 8, 9] [1, 2, 3, 4])"
  using open_bytes_never_panics [of "[7, 8, 9]"] by simp

end
